(* ===== verification/Prelude.thy ===== *)
theory Prelude
  imports Main "HOL-Library.Word" "HOL-Library.AList"
begin

text \<open>
  Shared vocabulary of the development: the fixed-width integers of the C++ code, the
  result type of code that can stop the process (\<open>NS_ASSERT\<close>, \<open>NS_ABORT\<close>,
  undefined behaviour), the two associative containers the code uses
  (\<open>std::unordered_map\<close> and \<open>std::map\<close>) with one interface locale for both, and a
  locale of guarded state machines whose operations keep an invariant.
\<close>

unbundle bit_operations_syntax

subsection \<open>Machine integers and aborts\<close>

type_synonym u8 = "8 word"
type_synonym u16 = "16 word"
type_synonym u32 = "32 word"
type_synonym u64 = "64 word"

text \<open>
  A callback slot of an ns-3 object is either null or holds a binding; the code compares
  bindings only for identity (\<open>Callback::IsEqual\<close>), so a binding is an identifier.
\<close>

type_synonym callback = nat

text \<open>
  The ways in which a modelled operation does not return: a failed
  \<open>NS_ASSERT_MSG\<close> of a debug build, \<open>NS_ABORT_MSG_IF\<close>, signed overflow, a loop
  that does not stop (within the fuel its call site passes), and an exception of the
  standard library that nothing catches.
\<close>

datatype abort = NsAssert string | NsAbort string | SignedOverflow | Diverges | Uncaught string

type_synonym 'a result = "abort + 'a"

fun ok :: "'a result \<Rightarrow> bool" where
  "ok (Inl _) = False"
| "ok (Inr _) = True"

definition ns_assert :: "bool \<Rightarrow> string \<Rightarrow> 'a result \<Rightarrow> 'a result" where
  "ns_assert c msg k = (if c then k else Inl (NsAssert msg))"

lemma ns_assert_simps [simp]:
  "ns_assert True msg k = k"
  "ns_assert False msg k = Inl (NsAssert msg)"
  by (simp_all add: ns_assert_def)

lemma ns_assert_Inr [simp]: "ns_assert c msg k = Inr x \<longleftrightarrow> c \<and> k = Inr x"
  by (simp add: ns_assert_def)

text \<open>\<open>int32_t\<close> arithmetic: the mathematical result, or undefined behaviour.\<close>

definition i32 :: "int \<Rightarrow> int result" where
  "i32 x = (if - (2 ^ 31) \<le> x \<and> x < 2 ^ 31 then Inr x else Inl SignedOverflow)"

text \<open>\<open>uint32_t\<close> counters kept as natural numbers: increment and decrement wrap.\<close>

definition u32_inc :: "nat \<Rightarrow> nat" where
  "u32_inc n = (n + 1) mod 2 ^ 32"

definition u32_dec :: "nat \<Rightarrow> nat" where
  "u32_dec n = (n + (2 ^ 32 - 1)) mod 2 ^ 32"

lemma u32_inc_small: "Suc n < 2 ^ 32 \<Longrightarrow> u32_inc n = Suc n"
  by (simp add: u32_inc_def)

lemma u32_dec_pos: "0 < n \<Longrightarrow> n < 2 ^ 32 \<Longrightarrow> u32_dec n = n - 1"
proof -
  assume n: "0 < n" "n < 2 ^ 32"
  then have "n + (2 ^ 32 - 1) = (n - 1) + 2 ^ 32" by simp
  then have "u32_dec n = (n - 1) mod 2 ^ 32" unfolding u32_dec_def by (metis mod_add_self2)
  with n show ?thesis by simp
qed

text \<open>Sequencing of operations that may stop the process.\<close>

fun and_then :: "'a result \<Rightarrow> ('a \<Rightarrow> 'b result) \<Rightarrow> 'b result" where
  "and_then (Inl e) f = Inl e"
| "and_then (Inr x) f = f x"

lemma and_then_Inr [simp]: "and_then r f = Inr y \<longleftrightarrow> (\<exists>x. r = Inr x \<and> f x = Inr y)"
  by (cases r) auto

named_theorems umap_simps \<open>reading \<open>std::unordered_map\<close> operations through lookup\<close>
named_theorems omap_simps \<open>reading \<open>std::map\<close> operations through lookup\<close>

subsection \<open>Associative containers\<close>

text \<open>
  The interface both containers promise: what a lookup finds after an insertion or an
  erasure, and that the representation invariant is kept.
\<close>

locale keyed_store =
  fixes find :: "'m \<Rightarrow> 'k \<Rightarrow> 'v option"
    and put :: "'k \<Rightarrow> 'v \<Rightarrow> 'm \<Rightarrow> 'm"
    and erase :: "'k \<Rightarrow> 'm \<Rightarrow> 'm"
    and size_of :: "'m \<Rightarrow> nat"
    and invar :: "'m \<Rightarrow> bool"
  assumes find_put: "invar m \<Longrightarrow> find (put k v m) = (find m)(k \<mapsto> v)"
    and find_erase: "invar m \<Longrightarrow> find (erase k m) = (find m)(k := None)"
    and size_card: "invar m \<Longrightarrow> size_of m = card (dom (find m))"
    and finite_store: "invar m \<Longrightarrow> finite (dom (find m))"
    and invar_put: "invar m \<Longrightarrow> invar (put k v m)"
    and invar_erase: "invar m \<Longrightarrow> invar (erase k m)"
begin

lemma size_put:
  "invar m \<Longrightarrow> size_of (put k v m) = (if find m k = None then Suc (size_of m) else size_of m)"
  by (auto simp: size_card find_put invar_put finite_store domIff insert_absorb)

lemma size_erase:
  assumes "invar m"
  shows "size_of (erase k m) = (if find m k = None then size_of m else size_of m - 1)"
proof -
  have "dom (find (erase k m)) = dom (find m) - {k}"
    using assms by (auto simp: find_erase split: if_splits)
  then show ?thesis
    using assms by (auto simp: size_card invar_erase finite_store domIff)
qed

lemma find_put_erase: "invar m \<Longrightarrow> find (put k v (erase k m)) = find (put k v m)"
  by (simp add: find_put find_erase invar_erase)

lemma size_put_le: "invar m \<Longrightarrow> size_of (put k v m) \<le> Suc (size_of m)"
  by (simp add: size_put)

lemma size_erase_le: "invar m \<Longrightarrow> size_of (erase k m) \<le> size_of m"
  by (simp add: size_erase)

lemma size_put_erase:
  "invar m \<Longrightarrow> size_of (put k v (erase k m)) = Suc (size_of (erase k m))"
  by (simp add: size_put invar_erase find_erase)

end

text \<open>
  \<open>std::unordered_map\<close> is an association list whose order is the iteration order. The
  standard leaves that order open; the model fixes where a new key goes and every lemma
  is about all lists, so about all orders an existing table can have.
\<close>

type_synonym ('k, 'v) umap = "('k \<times> 'v) list"

definition umap_wf :: "('k, 'v) umap \<Rightarrow> bool" where
  "umap_wf m = distinct (map fst m)"

definition umap_find :: "('k, 'v) umap \<Rightarrow> 'k \<Rightarrow> 'v option" where
  "umap_find m = map_of m"

definition umap_put :: "'k \<Rightarrow> 'v \<Rightarrow> ('k, 'v) umap \<Rightarrow> ('k, 'v) umap" where
  "umap_put k v m = AList.update k v m"

definition umap_erase :: "'k \<Rightarrow> ('k, 'v) umap \<Rightarrow> ('k, 'v) umap" where
  "umap_erase k m = filter (\<lambda>e. fst e \<noteq> k) m"

lemma umap_find_erase: "umap_find (umap_erase k m) = (umap_find m)(k := None)"
  by (induction m) (auto simp: umap_find_def umap_erase_def fun_eq_iff)

interpretation ust: keyed_store umap_find umap_put umap_erase length umap_wf
proof
  fix m :: "('a, 'b) umap" and k v
  assume wf: "umap_wf m"
  show "umap_find (umap_put k v m) = (umap_find m)(k \<mapsto> v)"
    by (simp add: umap_find_def umap_put_def update_conv' fun_eq_iff)
  show "umap_find (umap_erase k m) = (umap_find m)(k := None)"
    by (rule umap_find_erase)
  show "length m = card (dom (umap_find m))"
    using wf distinct_card [of "map fst m"]
    by (simp add: umap_find_def umap_wf_def dom_map_of_conv_image_fst)
  show "finite (dom (umap_find m))"
    by (simp add: umap_find_def finite_dom_map_of)
  show "umap_wf (umap_put k v m)"
    using wf by (simp add: umap_wf_def umap_put_def distinct_update)
  show "umap_wf (umap_erase k m)"
    using wf by (simp add: umap_wf_def umap_erase_def distinct_map_filter)
qed

declare ust.find_put [umap_simps] ust.find_erase [umap_simps]
  ust.invar_put [umap_simps] ust.invar_erase [umap_simps]

lemma umap_wf_Nil [simp]: "umap_wf []"
  by (simp add: umap_wf_def)

lemma umap_find_Nil [simp]: "umap_find [] k = None"
  by (simp add: umap_find_def)

lemma umap_find_put [simp]: "umap_find (umap_put k v m) k' = (if k' = k then Some v else umap_find m k')"
  by (simp add: umap_find_def umap_put_def update_conv')

lemma umap_find_erase' [simp]: "umap_find (umap_erase k m) k' = (if k' = k then None else umap_find m k')"
  by (simp add: umap_find_erase)

lemma umap_mem_iff: "umap_wf m \<Longrightarrow> (k, v) \<in> set m \<longleftrightarrow> umap_find m k = Some v"
  by (simp add: umap_wf_def umap_find_def)

lemma umap_find_in_keys: "umap_find m k \<noteq> None \<longleftrightarrow> k \<in> fst ` set m"
  by (simp add: umap_find_def map_of_eq_None_iff)

subsection \<open>\<open>std::map\<close> and \<open>std::set\<close>\<close>

text \<open>
  The ordered containers iterate in ascending key order, and \<open>begin()\<close> is the least key:
  a strictly ascending association list. A \<open>std::set\<close> is the list of its elements,
  ascending.
\<close>

type_synonym ('k, 'v) omap = "('k \<times> 'v) list"

definition omap_wf :: "('k::linorder, 'v) omap \<Rightarrow> bool" where
  "omap_wf m = sorted_wrt (<) (map fst m)"

definition omap_find :: "('k::linorder, 'v) omap \<Rightarrow> 'k \<Rightarrow> 'v option" where
  "omap_find m = map_of m"

fun omap_put :: "'k::linorder \<Rightarrow> 'v \<Rightarrow> ('k, 'v) omap \<Rightarrow> ('k, 'v) omap" where
  "omap_put k v [] = [(k, v)]"
| "omap_put k v ((k', v') # m) =
     (if k < k' then (k, v) # (k', v') # m
      else if k = k' then (k, v) # m
      else (k', v') # omap_put k v m)"

definition omap_erase :: "'k::linorder \<Rightarrow> ('k, 'v) omap \<Rightarrow> ('k, 'v) omap" where
  "omap_erase k m = filter (\<lambda>e. fst e \<noteq> k) m"

lemma omap_find_put: "omap_find (omap_put k v m) = (omap_find m)(k \<mapsto> v)"
  by (induction k v m rule: omap_put.induct) (auto simp: omap_find_def fun_eq_iff)

lemma omap_find_erase: "omap_find (omap_erase k m) = (omap_find m)(k := None)"
  by (induction m) (auto simp: omap_find_def omap_erase_def fun_eq_iff)

lemma set_omap_put: "fst ` set (omap_put k v m) = insert k (fst ` set m)"
  by (induction k v m rule: omap_put.induct) auto

lemma omap_wf_put: "omap_wf m \<Longrightarrow> omap_wf (omap_put k v m)"
proof (induction k v m rule: omap_put.induct)
  case (2 k v k' v' m)
  then show ?case
    using set_omap_put [of k v m] by (fastforce simp: omap_wf_def)
qed (simp add: omap_wf_def)

lemma omap_wf_filter: "omap_wf m \<Longrightarrow> omap_wf (filter P m)"
  by (induction m) (auto simp: omap_wf_def)

lemma omap_wf_distinct: "omap_wf m \<Longrightarrow> distinct (map fst m)"
  by (simp add: omap_wf_def strict_sorted_iff)

lemma omap_find_in_keys: "omap_find m k \<noteq> None \<longleftrightarrow> k \<in> fst ` set m"
  by (simp add: omap_find_def map_of_eq_None_iff)

lemma omap_mem_iff: "omap_wf m \<Longrightarrow> (k, v) \<in> set m \<longleftrightarrow> omap_find m k = Some v"
  by (simp add: omap_wf_distinct omap_find_def)

interpretation ost: keyed_store
  "omap_find :: ('k::linorder, 'v) omap \<Rightarrow> _" omap_put omap_erase length omap_wf
proof
  fix m :: "('k::linorder, 'v) omap" and k v
  assume wf: "omap_wf m"
  show "omap_find (omap_put k v m) = (omap_find m)(k \<mapsto> v)"
    by (rule omap_find_put)
  show "omap_find (omap_erase k m) = (omap_find m)(k := None)"
    by (rule omap_find_erase)
  show "length m = card (dom (omap_find m))"
    using distinct_card [OF omap_wf_distinct [OF wf]]
    by (simp add: omap_find_def dom_map_of_conv_image_fst)
  show "finite (dom (omap_find m))"
    by (simp add: omap_find_def finite_dom_map_of)
  show "omap_wf (omap_put k v m)"
    using wf by (rule omap_wf_put)
  show "omap_wf (omap_erase k m)"
    using wf by (simp add: omap_erase_def omap_wf_filter)
qed

lemma omap_wf_Nil [simp]: "omap_wf []"
  by (simp add: omap_wf_def)

lemma omap_find_Nil [simp]: "omap_find [] k = None"
  by (simp add: omap_find_def)

lemma omap_find_Cons [simp]: "omap_find ((k, v) # m) k' = (if k' = k then Some v else omap_find m k')"
  by (simp add: omap_find_def)

lemma omap_wf_Cons [simp]: "omap_wf ((k, v) # m) \<longleftrightarrow> (\<forall>k' \<in> fst ` set m. k < k') \<and> omap_wf m"
  by (simp add: omap_wf_def)

lemma omap_put_existing:
  "omap_wf m \<Longrightarrow> omap_find m k \<noteq> None \<Longrightarrow>
   omap_put k v m = map (\<lambda>(k', v'). if k' = k then (k, v) else (k', v')) m"
proof (induction k v m rule: omap_put.induct)
  case (2 k v k' v' m)
  show ?case
  proof (cases "k = k'")
    case True
    then have "map (\<lambda>(k', v'). if k' = k then (k, v) else (k', v')) m = m"
      using "2.prems"(1) by (intro map_idI) force
    with True show ?thesis by simp
  next
    case False
    with "2.prems"(2) have "k \<in> fst ` set m"
      using omap_find_in_keys [of m k] by simp
    with False "2.prems" "2.IH" show ?thesis by (auto dest: less_asym)
  qed
qed simp

lemma omap_find_filter: "P k \<Longrightarrow> omap_find (filter (\<lambda>e. P (fst e)) m) k = omap_find m k"
  by (induction m) (auto simp: omap_find_def)

fun oset_insert :: "'k::linorder \<Rightarrow> 'k list \<Rightarrow> 'k list" where
  "oset_insert k [] = [k]"
| "oset_insert k (k' # s) =
     (if k < k' then k # k' # s else if k = k' then k' # s else k' # oset_insert k s)"

definition oset_wf :: "'k::linorder list \<Rightarrow> bool" where
  "oset_wf s = sorted_wrt (<) s"

lemma set_oset_insert [simp]: "set (oset_insert k s) = insert k (set s)"
  by (induction k s rule: oset_insert.induct) auto

lemma oset_wf_insert: "oset_wf s \<Longrightarrow> oset_wf (oset_insert k s)"
  by (induction k s rule: oset_insert.induct) (auto simp: oset_wf_def)

text \<open>
  \<open>while (!c.empty() && *c.begin() < bound) c.erase(c.begin())\<close>: on a well-formed
  container this removes exactly the keys below the bound.
\<close>

lemma dropWhile_below_omap:
  "omap_wf m \<Longrightarrow> dropWhile (\<lambda>e. fst e < b) m = filter (\<lambda>e. \<not> fst e < b) m"
proof (induction m)
  case (Cons e m)
  show ?case
  proof (cases "fst e < b")
    case False
    then have "\<forall>e' \<in> set m. \<not> fst e' < b"
      using Cons.prems by (cases e) (force dest: less_trans)
    with False show ?thesis by (simp add: filter_id_conv)
  qed (use Cons in \<open>cases e, simp\<close>)
qed simp

lemma dropWhile_below_oset:
  "oset_wf s \<Longrightarrow> dropWhile (\<lambda>k. k < b) s = filter (\<lambda>k. \<not> k < b) s"
proof (induction s)
  case (Cons k s)
  show ?case
  proof (cases "k < b")
    case False
    then have "\<forall>k' \<in> set s. \<not> k' < b"
      using Cons.prems by (auto simp: oset_wf_def dest: less_trans)
    with False show ?thesis by (simp add: filter_id_conv)
  qed (use Cons in \<open>simp add: oset_wf_def\<close>)
qed simp

lemma oset_wf_filter: "oset_wf s \<Longrightarrow> oset_wf (filter P s)"
  by (induction s) (auto simp: oset_wf_def)

subsection \<open>Guarded state machines\<close>

text \<open>
  A component with state is a step function over its operations, which may abort. A run
  stops at the first abort, as the process would.
\<close>

fun run_ops :: "('s \<Rightarrow> 'op \<Rightarrow> 's result) \<Rightarrow> 's \<Rightarrow> 'op list \<Rightarrow> 's result" where
  "run_ops step s [] = Inr s"
| "run_ops step s (x # xs) =
     (case step s x of Inl e \<Rightarrow> Inl e | Inr s' \<Rightarrow> run_ops step s' xs)"

text \<open>The precondition of every operation holds in the state it is applied to.\<close>

fun admissible :: "('s \<Rightarrow> 'op \<Rightarrow> 's result) \<Rightarrow> ('s \<Rightarrow> 'op \<Rightarrow> bool) \<Rightarrow> 's \<Rightarrow> 'op list \<Rightarrow> bool" where
  "admissible step pre s [] = True"
| "admissible step pre s (x # xs) =
     (pre s x \<and> (case step s x of Inl e \<Rightarrow> True | Inr s' \<Rightarrow> admissible step pre s' xs))"

locale guarded_machine =
  fixes step :: "'s \<Rightarrow> 'op \<Rightarrow> 's result"
    and inv :: "'s \<Rightarrow> bool"
    and pre :: "'s \<Rightarrow> 'op \<Rightarrow> bool"
  assumes step_progress: "inv s \<Longrightarrow> pre s x \<Longrightarrow> \<exists>s'. step s x = Inr s' \<and> inv s'"
begin

lemma run_progress:
  "inv s \<Longrightarrow> admissible step pre s xs \<Longrightarrow> \<exists>s'. run_ops step s xs = Inr s' \<and> inv s'"
proof (induction xs arbitrary: s)
  case (Cons x xs)
  then obtain s' where "step s x = Inr s'" "inv s'"
    using step_progress by (metis admissible.simps(2))
  with Cons show ?case by simp
qed simp

lemma run_inv: "inv s \<Longrightarrow> admissible step pre s xs \<Longrightarrow> run_ops step s xs = Inr s' \<Longrightarrow> inv s'"
  using run_progress by fastforce

lemma run_no_abort: "inv s \<Longrightarrow> admissible step pre s xs \<Longrightarrow> ok (run_ops step s xs)"
  using run_progress by fastforce

end

text \<open>
  The weaker contract of a component that may abort on a bad call: whatever returns keeps
  the invariant. A guarded machine satisfies it.
\<close>

locale invariant_machine =
  fixes step :: "'s \<Rightarrow> 'op \<Rightarrow> 's result"
    and inv :: "'s \<Rightarrow> bool"
    and pre :: "'s \<Rightarrow> 'op \<Rightarrow> bool"
  assumes step_keeps: "inv s \<Longrightarrow> pre s x \<Longrightarrow> step s x = Inr s' \<Longrightarrow> inv s'"
begin

lemma run_keeps:
  "inv s \<Longrightarrow> admissible step pre s xs \<Longrightarrow> run_ops step s xs = Inr s' \<Longrightarrow> inv s'"
proof (induction xs arbitrary: s)
  case (Cons x xs)
  then obtain s1 where "step s x = Inr s1" by (auto split: sum.splits)
  with Cons step_keeps show ?case by auto
qed simp

end

sublocale guarded_machine \<subseteq> kept: invariant_machine step inv pre
  by unfold_locales (use step_progress in fastforce)

lemma run_ops_append:
  "run_ops step s (xs @ ys) =
     (case run_ops step s xs of Inl e \<Rightarrow> Inl e | Inr s' \<Rightarrow> run_ops step s' ys)"
  by (induction xs arbitrary: s) (auto split: sum.splits)

end
