(* ===== verification/CreditManager.thy ===== *)
theory CreditManager
  imports Prelude
begin

text \<open>
  Per-virtual-channel credit flow control (\<open>credit-manager.h\<close>, \<open>credit-manager.cc\<close>).
  The manager keeps, per VC, the available, total and pending credits. The debug-build
  assertions of the code are branches of the model; the theorems show that they never
  fire, that the window is conserved, and that each operation refines an abstract
  sliding window that only counts what is outstanding.
\<close>

subsection \<open>State\<close>

record VcCreditInfo =
  availableCredits :: u32
  totalCredits :: u32
  pendingCredits :: u32

record CreditManager =
  m_vcCredits :: "(u8, VcCreditInfo) umap"
  m_creditAvailableCallback :: "callback option"
  m_maxVcs :: u8

text \<open>What an operation lets the outside see: the trace source and the callback.\<close>

datatype credit_event = CreditChange u8 u32 u32 | CreditAvailable callback u8

subsection \<open>Operations\<close>

definition CreditManager_new :: CreditManager where
  "CreditManager_new = \<lparr>m_vcCredits = [], m_creditAvailableCallback = None, m_maxVcs = 8\<rparr>"

definition CreditManager_DoDispose :: "CreditManager \<Rightarrow> CreditManager" where
  "CreditManager_DoDispose cm = cm\<lparr>m_vcCredits := []\<rparr>"

definition InitializeVc :: "CreditManager \<Rightarrow> u8 \<Rightarrow> u32 \<Rightarrow> CreditManager" where
  "InitializeVc cm vcId numCredits =
     (let info = \<lparr>availableCredits = numCredits, totalCredits = numCredits, pendingCredits = 0\<rparr>
      in cm\<lparr>m_vcCredits := umap_put vcId info (m_vcCredits cm)\<rparr>)"

definition HasCredits :: "CreditManager \<Rightarrow> u8 \<Rightarrow> bool" where
  "HasCredits cm vcId =
     (case umap_find (m_vcCredits cm) vcId of
        None \<Rightarrow> False
      | Some info \<Rightarrow> availableCredits info > 0)"

definition GetAvailableCredits :: "CreditManager \<Rightarrow> u8 \<Rightarrow> u32" where
  "GetAvailableCredits cm vcId =
     (case umap_find (m_vcCredits cm) vcId of
        None \<Rightarrow> 0
      | Some info \<Rightarrow> availableCredits info)"

definition ConsumeCredit ::
  "CreditManager \<Rightarrow> u8 \<Rightarrow> u32 \<Rightarrow> (CreditManager \<times> credit_event list \<times> bool) result" where
  "ConsumeCredit cm vcId seqNum =
     (case umap_find (m_vcCredits cm) vcId of
        None \<Rightarrow> Inr (cm, [], False)
      | Some info \<Rightarrow>
          if availableCredits info = 0 then Inr (cm, [], False)
          else ns_assert (availableCredits info > 0) ''ConsumeCredit called with zero available credits''
            (let oldCredits = availableCredits info;
                 info' = info\<lparr>availableCredits := availableCredits info - 1,
                              pendingCredits := pendingCredits info + 1\<rparr>;
                 cm' = cm\<lparr>m_vcCredits := umap_put vcId info' (m_vcCredits cm)\<rparr>
             in ns_assert (availableCredits info' + pendingCredits info' = totalCredits info')
                  ''Credit invariant violated''
                (ns_assert (pendingCredits info' \<le> totalCredits info')
                   ''Pending credits exceed total''
                   (Inr (cm', [CreditChange vcId oldCredits (availableCredits info')], True)))))"

definition ReturnCredits ::
  "CreditManager \<Rightarrow> u8 \<Rightarrow> u32 \<Rightarrow> (CreditManager \<times> credit_event list) result" where
  "ReturnCredits cm vcId numCredits =
     (case umap_find (m_vcCredits cm) vcId of
        None \<Rightarrow> Inr (cm, [])
      | Some info \<Rightarrow>
          ns_assert (numCredits > 0) ''ReturnCredits called with zero credits''
            (let oldCredits = availableCredits info;
                 added = availableCredits info + numCredits;
                 capped = (if added > totalCredits info then totalCredits info else added);
                 pending = (if pendingCredits info \<ge> numCredits
                            then pendingCredits info - numCredits else 0);
                 info' = info\<lparr>availableCredits := capped, pendingCredits := pending\<rparr>;
                 cm' = cm\<lparr>m_vcCredits := umap_put vcId info' (m_vcCredits cm)\<rparr>;
                 notify = (if oldCredits = 0 \<and> capped > 0
                           then case m_creditAvailableCallback cm of
                                  None \<Rightarrow> [] | Some cb \<Rightarrow> [CreditAvailable cb vcId]
                           else [])
             in ns_assert (availableCredits info' + pendingCredits info' = totalCredits info')
                  ''Credit invariant violated after ReturnCredits''
                (ns_assert (pendingCredits info' \<le> totalCredits info')
                   ''Pending credits exceed total after ReturnCredits''
                   (Inr (cm', CreditChange vcId oldCredits capped # notify)))))"

definition SetTotalCredits :: "CreditManager \<Rightarrow> u8 \<Rightarrow> u32 \<Rightarrow> CreditManager result" where
  "SetTotalCredits cm vcId credits =
     (case umap_find (m_vcCredits cm) vcId of
        None \<Rightarrow> Inr (InitializeVc cm vcId credits)
      | Some info \<Rightarrow>
          (case i32 (sint credits - sint (totalCredits info)) of
             Inl e \<Rightarrow> Inl e
           | Inr diff \<Rightarrow>
               (case i32 (sint (availableCredits info) + diff) of
                  Inl e \<Rightarrow> Inl e
                | Inr moved \<Rightarrow>
                    (let available = (word_of_int moved :: u32);
                         capped = (if available > credits then credits else available);
                         info' = (if pendingCredits info > credits
                                  then \<lparr>availableCredits = 0, totalCredits = credits,
                                        pendingCredits = credits\<rparr>
                                  else \<lparr>availableCredits = capped, totalCredits = credits,
                                        pendingCredits = pendingCredits info\<rparr>)
                     in Inr (cm\<lparr>m_vcCredits := umap_put vcId info' (m_vcCredits cm)\<rparr>)))))"

definition GetNumVcs :: "CreditManager \<Rightarrow> u32" where
  "GetNumVcs cm = of_nat (length (m_vcCredits cm))"

definition SetCreditAvailableCallback :: "CreditManager \<Rightarrow> callback option \<Rightarrow> CreditManager" where
  "SetCreditAvailableCallback cm cb = cm\<lparr>m_creditAvailableCallback := cb\<rparr>"

definition GetCreditAvailableCallback :: "CreditManager \<Rightarrow> callback option" where
  "GetCreditAvailableCallback cm = m_creditAvailableCallback cm"

definition CreditManager_DetachFromEndpoint ::
  "CreditManager \<Rightarrow> callback option \<Rightarrow> CreditManager" where
  "CreditManager_DetachFromEndpoint cm owner =
     (case owner of
        Some ow \<Rightarrow>
          (case m_creditAvailableCallback cm of
             None \<Rightarrow> cm
           | Some cb \<Rightarrow> if cb = ow then cm\<lparr>m_creditAvailableCallback := None\<rparr> else cm)
      | None \<Rightarrow> cm\<lparr>m_creditAvailableCallback := None\<rparr>)"

subsection \<open>Invariant and abstraction\<close>

text \<open>Available and pending credits partition the total, as natural numbers.\<close>

definition vc_inv :: "VcCreditInfo \<Rightarrow> bool" where
  "vc_inv info = (unat (availableCredits info) + unat (pendingCredits info)
                  = unat (totalCredits info))"

definition credit_inv :: "CreditManager \<Rightarrow> bool" where
  "credit_inv cm = (umap_wf (m_vcCredits cm) \<and> (\<forall>e \<in> set (m_vcCredits cm). vc_inv (snd e)))"

text \<open>The abstract window of a VC: its capacity and what is outstanding.\<close>

record window =
  capacity :: nat
  inflight :: nat

definition window_of :: "CreditManager \<Rightarrow> u8 \<Rightarrow> window option" where
  "window_of cm vcId =
     map_option (\<lambda>info. \<lparr>capacity = unat (totalCredits info), inflight = unat (pendingCredits info)\<rparr>)
       (umap_find (m_vcCredits cm) vcId)"

definition win_consume :: "window \<Rightarrow> window \<times> bool" where
  "win_consume w = (if inflight w < capacity w then (w\<lparr>inflight := Suc (inflight w)\<rparr>, True)
                    else (w, False))"

definition win_return :: "nat \<Rightarrow> window \<Rightarrow> window" where
  "win_return n w = w\<lparr>inflight := inflight w - n\<rparr>"

definition win_resize :: "nat \<Rightarrow> window \<Rightarrow> window" where
  "win_resize t w = \<lparr>capacity = t, inflight = min (inflight w) t\<rparr>"

text \<open>
  \<open>ReturnCredits\<close> adds before it caps: the sum must not pass \<open>UINT32_MAX\<close>.
\<close>

definition return_pre :: "CreditManager \<Rightarrow> u8 \<Rightarrow> u32 \<Rightarrow> bool" where
  "return_pre cm vcId n =
     (case umap_find (m_vcCredits cm) vcId of
        None \<Rightarrow> True
      | Some info \<Rightarrow> n > 0 \<and> unat (availableCredits info) + unat n < 2 ^ 32)"

text \<open>The casts of \<open>SetTotalCredits\<close> to \<open>int32_t\<close> are exact below \<open>2 ^ 31\<close>.\<close>

definition resize_pre :: "CreditManager \<Rightarrow> u8 \<Rightarrow> u32 \<Rightarrow> bool" where
  "resize_pre cm vcId t =
     (case umap_find (m_vcCredits cm) vcId of
        None \<Rightarrow> True
      | Some info \<Rightarrow> unat t < 2 ^ 31 \<and> unat (totalCredits info) < 2 ^ 31)"

subsection \<open>Word-level facts\<close>

lemma unat_dec: "(x :: u32) \<noteq> 0 \<Longrightarrow> unat (x - 1) = unat x - 1"
  by (simp add: unat_minus_one)

lemma unat_inc: "unat (x :: u32) < 2 ^ 32 - 1 \<Longrightarrow> unat (x + 1) = unat x + 1"
  by (simp add: unat_word_ariths)

lemma unat_plus_small:
  "unat (x :: u32) + unat y < 2 ^ 32 \<Longrightarrow> unat (x + y) = unat x + unat y"
  by (simp add: unat_word_ariths)

lemma sint_small: "unat (x :: u32) < 2 ^ 31 \<Longrightarrow> sint x = int (unat x)"
proof -
  assume "unat x < 2 ^ 31"
  then have "int (unat x) < int (2 ^ 31)" by (simp only: of_nat_less_iff)
  then have "uint x < 2 ^ 31" by simp
  moreover have "- (2 ^ 31) \<le> uint x" by (rule order_trans [OF _ uint_ge_0]) simp
  ultimately have "signed_take_bit 31 (uint x) = uint x"
    by (intro signed_take_bit_int_eq_self)
  then show ?thesis by (simp add: sint_uint)
qed

lemma vc_inv_consume:
  assumes "vc_inv info" and "availableCredits info \<noteq> 0"
  shows "unat (availableCredits info - 1) = unat (availableCredits info) - 1"
    and "unat (pendingCredits info + 1) = unat (pendingCredits info) + 1"
    and "unat (pendingCredits info) < unat (totalCredits info)"
    and "availableCredits info > 0"
proof -
  have pos: "0 < unat (availableCredits info)"
    using assms(2) by (simp add: unat_gt_0)
  then show lt: "unat (pendingCredits info) < unat (totalCredits info)"
    using assms(1) by (simp add: vc_inv_def)
  have "unat (totalCredits info) < 2 ^ 32"
    using unsigned_less [of "totalCredits info", where ?'a = nat] by simp
  with lt show "unat (pendingCredits info + 1) = unat (pendingCredits info) + 1"
    by (intro unat_inc) simp
  show "unat (availableCredits info - 1) = unat (availableCredits info) - 1"
    using assms(2) by (rule unat_dec)
  show "availableCredits info > 0"
    using assms(2) by (simp add: word_gt_0)
qed

lemma vc_inv_return:
  assumes inv: "vc_inv info" and room: "unat (availableCredits info) + unat n < 2 ^ 32"
  defines "added \<equiv> availableCredits info + n"
  defines "capped \<equiv> (if added > totalCredits info then totalCredits info else added)"
  defines "pend \<equiv> (if pendingCredits info \<ge> n then pendingCredits info - n else 0)"
  shows "unat pend = unat (pendingCredits info) - unat n"
    and "unat capped = unat (totalCredits info) - unat pend"
    and "unat pend \<le> unat (totalCredits info)"
proof -
  have add: "unat added = unat (availableCredits info) + unat n"
    unfolding added_def using room by (rule unat_plus_small)
  show p: "unat pend = unat (pendingCredits info) - unat n"
    by (simp add: pend_def unat_sub word_le_nat_alt)
  show "unat capped = unat (totalCredits info) - unat pend"
    using inv add p by (auto simp: capped_def vc_inv_def word_less_nat_alt)
  show "unat pend \<le> unat (totalCredits info)"
    using inv p by (simp add: vc_inv_def)
qed

text \<open>
  \<open>SetTotalCredits\<close>: the signed arithmetic moves the available credits to
  total minus pending; that is negative exactly when the shrunken window is overdrawn,
  and then the last branch pins the pending credits at the total.
\<close>

lemma i32_diff_nat: "a < 2 ^ 31 \<Longrightarrow> b < 2 ^ 31 \<Longrightarrow> i32 (int a - int b) = Inr (int a - int b)"
  by (simp add: i32_def)

lemma vc_inv_resize:
  assumes inv: "vc_inv info"
    and small: "unat (credits :: u32) < 2 ^ 31" "unat (totalCredits info) < 2 ^ 31"
  shows "sint credits - sint (totalCredits info) = int (unat credits) - int (unat (totalCredits info))"
    and "sint (availableCredits info) + (sint credits - sint (totalCredits info))
           = int (unat credits) - int (unat (pendingCredits info))"
    and "i32 (sint credits - sint (totalCredits info))
           = Inr (sint credits - sint (totalCredits info))"
    and "i32 (sint (availableCredits info) + (sint credits - sint (totalCredits info)))
           = Inr (int (unat credits) - int (unat (pendingCredits info)))"
proof -
  have av: "unat (availableCredits info) < 2 ^ 31" and pe: "unat (pendingCredits info) < 2 ^ 31"
    using inv small(2) by (simp_all add: vc_inv_def)
  note ints = sint_small [OF small(1)] sint_small [OF small(2)] sint_small [OF av]
  show diff: "sint credits - sint (totalCredits info)
      = int (unat credits) - int (unat (totalCredits info))"
    by (simp only: ints)
  show sum: "sint (availableCredits info) + (sint credits - sint (totalCredits info))
      = int (unat credits) - int (unat (pendingCredits info))"
    using inv by (simp only: ints vc_inv_def)
  show "i32 (sint credits - sint (totalCredits info))
      = Inr (sint credits - sint (totalCredits info))"
    unfolding diff by (rule i32_diff_nat [OF small])
  show "i32 (sint (availableCredits info) + (sint credits - sint (totalCredits info)))
      = Inr (int (unat credits) - int (unat (pendingCredits info)))"
    unfolding sum by (rule i32_diff_nat [OF small(1) pe])
qed

subsection \<open>Reading the manager through its windows\<close>

lemma credit_inv_find: "credit_inv cm \<Longrightarrow> umap_find (m_vcCredits cm) vc = Some info \<Longrightarrow> vc_inv info"
  by (force simp: credit_inv_def simp flip: umap_mem_iff)

lemma credit_inv_put:
  assumes "credit_inv cm" and "vc_inv info"
  shows "credit_inv (cm\<lparr>m_vcCredits := umap_put vc info (m_vcCredits cm)\<rparr>)"
proof -
  have wf: "umap_wf (m_vcCredits cm)" and wf': "umap_wf (umap_put vc info (m_vcCredits cm))"
    using assms(1) by (simp_all add: credit_inv_def ust.invar_put)
  have "vc_inv i" if "(k, i) \<in> set (umap_put vc info (m_vcCredits cm))" for k i
    using that assms(2) credit_inv_find [OF assms(1)]
    by (auto simp: umap_mem_iff [OF wf'] split: if_splits)
  with wf' show ?thesis by (auto simp: credit_inv_def)
qed

lemma window_of_put [simp]:
  "window_of (cm\<lparr>m_vcCredits := umap_put vc info (m_vcCredits cm)\<rparr>) vc' =
     (if vc' = vc then Some \<lparr>capacity = unat (totalCredits info), inflight = unat (pendingCredits info)\<rparr>
      else window_of cm vc')"
  by (simp add: window_of_def)

lemma window_of_bound:
  "credit_inv cm \<Longrightarrow> window_of cm vc = Some w \<Longrightarrow> inflight w \<le> capacity w"
  by (auto simp: window_of_def vc_inv_def dest!: credit_inv_find)

text \<open>The available credits are always what the window has left.\<close>

lemma available_eq:
  "credit_inv cm \<Longrightarrow>
   unat (GetAvailableCredits cm vc) =
     (case window_of cm vc of None \<Rightarrow> 0 | Some w \<Rightarrow> capacity w - inflight w)"
  by (auto simp: GetAvailableCredits_def window_of_def vc_inv_def
      dest!: credit_inv_find split: option.splits)

lemma InitializeVc_refines:
  assumes "credit_inv cm"
  shows "credit_inv (InitializeVc cm vc n)"
    and "window_of (InitializeVc cm vc n) =
           (window_of cm)(vc \<mapsto> \<lparr>capacity = unat n, inflight = 0\<rparr>)"
  using assms by (auto simp: InitializeVc_def vc_inv_def fun_eq_iff intro: credit_inv_put)

lemma ConsumeCredit_refines:
  assumes inv: "credit_inv cm"
  obtains cm' evs b where "ConsumeCredit cm vc seq = Inr (cm', evs, b)" and "credit_inv cm'"
    and "b = (\<exists>w. window_of cm vc = Some w \<and> inflight w < capacity w)"
    and "window_of cm' = (case window_of cm vc of None \<Rightarrow> window_of cm
                          | Some w \<Rightarrow> (window_of cm)(vc \<mapsto> fst (win_consume w)))"
proof (cases "umap_find (m_vcCredits cm) vc")
  case None
  with inv show thesis
    by (intro that [of cm "[]" False]) (auto simp: ConsumeCredit_def window_of_def)
next
  case (Some info)
  note vinv = credit_inv_find [OF inv Some]
  show thesis
  proof (cases "availableCredits info = 0")
    case True
    with Some inv vinv show thesis
      by (intro that [of cm "[]" False])
        (auto simp: ConsumeCredit_def window_of_def win_consume_def vc_inv_def fun_eq_iff)
  next
    case False
    note facts = vc_inv_consume [OF vinv False]
    let ?info = "info\<lparr>availableCredits := availableCredits info - 1,
                      pendingCredits := pendingCredits info + 1\<rparr>"
    have pos: "0 < unat (availableCredits info)"
      using False by (simp add: unat_gt_0)
    have vinv': "vc_inv ?info"
      using vinv facts(1,2) pos by (simp add: vc_inv_def)
    have "unat (availableCredits ?info + pendingCredits ?info) = unat (totalCredits ?info)"
      using vinv' unsigned_less [of "totalCredits info", where ?'a = nat]
      by (subst unat_plus_small) (simp_all add: vc_inv_def)
    then have a1: "availableCredits ?info + pendingCredits ?info = totalCredits ?info"
      by (simp only: word_unat_eq_iff)
    have a2: "pendingCredits ?info \<le> totalCredits ?info"
      using facts(2,3) by (simp add: word_le_nat_alt)
    from Some False inv vinv' a1 a2 facts show thesis
      by (intro that [of "cm\<lparr>m_vcCredits := umap_put vc ?info (m_vcCredits cm)\<rparr>"
            "[CreditChange vc (availableCredits info) (availableCredits ?info)]" True])
        (auto simp: ConsumeCredit_def Let_def fun_eq_iff win_consume_def window_of_def
          intro: credit_inv_put)
  qed
qed

lemma credit_notify_iff:
  "(\<exists>cb. CreditAvailable cb vc \<in> set (CreditChange vc a b #
      (if c then case w of None \<Rightarrow> [] | Some cb \<Rightarrow> [CreditAvailable cb vc] else []))) =
   (w \<noteq> None \<and> c)"
  by (cases w; cases c) simp_all

lemma ReturnCredits_refines:
  assumes inv: "credit_inv cm" and pre: "return_pre cm vc n"
  obtains cm' evs where "ReturnCredits cm vc n = Inr (cm', evs)" and "credit_inv cm'"
    and "window_of cm' = (case window_of cm vc of None \<Rightarrow> window_of cm
                          | Some w \<Rightarrow> (window_of cm)(vc \<mapsto> win_return (unat n) w))"
    and "(\<exists>cb. CreditAvailable cb vc \<in> set evs) =
           (m_creditAvailableCallback cm \<noteq> None \<and> \<not> HasCredits cm vc \<and> HasCredits cm' vc)"
proof (cases "umap_find (m_vcCredits cm) vc")
  case None
  with inv show thesis
    by (intro that [of cm "[]"]) (auto simp: ReturnCredits_def window_of_def)
next
  case (Some info)
  define capped where "capped = (if availableCredits info + n > totalCredits info
                                 then totalCredits info else availableCredits info + n)"
  define pend where "pend = (if pendingCredits info \<ge> n then pendingCredits info - n else 0)"
  let ?info = "info\<lparr>availableCredits := capped, pendingCredits := pend\<rparr>"
  let ?notify = "if availableCredits info = 0 \<and> capped > 0
                 then case m_creditAvailableCallback cm of
                        None \<Rightarrow> [] | Some cb \<Rightarrow> [CreditAvailable cb vc] else []"
  note vinv = credit_inv_find [OF inv Some]
  from pre Some have n: "n > 0" and room: "unat (availableCredits info) + unat n < 2 ^ 32"
    by (simp_all add: return_pre_def)
  note facts = vc_inv_return [OF vinv room, folded capped_def pend_def]
  have vinv': "vc_inv ?info"
    using facts by (simp add: vc_inv_def)
  have "unat (capped + pend) = unat (totalCredits info)"
    using vinv' unsigned_less [of "totalCredits info", where ?'a = nat]
    by (subst unat_plus_small) (simp_all add: vc_inv_def)
  then have a1: "capped + pend = totalCredits info"
    by (simp only: word_unat_eq_iff)
  have a2: "pend \<le> totalCredits info"
    using facts(3) by (simp only: word_le_nat_alt)
  have ret: "ReturnCredits cm vc n =
      Inr (cm\<lparr>m_vcCredits := umap_put vc ?info (m_vcCredits cm)\<rparr>,
           CreditChange vc (availableCredits info) capped # ?notify)"
    using a1 a2 n Some by (simp add: ReturnCredits_def Let_def flip: capped_def pend_def)
  show thesis
  proof (rule that [OF ret])
    show "credit_inv (cm\<lparr>m_vcCredits := umap_put vc ?info (m_vcCredits cm)\<rparr>)"
      using inv vinv' by (rule credit_inv_put)
    show "window_of (cm\<lparr>m_vcCredits := umap_put vc ?info (m_vcCredits cm)\<rparr>) =
        (case window_of cm vc of None \<Rightarrow> window_of cm
         | Some w \<Rightarrow> (window_of cm)(vc \<mapsto> win_return (unat n) w))"
      using Some facts(1) by (simp add: fun_eq_iff window_of_def win_return_def)
    show "(\<exists>cb. CreditAvailable cb vc \<in>
            set (CreditChange vc (availableCredits info) capped # ?notify)) =
        (m_creditAvailableCallback cm \<noteq> None \<and> \<not> HasCredits cm vc
         \<and> HasCredits (cm\<lparr>m_vcCredits := umap_put vc ?info (m_vcCredits cm)\<rparr>) vc)"
    proof -
      have "HasCredits cm vc = (availableCredits info \<noteq> 0)"
        using Some by (simp add: HasCredits_def word_gt_0)
      moreover have "HasCredits (cm\<lparr>m_vcCredits := umap_put vc ?info (m_vcCredits cm)\<rparr>) vc = (capped > 0)"
        by (simp add: HasCredits_def)
      ultimately show ?thesis
        by (simp only: credit_notify_iff) blast
    qed
  qed
qed

lemma SetTotalCredits_refines:
  assumes inv: "credit_inv cm" and pre: "resize_pre cm vc t"
  obtains cm' where "SetTotalCredits cm vc t = Inr cm'" and "credit_inv cm'"
    and "window_of cm' = (window_of cm)(vc \<mapsto>
           (case window_of cm vc of None \<Rightarrow> \<lparr>capacity = unat t, inflight = 0\<rparr>
            | Some w \<Rightarrow> win_resize (unat t) w))"
proof (cases "umap_find (m_vcCredits cm) vc")
  case None
  with InitializeVc_refines [OF inv] show thesis
    by (intro that [of "InitializeVc cm vc t"]) (simp_all add: SetTotalCredits_def window_of_def)
next
  case (Some info)
  note vinv = credit_inv_find [OF inv Some]
  from pre Some have small: "unat t < 2 ^ 31" "unat (totalCredits info) < 2 ^ 31"
    by (simp_all add: resize_pre_def)
  note facts = vc_inv_resize [OF vinv small]
  let ?av = "word_of_int (int (unat t) - int (unat (pendingCredits info))) :: u32"
  let ?capped = "if ?av > t then t else ?av"
  let ?info = "if pendingCredits info > t
               then \<lparr>availableCredits = 0, totalCredits = t, pendingCredits = t\<rparr>
               else \<lparr>availableCredits = ?capped, totalCredits = t,
                     pendingCredits = pendingCredits info\<rparr>"
  have set: "SetTotalCredits cm vc t = Inr (cm\<lparr>m_vcCredits := umap_put vc ?info (m_vcCredits cm)\<rparr>)"
    using Some facts(3,4) by (simp add: SetTotalCredits_def Let_def)
  have "?av = t - pendingCredits info"
    by simp
  then have "unat ?av = unat t - unat (pendingCredits info)" if "pendingCredits info \<le> t"
    using that by (simp add: unat_sub)
  then have vinv': "vc_inv ?info"
    by (auto simp: vc_inv_def word_less_nat_alt word_le_nat_alt not_less)
  show thesis
  proof (rule that [OF set])
    show "credit_inv (cm\<lparr>m_vcCredits := umap_put vc ?info (m_vcCredits cm)\<rparr>)"
      using inv vinv' by (rule credit_inv_put)
  qed (use Some in \<open>auto simp: fun_eq_iff window_of_def win_resize_def word_less_nat_alt min_def\<close>)
qed

subsection \<open>The manager as a guarded machine\<close>

datatype credit_op =
    OpInitializeVc u8 u32
  | OpConsume u8 u32
  | OpReturn u8 u32
  | OpSetTotal u8 u32
  | OpSetCallback "callback option"
  | OpDetach "callback option"
  | OpDispose

fun credit_step :: "CreditManager \<Rightarrow> credit_op \<Rightarrow> CreditManager result" where
  "credit_step cm (OpInitializeVc vc n) = Inr (InitializeVc cm vc n)"
| "credit_step cm (OpConsume vc seq) = map_sum id fst (ConsumeCredit cm vc seq)"
| "credit_step cm (OpReturn vc n) = map_sum id fst (ReturnCredits cm vc n)"
| "credit_step cm (OpSetTotal vc t) = SetTotalCredits cm vc t"
| "credit_step cm (OpSetCallback cb) = Inr (SetCreditAvailableCallback cm cb)"
| "credit_step cm (OpDetach ow) = Inr (CreditManager_DetachFromEndpoint cm ow)"
| "credit_step cm OpDispose = Inr (CreditManager_DoDispose cm)"

fun credit_pre :: "CreditManager \<Rightarrow> credit_op \<Rightarrow> bool" where
  "credit_pre cm (OpReturn vc n) = return_pre cm vc n"
| "credit_pre cm (OpSetTotal vc t) = resize_pre cm vc t"
| "credit_pre cm _ = True"

lemma credit_inv_new: "credit_inv CreditManager_new"
  by (simp add: credit_inv_def CreditManager_new_def)

interpretation cmm: guarded_machine credit_step credit_inv credit_pre
proof
  fix cm x
  assume inv: "credit_inv cm" and pre: "credit_pre cm x"
  show "\<exists>cm'. credit_step cm x = Inr cm' \<and> credit_inv cm'"
  proof (cases x)
    case (OpInitializeVc vc n)
    then show ?thesis using InitializeVc_refines(1) [OF inv] by simp
  next
    case (OpConsume vc seq)
    then show ?thesis using ConsumeCredit_refines [OF inv, of vc seq] by fastforce
  next
    case (OpReturn vc n)
    then show ?thesis using ReturnCredits_refines [OF inv, of vc n] pre by fastforce
  next
    case (OpSetTotal vc t)
    then show ?thesis using SetTotalCredits_refines [OF inv, of vc t] pre by fastforce
  qed (use inv in \<open>auto simp: credit_inv_def SetCreditAvailableCallback_def
      CreditManager_DetachFromEndpoint_def CreditManager_DoDispose_def split: option.splits\<close>)
qed

subsection \<open>The interface a sender relies on\<close>

text \<open>
  A sender takes a credit before each packet and the peer gives credits back. The laws
  say what one call does to the credits in flight; the sender's bound over any sequence
  of calls is proved from them once.
\<close>

datatype flow_op = Take | Give nat

locale flow_window =
  fixes cap :: "'s \<Rightarrow> nat"
    and infl :: "'s \<Rightarrow> nat"
    and take_credit :: "'s \<Rightarrow> 's \<times> bool"
    and give_credits :: "nat \<Rightarrow> 's \<Rightarrow> 's"
    and inv :: "'s \<Rightarrow> bool"
  assumes infl_le_cap: "inv s \<Longrightarrow> infl s \<le> cap s"
    and take_inv: "inv s \<Longrightarrow> inv (fst (take_credit s))"
    and take_cap: "inv s \<Longrightarrow> cap (fst (take_credit s)) = cap s"
    and take_grant: "inv s \<Longrightarrow> snd (take_credit s) \<longleftrightarrow> infl s < cap s"
    and take_infl: "inv s \<Longrightarrow> infl (fst (take_credit s)) = infl s + of_bool (infl s < cap s)"
    and give_inv: "inv s \<Longrightarrow> 0 < n \<Longrightarrow> n \<le> infl s \<Longrightarrow> inv (give_credits n s)"
    and give_cap: "inv s \<Longrightarrow> 0 < n \<Longrightarrow> n \<le> infl s \<Longrightarrow> cap (give_credits n s) = cap s"
    and give_infl: "inv s \<Longrightarrow> 0 < n \<Longrightarrow> n \<le> infl s \<Longrightarrow> infl (give_credits n s) = infl s - n"

text \<open>
  A session counts the packets sent and the credits given back; it is honest when the
  peer never gives back more than is in flight.
\<close>

fun session ::
  "('s \<Rightarrow> 's \<times> bool) \<Rightarrow> (nat \<Rightarrow> 's \<Rightarrow> 's) \<Rightarrow> 's \<Rightarrow> flow_op list \<Rightarrow> 's \<times> nat \<times> nat" where
  "session tk gv s [] = (s, 0, 0)"
| "session tk gv s (Take # xs) =
     (let (s', b) = tk s; (t, sent, given) = session tk gv s' xs
      in (t, (if b then Suc sent else sent), given))"
| "session tk gv s (Give n # xs) =
     (let (t, sent, given) = session tk gv (gv n s) xs in (t, sent, n + given))"

fun honest ::
  "('s \<Rightarrow> 's \<times> bool) \<Rightarrow> (nat \<Rightarrow> 's \<Rightarrow> 's) \<Rightarrow> ('s \<Rightarrow> nat) \<Rightarrow> 's \<Rightarrow> flow_op list \<Rightarrow> bool" where
  "honest tk gv infl s [] = True"
| "honest tk gv infl s (Take # xs) = honest tk gv infl (fst (tk s)) xs"
| "honest tk gv infl s (Give n # xs) =
     (0 < n \<and> n \<le> infl s \<and> honest tk gv infl (gv n s) xs)"

context flow_window
begin

lemma session_accounts:
  assumes "inv s" "honest take_credit give_credits infl s xs"
    and "session take_credit give_credits s xs = (t, sent, given)"
  shows "inv t \<and> cap t = cap s \<and> infl t + given = infl s + sent"
  using assms
proof (induction xs arbitrary: s sent given)
  case (Cons x xs)
  show ?case
  proof (cases x)
    case Take
    obtain s' b where tk: "take_credit s = (s', b)" by fastforce
    obtain sent' where r: "session take_credit give_credits s' xs = (t, sent', given)"
      and sent: "sent = (if b then Suc sent' else sent')"
      using Cons.prems(3) Take tk by (auto split: prod.splits)
    have "inv s'" using take_inv [OF Cons.prems(1)] tk by simp
    with Cons.IH [OF _ _ r] Cons.prems(2) Take tk
    have "inv t \<and> cap t = cap s' \<and> infl t + given = infl s' + sent'" by simp
    with take_cap [OF Cons.prems(1)] take_grant [OF Cons.prems(1)] take_infl [OF Cons.prems(1)]
    show ?thesis using tk sent by auto
  next
    case (Give n)
    with Cons.prems obtain given' where n: "0 < n" "n \<le> infl s"
      and r: "session take_credit give_credits (give_credits n s) xs = (t, sent, given')"
      and given: "given = n + given'" and h: "honest take_credit give_credits infl (give_credits n s) xs"
      by (auto split: prod.splits)
    from Cons.IH [OF give_inv [OF Cons.prems(1) n] h r]
      give_cap [OF Cons.prems(1) n] give_infl [OF Cons.prems(1) n] n given
    show ?thesis by auto
  qed
qed simp

lemma session_window:
  assumes "inv s" "infl s = 0" "honest take_credit give_credits infl s xs"
    and "session take_credit give_credits s xs = (t, sent, given)"
  shows "given \<le> sent \<and> sent - given = infl t \<and> sent - given \<le> cap s"
  using session_accounts [OF assms(1,3,4)] assms(2) infl_le_cap [of t] by auto

end

subsection \<open>The credit manager provides that interface\<close>

definition vc_window :: "u8 \<Rightarrow> CreditManager \<Rightarrow> window" where
  "vc_window vc cm = (case window_of cm vc of None \<Rightarrow> \<lparr>capacity = 0, inflight = 0\<rparr> | Some w \<Rightarrow> w)"

definition vc_take :: "u8 \<Rightarrow> CreditManager \<Rightarrow> CreditManager \<times> bool" where
  "vc_take vc cm = (case ConsumeCredit cm vc 0 of Inl _ \<Rightarrow> (cm, False) | Inr (cm', _, b) \<Rightarrow> (cm', b))"

definition vc_give :: "u8 \<Rightarrow> nat \<Rightarrow> CreditManager \<Rightarrow> CreditManager" where
  "vc_give vc n cm = (case ReturnCredits cm vc (of_nat n) of Inl _ \<Rightarrow> cm | Inr (cm', _) \<Rightarrow> cm')"

abbreviation vc_capacity :: "u8 \<Rightarrow> CreditManager \<Rightarrow> nat" where
  "vc_capacity vc cm \<equiv> capacity (vc_window vc cm)"

abbreviation vc_inflight :: "u8 \<Rightarrow> CreditManager \<Rightarrow> nat" where
  "vc_inflight vc cm \<equiv> inflight (vc_window vc cm)"

lemma vc_take_props:
  assumes "credit_inv cm"
  shows "credit_inv (fst (vc_take vc cm))"
    and "snd (vc_take vc cm) \<longleftrightarrow> vc_inflight vc cm < vc_capacity vc cm"
    and "vc_window vc (fst (vc_take vc cm)) = fst (win_consume (vc_window vc cm))"
proof -
  obtain cm' evs b where c: "ConsumeCredit cm vc 0 = Inr (cm', evs, b)" "credit_inv cm'"
    "b = (\<exists>w. window_of cm vc = Some w \<and> inflight w < capacity w)"
    "window_of cm' = (case window_of cm vc of None \<Rightarrow> window_of cm
                      | Some w \<Rightarrow> (window_of cm)(vc \<mapsto> fst (win_consume w)))"
    using ConsumeCredit_refines [OF assms] by blast
  then show "credit_inv (fst (vc_take vc cm))"
    and "snd (vc_take vc cm) \<longleftrightarrow> vc_inflight vc cm < vc_capacity vc cm"
    and "vc_window vc (fst (vc_take vc cm)) = fst (win_consume (vc_window vc cm))"
    by (auto simp: vc_take_def vc_window_def win_consume_def split: option.splits)
qed

lemma vc_give_props:
  assumes inv: "credit_inv cm" and n: "0 < n" "n \<le> vc_inflight vc cm"
  shows "credit_inv (vc_give vc n cm)"
    and "vc_window vc (vc_give vc n cm) = win_return n (vc_window vc cm)"
proof -
  obtain info where find: "umap_find (m_vcCredits cm) vc = Some info"
    and le: "n \<le> unat (pendingCredits info)"
    using n by (cases "umap_find (m_vcCredits cm) vc") (auto simp: vc_window_def window_of_def)
  have lt: "n < 2 ^ 32"
    using le unsigned_less [of "pendingCredits info", where ?'a = nat] by simp
  then have un: "unat (of_nat n :: u32) = n"
    by (simp add: unat_of_nat)
  have "unat (availableCredits info) + n \<le> unat (totalCredits info)"
    using credit_inv_find [OF inv find] le by (simp add: vc_inv_def)
  then have "return_pre cm vc (of_nat n)"
    using find un n unsigned_less [of "totalCredits info", where ?'a = nat]
    by (simp add: return_pre_def word_gt_0 un word_unat_eq_iff)
  then obtain cm' evs where "ReturnCredits cm vc (of_nat n) = Inr (cm', evs)" "credit_inv cm'"
    "window_of cm' = (case window_of cm vc of None \<Rightarrow> window_of cm
                      | Some w \<Rightarrow> (window_of cm)(vc \<mapsto> win_return n w))"
    using ReturnCredits_refines [OF inv] un by metis
  then show "credit_inv (vc_give vc n cm)"
    and "vc_window vc (vc_give vc n cm) = win_return n (vc_window vc cm)"
    using find by (auto simp: vc_give_def vc_window_def window_of_def)
qed

interpretation vcw: flow_window "vc_capacity vc" "vc_inflight vc" "vc_take vc" "vc_give vc" credit_inv
  for vc
proof
  fix cm n
  assume inv: "credit_inv cm"
  show "vc_inflight vc cm \<le> vc_capacity vc cm"
    using window_of_bound [OF inv] by (auto simp: vc_window_def split: option.splits)
  show "credit_inv (fst (vc_take vc cm))"
    and "vc_capacity vc (fst (vc_take vc cm)) = vc_capacity vc cm"
    and "snd (vc_take vc cm) \<longleftrightarrow> vc_inflight vc cm < vc_capacity vc cm"
    and "vc_inflight vc (fst (vc_take vc cm)) =
           vc_inflight vc cm + of_bool (vc_inflight vc cm < vc_capacity vc cm)"
    using vc_take_props [OF inv] by (simp_all add: win_consume_def)
  assume n: "0 < n" "n \<le> vc_inflight vc cm"
  show "credit_inv (vc_give vc n cm)"
    and "vc_capacity vc (vc_give vc n cm) = vc_capacity vc cm"
    and "vc_inflight vc (vc_give vc n cm) = vc_inflight vc cm - n"
    using vc_give_props [OF inv n] by (simp_all add: win_return_def)
qed

lemmas credit_eval = CreditManager_new_def InitializeVc_def ConsumeCredit_def ReturnCredits_def
  SetTotalCredits_def return_pre_def resize_pre_def i32_def umap_put_def umap_find_def Let_def

lemma ReturnCredits_zero_aborts:
  "umap_find (m_vcCredits cm) vc = Some info \<Longrightarrow>
   ReturnCredits cm vc 0 = Inl (NsAssert ''ReturnCredits called with zero credits'')"
  by (simp add: ReturnCredits_def)

lemma ReturnCredits_overflow_aborts:
  assumes inv: "credit_inv cm" and find: "umap_find (m_vcCredits cm) vc = Some info"
    and wrap: "\<not> unat (availableCredits info) + unat n < 2 ^ 32"
  shows "\<not> ok (ReturnCredits cm vc n)"
proof -
  note vinv = credit_inv_find [OF inv find]
  define added where "added = availableCredits info + n"
  have lt: "unat (totalCredits info) < 2 ^ 32" "unat (availableCredits info) < 2 ^ 32" "unat n < 2 ^ 32"
    using unsigned_less [where ?'a = nat, of "totalCredits info"]
      unsigned_less [where ?'a = nat, of "availableCredits info"]
      unsigned_less [where ?'a = nat, of n] by simp_all
  then have un: "unat added = unat (availableCredits info) + unat n - 2 ^ 32"
    using wrap by (simp add: added_def unat_word_ariths mod_if)
  have small: "unat added < unat (availableCredits info)"
    using lt wrap un by simp
  then have nocap: "\<not> added > totalCredits info"
    using vinv by (simp add: vc_inv_def word_less_nat_alt)
  have nopend: "\<not> pendingCredits info \<ge> n"
    using vinv wrap lt(1) by (simp add: vc_inv_def word_le_nat_alt)
  have "added \<noteq> totalCredits info"
    using small vinv by (auto simp: vc_inv_def)
  with nocap nopend find show ?thesis
    by (auto simp: ReturnCredits_def Let_def ns_assert_def simp flip: added_def)
qed

subsection \<open>Properties\<close>

text \<open>
  C23: from a fresh manager, any sequence of operations whose credit returns do not
  overflow and whose resizes stay below \<open>2 ^ 31\<close> runs to its end: no assertion of
  \<open>ConsumeCredit\<close> or \<open>ReturnCredits\<close> fires, no signed arithmetic overflows, and
  afterwards available plus pending equals the total on every VC.
\<close>

theorem credit_manager_never_aborts:
  assumes "admissible credit_step credit_pre CreditManager_new xs"
  shows "\<exists>cm. run_ops credit_step CreditManager_new xs = Inr cm
           \<and> (\<forall>vc info. umap_find (m_vcCredits cm) vc = Some info \<longrightarrow>
                unat (availableCredits info) + unat (pendingCredits info) = unat (totalCredits info))"
  using cmm.run_progress [OF credit_inv_new assms] credit_inv_find vc_inv_def by metis

theorem credit_manager_never_aborts_witness:
  "\<exists>cm. run_ops credit_step CreditManager_new
          [OpInitializeVc 1 4, OpConsume 1 7, OpConsume 1 8, OpSetTotal 1 1, OpReturn 1 2] = Inr cm
     \<and> (\<forall>vc info. umap_find (m_vcCredits cm) vc = Some info \<longrightarrow>
          unat (availableCredits info) + unat (pendingCredits info) = unat (totalCredits info))"
proof -
  have "admissible credit_step credit_pre CreditManager_new
          [OpInitializeVc 1 4, OpConsume 1 7, OpConsume 1 8, OpSetTotal 1 1, OpReturn 1 2]"
    by (simp add: credit_eval)
  then show ?thesis by (rule credit_manager_never_aborts)
qed

text \<open>
  C28: over any interleaving of sends and honest credit returns on one VC, the packets sent
  minus the credits returned is what the manager records as pending, and it never exceeds
  the VC's total credits: the sender cannot overrun the receiver's buffer.
\<close>

theorem credit_session_never_overruns:
  assumes "credit_inv cm" and "vc_inflight vc cm = 0"
    and "honest (vc_take vc) (vc_give vc) (vc_inflight vc) cm xs"
    and "session (vc_take vc) (vc_give vc) cm xs = (cm', sent, given)"
  shows "given \<le> sent \<and> sent - given = vc_inflight vc cm' \<and> sent - given \<le> vc_capacity vc cm"
  using vcw.session_window [OF assms] .

theorem credit_session_never_overruns_witness:
  "(case session (vc_take 0) (vc_give 0) (InitializeVc CreditManager_new 0 2)
          [Take, Take, Take, Give 1, Take] of
      (cm', sent, given) \<Rightarrow> sent = 3 \<and> given = 1 \<and> sent - given = vc_inflight 0 cm' \<and> sent - given \<le> 2)"
proof -
  let ?cm = "InitializeVc CreditManager_new 0 2"
  have inv: "credit_inv ?cm" by (rule InitializeVc_refines(1) [OF credit_inv_new])
  have h: "vc_inflight 0 ?cm = 0" "vc_capacity 0 ?cm = 2"
    "honest (vc_take 0) (vc_give 0) (vc_inflight 0) ?cm [Take, Take, Take, Give 1, Take]"
    by code_simp+
  have n: "fst (snd (session (vc_take 0) (vc_give 0) ?cm [Take, Take, Take, Give 1, Take])) = 3"
    "snd (snd (session (vc_take 0) (vc_give 0) ?cm [Take, Take, Take, Give 1, Take])) = 1"
    by code_simp+
  obtain cm' sent given where ses:
    "session (vc_take 0) (vc_give 0) ?cm [Take, Take, Take, Give 1, Take] = (cm', sent, given)"
    using prod_cases3 by blast
  then have "sent = 3" "given = 1" using n by (simp_all only: fst_conv snd_conv)
  with credit_session_never_overruns [OF inv h(1,3) ses] h(2)
  show ?thesis by (simp only: ses prod.case) simp
qed

text \<open>
  C32: \<open>ConsumeCredit\<close> refines the abstract window on every branch: it never aborts under
  the invariant, it reports success exactly when the VC exists and has room, and then it
  moves exactly one credit to pending on that VC and touches no other VC.
\<close>

theorem consume_refines_window:
  assumes "credit_inv cm"
  shows "\<exists>cm' evs b. ConsumeCredit cm vc seq = Inr (cm', evs, b) \<and> credit_inv cm'
     \<and> b = (\<exists>w. window_of cm vc = Some w \<and> inflight w < capacity w)
     \<and> window_of cm' = (case window_of cm vc of None \<Rightarrow> window_of cm
                        | Some w \<Rightarrow> (window_of cm)(vc \<mapsto> fst (win_consume w)))"
  by (rule ConsumeCredit_refines [OF assms, of vc seq]) blast

theorem consume_refines_window_witness:
  "\<exists>cm' evs. ConsumeCredit (InitializeVc CreditManager_new 3 1) 3 9 = Inr (cm', evs, True)
     \<and> window_of cm' 3 = Some \<lparr>capacity = 1, inflight = 1\<rparr>"
proof -
  have w: "window_of (InitializeVc CreditManager_new 3 1) = [3 \<mapsto> \<lparr>capacity = 1, inflight = 0\<rparr>]"
    using InitializeVc_refines(2) [OF credit_inv_new, of 3 1]
    by (simp add: CreditManager_new_def window_of_def [abs_def])
  show ?thesis
    using consume_refines_window [OF InitializeVc_refines(1) [OF credit_inv_new, of 3 1], of 3 9]
    by (auto simp: w win_consume_def)
qed

text \<open>
  \<open>ReturnCredits\<close> refines the abstract window: the credits come out of pending
  (returning more than is pending empties it, the total is never exceeded), and the
  credit-available callback fires exactly when the VC goes from no credit to some credit
  and a callback is bound.
\<close>

lemma return_refines_window:
  assumes "credit_inv cm" and "return_pre cm vc n"
  shows "\<exists>cm' evs. ReturnCredits cm vc n = Inr (cm', evs) \<and> credit_inv cm'
     \<and> window_of cm' = (case window_of cm vc of None \<Rightarrow> window_of cm
                        | Some w \<Rightarrow> (window_of cm)(vc \<mapsto> win_return (unat n) w))
     \<and> (\<exists>cb. CreditAvailable cb vc \<in> set evs) =
         (m_creditAvailableCallback cm \<noteq> None \<and> \<not> HasCredits cm vc \<and> HasCredits cm' vc)"
  by (rule ReturnCredits_refines [OF assms]) blast

text \<open>
  C33: exactly when \<open>ReturnCredits\<close> stops the process. Under the invariant a return on an
  initialised VC passes every assertion if and only if it returns at least one credit and
  the 32-bit sum of available and returned credits does not wrap; on an unknown VC it
  never aborts.
\<close>

theorem return_credits_ok_iff:
  assumes "credit_inv cm"
  shows "ok (ReturnCredits cm vc n) \<longleftrightarrow>
     (case umap_find (m_vcCredits cm) vc of
        None \<Rightarrow> True
      | Some info \<Rightarrow> n > 0 \<and> unat (availableCredits info) + unat n < 2 ^ 32)"
proof (cases "return_pre cm vc n")
  case True
  then show ?thesis
    using ReturnCredits_refines [OF assms True]
    by (metis (no_types, lifting) ok.simps(2) return_pre_def)
next
  case False
  then obtain info where find: "umap_find (m_vcCredits cm) vc = Some info"
    and "n = 0 \<or> \<not> unat (availableCredits info) + unat n < 2 ^ 32"
    by (auto simp: return_pre_def word_gt_0 split: option.splits)
  then have "\<not> ok (ReturnCredits cm vc n)"
    using ReturnCredits_overflow_aborts [OF assms find] by (auto simp: ReturnCredits_zero_aborts)
  with False show ?thesis by (simp add: return_pre_def)
qed

theorem return_credits_ok_iff_witness:
  "ok (ReturnCredits (InitializeVc CreditManager_new 3 7) 3 4294967288)
   \<and> \<not> ok (ReturnCredits (InitializeVc CreditManager_new 3 7) 3 4294967290)"
  using return_credits_ok_iff [OF InitializeVc_refines(1) [OF credit_inv_new, of 3 7], of 3]
  by (simp add: credit_eval)

text \<open>
  \<open>SetTotalCredits\<close> refines a resize of the window: for totals below \<open>2 ^ 31\<close> the
  signed arithmetic does not overflow, the VC gets the new total, its pending credits are
  the old ones cut down to the new total, and no phantom credit becomes available; an
  unknown VC is created empty.
\<close>

lemma set_total_refines_window:
  assumes "credit_inv cm" and "resize_pre cm vc t"
  shows "\<exists>cm'. SetTotalCredits cm vc t = Inr cm' \<and> credit_inv cm'
     \<and> window_of cm' = (window_of cm)(vc \<mapsto>
           (case window_of cm vc of None \<Rightarrow> \<lparr>capacity = unat t, inflight = 0\<rparr>
            | Some w \<Rightarrow> win_resize (unat t) w))"
  by (rule SetTotalCredits_refines [OF assms]) blast

end
