(* ===== verification/WireCodec.thy ===== *)
theory WireCodec
  imports Prelude "HOL-Library.Monad_Syntax"
begin

text \<open>
  Byte-level reading and writing of protocol headers (\<open>Buffer::Iterator\<close> in
  \<open>network/model/buffer.h\<close>, used by every \<open>Serialize\<close>/\<open>Deserialize\<close> of the
  repository's headers), and the contract of a fixed-width codec as a locale: decoding
  inverts encoding, encoding inverts decoding, and decoding fails only on short input.
  The model is the byte sequence the iterator walks over; the split of the buffer around
  its zero area is not visible through these operations. Reading past the end is
  \<open>None\<close>.
\<close>

subsection \<open>The codec contract\<close>

locale wire_codec =
  fixes enc :: "'a \<Rightarrow> u8 list"
    and dec :: "u8 list \<Rightarrow> ('a \<times> u8 list) option"
    and wid :: nat
    and valid :: "'a \<Rightarrow> bool"
  assumes enc_width: "valid x \<Longrightarrow> length (enc x) = wid"
    and dec_enc: "valid x \<Longrightarrow> dec (enc x @ r) = Some (x, r)"
    and enc_dec: "dec bs = Some (x, r) \<Longrightarrow> valid x \<and> bs = enc x @ r"
    and dec_total: "wid \<le> length bs \<Longrightarrow> dec bs \<noteq> None"
begin

lemma dec_None_iff: "dec bs = None \<longleftrightarrow> length bs < wid"
proof
  assume "dec bs = None"
  then show "length bs < wid" using dec_total [of bs] by (cases "wid \<le> length bs") auto
next
  assume short: "length bs < wid"
  show "dec bs = None"
  proof (rule ccontr)
    assume "dec bs \<noteq> None"
    then obtain x r where "dec bs = Some (x, r)" by (cases "dec bs") auto
    from enc_dec [OF this] enc_width short show False by auto
  qed
qed

lemma enc_inj: "valid x \<Longrightarrow> valid y \<Longrightarrow> enc x = enc y \<Longrightarrow> x = y"
  using dec_enc [of x "[]"] dec_enc [of y "[]"] by simp

lemma dec_consumes: "dec bs = Some (x, r) \<Longrightarrow> length bs = wid + length r"
  using enc_dec enc_width by fastforce

lemma dec_drop: "dec bs = Some (x, r) \<Longrightarrow> r = drop wid bs"
  using enc_dec enc_width by fastforce

end

text \<open>
  Two headers stacked on a payload: pushing the inner one first and then the outer one
  gives a packet from which both come back off in turn.
\<close>

locale stacked_codecs =
  outer: wire_codec enc1 dec1 wid1 valid1 + inner: wire_codec enc2 dec2 wid2 valid2
  for enc1 :: "'a \<Rightarrow> u8 list" and dec1 wid1 valid1
    and enc2 :: "'b \<Rightarrow> u8 list" and dec2 wid2 valid2
begin

lemma peel_both:
  assumes "valid1 x" "valid2 y"
  shows "do { (x', r) \<leftarrow> dec1 (enc1 x @ enc2 y @ payload); (y', p) \<leftarrow> dec2 r; Some (x', y', p) }
         = Some (x, y, payload)"
  using assms by (simp add: outer.dec_enc inner.dec_enc)

lemma stacked_length:
  "valid1 x \<Longrightarrow> valid2 y \<Longrightarrow>
   length (enc1 x @ enc2 y @ payload) = wid1 + wid2 + length payload"
  by (simp add: outer.enc_width inner.enc_width)

end

subsection \<open>\<open>Buffer::Iterator\<close>\<close>

definition WriteU8 :: "u8 \<Rightarrow> u8 list" where
  "WriteU8 data = [data]"

definition WriteHtonU16 :: "u16 \<Rightarrow> u8 list" where
  "WriteHtonU16 data = [ucast (drop_bit 8 data AND 0xff), ucast (drop_bit 0 data AND 0xff)]"

definition WriteHtonU32 :: "u32 \<Rightarrow> u8 list" where
  "WriteHtonU32 data =
     [ucast (drop_bit 24 data AND 0xff), ucast (drop_bit 16 data AND 0xff),
      ucast (drop_bit 8 data AND 0xff), ucast (drop_bit 0 data AND 0xff)]"

fun ReadU8 :: "u8 list \<Rightarrow> (u8 \<times> u8 list) option" where
  "ReadU8 (b # i) = Some (b, i)"
| "ReadU8 [] = None"

fun ReadNtohU16 :: "u8 list \<Rightarrow> (u16 \<times> u8 list) option" where
  "ReadNtohU16 (b0 # b1 # i) = Some (push_bit 8 (0 OR ucast b0) OR ucast b1, i)"
| "ReadNtohU16 _ = None"

fun ReadNtohU32 :: "u8 list \<Rightarrow> (u32 \<times> u8 list) option" where
  "ReadNtohU32 (b0 # b1 # b2 # b3 # i) =
     Some (push_bit 8 (push_bit 8 (push_bit 8 (0 OR ucast b0) OR ucast b1) OR ucast b2)
           OR ucast b3, i)"
| "ReadNtohU32 _ = None"

text \<open>A fixed-size byte array read or written by a counting loop of \<open>ReadU8\<close>/\<open>WriteU8\<close>.\<close>

fun ReadBytes :: "nat \<Rightarrow> u8 list \<Rightarrow> (u8 list \<times> u8 list) option" where
  "ReadBytes 0 i = Some ([], i)"
| "ReadBytes (Suc n) i = do { (b, i) \<leftarrow> ReadU8 i; (bs, i) \<leftarrow> ReadBytes n i; Some (b # bs, i) }"

fun WriteBytes :: "u8 list \<Rightarrow> u8 list" where
  "WriteBytes [] = []"
| "WriteBytes (b # bs) = WriteU8 b @ WriteBytes bs"

subsection \<open>The primitive codecs\<close>

lemma and_0xff: "(w :: 'a::len word) AND 0xff = take_bit 8 w"
  by (simp add: take_bit_eq_mask mask_eq_exp_minus_1)

lemma u16_split_join:
  fixes w :: u16
  shows "push_bit 8 (ucast (ucast (drop_bit 8 w AND 0xff) :: u8)) OR
         ucast (ucast (w AND 0xff) :: u8) = w"
  unfolding and_0xff by (rule bit_eqI) (auto simp: bit_simps)

lemma u16_join_split:
  fixes a b :: u8
  shows "(ucast (drop_bit 8 (push_bit 8 (ucast a) OR ucast b :: u16) AND 0xff) :: u8) = a"
    and "(ucast ((push_bit 8 (ucast a) OR ucast b :: u16) AND 0xff) :: u8) = b"
  unfolding and_0xff
  by (rule bit_eqI, force simp: bit_simps dest: bit_imp_le_length)+

lemma u32_split_join:
  fixes w :: u32
  shows "push_bit 8 (push_bit 8 (push_bit 8 (ucast (ucast (drop_bit 24 w AND 0xff) :: u8))
           OR ucast (ucast (drop_bit 16 w AND 0xff) :: u8))
           OR ucast (ucast (drop_bit 8 w AND 0xff) :: u8))
           OR ucast (ucast (w AND 0xff) :: u8) = w"
  unfolding and_0xff
proof (rule bit_eqI)
  fix n :: nat
  consider "n < 16" | "16 \<le> n" "n < 24" | "24 \<le> n" by linarith
  then show "bit (push_bit 8 (push_bit 8 (push_bit 8 (ucast (ucast (take_bit 8 (drop_bit 24 w)) :: u8))
           OR ucast (ucast (take_bit 8 (drop_bit 16 w)) :: u8))
           OR ucast (ucast (take_bit 8 (drop_bit 8 w)) :: u8))
           OR ucast (ucast (take_bit 8 w) :: u8) :: u32) n = bit w n"
    by cases (auto simp: bit_simps dest: bit_imp_le_length)
qed

lemma u32_join_split:
  fixes a b c d :: u8
  defines "w \<equiv> push_bit 8 (push_bit 8 (push_bit 8 (ucast a) OR ucast b) OR ucast c) OR ucast d :: u32"
  shows "(ucast (drop_bit 24 w AND 0xff) :: u8) = a"
    and "(ucast (drop_bit 16 w AND 0xff) :: u8) = b"
    and "(ucast (drop_bit 8 w AND 0xff) :: u8) = c"
    and "(ucast (w AND 0xff) :: u8) = d"
  unfolding and_0xff w_def
  by (rule bit_eqI, force simp: bit_simps dest: bit_imp_le_length)+

lemma WriteHtonU16_join: "WriteHtonU16 (push_bit 8 (0 OR ucast a) OR ucast b) = [a, b]"
  by (simp only: WriteHtonU16_def or.left_neutral drop_bit_0 id_apply u16_join_split)

lemma WriteHtonU32_join:
  "WriteHtonU32 (push_bit 8 (push_bit 8 (push_bit 8 (0 OR ucast a) OR ucast b) OR ucast c) OR ucast d)
   = [a, b, c, d]"
  by (simp only: WriteHtonU32_def or.left_neutral drop_bit_0 id_apply u32_join_split)

interpretation u8c: wire_codec WriteU8 ReadU8 1 "\<lambda>_. True"
proof
  fix bs x r
  show "ReadU8 bs = Some (x, r) \<Longrightarrow> True \<and> bs = WriteU8 x @ r"
    by (cases bs) (auto simp: WriteU8_def)
  show "1 \<le> length bs \<Longrightarrow> ReadU8 bs \<noteq> None"
    by (cases bs) auto
qed (simp_all add: WriteU8_def)

interpretation u16c: wire_codec WriteHtonU16 ReadNtohU16 2 "\<lambda>_. True"
proof
  fix bs x r
  show "ReadNtohU16 bs = Some (x, r) \<Longrightarrow> True \<and> bs = WriteHtonU16 x @ r"
    by (cases bs rule: ReadNtohU16.cases)
      (simp_all only: ReadNtohU16.simps option.inject prod.inject option.distinct,
       use WriteHtonU16_join in force)
  show "2 \<le> length bs \<Longrightarrow> ReadNtohU16 bs \<noteq> None"
    by (cases bs rule: ReadNtohU16.cases) auto
qed (simp_all add: WriteHtonU16_def u16_split_join)

interpretation u32c: wire_codec WriteHtonU32 ReadNtohU32 4 "\<lambda>_. True"
proof
  fix bs x r
  show "ReadNtohU32 bs = Some (x, r) \<Longrightarrow> True \<and> bs = WriteHtonU32 x @ r"
    by (cases bs rule: ReadNtohU32.cases)
      (simp_all only: ReadNtohU32.simps option.inject prod.inject option.distinct,
       use WriteHtonU32_join in force)
  show "4 \<le> length bs \<Longrightarrow> ReadNtohU32 bs \<noteq> None"
    by (cases bs rule: ReadNtohU32.cases) auto
  show "ReadNtohU32 (WriteHtonU32 x @ r) = Some (x, r)"
    by (simp only: WriteHtonU32_def append_Cons append_Nil ReadNtohU32.simps or.left_neutral
        drop_bit_0 id_apply u32_split_join)
qed (simp add: WriteHtonU32_def)

lemma WriteBytes_eq [simp]: "WriteBytes bs = bs"
  by (induction bs) (simp_all add: WriteU8_def)

lemma ReadBytes_append: "length bs = n \<Longrightarrow> ReadBytes n (bs @ r) = Some (bs, r)"
  by (induction bs arbitrary: n) auto

lemma ReadBytes_Some: "ReadBytes n i = Some (bs, r) \<Longrightarrow> length bs = n \<and> i = bs @ r"
proof (induction n arbitrary: i bs)
  case (Suc n)
  then show ?case by (cases i) (auto split: Option.bind_splits)
qed simp

lemma ReadBytes_total: "n \<le> length i \<Longrightarrow> ReadBytes n i \<noteq> None"
proof (induction n arbitrary: i)
  case (Suc n)
  then obtain b i' where i: "i = b # i'" "n \<le> length i'" by (cases i) auto
  from Suc.IH [OF i(2)] i(1) show ?case by auto
qed simp

interpretation mac: wire_codec WriteBytes "ReadBytes 6" 6 "\<lambda>bs. length bs = 6"
  using ReadBytes_Some [of 6] ReadBytes_append [of _ 6] ReadBytes_total [of 6]
  by unfold_locales auto

text \<open>Reads of a header compose by these rules.\<close>

lemmas codec_reads = u8c.dec_enc [OF TrueI] u16c.dec_enc [OF TrueI] u32c.dec_enc [OF TrueI]
  ReadBytes_append
lemmas codec_writes = u8c.enc_dec u16c.enc_dec u32c.enc_dec
lemmas codec_widths = u8c.enc_width [OF TrueI] u16c.enc_width [OF TrueI] u32c.enc_width [OF TrueI]

end
