(* ===== verification/FabricHeader.thy ===== *)
theory FabricHeader
  imports WireCodec
begin

text \<open>
  The two wire headers of the fabric: the 39-byte \<open>FabricHeader\<close>
  (\<open>fabric-header.h\<close>, \<open>fabric-header.cc\<close>) and the 10-byte scale-out
  \<open>SoHeader\<close> inside it (\<open>so-header.h\<close>, \<open>so-header.cc\<close>), with the enumerations
  they carry (\<open>fabric-type.h\<close>, \<open>nccl-protocol.h\<close>). The theorems show that both
  codecs round-trip on every header and every byte string of their width, that the packet
  classes are disjoint, and that the protocol-framed flag and the virtual lane share one
  byte without disturbing each other.
\<close>

subsection \<open>Enumerations\<close>

text \<open>
  The enums have the fixed underlying type \<open>uint8_t\<close>, so a cast from a byte may give a
  value with no name; such a value is \<open>PT_unnamed\<close> of the byte.
\<close>

datatype FabricPacketType =
    PT_DATA | PT_CREDIT | PT_ACK | PT_NACK | PT_ALLREDUCE | PT_ALLGATHER | PT_ALLTOALL
  | PT_REDUCESCATTER | PT_BROADCAST | PT_P2P | PT_MEMORY_READ | PT_MEMORY_WRITE
  | PT_MEMORY_RESP | PT_RETRY_REQUEST | PT_RETRY_ACK | PT_PERMANENT_LOSS | PT_CNP
  | PT_RTT_PROBE | PT_RTT_RESPONSE | PT_PFC_PAUSE | PT_PFC_RESUME | PT_unnamed u8

definition named_packet_types :: "FabricPacketType list" where
  "named_packet_types =
     [PT_DATA, PT_CREDIT, PT_ACK, PT_NACK, PT_ALLREDUCE, PT_ALLGATHER, PT_ALLTOALL,
      PT_REDUCESCATTER, PT_BROADCAST, PT_P2P, PT_MEMORY_READ, PT_MEMORY_WRITE,
      PT_MEMORY_RESP, PT_RETRY_REQUEST, PT_RETRY_ACK, PT_PERMANENT_LOSS, PT_CNP,
      PT_RTT_PROBE, PT_RTT_RESPONSE, PT_PFC_PAUSE, PT_PFC_RESUME]"

definition packet_type_of :: "u8 \<Rightarrow> FabricPacketType" where
  "packet_type_of b =
     (if unat b < 21 then named_packet_types ! unat b else PT_unnamed b)"

fun packet_type_code :: "FabricPacketType \<Rightarrow> u8" where
  "packet_type_code PT_DATA = 0"
| "packet_type_code PT_CREDIT = 1"
| "packet_type_code PT_ACK = 2"
| "packet_type_code PT_NACK = 3"
| "packet_type_code PT_ALLREDUCE = 4"
| "packet_type_code PT_ALLGATHER = 5"
| "packet_type_code PT_ALLTOALL = 6"
| "packet_type_code PT_REDUCESCATTER = 7"
| "packet_type_code PT_BROADCAST = 8"
| "packet_type_code PT_P2P = 9"
| "packet_type_code PT_MEMORY_READ = 10"
| "packet_type_code PT_MEMORY_WRITE = 11"
| "packet_type_code PT_MEMORY_RESP = 12"
| "packet_type_code PT_RETRY_REQUEST = 13"
| "packet_type_code PT_RETRY_ACK = 14"
| "packet_type_code PT_PERMANENT_LOSS = 15"
| "packet_type_code PT_CNP = 16"
| "packet_type_code PT_RTT_PROBE = 17"
| "packet_type_code PT_RTT_RESPONSE = 18"
| "packet_type_code PT_PFC_PAUSE = 19"
| "packet_type_code PT_PFC_RESUME = 20"
| "packet_type_code (PT_unnamed b) = b"

datatype FabricType =
  NVLINK | ETHERNET | HYBRID | ICI | HCCS | XGMI | ROCE | UB | METAXLINK | FT_unnamed u8

fun fabric_type_code :: "FabricType \<Rightarrow> u8" where
  "fabric_type_code NVLINK = 0"
| "fabric_type_code ETHERNET = 1"
| "fabric_type_code HYBRID = 2"
| "fabric_type_code ICI = 3"
| "fabric_type_code HCCS = 4"
| "fabric_type_code XGMI = 5"
| "fabric_type_code ROCE = 6"
| "fabric_type_code UB = 7"
| "fabric_type_code METAXLINK = 8"
| "fabric_type_code (FT_unnamed b) = b"

definition named_fabric_types :: "FabricType list" where
  "named_fabric_types = [NVLINK, ETHERNET, HYBRID, ICI, HCCS, XGMI, ROCE, UB, METAXLINK]"

text \<open>\<open>static_cast<FabricType>\<close> of a byte.\<close>

definition fabric_type_of :: "u8 \<Rightarrow> FabricType" where
  "fabric_type_of b =
     (if unat b < length named_fabric_types then named_fabric_types ! unat b else FT_unnamed b)"

fun FabricTypeToString :: "FabricType \<Rightarrow> string" where
  "FabricTypeToString NVLINK = ''NVLink''"
| "FabricTypeToString ETHERNET = ''Ethernet''"
| "FabricTypeToString HYBRID = ''Hybrid''"
| "FabricTypeToString ICI = ''ICI''"
| "FabricTypeToString HCCS = ''HCCS''"
| "FabricTypeToString XGMI = ''xGMI''"
| "FabricTypeToString ROCE = ''RoCE''"
| "FabricTypeToString UB = ''UB''"
| "FabricTypeToString METAXLINK = ''MetaXLink''"
| "FabricTypeToString (FT_unnamed b) = ''Unknown''"

definition FabricTypeFromString :: "string \<Rightarrow> FabricType" where
  "FabricTypeFromString str =
     (if str = ''NVLink'' \<or> str = ''nvlink'' then NVLINK
      else if str = ''Ethernet'' \<or> str = ''eth'' \<or> str = ''ETH'' then ETHERNET
      else if str = ''Hybrid'' \<or> str = ''hybrid'' then HYBRID
      else if str = ''ICI'' \<or> str = ''ici'' then ICI
      else if str = ''HCCS'' \<or> str = ''hccs'' then HCCS
      else if str = ''xGMI'' \<or> str = ''xgmi'' then XGMI
      else if str = ''RoCE'' \<or> str = ''roce'' then ROCE
      else if str = ''UB'' \<or> str = ''ub'' then UB
      else if str = ''MetaXLink'' \<or> str = ''metaxlink'' then METAXLINK
      else NVLINK)"

datatype MemoryAccessType = DMA_BULK | SYNC_LOAD_STORE | ASYNC_URMA | MA_unnamed u8

definition memory_access_of :: "u8 \<Rightarrow> MemoryAccessType" where
  "memory_access_of b =
     (if b = 0 then DMA_BULK else if b = 1 then SYNC_LOAD_STORE
      else if b = 2 then ASYNC_URMA else MA_unnamed b)"

fun memory_access_code :: "MemoryAccessType \<Rightarrow> u8" where
  "memory_access_code DMA_BULK = 0"
| "memory_access_code SYNC_LOAD_STORE = 1"
| "memory_access_code ASYNC_URMA = 2"
| "memory_access_code (MA_unnamed b) = b"

lemma packet_type_code_of [simp]: "packet_type_code (packet_type_of b) = b"
proof (cases "unat b < 21")
  case True
  define n where "n = unat b"
  with True have n: "n < 21" "b = of_nat n" "unat b = n" by simp_all
  then have "n \<in> set [0..<21]" by simp
  then show ?thesis
    unfolding packet_type_of_def named_packet_types_def n(3)
    using n(2) by (auto simp: upt_rec)
qed (simp add: packet_type_of_def)

lemma memory_access_code_of [simp]: "memory_access_code (memory_access_of b) = b"
  by (simp add: memory_access_of_def)

subsection \<open>The fabric header\<close>

record FabricHeader =
  m_packetType :: u8
  m_fabricType :: u8
  m_virtualChannel :: u8
  m_virtualLane :: u8
  m_memoryAccessType :: u8
  m_flowId :: u16
  m_sequenceNumber :: u32
  m_sourceRank :: u16
  m_destRank :: u16
  m_payloadSize :: u32
  m_creditCount :: u16
  m_protocol :: u8
  m_ttl :: u8
  m_effectiveDataSize :: u32
  m_srcMac :: "u8 list"
  m_dstMac :: "u8 list"

text \<open>The MAC arrays have six bytes.\<close>

definition header_wf :: "FabricHeader \<Rightarrow> bool" where
  "header_wf h = (length (m_srcMac h) = 6 \<and> length (m_dstMac h) = 6)"

definition FabricHeader_new :: FabricHeader where
  "FabricHeader_new =
     \<lparr>m_packetType = packet_type_code PT_DATA, m_fabricType = fabric_type_code NVLINK,
      m_virtualChannel = 0, m_virtualLane = 0, m_memoryAccessType = memory_access_code DMA_BULK,
      m_flowId = 0, m_sequenceNumber = 0, m_sourceRank = 0, m_destRank = 0, m_payloadSize = 0,
      m_creditCount = 0, m_protocol = 0, m_ttl = 64, m_effectiveDataSize = 0,
      m_srcMac = replicate 6 0, m_dstMac = replicate 6 0\<rparr>"

definition GetSerializedSize :: "FabricHeader \<Rightarrow> nat" where
  "GetSerializedSize h = 39"

definition Serialize :: "FabricHeader \<Rightarrow> u8 list" where
  "Serialize h =
     WriteU8 (m_packetType h) @ WriteU8 (m_fabricType h) @ WriteU8 (m_virtualChannel h) @
     WriteU8 (m_virtualLane h) @ WriteU8 (m_memoryAccessType h) @
     WriteHtonU16 (m_flowId h) @ WriteHtonU32 (m_sequenceNumber h) @
     WriteHtonU16 (m_sourceRank h) @ WriteHtonU16 (m_destRank h) @
     WriteHtonU32 (m_payloadSize h) @ WriteHtonU16 (m_creditCount h) @
     WriteU8 (m_protocol h) @ WriteU8 (m_ttl h) @ WriteHtonU32 (m_effectiveDataSize h) @
     WriteBytes (m_srcMac h) @ WriteBytes (m_dstMac h)"

definition Deserialize :: "u8 list \<Rightarrow> (FabricHeader \<times> u8 list) option" where
  "Deserialize i = do {
     (packetType, i) \<leftarrow> ReadU8 i;
     (fabricType, i) \<leftarrow> ReadU8 i;
     (virtualChannel, i) \<leftarrow> ReadU8 i;
     (virtualLane, i) \<leftarrow> ReadU8 i;
     (memoryAccessType, i) \<leftarrow> ReadU8 i;
     (flowId, i) \<leftarrow> ReadNtohU16 i;
     (sequenceNumber, i) \<leftarrow> ReadNtohU32 i;
     (sourceRank, i) \<leftarrow> ReadNtohU16 i;
     (destRank, i) \<leftarrow> ReadNtohU16 i;
     (payloadSize, i) \<leftarrow> ReadNtohU32 i;
     (creditCount, i) \<leftarrow> ReadNtohU16 i;
     (protocol, i) \<leftarrow> ReadU8 i;
     (ttl, i) \<leftarrow> ReadU8 i;
     (effectiveDataSize, i) \<leftarrow> ReadNtohU32 i;
     (srcMac, i) \<leftarrow> ReadBytes 6 i;
     (dstMac, i) \<leftarrow> ReadBytes 6 i;
     Some (\<lparr>m_packetType = packetType, m_fabricType = fabricType,
            m_virtualChannel = virtualChannel, m_virtualLane = virtualLane,
            m_memoryAccessType = memoryAccessType, m_flowId = flowId,
            m_sequenceNumber = sequenceNumber, m_sourceRank = sourceRank,
            m_destRank = destRank, m_payloadSize = payloadSize, m_creditCount = creditCount,
            m_protocol = protocol, m_ttl = ttl, m_effectiveDataSize = effectiveDataSize,
            m_srcMac = srcMac, m_dstMac = dstMac\<rparr>, i)
   }"

subsection \<open>Accessors and packet classes\<close>

definition GetPacketType :: "FabricHeader \<Rightarrow> FabricPacketType" where
  "GetPacketType h = packet_type_of (m_packetType h)"

definition SetPacketType :: "FabricHeader \<Rightarrow> FabricPacketType \<Rightarrow> FabricHeader" where
  "SetPacketType h x = h\<lparr>m_packetType := packet_type_code x\<rparr>"

definition GetFlowId :: "FabricHeader \<Rightarrow> u16" where
  "GetFlowId h = m_flowId h"

definition SetFlowId :: "FabricHeader \<Rightarrow> u16 \<Rightarrow> FabricHeader" where
  "SetFlowId h x = h\<lparr>m_flowId := x\<rparr>"

definition GetSequenceNumber :: "FabricHeader \<Rightarrow> u32" where
  "GetSequenceNumber h = m_sequenceNumber h"

definition SetSequenceNumber :: "FabricHeader \<Rightarrow> u32 \<Rightarrow> FabricHeader" where
  "SetSequenceNumber h x = h\<lparr>m_sequenceNumber := x\<rparr>"

definition GetVirtualChannel :: "FabricHeader \<Rightarrow> u8" where
  "GetVirtualChannel h = m_virtualChannel h"

definition SetVirtualChannel :: "FabricHeader \<Rightarrow> u8 \<Rightarrow> FabricHeader" where
  "SetVirtualChannel h x = h\<lparr>m_virtualChannel := x\<rparr>"

definition GetSourceRank :: "FabricHeader \<Rightarrow> u16" where
  "GetSourceRank h = m_sourceRank h"

definition SetSourceRank :: "FabricHeader \<Rightarrow> u16 \<Rightarrow> FabricHeader" where
  "SetSourceRank h x = h\<lparr>m_sourceRank := x\<rparr>"

definition GetDestRank :: "FabricHeader \<Rightarrow> u16" where
  "GetDestRank h = m_destRank h"

definition SetDestRank :: "FabricHeader \<Rightarrow> u16 \<Rightarrow> FabricHeader" where
  "SetDestRank h x = h\<lparr>m_destRank := x\<rparr>"

definition GetPayloadSize :: "FabricHeader \<Rightarrow> u32" where
  "GetPayloadSize h = m_payloadSize h"

definition SetPayloadSize :: "FabricHeader \<Rightarrow> u32 \<Rightarrow> FabricHeader" where
  "SetPayloadSize h x = h\<lparr>m_payloadSize := x\<rparr>"

definition GetCreditCount :: "FabricHeader \<Rightarrow> u16" where
  "GetCreditCount h = m_creditCount h"

definition SetCreditCount :: "FabricHeader \<Rightarrow> u16 \<Rightarrow> FabricHeader" where
  "SetCreditCount h x = h\<lparr>m_creditCount := x\<rparr>"

definition GetProtocol :: "FabricHeader \<Rightarrow> u8" where
  "GetProtocol h = m_protocol h"

definition SetProtocol :: "FabricHeader \<Rightarrow> u8 \<Rightarrow> FabricHeader" where
  "SetProtocol h x = h\<lparr>m_protocol := x\<rparr>"

definition GetTtl :: "FabricHeader \<Rightarrow> u8" where
  "GetTtl h = m_ttl h"

definition SetTtl :: "FabricHeader \<Rightarrow> u8 \<Rightarrow> FabricHeader" where
  "SetTtl h x = h\<lparr>m_ttl := x\<rparr>"

definition GetEffectiveDataSize :: "FabricHeader \<Rightarrow> u32" where
  "GetEffectiveDataSize h = m_effectiveDataSize h"

definition SetEffectiveDataSize :: "FabricHeader \<Rightarrow> u32 \<Rightarrow> FabricHeader" where
  "SetEffectiveDataSize h x = h\<lparr>m_effectiveDataSize := x\<rparr>"

definition GetMemoryAccessType :: "FabricHeader \<Rightarrow> MemoryAccessType" where
  "GetMemoryAccessType h = memory_access_of (m_memoryAccessType h)"

definition SetMemoryAccessType :: "FabricHeader \<Rightarrow> MemoryAccessType \<Rightarrow> FabricHeader" where
  "SetMemoryAccessType h x = h\<lparr>m_memoryAccessType := memory_access_code x\<rparr>"

text \<open>A \<open>Mac48Address\<close> is its six bytes; \<open>CopyTo\<close> and \<open>CopyFrom\<close> move them.\<close>

definition GetSourceMac :: "FabricHeader \<Rightarrow> u8 list" where
  "GetSourceMac h = m_srcMac h"

definition SetSourceMac :: "FabricHeader \<Rightarrow> u8 list \<Rightarrow> FabricHeader" where
  "SetSourceMac h addr = h\<lparr>m_srcMac := addr\<rparr>"

definition GetDestMac :: "FabricHeader \<Rightarrow> u8 list" where
  "GetDestMac h = m_dstMac h"

definition SetDestMac :: "FabricHeader \<Rightarrow> u8 list \<Rightarrow> FabricHeader" where
  "SetDestMac h addr = h\<lparr>m_dstMac := addr\<rparr>"

definition GetFabricType :: "FabricHeader \<Rightarrow> FabricType" where
  "GetFabricType h = fabric_type_of (m_fabricType h)"

definition SetFabricType :: "FabricHeader \<Rightarrow> FabricType \<Rightarrow> FabricHeader" where
  "SetFabricType h x = h\<lparr>m_fabricType := fabric_type_code x\<rparr>"

definition IsControlPacket :: "FabricHeader \<Rightarrow> bool" where
  "IsControlPacket h =
     (let type = GetPacketType h
      in type = PT_CREDIT \<or> type = PT_ACK \<or> type = PT_NACK \<or> type = PT_PERMANENT_LOSS \<or>
         type = PT_CNP \<or> type = PT_RTT_PROBE \<or> type = PT_RTT_RESPONSE \<or>
         type = PT_PFC_PAUSE \<or> type = PT_PFC_RESUME)"

definition IsCollectivePacket :: "FabricHeader \<Rightarrow> bool" where
  "IsCollectivePacket h =
     (let type = GetPacketType h
      in type = PT_ALLREDUCE \<or> type = PT_ALLGATHER \<or> type = PT_ALLTOALL \<or>
         type = PT_REDUCESCATTER \<or> type = PT_BROADCAST)"

definition IsCreditBypassPacket :: "FabricHeader \<Rightarrow> bool" where
  "IsCreditBypassPacket h =
     (let type = GetPacketType h in type = PT_ALLREDUCE \<or> type = PT_ALLGATHER)"

definition IsP2pPacket :: "FabricHeader \<Rightarrow> bool" where
  "IsP2pPacket h = (GetPacketType h = PT_P2P)"

definition IsMemoryPacket :: "FabricHeader \<Rightarrow> bool" where
  "IsMemoryPacket h =
     (let type = GetPacketType h
      in type = PT_MEMORY_READ \<or> type = PT_MEMORY_WRITE \<or> type = PT_MEMORY_RESP)"

definition IsRetryPacket :: "FabricHeader \<Rightarrow> bool" where
  "IsRetryPacket h =
     (let type = GetPacketType h in type = PT_RETRY_REQUEST \<or> type = PT_RETRY_ACK)"

text \<open>Bit 7 of the lane byte is the protocol-framed flag.\<close>

definition PROTOCOL_FRAMED_FLAG :: u8 where
  "PROTOCOL_FRAMED_FLAG = 0x80"

definition GetVirtualLane :: "FabricHeader \<Rightarrow> u8" where
  "GetVirtualLane h = m_virtualLane h AND NOT PROTOCOL_FRAMED_FLAG"

definition SetVirtualLane :: "FabricHeader \<Rightarrow> u8 \<Rightarrow> FabricHeader" where
  "SetVirtualLane h lane =
     h\<lparr>m_virtualLane := (lane AND NOT PROTOCOL_FRAMED_FLAG) OR
                         (m_virtualLane h AND PROTOCOL_FRAMED_FLAG)\<rparr>"

definition IsProtocolFramed :: "FabricHeader \<Rightarrow> bool" where
  "IsProtocolFramed h = (m_virtualLane h AND PROTOCOL_FRAMED_FLAG \<noteq> 0)"

definition SetProtocolFramed :: "FabricHeader \<Rightarrow> bool \<Rightarrow> FabricHeader" where
  "SetProtocolFramed h framed =
     (if framed then h\<lparr>m_virtualLane := m_virtualLane h OR PROTOCOL_FRAMED_FLAG\<rparr>
      else h\<lparr>m_virtualLane := m_virtualLane h AND NOT PROTOCOL_FRAMED_FLAG\<rparr>)"

subsection \<open>The scale-out header\<close>

record SoHeader =
  m_protocolId :: u8
  m_flags :: u8
  m_dataSize :: u32
  m_chunkIndex :: u32

definition SoHeader_new :: SoHeader where
  "SoHeader_new = \<lparr>m_protocolId = 0, m_flags = 0, m_dataSize = 0, m_chunkIndex = 0\<rparr>"

definition ECN_FLAG :: u8 where
  "ECN_FLAG = 0x01"

definition GetEcn :: "SoHeader \<Rightarrow> bool" where
  "GetEcn h = (m_flags h AND ECN_FLAG \<noteq> 0)"

definition SetEcn :: "SoHeader \<Rightarrow> bool \<Rightarrow> SoHeader" where
  "SetEcn h v = (if v then h\<lparr>m_flags := m_flags h OR ECN_FLAG\<rparr>
                 else h\<lparr>m_flags := m_flags h AND NOT ECN_FLAG\<rparr>)"

definition SetProtocolId :: "SoHeader \<Rightarrow> u8 \<Rightarrow> SoHeader" where
  "SetProtocolId h p = h\<lparr>m_protocolId := p\<rparr>"

definition SetDataSize :: "SoHeader \<Rightarrow> u32 \<Rightarrow> SoHeader" where
  "SetDataSize h s = h\<lparr>m_dataSize := s\<rparr>"

definition SetChunkIndex :: "SoHeader \<Rightarrow> u32 \<Rightarrow> SoHeader" where
  "SetChunkIndex h c = h\<lparr>m_chunkIndex := c\<rparr>"

definition SoHeader_GetSerializedSize :: "SoHeader \<Rightarrow> nat" where
  "SoHeader_GetSerializedSize h = 10"

definition SoHeader_Serialize :: "SoHeader \<Rightarrow> u8 list" where
  "SoHeader_Serialize h =
     WriteU8 (m_protocolId h) @ WriteU8 (m_flags h) @
     WriteHtonU32 (m_dataSize h) @ WriteHtonU32 (m_chunkIndex h)"

definition SoHeader_Deserialize :: "u8 list \<Rightarrow> (SoHeader \<times> u8 list) option" where
  "SoHeader_Deserialize i = do {
     (protocolId, i) \<leftarrow> ReadU8 i;
     (flags, i) \<leftarrow> ReadU8 i;
     (dataSize, i) \<leftarrow> ReadNtohU32 i;
     (chunkIndex, i) \<leftarrow> ReadNtohU32 i;
     Some (\<lparr>m_protocolId = protocolId, m_flags = flags, m_dataSize = dataSize,
            m_chunkIndex = chunkIndex\<rparr>, i)
   }"

text \<open>
  \<open>PeekEcn\<close> reads the header at the front of the packet without removing it; a null packet
  has no ECN mark, and a packet too short for the header fails in the reader.
\<close>

definition PeekEcn :: "u8 list option \<Rightarrow> bool option" where
  "PeekEcn packet =
     (case packet of
        None \<Rightarrow> Some False
      | Some bytes \<Rightarrow> map_option (\<lambda>(h, _). GetEcn h) (SoHeader_Deserialize bytes))"

subsection \<open>Both headers are codecs\<close>

lemma read_SomeE:
  assumes "Option.bind m (\<lambda>(a, i). f a i) = Some y"
  obtains a i where "m = Some (a, i)" and "f a i = Some y"
  using assms by (cases m) auto

lemma read_not_None:
  "m \<noteq> None \<Longrightarrow> (\<And>a i. m = Some (a, i) \<Longrightarrow> f a i \<noteq> None) \<Longrightarrow>
   Option.bind m (\<lambda>(a, i). f a i) \<noteq> None"
  by (cases m) auto

lemmas codec_consumes = u8c.dec_consumes u16c.dec_consumes u32c.dec_consumes mac.dec_consumes
lemmas codec_None_iff = u8c.dec_None_iff u16c.dec_None_iff u32c.dec_None_iff mac.dec_None_iff

lemma Deserialize_Serialize: "header_wf h \<Longrightarrow> Deserialize (Serialize h @ r) = Some (h, r)"
  unfolding header_wf_def Deserialize_def Serialize_def append_assoc WriteBytes_eq
  by (simp add: codec_reads)

lemma Serialize_Deserialize:
  "Deserialize bs = Some (h, r) \<Longrightarrow> header_wf h \<and> bs = Serialize h @ r"
  unfolding Deserialize_def
  by (elim read_SomeE) (auto simp: header_wf_def Serialize_def dest!: codec_writes ReadBytes_Some)

lemma Serialize_length: "header_wf h \<Longrightarrow> length (Serialize h) = GetSerializedSize h"
  by (simp add: header_wf_def Serialize_def GetSerializedSize_def codec_widths)

lemma Deserialize_total: "39 \<le> length bs \<Longrightarrow> Deserialize bs \<noteq> None"
  unfolding Deserialize_def
  by (intro read_not_None) (auto simp: codec_None_iff dest!: codec_consumes)

interpretation fh: wire_codec Serialize Deserialize 39 header_wf
proof
  fix bs x r
  show "header_wf x \<Longrightarrow> length (Serialize x) = 39"
    by (simp add: Serialize_length GetSerializedSize_def)
  show "header_wf x \<Longrightarrow> Deserialize (Serialize x @ r) = Some (x, r)"
    by (rule Deserialize_Serialize)
  show "Deserialize bs = Some (x, r) \<Longrightarrow> header_wf x \<and> bs = Serialize x @ r"
    by (rule Serialize_Deserialize)
  show "39 \<le> length bs \<Longrightarrow> Deserialize bs \<noteq> None"
    by (rule Deserialize_total)
qed

lemma SoHeader_total: "10 \<le> length bs \<Longrightarrow> SoHeader_Deserialize bs \<noteq> None"
  unfolding SoHeader_Deserialize_def
  by (intro read_not_None) (auto simp: codec_None_iff dest!: codec_consumes)

lemma SoHeader_write_read:
  "SoHeader_Deserialize bs = Some (h, r) \<Longrightarrow> bs = SoHeader_Serialize h @ r"
  unfolding SoHeader_Deserialize_def
  by (elim read_SomeE) (auto simp: SoHeader_Serialize_def dest!: codec_writes)

interpretation so: wire_codec SoHeader_Serialize SoHeader_Deserialize 10 "\<lambda>_. True"
proof
  fix x :: SoHeader and r
  show "SoHeader_Deserialize (SoHeader_Serialize x @ r) = Some (x, r)"
    unfolding SoHeader_Deserialize_def SoHeader_Serialize_def append_assoc
    by (simp add: codec_reads)
qed (auto simp: SoHeader_Serialize_def codec_widths dest: SoHeader_total SoHeader_write_read)

interpretation fhso: stacked_codecs
  Serialize Deserialize 39 header_wf
  SoHeader_Serialize SoHeader_Deserialize 10 "\<lambda>_. True"
  by unfold_locales

subsection \<open>Properties\<close>

lemma bit_framed_flag: "bit PROTOCOL_FRAMED_FLAG n \<longleftrightarrow> n = 7"
proof -
  have "bit (2 ^ 7 :: u8) n \<longleftrightarrow> n = 7"
    using bit_exp_iff [where ?'a = u8, of 7 n] by (auto simp: possible_bit_word simp del: power_numeral)
  moreover have "PROTOCOL_FRAMED_FLAG = 2 ^ 7" by (simp add: PROTOCOL_FRAMED_FLAG_def)
  ultimately show ?thesis by (simp only:)
qed

lemma lane_bits:
  "bit (m_virtualLane (SetVirtualLane h l)) n = (if n = 7 then bit (m_virtualLane h) 7 else bit l n)"
  "bit (m_virtualLane (SetProtocolFramed h f)) n = (if n = 7 then f else bit (m_virtualLane h) n)"
  "bit (GetVirtualLane h) n \<longleftrightarrow> n \<noteq> 7 \<and> bit (m_virtualLane h) n"
  by (auto simp: SetVirtualLane_def SetProtocolFramed_def GetVirtualLane_def bit_framed_flag
      bit_and_iff bit_or_iff bit_not_iff possible_bit_word dest: bit_imp_le_length)

lemma IsProtocolFramed_bit: "IsProtocolFramed h \<longleftrightarrow> bit (m_virtualLane h) 7"
proof
  assume framed: "IsProtocolFramed h"
  show "bit (m_virtualLane h) 7"
  proof (rule ccontr)
    assume no: "\<not> bit (m_virtualLane h) 7"
    have "m_virtualLane h AND PROTOCOL_FRAMED_FLAG = 0"
      by (rule bit_eqI) (use no in \<open>auto simp: bit_and_iff bit_framed_flag\<close>)
    with framed show False by (simp add: IsProtocolFramed_def)
  qed
next
  assume "bit (m_virtualLane h) 7"
  then have "bit (m_virtualLane h AND PROTOCOL_FRAMED_FLAG) 7"
    by (simp add: bit_and_iff bit_framed_flag)
  then show "IsProtocolFramed h" by (auto simp: IsProtocolFramed_def)
qed

text \<open>
  C24: the fabric header codec is exact in both directions: a byte string decodes to a
  header and a rest precisely when it is that header's encoding followed by the rest, and
  decoding fails precisely on fewer bytes than \<open>GetSerializedSize\<close> reports.
\<close>

theorem fabric_header_codec_exact:
  "(Deserialize bs = Some (h, r) \<longleftrightarrow> header_wf h \<and> bs = Serialize h @ r)
   \<and> (Deserialize bs = None \<longleftrightarrow> length bs < GetSerializedSize h)"
  using fh.dec_enc fh.enc_dec fh.dec_None_iff by (auto simp: GetSerializedSize_def)

text \<open>
  The receive path of a scale-out packet. Whatever header the sender framed, peeling
  the fabric header off the wire leaves a packet whose \<open>PeekEcn\<close> is exactly the mark
  the switch set with \<open>SetEcn\<close>, and peeling the scale-out header returns its other
  fields and the payload unchanged.
\<close>

lemma ecn_mark_survives_the_wire:
  assumes "header_wf h"
  shows "\<exists>rest so'. Deserialize (Serialize h @ SoHeader_Serialize (SetEcn s mark) @ payload) = Some (h, rest)
     \<and> PeekEcn (Some rest) = Some mark
     \<and> SoHeader_Deserialize rest = Some (so', payload)
     \<and> m_protocolId so' = m_protocolId s \<and> m_dataSize so' = m_dataSize s
     \<and> m_chunkIndex so' = m_chunkIndex s"
proof -
  have ecn: "GetEcn (SetEcn s mark) = mark"
  proof -
    have "bit (m_flags (SetEcn s mark)) 0 = mark"
      by (auto simp: SetEcn_def ECN_FLAG_def bit_simps)
    moreover have "GetEcn t = bit (m_flags t) 0" for t
      by (auto simp: GetEcn_def ECN_FLAG_def and_one_eq odd_iff_mod_2_eq_one bit_0)
    ultimately show ?thesis by simp
  qed
  have inner: "SoHeader_Deserialize (SoHeader_Serialize (SetEcn s mark) @ payload) = Some (SetEcn s mark, payload)"
    by (rule so.dec_enc) simp
  show ?thesis
    using fh.dec_enc [OF assms] inner ecn
    by (auto simp: PeekEcn_def SetEcn_def)
qed

text \<open>
  The packet classes partition the type field: a header is in at most one of the
  control, collective, point-to-point, memory and retry classes, in none of them exactly
  when it is \<open>DATA\<close> or carries an unnamed type, and a packet that bypasses credits is a
  collective packet, so a control packet never draws on the bypass.
\<close>

lemma packet_classes_disjoint:
  "length (filter id [IsControlPacket h, IsCollectivePacket h, IsP2pPacket h, IsMemoryPacket h,
                      IsRetryPacket h])
     = (if GetPacketType h = PT_DATA \<or> (\<exists>b. GetPacketType h = PT_unnamed b) then 0 else 1)
   \<and> (IsCreditBypassPacket h \<longrightarrow> IsCollectivePacket h \<and> \<not> IsControlPacket h)"
  by (cases "GetPacketType h")
    (simp_all add: IsControlPacket_def IsCollectivePacket_def IsP2pPacket_def IsMemoryPacket_def
      IsRetryPacket_def IsCreditBypassPacket_def Let_def)

text \<open>
  The protocol-framed flag and the virtual lane share a byte without interference:
  setting the flag reads back and leaves the lane alone, setting a lane reads back its low
  seven bits and leaves the flag alone, in every header.
\<close>

lemma lane_and_framed_flag_independent:
  "IsProtocolFramed (SetProtocolFramed h f) = f
   \<and> GetVirtualLane (SetProtocolFramed h f) = GetVirtualLane h
   \<and> IsProtocolFramed (SetVirtualLane h l) = IsProtocolFramed h
   \<and> GetVirtualLane (SetVirtualLane h l) = take_bit 7 l"
proof (intro conjI)
  show "GetVirtualLane (SetProtocolFramed h f) = GetVirtualLane h"
    by (rule bit_eqI) (simp add: lane_bits)
  show "GetVirtualLane (SetVirtualLane h l) = take_bit 7 l"
    by (rule bit_eqI) (auto simp: lane_bits bit_simps dest: bit_imp_le_length)
qed (simp_all add: IsProtocolFramed_bit lane_bits)


lemma name_round_trip:
  "FabricTypeFromString (FabricTypeToString t) = (case t of FT_unnamed b \<Rightarrow> NVLINK | _ \<Rightarrow> t)"
  by (cases t) (simp_all add: FabricTypeFromString_def)

text \<open>
  A fabric is named faithfully. Parsing the name of any fabric the program names
  gives that fabric back, on the wire as in configuration text, and a name that is not
  known is read as NVLink.
\<close>

lemma fabric_names_round_trip:
  assumes "t \<in> set named_fabric_types"
  shows "FabricTypeFromString (FabricTypeToString t) = t \<and> GetFabricType (SetFabricType h t) = t
     \<and> FabricTypeFromString (FabricTypeToString (FT_unnamed b)) = NVLINK"
proof -
  have "GetFabricType (SetFabricType h t) = t"
    using assms by (auto simp: named_fabric_types_def GetFabricType_def SetFabricType_def fabric_type_of_def)
  moreover have "FabricTypeFromString (FabricTypeToString t) = t"
    using assms name_round_trip [of t] by (auto simp: named_fabric_types_def)
  ultimately show ?thesis using name_round_trip [of "FT_unnamed b"] by simp
qed

end
