(* ===== verification/ReorderBuffer.thy ===== *)
theory ReorderBuffer
  imports FabricHeader
begin

text \<open>
  The receiver's reorder buffer for packets sprayed over several paths
  (\<open>reorder-buffer.h\<close>, \<open>reorder-buffer.cc\<close>). Out-of-order packets are parked in a
  \<open>std::map\<close> by sequence number and released in order; a sequence number declared
  permanently lost is skipped. The loops of the code are recursions with fuel, \<open>None\<close>
  meaning that the loop does not stop; the fuel each call site passes is shown to be
  enough. A callback is not re-entered from itself. The theorems show that what leaves the buffer is
  consecutive, that any arrival order is turned into the sending order, that the capacity
  is respected, and what happens to a packet whose sequence number was declared lost.
\<close>

subsection \<open>State\<close>

record 'p ReorderEntry =
  sequenceNumber :: u32
  packet :: 'p
  header :: FabricHeader
  delivered :: bool

record 'p ReorderBuffer =
  m_buffer :: "(u32, 'p ReorderEntry) omap"
  m_permanentGaps :: "u32 list"
  m_permanentGapHeaders :: "(u32, FabricHeader) omap"
  m_expectedSeq :: u32
  m_maxBufferSize :: u32
  m_deliveryCallback :: "callback option"
  m_permanentGapCallback :: "callback option"
  m_reorderEventCount :: u32
  m_maxOccupancy :: u32

text \<open>The calls that leave the object: the two callbacks and the two trace sources.\<close>

datatype 'p reorder_event =
    Deliver 'p u32 FabricHeader
  | GapCrossed u32 FabricHeader
  | PacketDelivered u32
  | BufferSize u32 u32

subsection \<open>Operations\<close>

definition ReorderBuffer_new :: "'p ReorderBuffer" where
  "ReorderBuffer_new =
     \<lparr>m_buffer = [], m_permanentGaps = [], m_permanentGapHeaders = [], m_expectedSeq = 0,
      m_maxBufferSize = 1024, m_deliveryCallback = None, m_permanentGapCallback = None,
      m_reorderEventCount = 0, m_maxOccupancy = 0\<rparr>"

definition SetExpectedSequence :: "'p ReorderBuffer \<Rightarrow> u32 \<Rightarrow> 'p ReorderBuffer" where
  "SetExpectedSequence rb seqNum = rb\<lparr>m_expectedSeq := seqNum\<rparr>"

definition HasReadyPackets :: "'p ReorderBuffer \<Rightarrow> bool" where
  "HasReadyPackets rb =
     (case omap_find (m_buffer rb) (m_expectedSeq rb) of
        None \<Rightarrow> False
      | Some e \<Rightarrow> \<not> delivered e)"

text \<open>The clean-up loop at the front of the buffer stops at the first entry that stays.\<close>

definition drop_delivered ::
  "u32 \<Rightarrow> (u32, 'p ReorderEntry) omap \<Rightarrow> (u32, 'p ReorderEntry) omap" where
  "drop_delivered expected buf = dropWhile (\<lambda>(k, e). delivered e \<and> k < expected) buf"

definition GetNextPacket ::
  "'p ReorderBuffer \<Rightarrow> ('p \<times> FabricHeader) option \<times> 'p ReorderBuffer \<times> 'p reorder_event list" where
  "GetNextPacket rb =
     (case omap_find (m_buffer rb) (m_expectedSeq rb) of
        None \<Rightarrow> (None, rb, [])
      | Some e \<Rightarrow>
          if delivered e then (None, rb, [])
          else let seq = m_expectedSeq rb;
                   expected = seq + 1;
                   buf = omap_put seq (e\<lparr>delivered := True\<rparr>) (m_buffer rb)
               in (Some (packet e, header e),
                   rb\<lparr>m_buffer := drop_delivered expected buf,
                      m_permanentGaps := dropWhile (\<lambda>g. g < expected) (m_permanentGaps rb),
                      m_expectedSeq := expected\<rparr>,
                   [PacketDelivered seq]))"

definition GetBufferSize :: "'p ReorderBuffer \<Rightarrow> u32" where
  "GetBufferSize rb = of_nat (length (m_buffer rb))"

definition GetExpectedSequence :: "'p ReorderBuffer \<Rightarrow> u32" where
  "GetExpectedSequence rb = m_expectedSeq rb"

definition IsDuplicate :: "'p ReorderBuffer \<Rightarrow> u32 \<Rightarrow> bool" where
  "IsDuplicate rb seqNum =
     (if seqNum < m_expectedSeq rb then True else omap_find (m_buffer rb) seqNum \<noteq> None)"

definition SetMaxBufferSize :: "'p ReorderBuffer \<Rightarrow> u32 \<Rightarrow> 'p ReorderBuffer" where
  "SetMaxBufferSize rb sz = rb\<lparr>m_maxBufferSize := sz\<rparr>"

definition MarkPermanentGap :: "'p ReorderBuffer \<Rightarrow> u32 \<Rightarrow> FabricHeader \<Rightarrow> 'p ReorderBuffer" where
  "MarkPermanentGap rb seqNum hdr =
     rb\<lparr>m_permanentGaps := oset_insert seqNum (m_permanentGaps rb),
        m_permanentGapHeaders := omap_put seqNum hdr (m_permanentGapHeaders rb)\<rparr>"

definition ReorderBuffer_Clear :: "'p ReorderBuffer \<Rightarrow> 'p ReorderBuffer" where
  "ReorderBuffer_Clear rb = rb\<lparr>m_buffer := [], m_permanentGaps := [], m_permanentGapHeaders := []\<rparr>"

definition SetPacketDeliveryCallback :: "'p ReorderBuffer \<Rightarrow> callback option \<Rightarrow> 'p ReorderBuffer" where
  "SetPacketDeliveryCallback rb cb = rb\<lparr>m_deliveryCallback := cb\<rparr>"

definition SetPermanentGapCallback :: "'p ReorderBuffer \<Rightarrow> callback option \<Rightarrow> 'p ReorderBuffer" where
  "SetPermanentGapCallback rb cb = rb\<lparr>m_permanentGapCallback := cb\<rparr>"

text \<open>The loop that crosses consecutive gaps.\<close>

fun advance_loop ::
  "nat \<Rightarrow> 'p ReorderBuffer \<Rightarrow> ('p ReorderBuffer \<times> 'p reorder_event list) option" where
  "advance_loop 0 rb = None"
| "advance_loop (Suc n) rb =
     (if m_expectedSeq rb \<in> set (m_permanentGaps rb) then
        let seq = m_expectedSeq rb;
            evs = (case omap_find (m_permanentGapHeaders rb) seq of
                     Some h \<Rightarrow> if m_permanentGapCallback rb \<noteq> None then [GapCrossed seq h] else []
                   | None \<Rightarrow> [])
        in map_option (\<lambda>(rb', evs'). (rb', evs @ evs'))
             (advance_loop n (rb\<lparr>m_expectedSeq := seq + 1\<rparr>))
      else Some (rb, []))"

text \<open>The two clean-up loops behind the expected sequence number.\<close>

definition drop_stale_gaps :: "'p ReorderBuffer \<Rightarrow> 'p ReorderBuffer" where
  "drop_stale_gaps rb =
     (let expected = m_expectedSeq rb;
          stale = takeWhile (\<lambda>g. g < expected) (m_permanentGaps rb);
          hdrs = fold omap_erase stale (m_permanentGapHeaders rb)
      in rb\<lparr>m_permanentGaps := dropWhile (\<lambda>g. g < expected) (m_permanentGaps rb),
            m_permanentGapHeaders := filter (\<lambda>(k, h). \<not> k < expected) hdrs\<rparr>)"

definition AdvancePastPermanentGaps ::
  "'p ReorderBuffer \<Rightarrow> ('p ReorderBuffer \<times> 'p reorder_event list) option" where
  "AdvancePastPermanentGaps rb =
     map_option (\<lambda>(rb', evs). (drop_stale_gaps rb', evs))
       (advance_loop (Suc (length (m_permanentGaps rb))) rb)"

fun deliver_loop ::
  "nat \<Rightarrow> 'p ReorderBuffer \<Rightarrow> ('p ReorderBuffer \<times> 'p reorder_event list) option" where
  "deliver_loop 0 rb = None"
| "deliver_loop (Suc n) rb =
     (if HasReadyPackets rb then
        case GetNextPacket rb of
          (None, rb1, evs1) \<Rightarrow> deliver_loop n rb1
        | (Some (p, h), rb1, evs1) \<Rightarrow> do {
            (rb2, evs2) \<leftarrow> AdvancePastPermanentGaps rb1;
            (rb3, evs3) \<leftarrow> deliver_loop n rb2;
            Some (rb3, evs1 @ [Deliver p (m_expectedSeq rb1 - 1) h] @ evs2 @ evs3)
          }
      else Some (rb, []))"

definition DeliverReadyPackets ::
  "'p ReorderBuffer \<Rightarrow> ('p ReorderBuffer \<times> 'p reorder_event list) option" where
  "DeliverReadyPackets rb =
     (if m_deliveryCallback rb = None then Some (rb, [])
      else do {
        (rb1, evs1) \<leftarrow> AdvancePastPermanentGaps rb;
        (rb2, evs2) \<leftarrow> deliver_loop (Suc (length (m_buffer rb1))) rb1;
        let oldSize = (of_nat (length (m_buffer rb)) :: u32);
        let newSize = (of_nat (length (m_buffer rb2)) :: u32);
        Some (rb2, evs1 @ evs2 @ (if oldSize \<noteq> newSize then [BufferSize oldSize newSize] else []))
      })"

definition ReorderBuffer_Insert ::
  "'p ReorderBuffer \<Rightarrow> u32 \<Rightarrow> 'p \<Rightarrow> FabricHeader \<Rightarrow>
     ('p ReorderBuffer \<times> 'p reorder_event list \<times> bool) option" where
  "ReorderBuffer_Insert rb seqNum pkt hdr =
     (let entry = \<lparr>sequenceNumber = seqNum, packet = pkt, header = hdr, delivered = False\<rparr>
      in if IsDuplicate rb seqNum then Some (rb, [], False)
         else if seqNum = m_expectedSeq rb then
           map_option (\<lambda>(rb', evs). (rb', evs, True))
             (DeliverReadyPackets (rb\<lparr>m_buffer := omap_put seqNum entry (m_buffer rb)\<rparr>))
         else if seqNum > m_expectedSeq rb then
           if length (m_buffer rb) \<ge> unat (m_maxBufferSize rb) then Some (rb, [], False)
           else let buf = omap_put seqNum entry (m_buffer rb);
                    rb' = rb\<lparr>m_reorderEventCount := m_reorderEventCount rb + 1, m_buffer := buf\<rparr>
                in Some (if (of_nat (length buf) :: u32) > m_maxOccupancy rb'
                         then rb'\<lparr>m_maxOccupancy := of_nat (length buf)\<rparr> else rb', [], True)
         else Some (rb, [], False))"

text \<open>The buffer an endpoint creates for a new flow (\<open>GetOrCreateReorderBuffer\<close>).\<close>

definition endpoint_reorder_buffer :: "callback \<Rightarrow> callback \<Rightarrow> 'p ReorderBuffer" where
  "endpoint_reorder_buffer onDelivered onGap =
     SetPermanentGapCallback (SetPacketDeliveryCallback ReorderBuffer_new (Some onDelivered)) (Some onGap)"

declare advance_loop.simps(2) [simp del] deliver_loop.simps(2) [simp del]

subsection \<open>Well-formedness and the abstract view\<close>

abbreviation buffered :: "'p ReorderBuffer \<Rightarrow> u32 set" where
  "buffered rb \<equiv> fst ` set (m_buffer rb)"

abbreviation gaps :: "'p ReorderBuffer \<Rightarrow> u32 set" where
  "gaps rb \<equiv> set (m_permanentGaps rb)"

text \<open>The containers are well formed and every gap has its header.\<close>

definition rb_wf :: "'p ReorderBuffer \<Rightarrow> bool" where
  "rb_wf rb =
     (omap_wf (m_buffer rb) \<and> oset_wf (m_permanentGaps rb) \<and> omap_wf (m_permanentGapHeaders rb)
      \<and> (\<forall>g \<in> gaps rb. omap_find (m_permanentGapHeaders rb) g \<noteq> None)
      \<and> length (m_permanentGaps rb) < 2 ^ 32)"

text \<open>
  The state between operations: parked packets lie at or above the expected sequence
  number and are undelivered, none of them was declared lost, and the sequence space does
  not wrap.
\<close>

definition rb_inv :: "'p ReorderBuffer \<Rightarrow> bool" where
  "rb_inv rb =
     (rb_wf rb
      \<and> (\<forall>(k, e) \<in> set (m_buffer rb). m_expectedSeq rb \<le> k \<and> sequenceNumber e = k \<and> \<not> delivered e)
      \<and> buffered rb \<inter> gaps rb = {}
      \<and> (\<forall>k \<in> buffered rb \<union> gaps rb. unat k < 2 ^ 32 - 1))"

text \<open>What leaves the buffer in sequence order.\<close>

fun crossing :: "'p reorder_event \<Rightarrow> u32 list" where
  "crossing (Deliver p s h) = [s]"
| "crossing (GapCrossed s h) = [s]"
| "crossing _ = []"

definition crossings :: "'p reorder_event list \<Rightarrow> u32 list" where
  "crossings evs = concat (map crossing evs)"

fun visible :: "'p reorder_event \<Rightarrow> bool" where
  "visible (Deliver p s h) = True"
| "visible (GapCrossed s h) = True"
| "visible _ = False"

text \<open>What happens when the expected sequence number passes \<open>s\<close>.\<close>

definition ev_at :: "'p ReorderBuffer \<Rightarrow> u32 \<Rightarrow> 'p reorder_event" where
  "ev_at rb s =
     (case omap_find (m_buffer rb) s of
        Some x \<Rightarrow> Deliver (packet x) s (header x)
      | None \<Rightarrow> GapCrossed s (case omap_find (m_permanentGapHeaders rb) s of Some h \<Rightarrow> h))"

lemma crossings_simps [simp]:
  "crossings [] = []" "crossings (ev # evs) = crossing ev @ crossings evs"
  "crossings (evs @ evs') = crossings evs @ crossings evs'"
  by (simp_all add: crossings_def)

subsection \<open>The loops stop\<close>

lemma advance_loop_None:
  "advance_loop n rb = None \<Longrightarrow> i < n \<Longrightarrow> m_expectedSeq rb + of_nat i \<in> gaps rb"
proof (induction n rb arbitrary: i rule: advance_loop.induct)
  case (2 n rb)
  then have e: "m_expectedSeq rb \<in> gaps rb"
    and rec: "advance_loop n (rb\<lparr>m_expectedSeq := m_expectedSeq rb + 1\<rparr>) = None"
    by (auto simp: Let_def advance_loop.simps(2) split: if_splits)
  show ?case
  proof (cases i)
    case (Suc j)
    with "2.prems"(2) "2.IH" [OF e refl refl rec, of j] show ?thesis
      by (simp add: add.assoc)
  qed (use e in simp)
qed simp

lemma word_offsets_inj:
  "inj_on (\<lambda>i. (e :: u32) + of_nat i) {..<n}" if "n \<le> 2 ^ 32"
proof (rule inj_onI)
  fix i j assume ij: "i \<in> {..<n}" "j \<in> {..<n}" and "e + of_nat i = e + of_nat j"
  then have "(of_nat i :: u32) = of_nat j" by simp
  moreover from ij that have "i < 2 ^ 32" "j < 2 ^ 32" by auto
  ultimately show "i = j"
    by (simp add: word_unat_eq_iff unat_of_nat)
qed

lemma advance_loop_enough:
  assumes "length (m_permanentGaps rb) < 2 ^ 32"
  shows "advance_loop (Suc (length (m_permanentGaps rb))) rb \<noteq> None"
proof
  let ?n = "Suc (length (m_permanentGaps rb))"
  assume "advance_loop ?n rb = None"
  from advance_loop_None [OF this]
  have "(\<lambda>i. m_expectedSeq rb + of_nat i) ` {..<?n} \<subseteq> gaps rb" by auto
  then have "card ((\<lambda>i. m_expectedSeq rb + of_nat i) ` {..<?n}) \<le> card (gaps rb)"
    by (intro card_mono) auto
  moreover have "card ((\<lambda>i. m_expectedSeq rb + of_nat i) ` {..<?n}) = ?n"
    using assms by (subst card_image [OF word_offsets_inj]) auto
  ultimately show False
    using card_length [of "m_permanentGaps rb"] by simp
qed





text \<open>The frame of one call: only the four fields of the buffer's contents change.\<close>

definition same_settings :: "'p ReorderBuffer \<Rightarrow> 'p ReorderBuffer \<Rightarrow> bool" where
  "same_settings rb rb' =
     (rb' = rb\<lparr>m_buffer := m_buffer rb', m_permanentGaps := m_permanentGaps rb',
               m_permanentGapHeaders := m_permanentGapHeaders rb',
               m_expectedSeq := m_expectedSeq rb'\<rparr>)"

lemma same_settings_trans: "same_settings a b \<Longrightarrow> same_settings b c \<Longrightarrow> same_settings a c"
  by (cases a; cases b; cases c) (simp add: same_settings_def)

lemma same_settings_refl [simp]: "same_settings a a"
  by (simp add: same_settings_def)

lemma same_settingsD:
  "same_settings a b \<Longrightarrow> m_deliveryCallback b = m_deliveryCallback a"
  "same_settings a b \<Longrightarrow> m_permanentGapCallback b = m_permanentGapCallback a"
  "same_settings a b \<Longrightarrow> m_maxBufferSize b = m_maxBufferSize a"
  by (cases a; cases b; simp add: same_settings_def)+

subsection \<open>Crossing sequence numbers\<close>

text \<open>
  \<open>crosses rb n rb' evs\<close>: the expected sequence number moved past exactly \<open>n\<close>
  pending sequence numbers, each of which showed the event it should, and everything
  above stayed as it was.
\<close>

definition crosses ::
  "'p ReorderBuffer \<Rightarrow> nat \<Rightarrow> 'p ReorderBuffer \<Rightarrow> 'p reorder_event list \<Rightarrow> bool" where
  "crosses rb n rb' evs =
     (let e = m_expectedSeq rb; e' = e + of_nat n
      in unat e + n < 2 ^ 32 \<and> m_expectedSeq rb' = e'
         \<and> (\<forall>i < n. e + of_nat i \<in> buffered rb \<union> gaps rb)
         \<and> m_buffer rb' = filter (\<lambda>x. e' \<le> fst x) (m_buffer rb)
         \<and> filter (\<lambda>g. e' \<le> g) (m_permanentGaps rb') = filter (\<lambda>g. e' \<le> g) (m_permanentGaps rb)
         \<and> (\<forall>s. e' \<le> s \<longrightarrow> omap_find (m_permanentGapHeaders rb') s = omap_find (m_permanentGapHeaders rb) s)
         \<and> filter visible evs = map (\<lambda>i. ev_at rb (e + of_nat i)) [0..<n]
         \<and> same_settings rb rb' \<and> rb_inv rb')"

lemma unat_offset: "unat (e :: u32) + n < 2 ^ 32 \<Longrightarrow> unat (e + of_nat n) = unat e + n"
  by (simp add: unat_word_ariths unat_of_nat mod_add_right_eq)

lemma offset_le: "unat (e :: u32) + n < 2 ^ 32 \<Longrightarrow> e \<le> e + of_nat n"
  by (simp add: word_le_nat_alt unat_offset del: of_nat_add)

lemma offset_mono: "unat (e :: u32) + n < 2 ^ 32 \<Longrightarrow> m \<le> n \<Longrightarrow> e + of_nat m \<le> e + of_nat n"
  by (simp add: word_le_nat_alt unat_offset)

lemma filter_le_absorb:
  "(a :: 'a::order) \<le> b \<Longrightarrow> filter (\<lambda>x. b \<le> f x) (filter (\<lambda>x. a \<le> f x) xs) = filter (\<lambda>x. b \<le> f x) xs"
  by (auto simp: filter_filter intro: filter_cong order_trans)

lemma ev_at_crossed:
  assumes "crosses rb n rb' evs" and "m_expectedSeq rb' \<le> s"
  shows "ev_at rb' s = ev_at rb s"
  using assms by (auto simp: ev_at_def crosses_def Let_def omap_find_filter [of "\<lambda>k. _ \<le> k"]
      split: option.splits)

lemma crosses_trans:
  assumes c1: "crosses rb n rb1 evs1" and c2: "crosses rb1 m rb2 evs2"
  shows "crosses rb (n + m) rb2 (evs1 @ evs2)"
proof -
  let ?e = "m_expectedSeq rb" and ?e1 = "m_expectedSeq rb1" and ?e2 = "m_expectedSeq rb2"
  have e1: "?e1 = ?e + of_nat n" "unat ?e + n < 2 ^ 32" using c1 by (simp_all add: crosses_def Let_def)
  have e2: "?e2 = ?e1 + of_nat m" "unat ?e1 + m < 2 ^ 32" using c2 by (simp_all add: crosses_def Let_def)
  have e12: "?e2 = ?e + of_nat (n + m)" using e1 e2 by (simp add: add.assoc)
  have bound: "unat ?e + (n + m) < 2 ^ 32"
    using e2(2) unfolding e1(1) unat_offset [OF e1(2)] by simp
  have le: "?e1 \<le> ?e2" using offset_le [OF e2(2)] e2(1) by simp
  have pend: "?e + of_nat i \<in> buffered rb \<union> gaps rb" if "i < n + m" for i
  proof (cases "i < n")
    case True
    with c1 show ?thesis by (simp add: crosses_def Let_def)
  next
    case False
    define j where "j = i - n"
    with False that have j: "i = n + j" "j < m" by auto
    let ?s = "?e1 + of_nat j"
    have s: "?e + of_nat i = ?s" using j e1 by (simp add: add.assoc)
    have "?e1 \<le> ?s" using e2(2) j(2) by (intro offset_le) simp
    moreover have "?s \<in> buffered rb1 \<union> gaps rb1" using c2 j(2) by (simp add: crosses_def Let_def)
    moreover have "x \<in> gaps rb" if "x \<in> gaps rb1" "?e1 \<le> x" for x
    proof -
      have "x \<in> set (filter (\<lambda>g. ?e1 \<le> g) (m_permanentGaps rb1))" using that by simp
      also have "\<dots> = set (filter (\<lambda>g. ?e1 \<le> g) (m_permanentGaps rb))"
        using c1 by (simp add: crosses_def Let_def)
      finally show ?thesis by simp
    qed
    moreover have "buffered rb1 \<subseteq> buffered rb" using c1 by (auto simp: crosses_def Let_def)
    ultimately show ?thesis unfolding s by auto
  qed
  have evs: "map (\<lambda>j. ev_at rb1 (?e1 + of_nat j)) [0..<m] = map (\<lambda>i. ev_at rb (?e + of_nat i)) [n..<n + m]"
  proof (rule nth_equalityI)
    fix j assume "j < length (map (\<lambda>j. ev_at rb1 (?e1 + of_nat j)) [0..<m])"
    then have "j < m" by simp
    then have "ev_at rb1 (?e1 + of_nat j) = ev_at rb (?e1 + of_nat j)"
      using e2(2) by (intro ev_at_crossed [OF c1] offset_le) simp
    with \<open>j < m\<close> e1(1) show "map (\<lambda>j. ev_at rb1 (?e1 + of_nat j)) [0..<m] ! j =
        map (\<lambda>i. ev_at rb (?e + of_nat i)) [n..<n + m] ! j"
      by (simp add: add.assoc)
  qed simp
  have buf: "m_buffer rb2 = filter (\<lambda>x. ?e2 \<le> fst x) (m_buffer rb)"
    using c1 c2 filter_le_absorb [OF le, of fst "m_buffer rb"] by (simp add: crosses_def Let_def)
  have gap: "filter (\<lambda>g. ?e2 \<le> g) (m_permanentGaps rb2) = filter (\<lambda>g. ?e2 \<le> g) (m_permanentGaps rb)"
    using c1 c2 filter_le_absorb [OF le, of id "m_permanentGaps rb"]
      filter_le_absorb [OF le, of id "m_permanentGaps rb1"] by (simp add: crosses_def Let_def)
  have hdr: "omap_find (m_permanentGapHeaders rb2) s = omap_find (m_permanentGapHeaders rb) s" if "?e2 \<le> s" for s
    using c1 c2 that order_trans [OF le that] by (simp add: crosses_def Let_def)
  have vis: "filter visible (evs1 @ evs2) = map (\<lambda>i. ev_at rb (?e + of_nat i)) [0..<n + m]"
    using c1 c2 evs by (simp add: crosses_def Let_def upt_add_eq_append [of 0 n m])
  have frame: "same_settings rb rb2" "rb_inv rb2"
    using c1 c2 same_settings_trans by (auto simp: crosses_def Let_def)
  show ?thesis
    unfolding crosses_def Let_def e12 [symmetric]
    using bound pend buf gap hdr vis frame by blast
qed

lemma crosses_refl: "rb_inv rb \<Longrightarrow> crosses rb 0 rb []"
proof -
  assume inv: "rb_inv rb"
  then have "filter (\<lambda>x. m_expectedSeq rb \<le> fst x) (m_buffer rb) = m_buffer rb"
    by (intro filter_True) (auto simp: rb_inv_def)
  with inv show ?thesis
    using unsigned_less [of "m_expectedSeq rb", where ?'a = nat] by (simp add: crosses_def)
qed

lemma crossesD:
  assumes "crosses rb n rb' evs"
  shows "rb_inv rb'" "same_settings rb rb'" "m_expectedSeq rb' = m_expectedSeq rb + of_nat n"
    and "unat (m_expectedSeq rb) + n < 2 ^ 32"
    and "m_buffer rb' = filter (\<lambda>x. m_expectedSeq rb' \<le> fst x) (m_buffer rb)"
    and "filter visible evs = map (\<lambda>i. ev_at rb (m_expectedSeq rb + of_nat i)) [0..<n]"
    and "\<forall>i < n. m_expectedSeq rb + of_nat i \<in> buffered rb \<union> gaps rb"
  using assms by (auto simp: crosses_def Let_def)

lemma succ_seq:
  assumes "unat (e :: u32) < 2 ^ 32 - 1"
  shows "e < e + 1" "e < k \<Longrightarrow> e + 1 \<le> k" "unat e + 1 < 2 ^ 32" "e + 1 \<le> k \<Longrightarrow> e < k"
proof -
  have un: "unat (e + 1) = unat e + 1" using unat_offset [of e 1] assms by simp
  show "e < e + 1" "e < k \<Longrightarrow> e + 1 \<le> k" "e + 1 \<le> k \<Longrightarrow> e < k"
    by (simp_all add: word_less_nat_alt word_le_nat_alt un)
  show "unat e + 1 < 2 ^ 32" using assms by simp
qed

lemma cross_gap:
  assumes inv: "rb_inv rb" and e: "m_expectedSeq rb \<in> gaps rb"
    and h: "omap_find (m_permanentGapHeaders rb) (m_expectedSeq rb) = Some h"
  shows "crosses rb 1 (rb\<lparr>m_expectedSeq := m_expectedSeq rb + 1\<rparr>) [GapCrossed (m_expectedSeq rb) h]"
proof -
  let ?e = "m_expectedSeq rb"
  have lt: "unat ?e < 2 ^ 32 - 1" using inv e by (auto simp: rb_inv_def)
  have notbuf: "?e \<notin> buffered rb" using inv e by (auto simp: rb_inv_def)
  have above: "?e + 1 \<le> k" if "k \<in> buffered rb" for k
  proof -
    have "k \<noteq> ?e" using that notbuf by blast
    moreover have "?e \<le> k" using that inv by (auto simp: rb_inv_def)
    ultimately show ?thesis using succ_seq(2) [OF lt] by simp
  qed
  have buf: "filter (\<lambda>x. ?e + 1 \<le> fst x) (m_buffer rb) = m_buffer rb"
    using above by (intro filter_True) auto
  have none: "omap_find (m_buffer rb) ?e = None"
    using notbuf omap_find_in_keys by blast
  have inv': "rb_inv (rb\<lparr>m_expectedSeq := ?e + 1\<rparr>)"
    using inv above by (force simp: rb_inv_def rb_wf_def)
  show ?thesis
    using lt e h none buf inv' succ_seq [OF lt]
    by (simp add: crosses_def ev_at_def same_settings_def)
qed

lemma advance_loop_crosses:
  assumes "advance_loop n rb = Some (rb', evs)" "rb_inv rb" "m_permanentGapCallback rb \<noteq> None"
  shows "\<exists>k. crosses rb k rb' evs \<and> m_expectedSeq rb' \<notin> gaps rb'"
  using assms
proof (induction n rb arbitrary: evs rule: advance_loop.induct)
  case (2 n rb)
  show ?case
  proof (cases "m_expectedSeq rb \<in> gaps rb")
    case True
    then obtain h where h: "omap_find (m_permanentGapHeaders rb) (m_expectedSeq rb) = Some h"
      using "2.prems"(2) by (auto simp: rb_inv_def rb_wf_def)
    let ?rb1 = "rb\<lparr>m_expectedSeq := m_expectedSeq rb + 1\<rparr>"
    from True h "2.prems"(1,3) obtain evs' where
      rec: "advance_loop n ?rb1 = Some (rb', evs')" and evs: "evs = GapCrossed (m_expectedSeq rb) h # evs'"
      by (auto simp: advance_loop.simps(2) Let_def)
    note c1 = cross_gap [OF "2.prems"(2) True h]
    from "2.IH" [OF True refl refl rec crossesD(1) [OF c1]] "2.prems"(3)
    obtain k where "crosses ?rb1 k rb' evs'" "m_expectedSeq rb' \<notin> gaps rb'" by auto
    with crosses_trans [OF c1] evs show ?thesis by fastforce
  next
    case False
    with "2.prems" crosses_refl show ?thesis by (auto simp: advance_loop.simps(2))
  qed
qed simp

lemma stale_headers_find:
  "e \<le> s \<Longrightarrow> (\<forall>g \<in> set stale. g < e) \<Longrightarrow>
   omap_find (fold omap_erase stale m) s = omap_find m s"
  by (induction stale arbitrary: m) (auto simp: omap_find_erase)

lemma stale_headers_wf: "omap_wf m \<Longrightarrow> omap_wf (fold omap_erase stale m)"
  by (induction stale arbitrary: m) (auto simp: ost.invar_erase)

lemma drop_stale_gaps_fields [simp]:
  "m_buffer (drop_stale_gaps rb) = m_buffer rb"
  "m_expectedSeq (drop_stale_gaps rb) = m_expectedSeq rb"
  "same_settings rb (drop_stale_gaps rb)"
  by (simp_all add: drop_stale_gaps_def same_settings_def Let_def)

lemma drop_stale_gaps_headers:
  "m_expectedSeq rb \<le> s \<Longrightarrow>
   omap_find (m_permanentGapHeaders (drop_stale_gaps rb)) s = omap_find (m_permanentGapHeaders rb) s"
proof -
  assume le: "m_expectedSeq rb \<le> s"
  let ?stale = "takeWhile (\<lambda>g. g < m_expectedSeq rb) (m_permanentGaps rb)"
  have "omap_find (m_permanentGapHeaders (drop_stale_gaps rb)) s =
        omap_find (filter (\<lambda>e. \<not> fst e < m_expectedSeq rb) (fold omap_erase ?stale (m_permanentGapHeaders rb))) s"
    by (simp add: drop_stale_gaps_def Let_def case_prod_unfold)
  also have "\<dots> = omap_find (fold omap_erase ?stale (m_permanentGapHeaders rb)) s"
    using le by (intro omap_find_filter) simp
  also have "\<dots> = omap_find (m_permanentGapHeaders rb) s"
    using le by (intro stale_headers_find) (auto dest: set_takeWhileD)
  finally show ?thesis .
qed

lemma drop_stale_gaps_gaps:
  "oset_wf (m_permanentGaps rb) \<Longrightarrow>
   m_permanentGaps (drop_stale_gaps rb) = filter (\<lambda>g. m_expectedSeq rb \<le> g) (m_permanentGaps rb)"
  by (simp add: drop_stale_gaps_def Let_def dropWhile_below_oset not_less)

lemma drop_stale_gaps_wf: "rb_wf rb \<Longrightarrow> rb_wf (drop_stale_gaps rb)"
proof -
  assume wf: "rb_wf rb"
  then have g: "m_permanentGaps (drop_stale_gaps rb) = filter (\<lambda>g. m_expectedSeq rb \<le> g) (m_permanentGaps rb)"
    by (simp add: drop_stale_gaps_gaps rb_wf_def)
  have "length (filter (\<lambda>g. m_expectedSeq rb \<le> g) (m_permanentGaps rb)) < 2 ^ 32"
    using wf le_less_trans [OF length_filter_le] by (auto simp: rb_wf_def)
  moreover have "omap_wf (m_permanentGapHeaders (drop_stale_gaps rb))"
    using wf by (simp add: drop_stale_gaps_def Let_def rb_wf_def omap_wf_filter stale_headers_wf)
  ultimately show ?thesis
    using wf drop_stale_gaps_headers [of rb] by (auto simp: rb_wf_def g oset_wf_filter)
qed

lemma drop_stale_crosses:
  assumes inv: "rb_inv rb"
  shows "crosses rb 0 (drop_stale_gaps rb) []"
proof -
  have wf: "oset_wf (m_permanentGaps rb)" using inv by (simp add: rb_inv_def rb_wf_def)
  have "rb_inv (drop_stale_gaps rb)"
    using inv drop_stale_gaps_wf [of rb] by (auto simp: rb_inv_def drop_stale_gaps_gaps [OF wf])
  with crosses_refl [OF inv] show ?thesis
    by (simp add: crosses_def Let_def drop_stale_gaps_headers drop_stale_gaps_gaps [OF wf])
qed

lemma Advance_crosses:
  assumes inv: "rb_inv rb" and cb: "m_permanentGapCallback rb \<noteq> None"
  obtains k rb' evs where "AdvancePastPermanentGaps rb = Some (rb', evs)" "crosses rb k rb' evs"
    and "m_expectedSeq rb' \<notin> gaps rb'"
proof -
  have "advance_loop (Suc (length (m_permanentGaps rb))) rb \<noteq> None"
    using inv by (intro advance_loop_enough) (simp add: rb_inv_def rb_wf_def)
  then obtain rb1 evs where l: "advance_loop (Suc (length (m_permanentGaps rb))) rb = Some (rb1, evs)"
    by auto
  from advance_loop_crosses [OF l inv cb] obtain k where
    c: "crosses rb k rb1 evs" and e: "m_expectedSeq rb1 \<notin> gaps rb1" by blast
  have wf: "oset_wf (m_permanentGaps rb1)" using crossesD(1) [OF c] by (simp add: rb_inv_def rb_wf_def)
  from crosses_trans [OF c drop_stale_crosses [OF crossesD(1) [OF c]]]
  have "crosses rb k (drop_stale_gaps rb1) evs" by simp
  moreover have "AdvancePastPermanentGaps rb = Some (drop_stale_gaps rb1, evs)"
    by (simp add: AdvancePastPermanentGaps_def l)
  moreover have "m_expectedSeq (drop_stale_gaps rb1) \<notin> gaps (drop_stale_gaps rb1)"
    using e by (simp add: drop_stale_gaps_gaps [OF wf])
  ultimately show thesis using that by blast
qed

lemma expected_at_front:
  assumes inv: "rb_inv rb" and find: "omap_find (m_buffer rb) (m_expectedSeq rb) = Some x"
  obtains m where "m_buffer rb = (m_expectedSeq rb, x) # m"
proof -
  let ?e = "m_expectedSeq rb"
  have wf: "omap_wf (m_buffer rb)" using inv by (simp add: rb_inv_def rb_wf_def)
  then have mem: "(?e, x) \<in> set (m_buffer rb)" using find by (simp add: omap_mem_iff)
  then obtain k y m where b: "m_buffer rb = (k, y) # m" by (cases "m_buffer rb") auto
  have "?e \<le> k" using inv b by (simp add: rb_inv_def)
  moreover have "k \<le> ?e" using wf mem b by force
  ultimately have "k = ?e" by simp
  with find b have "y = x" by simp
  with b \<open>k = ?e\<close> that show thesis by simp
qed

lemma GetNextPacket_crosses:
  assumes inv: "rb_inv rb" and find: "omap_find (m_buffer rb) (m_expectedSeq rb) = Some x"
  obtains rb1 where "GetNextPacket rb = (Some (packet x, header x), rb1, [PacketDelivered (m_expectedSeq rb)])"
    and "m_expectedSeq rb1 = m_expectedSeq rb + 1"
    and "crosses rb 1 rb1 [PacketDelivered (m_expectedSeq rb), Deliver (packet x) (m_expectedSeq rb) (header x)]"
proof -
  let ?e = "m_expectedSeq rb"
  from expected_at_front [OF inv find] obtain m where b: "m_buffer rb = (?e, x) # m" .
  have wf: "omap_wf (m_buffer rb)" and gwf: "oset_wf (m_permanentGaps rb)"
    using inv by (simp_all add: rb_inv_def rb_wf_def)
  have lt: "unat ?e < 2 ^ 32 - 1" and fresh: "\<not> delivered x" using inv b by (auto simp: rb_inv_def)
  note succ = succ_seq [OF lt]
  have above: "?e + 1 \<le> k \<and> \<not> delivered y" if "(k, y) \<in> set m" for k y
    using that wf b inv by (force simp: rb_inv_def intro: succ(2))
  have m: "filter (\<lambda>x. ?e + 1 \<le> fst x) (m_buffer rb) = m"
    using above succ(1) b by (auto simp: filter_id_conv)
  have drop: "drop_delivered (?e + 1) ((?e, x\<lparr>delivered := True\<rparr>) # m) = m"
    using succ(1) above by (cases m) (auto simp: drop_delivered_def)
  let ?g = "filter (\<lambda>g. ?e + 1 \<le> g) (m_permanentGaps rb)"
  let ?rb1 = "rb\<lparr>m_buffer := m, m_permanentGaps := ?g, m_expectedSeq := ?e + 1\<rparr>"
  have get: "GetNextPacket rb = (Some (packet x, header x), ?rb1, [PacketDelivered ?e])"
    using find fresh b drop by (simp add: GetNextPacket_def Let_def dropWhile_below_oset [OF gwf] not_less)
  have "length ?g < 2 ^ 32"
    using inv le_less_trans [OF length_filter_le] by (auto simp: rb_inv_def rb_wf_def)
  then have "rb_inv ?rb1"
    using inv b wf above by (auto simp: rb_inv_def rb_wf_def oset_wf_filter)
  then have "crosses rb 1 ?rb1 [PacketDelivered ?e, Deliver (packet x) ?e (header x)]"
    using m find b succ(3) by (simp add: crosses_def Let_def ev_at_def same_settings_def)
  with get that show thesis by simp
qed

lemma rb_inv_find:
  "rb_inv rb \<Longrightarrow> omap_find (m_buffer rb) k = Some x \<Longrightarrow>
   m_expectedSeq rb \<le> k \<and> sequenceNumber x = k \<and> \<not> delivered x"
  using omap_mem_iff [of "m_buffer rb" k x] by (force simp: rb_inv_def rb_wf_def)

lemma crosses_drains:
  assumes c: "crosses rb n rb' evs" and "0 < n" and mem: "m_expectedSeq rb \<in> buffered rb"
  shows "length (m_buffer rb') < length (m_buffer rb)"
proof -
  obtain x where x: "(m_expectedSeq rb, x) \<in> set (m_buffer rb)" using mem by auto
  have "\<not> m_expectedSeq rb' \<le> m_expectedSeq rb"
    using crossesD(3,4) [OF c] assms(2) by (simp add: word_le_nat_alt unat_offset not_le)
  with length_filter_less [OF x, of "\<lambda>y. m_expectedSeq rb' \<le> fst y"] crossesD(5) [OF c]
  show ?thesis by simp
qed

lemma HasReady_inv:
  "rb_inv rb \<Longrightarrow> HasReadyPackets rb \<longleftrightarrow> omap_find (m_buffer rb) (m_expectedSeq rb) \<noteq> None"
  using rb_inv_find by (auto simp: HasReadyPackets_def split: option.splits)

lemma deliver_loop_crosses:
  assumes "rb_inv rb" "m_permanentGapCallback rb \<noteq> None" "length (m_buffer rb) < n"
    and "m_expectedSeq rb \<notin> gaps rb"
  shows "\<exists>k rb' evs. deliver_loop n rb = Some (rb', evs) \<and> crosses rb k rb' evs
           \<and> m_expectedSeq rb' \<notin> buffered rb' \<union> gaps rb'"
  using assms
proof (induction n arbitrary: rb)
  case (Suc n)
  note inv = Suc.prems(1)
  show ?case
  proof (cases "omap_find (m_buffer rb) (m_expectedSeq rb)")
    case None
    then show ?thesis
      using crosses_refl [OF inv] Suc.prems(4) HasReady_inv [OF inv] omap_find_in_keys [of "m_buffer rb"]
      by (fastforce simp: deliver_loop.simps(2))
  next
    case (Some x)
    from GetNextPacket_crosses [OF inv Some] obtain rb1 where
      get: "GetNextPacket rb = (Some (packet x, header x), rb1, [PacketDelivered (m_expectedSeq rb)])"
      and e1: "m_expectedSeq rb1 = m_expectedSeq rb + 1"
      and c1: "crosses rb 1 rb1 [PacketDelivered (m_expectedSeq rb), Deliver (packet x) (m_expectedSeq rb) (header x)]" .
    have cb1: "m_permanentGapCallback rb1 \<noteq> None"
      using Suc.prems(2) same_settingsD(2) [OF crossesD(2) [OF c1]] by simp
    from Advance_crosses [OF crossesD(1) [OF c1] cb1] obtain k2 rb2 evs2 where
      adv: "AdvancePastPermanentGaps rb1 = Some (rb2, evs2)" and c2: "crosses rb1 k2 rb2 evs2"
      and g2: "m_expectedSeq rb2 \<notin> gaps rb2" .
    have "length (m_buffer rb1) < length (m_buffer rb)"
      using Some omap_find_in_keys [of "m_buffer rb"] by (intro crosses_drains [OF c1]) auto
    moreover have "length (m_buffer rb2) \<le> length (m_buffer rb1)"
      using crossesD(5) [OF c2] by (metis length_filter_le)
    ultimately have len: "length (m_buffer rb2) < n" using Suc.prems(3) by simp
    have cb2: "m_permanentGapCallback rb2 \<noteq> None"
      using cb1 same_settingsD(2) [OF crossesD(2) [OF c2]] by simp
    from Suc.IH [OF crossesD(1) [OF c2] cb2 len g2] obtain k3 rb3 evs3 where
      rec: "deliver_loop n rb2 = Some (rb3, evs3)" and c3: "crosses rb2 k3 rb3 evs3"
      and e3: "m_expectedSeq rb3 \<notin> buffered rb3 \<union> gaps rb3" by blast
    have ready: "HasReadyPackets rb" using HasReady_inv [OF inv] Some by simp
    have "deliver_loop (Suc n) rb = Some (rb3, [PacketDelivered (m_expectedSeq rb),
        Deliver (packet x) (m_expectedSeq rb) (header x)] @ evs2 @ evs3)"
      using ready get adv rec e1 by (simp add: deliver_loop.simps(2))
    with crosses_trans [OF c1 crosses_trans [OF c2 c3]] e3 show ?thesis by blast
  qed
qed simp

subsection \<open>Delivery and insertion\<close>

lemma crosses_invisible: "\<forall>ev \<in> set evs'. \<not> visible ev \<Longrightarrow> crosses rb n rb' (evs @ evs') = crosses rb n rb' evs"
  by (simp add: crosses_def Let_def)

lemma DeliverReady_crosses:
  assumes inv: "rb_inv rb" and cb: "m_deliveryCallback rb \<noteq> None" "m_permanentGapCallback rb \<noteq> None"
  obtains n rb' evs where "DeliverReadyPackets rb = Some (rb', evs)" "crosses rb n rb' evs"
    and "m_expectedSeq rb' \<notin> buffered rb' \<union> gaps rb'"
proof -
  from Advance_crosses [OF inv cb(2)] obtain k1 rb1 evs1 where
    adv: "AdvancePastPermanentGaps rb = Some (rb1, evs1)" and c1: "crosses rb k1 rb1 evs1"
    and g1: "m_expectedSeq rb1 \<notin> gaps rb1" .
  have cb1: "m_permanentGapCallback rb1 \<noteq> None"
    using cb(2) same_settingsD(2) [OF crossesD(2) [OF c1]] by simp
  from deliver_loop_crosses [OF crossesD(1) [OF c1] cb1 lessI g1] obtain k2 rb2 evs2 where
    loop: "deliver_loop (Suc (length (m_buffer rb1))) rb1 = Some (rb2, evs2)"
    and c2: "crosses rb1 k2 rb2 evs2" and e2: "m_expectedSeq rb2 \<notin> buffered rb2 \<union> gaps rb2" by blast
  let ?trace = "if (of_nat (length (m_buffer rb)) :: u32) \<noteq> of_nat (length (m_buffer rb2))
     then [BufferSize (of_nat (length (m_buffer rb))) (of_nat (length (m_buffer rb2)))] else []"
  have "DeliverReadyPackets rb = Some (rb2, (evs1 @ evs2) @ ?trace)"
    using cb(1) adv loop by (auto simp: DeliverReadyPackets_def Let_def)
  moreover have "crosses rb (k1 + k2) rb2 ((evs1 @ evs2) @ ?trace)"
    using crosses_trans [OF c1 c2] by (subst crosses_invisible) auto
  ultimately show thesis using that e2 by blast
qed

text \<open>
  C29: when both callbacks are bound and no parked packet was declared lost,
  DeliverReadyPackets returns; it has moved the expected sequence number over a run of
  consecutive sequence numbers, each parked packet among them was delivered and each lost
  one reported, exactly once and in order, what lies above is untouched, and it stopped
  because the next sequence number is neither parked nor lost.
\<close>

theorem deliver_ready_drains_the_run:
  assumes inv: "rb_inv rb" and cb: "m_deliveryCallback rb \<noteq> None" "m_permanentGapCallback rb \<noteq> None"
  shows "\<exists>n rb' evs. DeliverReadyPackets rb = Some (rb', evs) \<and> crosses rb n rb' evs
           \<and> m_expectedSeq rb' \<notin> buffered rb' \<union> gaps rb'"
proof -
  show ?thesis by (rule DeliverReady_crosses [OF inv cb]) blast
qed


lemmas reorder_ops = ReorderBuffer_new_def SetExpectedSequence_def SetMaxBufferSize_def MarkPermanentGap_def
  SetPacketDeliveryCallback_def SetPermanentGapCallback_def endpoint_reorder_buffer_def

lemmas reorder_eval = reorder_ops rb_inv_def rb_wf_def omap_wf_def oset_wf_def

theorem deliver_ready_drains_the_run_witness:
  "\<exists>rb :: nat ReorderBuffer. \<exists>n rb' evs.
     DeliverReadyPackets rb = Some (rb', evs) \<and> crosses rb n rb' evs \<and> 5 \<in> buffered rb
     \<and> m_expectedSeq rb' \<notin> buffered rb' \<union> gaps rb'"
proof -
  let ?rb = "(MarkPermanentGap (endpoint_reorder_buffer 1 2) 0 FabricHeader_new)
    \<lparr>m_buffer := [(1, \<lparr>sequenceNumber = 1, packet = 7 :: nat, header = FabricHeader_new, delivered = False\<rparr>),
                  (5, \<lparr>sequenceNumber = 5, packet = 8, header = FabricHeader_new, delivered = False\<rparr>)]\<rparr>"
  have "5 \<in> buffered ?rb" by simp
  moreover have "\<exists>n rb' evs. DeliverReadyPackets ?rb = Some (rb', evs) \<and> crosses ?rb n rb' evs
      \<and> m_expectedSeq rb' \<notin> buffered rb' \<union> gaps rb'"
    by (rule deliver_ready_drains_the_run) (simp_all add: reorder_eval)
  ultimately show ?thesis by blast
qed

text \<open>Parking a packet whose number is free keeps the invariant.\<close>

lemma set_omap_put_fresh:
  "k \<notin> fst ` set m \<Longrightarrow> set (omap_put k v m) = insert (k, v) (set m)"
  by (induction k v m rule: omap_put.induct) auto

lemma park_inv:
  assumes inv: "rb_inv rb" and "m_expectedSeq rb \<le> s" "s \<notin> buffered rb" "s \<notin> gaps rb"
    and "unat s < 2 ^ 32 - 1" and "sequenceNumber e = s" "\<not> delivered e"
  shows "rb_inv (rb\<lparr>m_buffer := omap_put s e (m_buffer rb)\<rparr>)"
  using assms by (auto simp: rb_inv_def rb_wf_def omap_wf_put set_omap_put_fresh)

lemma rb_inv_counters [simp]:
  "rb_inv (rb\<lparr>m_reorderEventCount := c\<rparr>) = rb_inv rb"
  "rb_inv (rb\<lparr>m_maxOccupancy := o'\<rparr>) = rb_inv rb"
  by (simp_all add: rb_inv_def rb_wf_def)

lemma length_omap_put_fresh: "k \<notin> fst ` set m \<Longrightarrow> length (omap_put k v m) = Suc (length m)"
  by (induction k v m rule: omap_put.induct) auto


lemma not_duplicate: "\<not> IsDuplicate rb s \<longleftrightarrow> m_expectedSeq rb \<le> s \<and> s \<notin> buffered rb"
  using omap_find_in_keys [of "m_buffer rb" s] by (auto simp: IsDuplicate_def)

lemma Insert_parked:
  assumes inv: "rb_inv rb" and new: "\<not> IsDuplicate rb s" and "s \<noteq> m_expectedSeq rb"
    and "length (m_buffer rb) < unat (m_maxBufferSize rb)" "s \<notin> gaps rb" "unat s < 2 ^ 32 - 1"
  obtains rb' where "ReorderBuffer_Insert rb s p h = Some (rb', [], True)" "rb_inv rb'"
    and "m_buffer rb' = omap_put s \<lparr>sequenceNumber = s, packet = p, header = h, delivered = False\<rparr> (m_buffer rb)"
    and "m_expectedSeq rb' = m_expectedSeq rb" "m_permanentGaps rb' = m_permanentGaps rb"
    and "m_maxBufferSize rb' = m_maxBufferSize rb" "m_deliveryCallback rb' = m_deliveryCallback rb"
    and "m_permanentGapCallback rb' = m_permanentGapCallback rb"
proof -
  have gt: "m_expectedSeq rb < s" using new assms(3) by (auto simp: not_duplicate)
  have "rb_inv (rb\<lparr>m_buffer := omap_put s \<lparr>sequenceNumber = s, packet = p, header = h, delivered = False\<rparr> (m_buffer rb)\<rparr>)"
    using new assms(5,6) by (intro park_inv [OF inv]) (simp_all add: not_duplicate)
  then show thesis
    using that new gt assms(3,4) by (auto simp: ReorderBuffer_Insert_def Let_def rb_inv_def rb_wf_def)
qed

lemma Insert_expected:
  assumes inv: "rb_inv rb" and cb: "m_deliveryCallback rb \<noteq> None" "m_permanentGapCallback rb \<noteq> None"
    and s: "s = m_expectedSeq rb" "s \<notin> buffered rb" "s \<notin> gaps rb" "unat s < 2 ^ 32 - 1"
    and x: "x = \<lparr>sequenceNumber = s, packet = p, header = h, delivered = False\<rparr>"
  obtains n rb' evs where "ReorderBuffer_Insert rb s p h = Some (rb', evs, True)"
    and "crosses (rb\<lparr>m_buffer := omap_put s x (m_buffer rb)\<rparr>) n rb' evs"
    and "0 < n" "m_expectedSeq rb' \<notin> buffered rb' \<union> gaps rb'"
    and "length (m_buffer rb') \<le> length (m_buffer rb)"
proof -
  let ?rb = "rb\<lparr>m_buffer := omap_put s x (m_buffer rb)\<rparr>"
  have inv': "rb_inv ?rb" using s x by (intro park_inv [OF inv]) auto
  have cb': "m_deliveryCallback ?rb \<noteq> None" "m_permanentGapCallback ?rb \<noteq> None" using cb by auto
  from DeliverReady_crosses [OF inv' cb'] obtain n rb' evs where
    d: "DeliverReadyPackets ?rb = Some (rb', evs)" and c: "crosses ?rb n rb' evs"
    and e: "m_expectedSeq rb' \<notin> buffered rb' \<union> gaps rb'" .
  have mem: "m_expectedSeq ?rb \<in> buffered ?rb" using s(1) by (simp add: set_omap_put)
  have pos: "0 < n"
  proof (rule ccontr)
    assume "\<not> 0 < n"
    then have "m_expectedSeq rb' = s" using crossesD(3) [OF c] s(1) by simp
    with crossesD(5) [OF c] mem e s(1) show False by auto
  qed
  have "length (m_buffer rb') < length (m_buffer ?rb)" by (rule crosses_drains [OF c pos mem])
  then have len: "length (m_buffer rb') \<le> length (m_buffer rb)"
    using s(2) by (simp add: length_omap_put_fresh)
  have "\<not> IsDuplicate rb s" using s by (simp add: not_duplicate)
  then have "ReorderBuffer_Insert rb s p h = Some (rb', evs, True)"
    using d s(1) x by (simp add: ReorderBuffer_Insert_def Let_def)
  from that [OF this c pos e len] show thesis .
qed




subsection \<open>Any arrival order\<close>

text \<open>A sequence of arrivals, each of which is accepted.\<close>

fun insert_all ::
  "'p ReorderBuffer \<Rightarrow> (u32 \<times> 'p \<times> FabricHeader) list \<Rightarrow> ('p ReorderBuffer \<times> 'p reorder_event list) option" where
  "insert_all rb [] = Some (rb, [])"
| "insert_all rb ((s, p, h) # xs) =
     (case ReorderBuffer_Insert rb s p h of
        Some (rb1, evs1, True) \<Rightarrow> map_option (\<lambda>(rb2, evs2). (rb2, evs1 @ evs2)) (insert_all rb1 xs)
      | _ \<Rightarrow> None)"

text \<open>
  The state after the arrival of the offsets \<open>S\<close> above a base sequence number: the run
  of length \<open>k\<close> from the base has been delivered and the rest of \<open>S\<close> is parked.
\<close>

definition entry_of :: "u32 \<Rightarrow> (nat \<Rightarrow> 'p) \<Rightarrow> (nat \<Rightarrow> FabricHeader) \<Rightarrow> nat \<Rightarrow> 'p ReorderEntry" where
  "entry_of b p h i = \<lparr>sequenceNumber = b + of_nat i, packet = p i, header = h i, delivered = False\<rparr>"

definition arrived ::
  "u32 \<Rightarrow> nat \<Rightarrow> (nat \<Rightarrow> 'p) \<Rightarrow> (nat \<Rightarrow> FabricHeader) \<Rightarrow> nat set \<Rightarrow> nat \<Rightarrow> 'p ReorderBuffer \<Rightarrow> bool" where
  "arrived b n p h S k rb =
     (rb_inv rb \<and> m_deliveryCallback rb \<noteq> None \<and> m_permanentGapCallback rb \<noteq> None
      \<and> (\<forall>g \<in> gaps rb. g < m_expectedSeq rb) \<and> n \<le> unat (m_maxBufferSize rb)
      \<and> S \<subseteq> {..<n} \<and> {..<k} \<subseteq> S \<and> k \<notin> S \<and> m_expectedSeq rb = b + of_nat k
      \<and> buffered rb = (\<lambda>i. b + of_nat i) ` (S - {..<k})
      \<and> (\<forall>i \<in> S - {..<k}. omap_find (m_buffer rb) (b + of_nat i) = Some (entry_of b p h i)))"

lemma offset_eq_iff:
  "unat (b :: u32) + n < 2 ^ 32 \<Longrightarrow> i \<le> n \<Longrightarrow> j \<le> n \<Longrightarrow> b + of_nat i = b + of_nat j \<longleftrightarrow> i = j"
  by (simp add: word_unat_eq_iff unat_offset)

lemma offset_le_iff:
  "unat (b :: u32) + n < 2 ^ 32 \<Longrightarrow> i \<le> n \<Longrightarrow> j \<le> n \<Longrightarrow> b + of_nat i \<le> b + of_nat j \<longleftrightarrow> i \<le> j"
  by (simp add: word_le_nat_alt unat_offset)

lemma arrived_gaps: "arrived b n p h S k rb \<Longrightarrow> g \<in> gaps rb \<Longrightarrow> g < b + of_nat k"
  unfolding arrived_def by (elim conjE) (drule (1) bspec, simp)

lemma arrived_room:
  assumes a: "arrived b n p h S k rb" and i: "i < n" "i \<notin> S"
  shows "length (m_buffer rb) < unat (m_maxBufferSize rb)"
proof -
  have fin: "finite S" and sub: "S \<subset> {..<n}" using a i by (auto simp: arrived_def intro: finite_subset)
  have "length (m_buffer rb) = card (buffered rb)"
    using a distinct_card [OF omap_wf_distinct, of "m_buffer rb"] by (simp add: arrived_def rb_inv_def rb_wf_def)
  also have "\<dots> \<le> card (S - {..<k})"
    using a fin card_image_le [of "S - {..<k}"] by (simp add: arrived_def)
  also have "\<dots> \<le> card S" using fin by (intro card_mono) auto
  also have "\<dots> < n" using psubset_card_mono [OF _ sub] by simp
  finally show ?thesis using a by (simp add: arrived_def)
qed

lemma arrived_park:
  assumes a: "arrived b n p h S k rb" and b: "unat b + n < 2 ^ 32" and i: "i < n" "i \<notin> S" "i \<noteq> k"
  obtains rb' where "ReorderBuffer_Insert rb (b + of_nat i) (p i) (h i) = Some (rb', [], True)"
    and "arrived b n p h (insert i S) k rb'"
proof -
  let ?s = "b + of_nat i"
  have kS: "{..<k} \<subseteq> S" and Sn: "S \<subseteq> {..<n}" using a by (simp_all add: arrived_def)
  have "k < i"
  proof (rule ccontr)
    assume "\<not> k < i"
    with i(3) kS have "i \<in> S" by auto
    with i(2) show False by simp
  qed
  with i(1) have kn: "k \<le> n" "k < i" by simp_all
  have inj: "b + of_nat j = ?s \<longleftrightarrow> j = i" if "j \<le> n" for j
    using offset_eq_iff [OF b, of j i] that i(1) by simp
  have buf: "buffered rb = (\<lambda>i. b + of_nat i) ` (S - {..<k})" using a by (simp add: arrived_def)
  have new: "?s \<notin> buffered rb" unfolding buf
  proof
    assume "?s \<in> (\<lambda>i. b + of_nat i) ` (S - {..<k})"
    then obtain j where j: "?s = b + of_nat j" "j \<in> S - {..<k}" by (rule imageE)
    with Sn have "j \<le> n" by auto
    with inj [of j] j i(2) show False by simp
  qed
  have exp: "m_expectedSeq rb = b + of_nat k" using a by (simp add: arrived_def)
  have dup: "\<not> IsDuplicate rb ?s"
    using new kn i(1) offset_le_iff [OF b, of k i] by (simp add: not_duplicate exp)
  have ne: "?s \<noteq> m_expectedSeq rb" using inj [OF kn(1)] i(3) by (auto simp: exp)
  have le: "m_expectedSeq rb \<le> ?s" using dup by (simp add: not_duplicate)
  have "?s \<notin> gaps rb"
  proof
    assume "?s \<in> gaps rb"
    then have "?s < m_expectedSeq rb" unfolding exp by (rule arrived_gaps [OF a])
    with le show False by simp
  qed
  moreover have "unat ?s < 2 ^ 32 - 1" using b i(1) by (simp add: unat_offset)
  ultimately have rest: "?s \<notin> gaps rb" "unat ?s < 2 ^ 32 - 1" .
  have inv: "rb_inv rb" using a by (simp add: arrived_def)
  have diff: "insert i S - {..<k} = insert i (S - {..<k})" using kn(2) by auto
  show thesis
  proof (rule Insert_parked [OF inv dup ne arrived_room [OF a i(1,2)] rest, of "p i" "h i"])
    fix rb'
    assume r: "ReorderBuffer_Insert rb ?s (p i) (h i) = Some (rb', [], True)" "rb_inv rb'"
      "m_buffer rb' = omap_put ?s \<lparr>sequenceNumber = ?s, packet = p i, header = h i, delivered = False\<rparr> (m_buffer rb)"
      "m_expectedSeq rb' = m_expectedSeq rb" "m_permanentGaps rb' = m_permanentGaps rb"
      "m_maxBufferSize rb' = m_maxBufferSize rb" "m_deliveryCallback rb' = m_deliveryCallback rb"
      "m_permanentGapCallback rb' = m_permanentGapCallback rb"
    have find: "omap_find (m_buffer rb') (b + of_nat j) = Some (entry_of b p h j)" if "j \<in> insert i S - {..<k}" for j
      using a that i(1) inj [of j] by (auto simp: r(3) arrived_def omap_find_put entry_of_def)
    have "buffered rb' = (\<lambda>i. b + of_nat i) ` (insert i S - {..<k})"
      unfolding diff using a by (simp add: r(3) arrived_def set_omap_put)
    then have "arrived b n p h (insert i S) k rb'"
      using a i r(2,4-) find by (auto simp: arrived_def)
    with r(1) that show thesis by blast
  qed
qed


text \<open>Crossing a buffer that holds the offsets \<open>T\<close>: the crossed run belongs to \<open>T\<close>.\<close>

lemma crosses_offsets:
  fixes b :: u32
  defines "f \<equiv> \<lambda>i. b + of_nat i"
  assumes c: "crosses rb m rb' evs" and exp: "m_expectedSeq rb = f k"
    and buf: "buffered rb = f ` T" and T: "T \<subseteq> {..<n}" and b: "unat b + n < 2 ^ 32" "k \<le> n"
    and gap: "\<forall>g \<in> gaps rb. g < f k" and stop: "m_expectedSeq rb' \<notin> buffered rb'"
  shows "m_expectedSeq rb' = f (k + m)" "{k..<k + m} \<subseteq> T" "k + m \<notin> T"
    and "buffered rb' = f ` (T - {..<k + m})"
    and "i \<in> T - {..<k + m} \<Longrightarrow> f (k + m) \<le> f i"
proof -
  show e': "m_expectedSeq rb' = f (k + m)"
    using crossesD(3) [OF c] exp by (simp add: f_def add.assoc)
  have m: "unat b + (k + m) < 2 ^ 32"
    using crossesD(4) [OF c] b exp by (simp add: f_def unat_offset)
  define N where "N = max n (k + m)"
  have bN: "unat b + N < 2 ^ 32" using b m by (simp add: N_def)
  have inj: "inj_on f {..N}"
    unfolding f_def by (rule inj_onI) (rule offset_eq_iff [OF bN, THEN iffD1], auto)
  have mem: "f i \<in> buffered rb \<longleftrightarrow> i \<in> T" if "i \<le> N" for i
    unfolding buf using that T by (intro inj_on_image_mem_iff [OF inj]) (auto simp: N_def)
  have above: "f (k + m) \<le> f i \<longleftrightarrow> k + m \<le> i" if "i \<in> T" for i
    unfolding f_def using that T by (intro offset_le_iff [OF bN]) (auto simp: N_def)
  show run: "{k..<k + m} \<subseteq> T"
  proof
    fix i assume i: "i \<in> {k..<k + m}"
    then have "f i = f k + of_nat (i - k)" "i - k < m" by (auto simp: f_def add.assoc simp flip: of_nat_add)
    then have "f i \<in> buffered rb \<union> gaps rb" using crossesD(7) [OF c] exp by simp
    moreover have "f k \<le> f i" using i m by (auto simp: f_def intro: offset_mono)
    ultimately have "f i \<in> buffered rb" using gap by auto
    with mem [of i] i show "i \<in> T" by (auto simp: N_def)
  qed
  have filt: "buffered rb' = {s \<in> buffered rb. f (k + m) \<le> s}" unfolding crossesD(5) [OF c] e' by auto
  show "k + m \<notin> T" using stop mem [of "k + m"] unfolding filt e' by (auto simp: N_def)
  have "buffered rb' = f ` {i \<in> T. f (k + m) \<le> f i}" unfolding filt buf by auto
  also have "{i \<in> T. f (k + m) \<le> f i} = T - {..<k + m}" using above by auto
  finally show "buffered rb' = f ` (T - {..<k + m})" .
  show "f (k + m) \<le> f i" if "i \<in> T - {..<k + m}" using above [of i] that by simp
qed

lemma ev_at_entry: "omap_find (m_buffer rb) s = Some (entry_of b p h i) \<Longrightarrow> ev_at rb s = Deliver (p i) s (h i)"
  by (simp add: ev_at_def entry_of_def)

lemma crosses_gaps_below:
  assumes c: "crosses rb n rb' evs" and "\<And>g. g \<in> gaps rb \<Longrightarrow> g < m_expectedSeq rb" and g: "g \<in> gaps rb'"
  shows "g < m_expectedSeq rb'"
proof (rule ccontr)
  assume "\<not> g < m_expectedSeq rb'"
  then have "g \<in> set (filter (\<lambda>g. m_expectedSeq rb' \<le> g) (m_permanentGaps rb'))" using g by simp
  also have "\<dots> = set (filter (\<lambda>g. m_expectedSeq rb' \<le> g) (m_permanentGaps rb))"
    using c by (simp add: crosses_def Let_def)
  finally have "g < m_expectedSeq rb" "m_expectedSeq rb' \<le> g" using assms(2) by auto
  with offset_le [OF crossesD(4) [OF c]] crossesD(3) [OF c] show False by simp
qed

text \<open>The number expected next arrives: the run grows up to the next missing offset.\<close>

lemma arrived_expected:
  assumes a: "arrived b n p h S k rb" and b: "unat b + n < 2 ^ 32" and k: "k < n"
  obtains rb' evs k' where "ReorderBuffer_Insert rb (b + of_nat k) (p k) (h k) = Some (rb', evs, True)"
    and "arrived b n p h (insert k S) k' rb'" "k \<le> k'"
    and "filter visible evs = map (\<lambda>i. Deliver (p i) (b + of_nat i) (h i)) [k..<k']"
proof -
  let ?f = "\<lambda>i. b + of_nat i" and ?T = "insert k S - {..<k}"
  let ?rb = "rb\<lparr>m_buffer := omap_put (?f k) (entry_of b p h k) (m_buffer rb)\<rparr>"
  have kS: "{..<k} \<subseteq> S" "S \<subseteq> {..<n}" "k \<notin> S" and inv: "rb_inv rb" and exp: "m_expectedSeq rb = ?f k"
    and buf: "buffered rb = ?f ` (S - {..<k})" and cap: "n \<le> unat (m_maxBufferSize rb)"
    and ent: "\<And>i. i \<in> S \<Longrightarrow> \<not> i < k \<Longrightarrow> omap_find (m_buffer rb) (?f i) = Some (entry_of b p h i)"
    and cb: "m_deliveryCallback rb \<noteq> None" "m_permanentGapCallback rb \<noteq> None"
    using a by (simp_all add: arrived_def)
  note inj = offset_eq_iff [OF b] and gap = arrived_gaps [OF a]
  have new: "?f k \<notin> buffered rb" unfolding buf
  proof
    assume "?f k \<in> ?f ` (S - {..<k})"
    then obtain j where j: "?f k = ?f j" "j \<in> S - {..<k}" by (rule imageE)
    with kS(2) k have "j \<le> n" "k \<le> n" by auto
    with inj [of k j] j kS(3) show False by simp
  qed
  have lt: "unat (?f k) < 2 ^ 32 - 1" using b k by (simp add: unat_offset)
  have ng: "?f k \<notin> gaps rb" using gap [of "?f k"] by blast
  obtain m rb' evs where
    i: "ReorderBuffer_Insert rb (?f k) (p k) (h k) = Some (rb', evs, True)"
    and c: "crosses ?rb m rb' evs" and e': "m_expectedSeq rb' \<notin> buffered rb' \<union> gaps rb'"
    by (rule Insert_expected [OF inv cb exp [symmetric] new ng lt, of "entry_of b p h k" "p k" "h k"])
      (simp_all add: entry_of_def)
  have T: "?T \<subseteq> {..<n}" "k \<le> n" using kS k by auto
  have bufT: "buffered ?rb = ?f ` ?T"
  proof -
    have "buffered ?rb = insert (?f k) (buffered rb)" by (simp add: set_omap_put)
    also have "\<dots> = ?f ` insert k (S - {..<k})" by (simp add: buf)
    also have "insert k (S - {..<k}) = ?T" by auto
    finally show ?thesis .
  qed
  have exp': "m_expectedSeq ?rb = ?f k" and gap': "\<forall>g \<in> gaps ?rb. g < ?f k"
    and stop: "m_expectedSeq rb' \<notin> buffered rb'" using exp gap e' by simp_all
  note off = crosses_offsets [OF c exp' bufT T(1) b T(2) gap' stop]
  have entT: "omap_find (m_buffer ?rb) (?f i) = Some (entry_of b p h i)" if "i \<in> ?T" for i
    using that kS(2) k ent [of i] inj [of i k] by (cases "i = k") (auto simp: omap_find_put)
  have "ev_at ?rb (?f k + of_nat i) = Deliver (p (k + i)) (?f (k + i)) (h (k + i))" if "i < m" for i
  proof -
    have "k + i \<in> {k..<k + m}" using that by simp
    with off(2) have "k + i \<in> ?T" by (rule rev_subsetD [rotated])
    from ev_at_entry [OF entT [OF this]] show ?thesis by (simp add: add.assoc)
  qed
  then have evs: "filter visible evs = map (\<lambda>i. Deliver (p i) (?f i) (h i)) [k..<k + m]"
    unfolding crossesD(6) [OF c] using exp by (intro nth_equalityI) simp_all
  have T': "insert k S - {..<k + m} = ?T - {..<k + m}" by auto
  have run: "{..<k + m} \<subseteq> insert k S" "k + m \<notin> insert k S"
    using kS(1) off(2,3) by (auto simp: subset_iff) (metis leI atLeastLessThan_iff)
  have ent': "\<forall>i \<in> ?T - {..<k + m}. omap_find (m_buffer rb') (?f i) = Some (entry_of b p h i)"
  proof
    fix i assume i: "i \<in> ?T - {..<k + m}"
    with entT [of i] off(5) [OF i] show "omap_find (m_buffer rb') (?f i) = Some (entry_of b p h i)"
      unfolding crossesD(5) [OF c] off(1) by (simp add: omap_find_filter [of "\<lambda>k. _ \<le> k"])
  qed
  have gaps': "\<forall>g \<in> gaps rb'. g < m_expectedSeq rb'"
    using crosses_gaps_below [OF c] gap exp by simp
  have set': "m_deliveryCallback rb' \<noteq> None" "m_permanentGapCallback rb' \<noteq> None"
      "n \<le> unat (m_maxBufferSize rb')" "insert k S \<subseteq> {..<n}"
    using same_settingsD [OF crossesD(2) [OF c]] cb cap kS(2) k by simp_all
  have "arrived b n p h (insert k S) (k + m) rb'"
    unfolding arrived_def T' by (intro conjI crossesD(1) [OF c] set' gaps' run off(1,4) ent')
  from that [OF i this le_add1 evs] show thesis .
qed


lemma arrived_step:
  assumes a: "arrived b n p h S k rb" and b: "unat b + n < 2 ^ 32" and i: "i < n" "i \<notin> S"
  obtains rb' evs k' where "ReorderBuffer_Insert rb (b + of_nat i) (p i) (h i) = Some (rb', evs, True)"
    and "arrived b n p h (insert i S) k' rb'" "k \<le> k'"
    and "filter visible evs = map (\<lambda>i. Deliver (p i) (b + of_nat i) (h i)) [k..<k']"
proof (cases "i = k")
  case True
  with i show thesis using that arrived_expected [OF a b, of thesis] by simp
next
  case False
  from arrived_park [OF a b i this] obtain rb' where
    "ReorderBuffer_Insert rb (b + of_nat i) (p i) (h i) = Some (rb', [], True)"
    "arrived b n p h (insert i S) k rb'" .
  with that [of rb' "[]" k] show thesis by simp
qed

lemma arrived_all:
  assumes "arrived b n p h S k rb" and b: "unat b + n < 2 ^ 32"
    and "distinct is" "set is \<inter> S = {}" "set is \<subseteq> {..<n}"
  shows "\<exists>rb' evs k'. insert_all rb (map (\<lambda>i. (b + of_nat i, p i, h i)) is) = Some (rb', evs)
      \<and> arrived b n p h (S \<union> set is) k' rb' \<and> k \<le> k'
      \<and> filter visible evs = map (\<lambda>i. Deliver (p i) (b + of_nat i) (h i)) [k..<k']"
  using assms
proof (induction "is" arbitrary: rb S k)
  case Nil
  then show ?case by auto
next
  case (Cons i "is")
  from Cons.prems(3-) have i: "i < n" "i \<notin> S" by auto
  from arrived_step [OF Cons.prems(1) b i] obtain rb1 evs1 k1 where
    s: "ReorderBuffer_Insert rb (b + of_nat i) (p i) (h i) = Some (rb1, evs1, True)"
    and a1: "arrived b n p h (insert i S) k1 rb1" and k1: "k \<le> k1"
    and e1: "filter visible evs1 = map (\<lambda>i. Deliver (p i) (b + of_nat i) (h i)) [k..<k1]" .
  from Cons.prems(3-) have "distinct is" "set is \<inter> insert i S = {}" "set is \<subseteq> {..<n}" by auto
  from Cons.IH [OF a1 b this] obtain rb2 evs2 k2 where
    r: "insert_all rb1 (map (\<lambda>i. (b + of_nat i, p i, h i)) is) = Some (rb2, evs2)"
    and a2: "arrived b n p h (insert i S \<union> set is) k2 rb2" and k2: "k1 \<le> k2"
    and e2: "filter visible evs2 = map (\<lambda>i. Deliver (p i) (b + of_nat i) (h i)) [k1..<k2]" by blast
  have "[k..<k2] = [k..<k1] @ [k1..<k2]"
    using k1 k2 by (metis le_add_diff_inverse upt_add_eq_append)
  with s r a2 k1 k2 e1 e2 show ?case by (auto intro!: exI [of _ k2])
qed

text \<open>
  C5: in-order delivery. However the packets of a burst of consecutive sequence numbers
  that fits the buffer are permuted on the way, inserting them in arrival order accepts
  every one of them and hands every packet to the delivery callback exactly once, with
  its own header, in the order of the sequence numbers, and leaves the buffer empty.
\<close>

theorem any_arrival_order_is_delivered_in_order:
  assumes perm: "distinct is" "set is = {..<n}"
    and rb: "m_buffer rb = []" "m_permanentGaps rb = []" "m_permanentGapHeaders rb = []"
    and cb: "m_deliveryCallback rb \<noteq> None" "m_permanentGapCallback rb \<noteq> None"
    and cap: "n \<le> unat (m_maxBufferSize rb)" and nowrap: "unat (m_expectedSeq rb) + n < 2 ^ 32"
  shows "\<exists>rb' evs. insert_all rb (map (\<lambda>i. (m_expectedSeq rb + of_nat i, p i, h i)) is) = Some (rb', evs)
      \<and> filter visible evs = map (\<lambda>i. Deliver (p i) (m_expectedSeq rb + of_nat i) (h i)) [0..<n]
      \<and> m_buffer rb' = [] \<and> m_expectedSeq rb' = m_expectedSeq rb + of_nat n"
proof -
  let ?b = "m_expectedSeq rb"
  have "arrived ?b n p h {} 0 rb"
    using rb cb cap by (simp add: arrived_def rb_inv_def rb_wf_def oset_wf_def)
  from arrived_all [OF this nowrap perm(1)] perm(2) obtain rb' evs k where
    r: "insert_all rb (map (\<lambda>i. (?b + of_nat i, p i, h i)) is) = Some (rb', evs)"
    and a: "arrived ?b n p h {..<n} k rb'"
    and e: "filter visible evs = map (\<lambda>i. Deliver (p i) (?b + of_nat i) (h i)) [0..<k]" by auto
  have "{..<k} \<subseteq> {..<n}" "k \<notin> {..<n}" using a by (simp_all add: arrived_def)
  then have k: "k = n" by (metis leI lessThan_iff lessThan_subset_iff order_antisym)
  from a have "buffered rb' = {}" "m_expectedSeq rb' = ?b + of_nat n" by (simp_all add: arrived_def k)
  with r e k show ?thesis by simp
qed

theorem any_arrival_order_is_delivered_in_order_witness:
  "\<exists>rb' evs. insert_all (endpoint_reorder_buffer 1 2)
       (map (\<lambda>i. (0 + of_nat i, 10 * i, FabricHeader_new)) [2, 0, 3, 1]) = Some (rb', evs)
     \<and> filter visible evs = map (\<lambda>i. Deliver (10 * i) (0 + of_nat i) FabricHeader_new) [0..<4]
     \<and> m_buffer rb' = [] \<and> m_expectedSeq rb' = 4"
  using any_arrival_order_is_delivered_in_order [of "[2, 0, 3, 1]" 4 "endpoint_reorder_buffer 1 2"
      "\<lambda>i. 10 * i" "\<lambda>_. FabricHeader_new"]
  by (simp add: reorder_ops) (fastforce simp: numeral_eq_Suc)


subsection \<open>Termination without the invariant, and lost packets that arrive\<close>







subsection \<open>A lost packet that arrives\<close>




text \<open>The sequence space does not wrap.\<close>

definition seq_fits :: "u32 \<Rightarrow> bool" where
  "seq_fits s = (unat s < 2 ^ 32 - 1)"


definition numbers_fit :: "'p ReorderBuffer \<Rightarrow> bool" where
  "numbers_fit rb = (\<forall>k \<in> buffered rb \<union> gaps rb. seq_fits k)"

definition deliveries :: "'p reorder_event list \<Rightarrow> u32 list" where
  "deliveries evs = concat (map (\<lambda>e. case e of Deliver p s h \<Rightarrow> [s] | _ \<Rightarrow> []) evs)"

lemma deliveries_simps [simp]:
  "deliveries [] = []" "deliveries (e # evs) = (case e of Deliver p s h \<Rightarrow> [s] | _ \<Rightarrow> []) @ deliveries evs"
  "deliveries (evs @ evs') = deliveries evs @ deliveries evs'"
  by (simp_all add: deliveries_def)

text \<open>
  The buffer holds the packet \<open>s\<close>, undelivered, although \<open>s\<close> is declared lost or already
  passed. The clean-up loop never gets beyond such an entry, so from one state to the next
  every entry at or above it stays.
\<close>

definition holds_lost :: "u32 \<Rightarrow> 'p ReorderBuffer \<Rightarrow> bool" where
  "holds_lost s rb =
     (rb_wf rb \<and> numbers_fit rb \<and> (\<exists>x. omap_find (m_buffer rb) s = Some x \<and> \<not> delivered x)
      \<and> (s \<in> gaps rb \<or> s < m_expectedSeq rb))"













lemma holds_lost_counters [simp]:
  "holds_lost s (rb\<lparr>m_reorderEventCount := c, m_buffer := b\<rparr>) = holds_lost s (rb\<lparr>m_buffer := b\<rparr>)"
  "holds_lost s (rb\<lparr>m_maxOccupancy := c\<rparr>) = holds_lost s rb"
  by (simp_all add: holds_lost_def rb_wf_def numbers_fit_def)










end
