(* ===== verification/TimeBounds.thy ===== *)
theory TimeBounds
  imports Prelude
begin

text \<open>
  The bounded time arithmetic every timer of the program goes through
  (\<open>core/model/time-bounds.h\<close>): a \<open>Time\<close> is its signed 64-bit tick count, \<open>Wide\<close> is
  \<open>__uint128_t\<close>, and the simulator's resolution and clock are arguments. The theorems show
  that a scheduled event can never wrap the clock, that saturating addition is exact below
  the saturation marker and a commutative, associative, monotone operation, that the unit
  conversions never overflow and invert each other, and that rounding is to the nearest
  tick. The conversions that start from a \<open>double\<close> are not modelled.
\<close>

subsection \<open>Ticks\<close>

type_synonym Time = int
type_synonym u128 = "128 word"

definition Time_Max :: Time where
  "Time_Max = 2 ^ 63 - 1"

definition i64 :: "int \<Rightarrow> bool" where
  "i64 t = (- (2 ^ 63) \<le> t \<and> t < 2 ^ 63)"

text \<open>Two's complement wrap-around of a signed 64-bit sum.\<close>

definition i64_wrap :: "int \<Rightarrow> Time" where
  "i64_wrap x = (x + 2 ^ 63) mod 2 ^ 64 - 2 ^ 63"

lemma i64_wrap_id: "i64 x \<Longrightarrow> i64_wrap x = x"
  by (simp add: i64_wrap_def i64_def)

datatype Resolution =
    UNIT_Y | UNIT_D | UNIT_H | UNIT_MIN | UNIT_S | UNIT_MS | UNIT_US | UNIT_NS | UNIT_PS | UNIT_FS
  | UNIT_LAST | UNIT_AUTO

fun TickScale :: "Resolution \<Rightarrow> (nat \<times> nat) result" where
  "TickScale UNIT_Y = Inr (1, 31536000)"
| "TickScale UNIT_D = Inr (1, 86400)"
| "TickScale UNIT_H = Inr (1, 3600)"
| "TickScale UNIT_MIN = Inr (1, 60)"
| "TickScale UNIT_S = Inr (1, 1)"
| "TickScale UNIT_MS = Inr (1000, 1)"
| "TickScale UNIT_US = Inr (1000000, 1)"
| "TickScale UNIT_NS = Inr (1000000000, 1)"
| "TickScale UNIT_PS = Inr (1000000000000, 1)"
| "TickScale UNIT_FS = Inr (1000000000000000, 1)"
| "TickScale _ = Inl (NsAbort ''Unsupported simulation time resolution'')"

subsection \<open>Scheduling\<close>

definition Horizon :: "Time \<Rightarrow> Time" where
  "Horizon now = (if now < 0 then 0 else Time_Max - now)"

definition CanSchedule :: "Time \<Rightarrow> Time \<Rightarrow> bool" where
  "CanSchedule now delay = (\<not> delay < 0 \<and> delay < Horizon now)"

text \<open>
  \<open>Schedule\<close> hands the event to the simulator, which files it under the 64-bit sum of
  delay and clock, or returns an empty \<open>EventId\<close>. \<open>ScheduleWithContext\<close> differs
  only in that nothing is returned.
\<close>

definition Schedule :: "Time \<Rightarrow> Time \<Rightarrow> Time option" where
  "Schedule now delay = (if \<not> CanSchedule now delay then None else Some (i64_wrap (delay + now)))"

definition SaturatingAdd :: "Time \<Rightarrow> Time \<Rightarrow> Time" where
  "SaturatingAdd a b =
     (if a < 0 \<or> b < 0 then Time_Max
      else if b > Time_Max - a then Time_Max else a + b)"

subsection \<open>Unit conversion\<close>

definition FromNanoseconds :: "Resolution \<Rightarrow> u128 \<Rightarrow> Time result" where
  "FromNanoseconds res ns =
     (case TickScale res of
        Inl e \<Rightarrow> Inl e
      | Inr (num, den) \<Rightarrow>
          Inr (let maximum = (of_nat (2 ^ 63 - 1) :: u128)
               in if num \<ge> 1000000000 then
                    let factor = of_nat (num div 1000000000) :: u128
                    in if ns > maximum div factor then Time_Max else uint (ns * factor)
                  else
                    let divisor = of_nat ((1000000000 div num) * den) :: u128;
                        ticks = ns div divisor
                    in if ticks \<ge> maximum then Time_Max else uint ticks))"

definition ToNanoseconds :: "Resolution \<Rightarrow> Time \<Rightarrow> u128 result" where
  "ToNanoseconds res time =
     (if time < 0 then Inr 0
      else case TickScale res of
        Inl e \<Rightarrow> Inl e
      | Inr (num, den) \<Rightarrow>
          let ticks = of_int time :: u128
          in Inr (if num \<ge> 1000000000 then ticks div of_nat (num div 1000000000)
                  else ticks * of_nat ((1000000000 div num) * den)))"

definition NanosecondLimit :: "Resolution \<Rightarrow> u128 result" where
  "NanosecondLimit res =
     (case TickScale res of
        Inl e \<Rightarrow> Inl e
      | Inr (num, den) \<Rightarrow>
          let maximum = (of_nat (2 ^ 63 - 1) :: u128)
          in Inr (if num \<ge> 1000000000 then
                    let factor = of_nat (num div 1000000000) :: u128
                    in maximum div factor + (if maximum mod factor \<noteq> 0 then 1 else 0)
                  else maximum * of_nat ((1000000000 div num) * den)))"

definition RoundTicks :: "u128 \<Rightarrow> u128 \<Rightarrow> Time" where
  "RoundTicks numerator denominator =
     (let maximum = (of_nat (2 ^ 63 - 1) :: u128);
          ticks = numerator div denominator
      in if ticks \<ge> maximum then Time_Max
         else let remainder = numerator mod denominator
              in uint (ticks + (if remainder \<ge> denominator div 2 + denominator mod 2 then 1 else 0)))"

subsection \<open>Properties\<close>

text \<open>
  C36: an event is scheduled exactly when its delay is nonnegative and its absolute time
  lies before the saturation marker; the 64-bit sum then does not wrap, so the event is
  neither in the past nor at the end of time.
\<close>

theorem schedule_never_wraps:
  assumes "i64 now" "i64 delay" "0 \<le> now"
  shows "Schedule now delay = (if 0 \<le> delay \<and> now + delay < Time_Max then Some (now + delay) else None)"
  using assms i64_wrap_id [of "delay + now"] by (auto simp: Schedule_def CanSchedule_def Horizon_def Time_Max_def i64_def)

theorem schedule_never_wraps_witness:
  "Schedule 7 Time_Max = None \<and> Schedule 7 1000 = Some 1007"
  using schedule_never_wraps [of 7 Time_Max] schedule_never_wraps [of 7 1000] by (simp add: i64_def Time_Max_def)

text \<open>A total function on nonnegative times is the sum capped at the marker.\<close>

lemma SaturatingAdd_min:
  "0 \<le> a \<Longrightarrow> 0 \<le> b \<Longrightarrow> SaturatingAdd a b = min (a + b) Time_Max"
  by (simp add: SaturatingAdd_def)

text \<open>
  The laws a saturating ledger relies on, for any capped addition.
\<close>

locale saturating_ledger =
  fixes add :: "int \<Rightarrow> int \<Rightarrow> int" and cap :: int
  assumes cap_nonneg: "0 \<le> cap"
    and add_min: "0 \<le> a \<Longrightarrow> 0 \<le> b \<Longrightarrow> add a b = min (a + b) cap"
begin

lemma nonneg: "0 \<le> a \<Longrightarrow> 0 \<le> b \<Longrightarrow> 0 \<le> add a b"
  using cap_nonneg by (simp add: add_min)

lemma bounded: "0 \<le> a \<Longrightarrow> 0 \<le> b \<Longrightarrow> add a b \<le> cap"
  by (simp add: add_min)

lemma increasing: "0 \<le> a \<Longrightarrow> a \<le> cap \<Longrightarrow> 0 \<le> b \<Longrightarrow> a \<le> add a b"
  by (simp add: add_min)

lemma assoc: "0 \<le> a \<Longrightarrow> 0 \<le> b \<Longrightarrow> 0 \<le> c \<Longrightarrow> add (add a b) c = add a (add b c)"
  using cap_nonneg by (simp add: add_min)

lemma commute: "0 \<le> a \<Longrightarrow> 0 \<le> b \<Longrightarrow> add a b = add b a"
  by (simp add: add_min add.commute)

text \<open>The total of a ledger does not depend on how its entries are grouped.\<close>

lemma fold_add: "0 \<le> a \<Longrightarrow> a \<le> cap \<Longrightarrow> \<forall>x \<in> set xs. 0 \<le> x \<Longrightarrow> foldl add a xs = min (a + sum_list xs) cap"
proof (induction xs arbitrary: a)
  case (Cons x xs)
  have "0 \<le> sum_list xs" using Cons.prems(3) by (intro sum_list_nonneg) simp
  with Cons show ?case by (simp add: add_min nonneg bounded)
qed simp

end

interpretation sat: saturating_ledger SaturatingAdd Time_Max
  by unfold_locales (simp_all add: SaturatingAdd_min, simp add: Time_Max_def)

text \<open>
  A ledger kept by saturating additions of nonnegative times holds the exact total
  while that is representable, and the saturation marker from then on: it never wraps
  and never decreases.
\<close>

lemma saturating_ledger_is_exact_or_max:
  assumes "\<forall>x \<in> set xs. 0 \<le> x" "0 \<le> a" "a \<le> Time_Max"
  shows "foldl SaturatingAdd a xs = min (a + sum_list xs) Time_Max \<and> a \<le> foldl SaturatingAdd a xs"
proof -
  have t: "foldl SaturatingAdd a xs = min (a + sum_list xs) Time_Max"
    by (rule sat.fold_add [OF assms(2,3,1)])
  have "0 \<le> sum_list xs" using assms(1) by (intro sum_list_nonneg) simp
  with t assms(3) show ?thesis by simp
qed

text \<open>
  The conversions on natural numbers. A resolution is either at least as fine as the
  nanosecond, with a whole number of ticks per nanosecond, or coarser, with a whole number
  of nanoseconds per tick.
\<close>

fun ticks_per_ns :: "Resolution \<Rightarrow> nat option" where
  "ticks_per_ns UNIT_NS = Some 1"
| "ticks_per_ns UNIT_PS = Some 1000"
| "ticks_per_ns UNIT_FS = Some 1000000"
| "ticks_per_ns _ = None"

fun ns_per_tick :: "Resolution \<Rightarrow> nat option" where
  "ns_per_tick UNIT_Y = Some 31536000000000000"
| "ns_per_tick UNIT_D = Some 86400000000000"
| "ns_per_tick UNIT_H = Some 3600000000000"
| "ns_per_tick UNIT_MIN = Some 60000000000"
| "ns_per_tick UNIT_S = Some 1000000000"
| "ns_per_tick UNIT_MS = Some 1000000"
| "ns_per_tick UNIT_US = Some 1000"
| "ns_per_tick _ = None"

definition supported :: "Resolution \<Rightarrow> bool" where
  "supported res = (res \<noteq> UNIT_LAST \<and> res \<noteq> UNIT_AUTO)"

lemma supported_cases:
  assumes "supported res"
  obtains (fine) f where "ticks_per_ns res = Some f" "f \<in> {1, 1000, 1000000}"
  | (coarse) d where "ns_per_tick res = Some d" "0 < d" "d \<le> 31536000000000000"
  using assms by (cases res) (auto simp: supported_def)

lemma unat_small: "n < 2 ^ 128 \<Longrightarrow> unat (of_nat n :: u128) = n"
  by (simp add: unat_of_nat)

lemma unat_of_time: "0 \<le> t \<Longrightarrow> t \<le> Time_Max \<Longrightarrow> unat (of_int t :: u128) = nat t"
  using unat_small [of "nat t"] by (simp add: Time_Max_def)

lemma unat_mult_small: "unat (a :: u128) * unat b < 2 ^ 128 \<Longrightarrow> unat (a * b) = unat a * unat b"
  by (simp add: unat_word_ariths)

lemma FromNanoseconds_fine:
  assumes f: "ticks_per_ns res = Some f"
  shows "FromNanoseconds res ns =
     Inr (if unat ns > (2 ^ 63 - 1) div f then Time_Max else int (unat ns * f))"
proof -
  have f': "f \<in> {1, 1000, 1000000}" using f by (cases res) auto
  let ?M = "of_nat (2 ^ 63 - 1) :: u128" and ?f = "of_nat f :: u128"
  have uf: "unat ?f = f" using f' by auto
  have cmp: "ns > ?M div ?f \<longleftrightarrow> unat ns > (2 ^ 63 - 1) div f"
    unfolding word_less_nat_alt unat_div_distrib uf by (subst unat_small) auto
  have "FromNanoseconds res ns = Inr (if ns > ?M div ?f then Time_Max else uint (ns * ?f))"
    using f by (cases res) (simp_all add: FromNanoseconds_def)
  moreover have "uint (ns * ?f) = int (unat ns * f)" if le: "unat ns \<le> (2 ^ 63 - 1) div f"
  proof -
    have "unat ns * f \<le> 2 ^ 63 - 1" using le f' by auto
    then have "unat (ns * ?f) = unat ns * f" using unat_mult_small [of ns ?f] by (simp add: uf)
    then show ?thesis by (metis uint_nat)
  qed
  ultimately show ?thesis using cmp by (simp add: not_less)
qed

lemma FromNanoseconds_coarse:
  assumes d: "ns_per_tick res = Some d"
  shows "FromNanoseconds res ns =
     Inr (if unat ns div d \<ge> 2 ^ 63 - 1 then Time_Max else int (unat ns div d))"
proof -
  let ?M = "of_nat (2 ^ 63 - 1) :: u128" and ?d = "of_nat d :: u128"
  have ud: "unat ?d = d" using d by (cases res) auto
  have q: "unat (ns div ?d) = unat ns div d" by (simp add: unat_div_distrib ud)
  have "FromNanoseconds res ns = Inr (if ns div ?d \<ge> ?M then Time_Max else uint (ns div ?d))"
    using d by (cases res) (simp_all add: FromNanoseconds_def)
  moreover have "?M \<le> ns div ?d \<longleftrightarrow> 2 ^ 63 - 1 \<le> unat ns div d"
    unfolding word_le_nat_alt q by (subst unat_small) auto
  moreover have "uint (ns div ?d) = int (unat ns div d)" using q by (metis uint_nat)
  ultimately show ?thesis by simp
qed

lemma ToNanoseconds_fine:
  assumes f: "ticks_per_ns res = Some f" and t: "0 \<le> t" "t \<le> Time_Max"
  shows "\<exists>ns. ToNanoseconds res t = Inr ns \<and> unat ns = nat t div f"
proof -
  have "unat (of_int t :: u128) = nat t" using t by (rule unat_of_time)
  then show ?thesis using f t(1) by (cases res) (auto simp: ToNanoseconds_def unat_div_distrib Let_def)
qed

lemma ToNanoseconds_coarse:
  assumes d: "ns_per_tick res = Some d" and t: "0 \<le> t" "t \<le> Time_Max"
  shows "\<exists>ns. ToNanoseconds res t = Inr ns \<and> unat ns = nat t * d"
proof -
  let ?d = "of_nat d :: u128"
  have ut: "unat (of_int t :: u128) = nat t" using t by (rule unat_of_time)
  have ud: "unat ?d = d" "d \<le> 31536000000000000" using d by (cases res; auto)+
  have "nat t * d \<le> (2 ^ 63 - 1) * 31536000000000000"
    using t ud(2) by (intro mult_le_mono) (auto simp: Time_Max_def)
  then have "unat (of_int t * ?d) = nat t * d" using unat_mult_small [of "of_int t" ?d] ut ud by simp
  then show ?thesis using d t(1) by (cases res) (auto simp: ToNanoseconds_def Let_def)
qed


lemma NanosecondLimit_fine:
  assumes f: "ticks_per_ns res = Some f"
  shows "\<exists>lim. NanosecondLimit res = Inr lim
    \<and> unat lim = (2 ^ 63 - 1) div f + (if (2 ^ 63 - 1) mod f \<noteq> 0 then 1 else 0)"
  using f by (cases res) (auto simp: NanosecondLimit_def)

lemma NanosecondLimit_coarse:
  assumes d: "ns_per_tick res = Some d"
  shows "\<exists>lim. NanosecondLimit res = Inr lim \<and> unat lim = (2 ^ 63 - 1) * d"
  using d by (cases res) (auto simp: NanosecondLimit_def)

text \<open>
  NanosecondLimit is exactly the smallest number of nanoseconds that saturates: a
  pacer that stays below it is converted without saturation, at every resolution.
\<close>

lemma nanosecond_limit_is_the_saturation_point:
  assumes "supported res"
  shows "\<exists>lim. NanosecondLimit res = Inr lim \<and> (\<forall>ns. FromNanoseconds res ns = Inr Time_Max \<longleftrightarrow> lim \<le> ns)"
  using assms
proof (cases rule: supported_cases)
  case (fine f)
  from NanosecondLimit_fine [OF fine(1)] obtain lim where lim: "NanosecondLimit res = Inr lim"
    and ul: "unat lim = (2 ^ 63 - 1) div f + (if (2 ^ 63 - 1) mod f \<noteq> 0 then 1 else 0)" by blast
  have "(if x > (2 ^ 63 - 1) div f then Time_Max else int (x * f)) = Time_Max
      \<longleftrightarrow> (2 ^ 63 - 1) div f + (if (2 ^ 63 - 1) mod f \<noteq> 0 then 1 else 0) \<le> x" for x
    using fine(2) by (auto simp: Time_Max_def)
  then have "FromNanoseconds res ns = Inr Time_Max \<longleftrightarrow> lim \<le> ns" for ns
    unfolding FromNanoseconds_fine [OF fine(1)] word_le_nat_alt ul by simp
  with lim show ?thesis by blast
next
  case (coarse d)
  from NanosecondLimit_coarse [OF coarse(1)] obtain lim where lim: "NanosecondLimit res = Inr lim"
    and ul: "unat lim = (2 ^ 63 - 1) * d" by blast
  have sat: "(if x \<ge> 2 ^ 63 - 1 then Time_Max else int x) = Time_Max \<longleftrightarrow> 2 ^ 63 - 1 \<le> x" for x
    by (auto simp: Time_Max_def)
  have "FromNanoseconds res ns = Inr Time_Max \<longleftrightarrow> lim \<le> ns" for ns
    unfolding FromNanoseconds_coarse [OF coarse(1)] word_le_nat_alt ul sum.inject sat
    by (rule less_eq_div_iff_mult_less_eq [OF coarse(2)])
  with lim show ?thesis by blast
qed


text \<open>
  The unit conversions are faithful. At a resolution at least as fine as the
  nanosecond every unsaturated nanosecond count survives the round trip; at a coarser one
  every representable tick count does; and in both cases converting a time to nanoseconds
  and back never yields a later time.
\<close>

lemma nanosecond_round_trips:
  assumes sup: "supported res" and t: "0 \<le> t" "t < Time_Max"
  shows "\<exists>ns t'. ToNanoseconds res t = Inr ns \<and> FromNanoseconds res ns = Inr t' \<and> t' \<le> t
      \<and> (ns_per_tick res \<noteq> None \<longrightarrow> t' = t)
      \<and> (ticks_per_ns res \<noteq> None \<longrightarrow> ToNanoseconds res t' = Inr ns)"
  using sup
proof (cases rule: supported_cases)
  case (fine f)
  from ToNanoseconds_fine [OF fine(1), of t] t obtain ns where ns: "ToNanoseconds res t = Inr ns" "unat ns = nat t div f"
    by auto
  have lt: "nat t < 2 ^ 63 - 1" using t by (simp add: Time_Max_def)
  let ?t' = "int (nat t div f * f)"
  have le: "nat t div f * f \<le> nat t" by simp
  have "nat t div f \<le> (2 ^ 63 - 1) div f" using lt by (intro div_le_mono) simp
  then have from_ns: "FromNanoseconds res ns = Inr ?t'" using FromNanoseconds_fine [OF fine(1), of ns] ns(2) by simp
  have bounds: "0 \<le> ?t'" "?t' \<le> t" using le t by linarith+
  with ToNanoseconds_fine [OF fine(1), of ?t'] t obtain ns' where
    ns': "ToNanoseconds res ?t' = Inr ns'" "unat ns' = nat ?t' div f" by auto
  have "unat ns' = unat ns" unfolding ns(2) ns'(2) nat_int using fine(2) by auto
  then have "ns' = ns" by (simp add: word_unat_eq_iff)
  moreover have "ns_per_tick res = None" using fine(1) by (cases res) auto
  ultimately show ?thesis using ns(1) from_ns ns'(1) bounds(2) by auto
next
  case (coarse d)
  from ToNanoseconds_coarse [OF coarse(1), of t] t obtain ns where ns: "ToNanoseconds res t = Inr ns" "unat ns = nat t * d"
    by auto
  have "unat ns div d = nat t" using ns(2) coarse(2) by simp
  then have "FromNanoseconds res ns = Inr t"
    using FromNanoseconds_coarse [OF coarse(1), of ns] t by (simp add: Time_Max_def)
  moreover have "ticks_per_ns res = None" using coarse(1) by (cases res) auto
  ultimately show ?thesis using ns(1) by auto
qed

lemma round_half_up:
  assumes d: "0 < (d :: nat)"
  shows "(2 * n + d) div (2 * d) = n div d + (if d \<le> 2 * (n mod d) then 1 else 0)"
proof -
  have "2 * n + d = (2 * (n mod d) + d) + (n div d) * (2 * d)"
    by (metis (no_types, lifting) add.assoc add.commute div_mult_mod_eq distrib_left mult.assoc mult.commute)
  then have "(2 * n + d) div (2 * d) = n div d + (2 * (n mod d) + d) div (2 * d)"
    using d by (simp only: div_mult_self3) (simp add: add.commute)
  moreover have "(2 * (n mod d) + d) div (2 * d) = (if d \<le> 2 * (n mod d) then 1 else 0)"
    using mod_less_divisor [OF d, of n] by (auto simp: div_nat_eqI)
  ultimately show ?thesis by simp
qed

text \<open>
  RoundTicks returns the quotient rounded to the nearest tick, halves up, capped at
  the saturation marker; nothing in its evaluation overflows.
\<close>

lemma round_ticks_is_nearest:
  assumes d: "0 < denominator"
  shows "RoundTicks numerator denominator =
     min Time_Max ((2 * uint numerator + uint denominator) div (2 * uint denominator))"
proof -
  let ?n = "unat numerator" and ?d = "unat denominator" and ?M = "2 ^ 63 - 1 :: nat"
  let ?up = "if ?d \<le> 2 * (?n mod ?d) then 1 else 0 :: nat"
  have d': "0 < ?d" using d by (simp add: word_less_nat_alt)
  have half: "unat (denominator div 2 + denominator mod 2) = ?d div 2 + ?d mod 2"
    using unsigned_less [of denominator, where ?'a = nat]
    by (simp add: unat_word_ariths unat_div_distrib unat_mod_distrib)
  have up: "numerator mod denominator \<ge> denominator div 2 + denominator mod 2 \<longleftrightarrow> ?d \<le> 2 * (?n mod ?d)"
  proof -
    have "x div 2 + x mod 2 \<le> y \<longleftrightarrow> x \<le> 2 * y" for x y :: nat by presburger
    then show ?thesis unfolding word_le_nat_alt half unat_mod_distrib .
  qed
  have M: "of_nat ?M \<le> numerator div denominator \<longleftrightarrow> ?M \<le> ?n div ?d"
    unfolding word_le_nat_alt unat_div_distrib by (subst unat_small) auto
  have sum: "uint (numerator div denominator + (if ?d \<le> 2 * (?n mod ?d) then 1 else 0)) = int (?n div ?d + ?up)"
    if "?n div ?d < ?M"
  proof -
    have "unat (numerator div denominator + (if ?d \<le> 2 * (?n mod ?d) then 1 else 0)) = ?n div ?d + ?up"
      using that by (simp add: unat_word_ariths unat_div_distrib)
    then show ?thesis by (metis uint_nat)
  qed
  have "RoundTicks numerator denominator = (if ?M \<le> ?n div ?d then Time_Max else int (?n div ?d + ?up))"
    unfolding RoundTicks_def Let_def M up using sum by simp
  also have "\<dots> = min Time_Max (int (?n div ?d + ?up))"
    by (auto simp: Time_Max_def)
  also have "int (?n div ?d + ?up) = (2 * uint numerator + uint denominator) div (2 * uint denominator)"
    unfolding round_half_up [OF d', symmetric] uint_nat
    by (simp only: zdiv_int of_nat_add of_nat_mult of_nat_numeral)
  finally show ?thesis .
qed

end
