(* ===== verification/LlrManager.thy ===== *)
theory LlrManager
  imports FabricHeader TimeBounds
begin

text \<open>
  Link-layer retry (\<open>llr-manager.h\<close>, \<open>llr-manager.cc\<close>): the sender's source store keeps
  every packet until it is acknowledged or its retry budget is spent, a bounded retry
  buffer holds fast copies of some of them, and each source entry carries its retry timer.
  The simulator's clock is an argument; a timer is the absolute time of its pending event,
  \<open>None\<close> when no event is pending. A packet is its fabric header and the bytes behind it
  (the header codec of \<open>FabricHeader\<close> is exact), and \<open>TimeBounds::FromRate\<close>, which
  computes on doubles, is the parameter \<open>fromRate\<close>. Callbacks and trace sinks are
  recorded as events and do not call back into the manager.
\<close>

subsection \<open>State\<close>

record Packet =
  pkt_header :: FabricHeader
  pkt_body :: "u8 list"

definition PeekHeader :: "Packet \<Rightarrow> FabricHeader" where
  "PeekHeader p = pkt_header p"

datatype LlrMode = GO_BACK_N | SACK

datatype LlrOverflowPolicy = DROP_OLDEST | DROP_NEWEST

record RetryKey =
  seqNum :: u32
  destRank :: u16
  flowId :: u16
  vcId :: u8

definition MakeRetryKey :: "u32 \<Rightarrow> u16 \<Rightarrow> u16 \<Rightarrow> u8 \<Rightarrow> RetryKey" where
  "MakeRetryKey s d f v = \<lparr>seqNum = s, destRank = d, flowId = f, vcId = v\<rparr>"

record RetryEntry =
  re_packet :: Packet
  re_destRank :: u16

record SourceEntry =
  se_packet :: Packet
  se_destRank :: u16
  retryCount :: u32
  wireArmed :: bool
  timeoutEvent :: "Time option"

record Retransmission =
  rt_packet :: Packet
  readyDelay :: Time
  sourceReload :: bool

record LlrManager =
  m_retryBuffer :: "(RetryKey, RetryEntry) umap"
  m_sourceStore :: "(RetryKey, SourceEntry) umap"
  m_retryLimit :: u32
  m_retryTimeout :: Time
  m_llrMode :: LlrMode
  m_maxBufferSize :: u32
  m_overflowPolicy :: LlrOverflowPolicy
  m_timeoutCallback :: "callback option"
  m_permanentLossCallback :: "callback option"
  m_peakBufferSize :: u32
  m_retransmittedPackets :: u64
  m_overflowCount :: u64
  m_permanentLossCount :: u64
  m_retryMissCount :: u64
  m_sourceReloadCount :: u64
  m_sourceReloadBytes :: u64
  m_sourceReloadServiceTime :: Time
  m_sourceReloadBandwidth :: u64
  m_sourceReloadLatency :: Time
  m_sourceReloadAvailable :: Time

datatype llr_event =
    RetryTrace u32 u16
  | AckTrace u32 u16
  | OverflowTrace u32 u32
  | PermanentLossTrace u32 u16
  | PermanentLoss FabricHeader
  | TimeoutFired u32 u16 u16 u8

text \<open>
  A manager made by \<open>CreateObject\<close>: the constructor, then the attribute defaults, at the
  default nanosecond resolution.
\<close>

definition LlrManager_new :: LlrManager where
  "LlrManager_new =
     \<lparr>m_retryBuffer = [], m_sourceStore = [], m_retryLimit = 3, m_retryTimeout = 1000,
      m_llrMode = GO_BACK_N, m_maxBufferSize = 8192, m_overflowPolicy = DROP_OLDEST,
      m_timeoutCallback = None, m_permanentLossCallback = None, m_peakBufferSize = 0,
      m_retransmittedPackets = 0, m_overflowCount = 0, m_permanentLossCount = 0,
      m_retryMissCount = 0, m_sourceReloadCount = 0, m_sourceReloadBytes = 0,
      m_sourceReloadServiceTime = 0, m_sourceReloadBandwidth = 4800000000000,
      m_sourceReloadLatency = 300, m_sourceReloadAvailable = 0\<rparr>"

subsection \<open>Settings\<close>

definition SetLlrMode :: "LlrManager \<Rightarrow> LlrMode \<Rightarrow> LlrManager" where
  "SetLlrMode lm mode = lm\<lparr>m_llrMode := mode\<rparr>"

definition SetRetryLimit :: "LlrManager \<Rightarrow> u32 \<Rightarrow> LlrManager" where
  "SetRetryLimit lm limit = lm\<lparr>m_retryLimit := limit\<rparr>"

definition SetRetryTimeout :: "LlrManager \<Rightarrow> Time \<Rightarrow> LlrManager" where
  "SetRetryTimeout lm timeout = lm\<lparr>m_retryTimeout := timeout\<rparr>"

definition SetTimeoutCallback :: "LlrManager \<Rightarrow> callback option \<Rightarrow> LlrManager" where
  "SetTimeoutCallback lm cb = lm\<lparr>m_timeoutCallback := cb\<rparr>"

definition SetPermanentLossCallback :: "LlrManager \<Rightarrow> callback option \<Rightarrow> LlrManager" where
  "SetPermanentLossCallback lm cb = lm\<lparr>m_permanentLossCallback := cb\<rparr>"

definition Llr_SetMaxBufferSize :: "LlrManager \<Rightarrow> u32 \<Rightarrow> LlrManager" where
  "Llr_SetMaxBufferSize lm maxSize = lm\<lparr>m_maxBufferSize := maxSize\<rparr>"

definition SetOverflowPolicy :: "LlrManager \<Rightarrow> LlrOverflowPolicy \<Rightarrow> LlrManager" where
  "SetOverflowPolicy lm policy = lm\<lparr>m_overflowPolicy := policy\<rparr>"

definition SetSourceReloadBandwidth :: "LlrManager \<Rightarrow> u64 \<Rightarrow> LlrManager" where
  "SetSourceReloadBandwidth lm bytesPerSecond = lm\<lparr>m_sourceReloadBandwidth := bytesPerSecond\<rparr>"

definition SetSourceReloadLatency :: "LlrManager \<Rightarrow> Time \<Rightarrow> LlrManager result" where
  "SetSourceReloadLatency lm latency =
     (if latency < 0 then Inl (NsAbort ''Latency must be nonnegative'')
      else Inr (lm\<lparr>m_sourceReloadLatency := latency\<rparr>))"

definition Llr_GetBufferSize :: "LlrManager \<Rightarrow> u32" where
  "Llr_GetBufferSize lm = of_nat (length (m_retryBuffer lm))"

definition HasOutstandingPacket :: "LlrManager \<Rightarrow> u32 \<Rightarrow> u16 \<Rightarrow> u16 \<Rightarrow> u8 \<Rightarrow> bool" where
  "HasOutstandingPacket lm s d f v = (umap_find (m_sourceStore lm) (MakeRetryKey s d f v) \<noteq> None)"

text \<open>Cancelling the timers of entries that are dropped leaves nothing to model.\<close>

definition Llr_Clear :: "LlrManager \<Rightarrow> LlrManager" where
  "Llr_Clear lm = lm\<lparr>m_retryBuffer := [], m_sourceStore := [], m_sourceReloadAvailable := 0\<rparr>"

definition Llr_DetachFromEndpoint ::
  "LlrManager \<Rightarrow> callback option \<Rightarrow> callback option \<Rightarrow> LlrManager" where
  "Llr_DetachFromEndpoint lm timeoutOwner lossOwner =
     (let (taken1, lm1) =
            (if timeoutOwner \<noteq> None then
               if m_timeoutCallback lm \<noteq> None \<and> m_timeoutCallback lm \<noteq> timeoutOwner then (True, lm)
               else (False, lm\<lparr>m_timeoutCallback := None\<rparr>)
             else (False, lm));
          (taken2, lm2) =
            (if lossOwner \<noteq> None then
               if m_permanentLossCallback lm1 \<noteq> None \<and> m_permanentLossCallback lm1 \<noteq> lossOwner then (True, lm1)
               else (taken1, lm1\<lparr>m_permanentLossCallback := None\<rparr>)
             else (taken1, lm1))
      in if taken2 then lm2
         else let lm3 = (if timeoutOwner = None then lm2\<lparr>m_timeoutCallback := None\<rparr> else lm2);
                  lm4 = (if lossOwner = None then lm3\<lparr>m_permanentLossCallback := None\<rparr> else lm3)
              in Llr_Clear lm4)"

subsection \<open>The retry buffer\<close>

definition oldest_step ::
  "RetryKey \<times> RetryEntry \<Rightarrow> (RetryKey \<times> RetryEntry) option \<Rightarrow> (RetryKey \<times> RetryEntry) option" where
  "oldest_step it best =
     (case best of
        None \<Rightarrow> Some it
      | Some b \<Rightarrow> if seqNum (fst it) < seqNum (fst b) then Some it else best)"

definition oldest :: "(RetryKey, RetryEntry) umap \<Rightarrow> (RetryKey \<times> RetryEntry) option" where
  "oldest buf = fold oldest_step buf None"

lemma fold_oldest_Some: "fold oldest_step buf (Some b) \<noteq> None"
  by (induction buf arbitrary: b) (auto simp: oldest_step_def)

lemma fold_oldest_mem: "fold oldest_step buf best = Some x \<Longrightarrow> x \<in> set buf \<or> best = Some x"
  by (induction buf arbitrary: best) (force simp: oldest_step_def split: option.splits if_splits)+

lemma oldest_mem: "oldest buf = Some x \<Longrightarrow> x \<in> set buf"
  using fold_oldest_mem [of buf None x] by (simp add: oldest_def)

function enforce_loop :: "LlrManager \<Rightarrow> LlrManager \<times> llr_event list" where
  "enforce_loop lm =
     (if length (m_retryBuffer lm) \<ge> unat (m_maxBufferSize lm) then
        if m_overflowPolicy lm = DROP_OLDEST then
          case oldest (m_retryBuffer lm) of
            None \<Rightarrow> (lm, [])
          | Some (key, e) \<Rightarrow>
              let ev = OverflowTrace (seqNum key) (of_nat (length (m_retryBuffer lm)));
                  (lm', evs) = enforce_loop
                    (lm\<lparr>m_overflowCount := m_overflowCount lm + 1,
                        m_retryBuffer := umap_erase key (m_retryBuffer lm)\<rparr>)
              in (lm', ev # evs)
        else (lm, [])
      else (lm, []))"
  by pat_completeness auto

lemma length_erase_mem: "(k, e) \<in> set m \<Longrightarrow> length (umap_erase k m) < length m"
  unfolding umap_erase_def by (rule length_filter_less) auto

termination enforce_loop
  by (relation "measure (\<lambda>lm. length (m_retryBuffer lm))")
    (auto dest!: oldest_mem intro: length_erase_mem)

declare enforce_loop.simps [simp del]

definition EnforceBufferLimit :: "LlrManager \<Rightarrow> LlrManager \<times> llr_event list \<times> bool" where
  "EnforceBufferLimit lm =
     (if m_maxBufferSize lm = 0 then (lm, [], True)
      else let (lm', evs) = enforce_loop lm
           in (lm', evs, length (m_retryBuffer lm') < unat (m_maxBufferSize lm')))"

definition IsUnrepresentableTimeout :: "Time \<Rightarrow> Time \<Rightarrow> bool" where
  "IsUnrepresentableTimeout now timeout = (\<not> CanSchedule now timeout)"

definition StorePacket ::
  "Time \<Rightarrow> LlrManager \<Rightarrow> u32 \<Rightarrow> Packet \<Rightarrow> u16 \<Rightarrow> LlrManager \<times> llr_event list \<times> bool" where
  "StorePacket now lm s pkt d =
     (let hdr = PeekHeader pkt;
          key = MakeRetryKey s d (GetFlowId hdr) (GetVirtualChannel hdr);
          source = (case umap_find (m_sourceStore lm) key of
             None \<Rightarrow> \<lparr>se_packet = pkt, se_destRank = d, retryCount = 0, wireArmed = False, timeoutEvent = None\<rparr>
           | Some e \<Rightarrow> e\<lparr>se_packet := pkt, se_destRank := d\<rparr>);
          source = (if timeoutEvent source \<noteq> None then source
                    else if \<not> wireArmed source then source
                    else if m_retryTimeout lm > 0 \<and> \<not> IsUnrepresentableTimeout now (m_retryTimeout lm)
                    then source\<lparr>timeoutEvent := Schedule now (m_retryTimeout lm)\<rparr>
                    else source);
          lm = lm\<lparr>m_sourceStore := umap_put key source (m_sourceStore lm),
                  m_retryBuffer := umap_erase key (m_retryBuffer lm)\<rparr>;
          full = (m_maxBufferSize lm > 0 \<and> length (m_retryBuffer lm) \<ge> unat (m_maxBufferSize lm))
      in if full \<and> m_overflowPolicy lm = DROP_NEWEST then
           (lm\<lparr>m_overflowCount := m_overflowCount lm + 1\<rparr>,
            [OverflowTrace s (of_nat (length (m_retryBuffer lm)))], False)
         else
           let (lm, evs, _) = (if full then EnforceBufferLimit lm else (lm, [], True));
               buf = umap_put key \<lparr>re_packet = pkt, re_destRank = d\<rparr> (m_retryBuffer lm)
           in (lm\<lparr>m_retryBuffer := buf,
                  m_peakBufferSize := max (m_peakBufferSize lm) (of_nat (length buf))\<rparr>, evs, True))"

subsection \<open>Timers\<close>

definition ArmRetryTimeoutAtTransmission ::
  "Time \<Rightarrow> LlrManager \<Rightarrow> u32 \<Rightarrow> u16 \<Rightarrow> u16 \<Rightarrow> u8 \<Rightarrow> LlrManager" where
  "ArmRetryTimeoutAtTransmission now lm s d f v =
     (if m_retryTimeout lm \<le> 0 then lm
      else if IsUnrepresentableTimeout now (m_retryTimeout lm) then lm
      else let key = MakeRetryKey s d f v in
        case umap_find (m_sourceStore lm) key of
          None \<Rightarrow> lm
        | Some e \<Rightarrow>
            let deadline = i64_wrap (now + m_retryTimeout lm);
                keep = (case timeoutEvent e of None \<Rightarrow> False | Some pending \<Rightarrow> pending \<ge> deadline);
                e' = (if keep then e\<lparr>wireArmed := True\<rparr>
                      else e\<lparr>wireArmed := True, timeoutEvent := Schedule now (m_retryTimeout lm)\<rparr>)
            in lm\<lparr>m_sourceStore := umap_put key e' (m_sourceStore lm)\<rparr>)"

definition OnRetryTimeout ::
  "LlrManager \<Rightarrow> u32 \<Rightarrow> u16 \<Rightarrow> u16 \<Rightarrow> u8 \<Rightarrow> llr_event list" where
  "OnRetryTimeout lm s d f v =
     (case umap_find (m_sourceStore lm) (MakeRetryKey s d f v) of
        None \<Rightarrow> []
      | Some e \<Rightarrow> if m_timeoutCallback lm \<noteq> None then [TimeoutFired s (se_destRank e) f v] else [])"

text \<open>
  The simulator runs a due event: the event is no longer pending when its handler runs.
\<close>

definition run_timer :: "LlrManager \<Rightarrow> RetryKey \<Rightarrow> LlrManager \<times> llr_event list" where
  "run_timer lm key =
     (case umap_find (m_sourceStore lm) key of
        None \<Rightarrow> (lm, [])
      | Some e \<Rightarrow>
          if timeoutEvent e = None then (lm, [])
          else let lm' = lm\<lparr>m_sourceStore := umap_put key (e\<lparr>timeoutEvent := None\<rparr>) (m_sourceStore lm)\<rparr>
               in (lm', OnRetryTimeout lm' (seqNum key) (destRank key) (flowId key) (vcId key)))"

subsection \<open>Acknowledgements\<close>

definition RemoveOutstandingPacket :: "LlrManager \<Rightarrow> RetryKey \<Rightarrow> LlrManager" where
  "RemoveOutstandingPacket lm key =
     lm\<lparr>m_sourceStore := umap_erase key (m_sourceStore lm),
        m_retryBuffer := umap_erase key (m_retryBuffer lm)\<rparr>"

definition RemovePacket ::
  "LlrManager \<Rightarrow> u32 \<Rightarrow> u16 \<Rightarrow> u16 \<Rightarrow> u8 \<Rightarrow> LlrManager \<times> llr_event list \<times> bool" where
  "RemovePacket lm s d f v =
     (let key = MakeRetryKey s d f v;
          hadEntry = (umap_find (m_sourceStore lm) key \<noteq> None)
      in (RemoveOutstandingPacket lm key, if hadEntry then [AckTrace s d] else [], hadEntry))"

definition PeekOutstandingPacketType :: "LlrManager \<Rightarrow> u32 \<Rightarrow> u16 \<Rightarrow> u16 \<Rightarrow> u8 \<Rightarrow> u8 option" where
  "PeekOutstandingPacketType lm s d f v =
     (case umap_find (m_sourceStore lm) (MakeRetryKey s d f v) of
        None \<Rightarrow> None
      | Some e \<Rightarrow> Some (packet_type_code (GetPacketType (PeekHeader (se_packet e)))))"

definition RemovePacketsUpTo ::
  "LlrManager \<Rightarrow> u32 \<Rightarrow> u16 \<Rightarrow> u16 \<Rightarrow> u8 \<Rightarrow> LlrManager \<times> llr_event list" where
  "RemovePacketsUpTo lm s d f v =
     (let ackedKeys = filter (\<lambda>k. destRank k = d \<and> flowId k = f \<and> vcId k = v \<and> seqNum k \<le> s)
                        (map fst (m_sourceStore lm))
      in (foldl RemoveOutstandingPacket lm ackedKeys, map (\<lambda>k. AckTrace (seqNum k) d) ackedKeys))"

fun RemoveSackedPackets ::
  "LlrManager \<Rightarrow> u32 list \<Rightarrow> u16 \<Rightarrow> u16 \<Rightarrow> u8 \<Rightarrow> LlrManager \<times> llr_event list" where
  "RemoveSackedPackets lm [] d f v = (lm, [])"
| "RemoveSackedPackets lm (s # ackedSeqNums) d f v =
     (let key = MakeRetryKey s d f v;
          evs = (if umap_find (m_sourceStore lm) key \<noteq> None then [AckTrace s d] else []);
          (lm', evs') = RemoveSackedPackets (RemoveOutstandingPacket lm key) ackedSeqNums d f v
      in (lm', evs @ evs'))"

subsection \<open>Retransmission\<close>

text \<open>\<open>fromRate bytes bandwidth\<close> is \<open>TimeBounds::FromRate\<close> on the two integers.\<close>

definition ReserveSourceReload ::
  "(u32 \<Rightarrow> u64 \<Rightarrow> Time) \<Rightarrow> Time \<Rightarrow> LlrManager \<Rightarrow> u32 \<Rightarrow> LlrManager \<times> Time" where
  "ReserveSourceReload fromRate now lm bytes =
     (let transferTime = (if m_sourceReloadBandwidth lm > 0 \<and> bytes > 0
                          then fromRate bytes (m_sourceReloadBandwidth lm) else 0);
          serviceTime = SaturatingAdd (m_sourceReloadLatency lm) transferTime;
          start = max now (m_sourceReloadAvailable lm);
          available = SaturatingAdd start serviceTime
      in (lm\<lparr>m_sourceReloadAvailable := available,
             m_sourceReloadCount := m_sourceReloadCount lm + 1,
             m_sourceReloadBytes := m_sourceReloadBytes lm + ucast bytes,
             m_sourceReloadServiceTime := SaturatingAdd (m_sourceReloadServiceTime lm) serviceTime\<rparr>,
          i64_wrap (available - now)))"

text \<open>The retry budget of an entry is spent: drop it and report the loss.\<close>

definition lose_packet :: "LlrManager \<Rightarrow> RetryKey \<Rightarrow> SourceEntry \<Rightarrow> LlrManager \<times> llr_event list" where
  "lose_packet lm key e =
     (let lostHdr = PeekHeader (se_packet e);
          lm' = RemoveOutstandingPacket lm key
      in (lm'\<lparr>m_permanentLossCount := m_permanentLossCount lm' + 1\<rparr>,
          PermanentLossTrace (seqNum key) (se_destRank e) #
          (if m_permanentLossCallback lm \<noteq> None then [PermanentLoss lostHdr] else [])))"

text \<open>
  One iteration of the two retransmission loops. \<open>Some orderingDelay\<close> is the running
  maximum of the Go-Back-N loop; in the SACK loop (\<open>None\<close>) every packet waits for its own
  reload only.
\<close>

definition retry_one ::
  "(u32 \<Rightarrow> u64 \<Rightarrow> Time) \<Rightarrow> Time \<Rightarrow> LlrManager \<Rightarrow> RetryKey \<Rightarrow> Time option \<Rightarrow>
     LlrManager \<times> llr_event list \<times> Retransmission option" where
  "retry_one fromRate now lm key waited =
     (case umap_find (m_sourceStore lm) key of
        None \<Rightarrow> (lm, [], None)
      | Some e \<Rightarrow>
          let e = e\<lparr>retryCount := retryCount e + 1\<rparr>;
              lm = lm\<lparr>m_sourceStore := umap_put key e (m_sourceStore lm)\<rparr>
          in if retryCount e > m_retryLimit lm then
               let (lm, evs) = lose_packet lm key e in (lm, evs, None)
             else
               let (lm, rt) =
                     (case umap_find (m_retryBuffer lm) key of
                        Some b \<Rightarrow> (lm, \<lparr>rt_packet = re_packet b,
                                       readyDelay = (case waited of None \<Rightarrow> 0 | Some od \<Rightarrow> od),
                                       sourceReload = False\<rparr>)
                      | None \<Rightarrow>
                          let payloadBytes = GetPayloadSize (PeekHeader (se_packet e));
                              (lm, reload) = ReserveSourceReload fromRate now lm payloadBytes
                          in (lm\<lparr>m_retryMissCount := m_retryMissCount lm + 1\<rparr>,
                              \<lparr>rt_packet = se_packet e,
                               readyDelay = (case waited of None \<Rightarrow> reload | Some od \<Rightarrow> max od reload),
                               sourceReload = True\<rparr>));
                   e = e\<lparr>wireArmed := False, timeoutEvent := None\<rparr>
               in (lm\<lparr>m_sourceStore := umap_put key e (m_sourceStore lm),
                      m_retransmittedPackets := m_retransmittedPackets lm + 1\<rparr>,
                   [RetryTrace (seqNum key) (se_destRank e)], Some rt))"

fun retry_loop ::
  "(u32 \<Rightarrow> u64 \<Rightarrow> Time) \<Rightarrow> Time \<Rightarrow> LlrManager \<Rightarrow> RetryKey list \<Rightarrow> Time \<Rightarrow>
     LlrManager \<times> llr_event list \<times> Retransmission list" where
  "retry_loop fromRate now lm [] orderingDelay = (lm, [], [])"
| "retry_loop fromRate now lm (key # keys) orderingDelay =
     (let (lm1, evs1, r) = retry_one fromRate now lm key (Some orderingDelay);
          orderingDelay = (case r of None \<Rightarrow> orderingDelay | Some rt \<Rightarrow> readyDelay rt);
          (lm2, evs2, rts) = retry_loop fromRate now lm1 keys orderingDelay
      in (lm2, evs1 @ evs2, (case r of None \<Rightarrow> [] | Some rt \<Rightarrow> [rt]) @ rts))"

definition retry_keys :: "LlrManager \<Rightarrow> u32 \<Rightarrow> u16 \<Rightarrow> u16 \<Rightarrow> u8 \<Rightarrow> RetryKey list" where
  "retry_keys lm s sourceRank f v =
     map fst (filter (\<lambda>(k, e). flowId k = f \<and> seqNum k \<ge> s \<and> se_destRank e = sourceRank \<and> vcId k = v)
                (m_sourceStore lm))"

definition HandleRetryRequest ::
  "(u32 \<Rightarrow> u64 \<Rightarrow> Time) \<Rightarrow> Time \<Rightarrow> LlrManager \<Rightarrow> u32 \<Rightarrow> u16 \<Rightarrow> u16 \<Rightarrow> u8 \<Rightarrow>
     LlrManager \<times> llr_event list \<times> Retransmission list" where
  "HandleRetryRequest fromRate now lm s sourceRank f v =
     (let keys = sort_key seqNum (retry_keys lm s sourceRank f v);
          (lm', evs, rts) = retry_loop fromRate now lm keys 0
      in (if keys = [] then lm'\<lparr>m_retryMissCount := m_retryMissCount lm' + 1\<rparr> else lm', evs, rts))"

fun sack_loop ::
  "(u32 \<Rightarrow> u64 \<Rightarrow> Time) \<Rightarrow> Time \<Rightarrow> LlrManager \<Rightarrow> RetryKey list \<Rightarrow>
     LlrManager \<times> llr_event list \<times> Retransmission list" where
  "sack_loop fromRate now lm [] = (lm, [], [])"
| "sack_loop fromRate now lm (key # keys) =
     (let lm0 = (if umap_find (m_sourceStore lm) key = None
                 then lm\<lparr>m_retryMissCount := m_retryMissCount lm + 1\<rparr> else lm);
          (lm1, evs1, r) = retry_one fromRate now lm0 key None;
          (lm2, evs2, rts) = sack_loop fromRate now lm1 keys
      in (lm2, evs1 @ evs2, (case r of None \<Rightarrow> [] | Some rt \<Rightarrow> [rt]) @ rts))"

text \<open>The requested set is a list without repetitions; the code sorts its elements.\<close>

definition HandleSackRequest ::
  "(u32 \<Rightarrow> u64 \<Rightarrow> Time) \<Rightarrow> Time \<Rightarrow> LlrManager \<Rightarrow> u32 list \<Rightarrow> u16 \<Rightarrow> u16 \<Rightarrow> u8 \<Rightarrow>
     LlrManager \<times> llr_event list \<times> Retransmission list" where
  "HandleSackRequest fromRate now lm nackSeqNums sourceRank f v =
     sack_loop fromRate now lm (map (\<lambda>s. MakeRetryKey s sourceRank f v) (sort nackSeqNums))"

definition IsRetryLimitExceeded :: "LlrManager \<Rightarrow> u32 \<Rightarrow> bool" where
  "IsRetryLimitExceeded lm s =
     (case filter (\<lambda>(k, e). seqNum k = s) (m_sourceStore lm) of
        [] \<Rightarrow> False
      | (k, e) # _ \<Rightarrow> retryCount e > m_retryLimit lm)"


subsection \<open>The invariant of the two stores\<close>

text \<open>
  A source entry belongs to its key, has retries left, and has a pending timer only if the
  packet has reached the wire.
\<close>

definition entry_ok :: "u32 \<Rightarrow> RetryKey \<Rightarrow> SourceEntry \<Rightarrow> bool" where
  "entry_ok limit k e =
     (se_destRank e = destRank k \<and> GetFlowId (PeekHeader (se_packet e)) = flowId k
      \<and> GetVirtualChannel (PeekHeader (se_packet e)) = vcId k
      \<and> retryCount e \<le> limit \<and> (timeoutEvent e \<noteq> None \<longrightarrow> wireArmed e))"

text \<open>Every fast copy is a copy of the packet its source entry keeps.\<close>

definition stores_ok ::
  "u32 \<Rightarrow> (RetryKey, SourceEntry) umap \<Rightarrow> (RetryKey, RetryEntry) umap \<Rightarrow> bool" where
  "stores_ok limit src buf =
     (umap_wf src \<and> umap_wf buf \<and> (\<forall>k e. umap_find src k = Some e \<longrightarrow> entry_ok limit k e)
      \<and> (\<forall>k b. umap_find buf k = Some b \<longrightarrow> (\<exists>e. umap_find src k = Some e \<and> se_packet e = re_packet b)))"

definition bounded :: "u32 \<Rightarrow> (RetryKey, RetryEntry) umap \<Rightarrow> bool" where
  "bounded maxSize buf = (maxSize > 0 \<longrightarrow> length buf \<le> unat maxSize)"

definition ledger_ok :: "LlrManager \<Rightarrow> bool" where
  "ledger_ok lm =
     (0 \<le> m_sourceReloadLatency lm \<and> m_sourceReloadLatency lm \<le> Time_Max
      \<and> 0 \<le> m_sourceReloadAvailable lm \<and> m_sourceReloadAvailable lm \<le> Time_Max
      \<and> 0 \<le> m_sourceReloadServiceTime lm \<and> m_sourceReloadServiceTime lm \<le> Time_Max)"

definition llr_inv :: "LlrManager \<Rightarrow> bool" where
  "llr_inv lm =
     (stores_ok (m_retryLimit lm) (m_sourceStore lm) (m_retryBuffer lm)
      \<and> bounded (m_maxBufferSize lm) (m_retryBuffer lm) \<and> ledger_ok lm)"

named_theorems llr_stores \<open>operations on the two stores keep their invariant\<close>

lemma stores_ok_remove [llr_stores]:
  "stores_ok limit src buf \<Longrightarrow> stores_ok limit (umap_erase k src) (umap_erase k buf)"
  unfolding stores_ok_def by (auto simp: umap_simps split: if_splits)

lemma stores_ok_evict [llr_stores]: "stores_ok limit src buf \<Longrightarrow> stores_ok limit src (umap_erase k buf)"
  unfolding stores_ok_def by (auto simp: umap_simps split: if_splits)

lemma stores_ok_update:
  "stores_ok limit src buf \<Longrightarrow> entry_ok limit k e \<Longrightarrow>
   (\<And>b. umap_find buf k = Some b \<Longrightarrow> se_packet e = re_packet b) \<Longrightarrow> stores_ok limit (umap_put k e src) buf"
  unfolding stores_ok_def by (auto simp: umap_simps split: if_splits)

lemma stores_ok_copy:
  "stores_ok limit src buf \<Longrightarrow> umap_find src k = Some e \<Longrightarrow> se_packet e = re_packet b \<Longrightarrow>
   stores_ok limit src (umap_put k b buf)"
  unfolding stores_ok_def by (auto simp: umap_simps split: if_splits)

lemma stores_okD:
  assumes "stores_ok limit src buf"
  shows "umap_wf src" "umap_wf buf" "umap_find src k = Some e \<Longrightarrow> entry_ok limit k e"
    and "umap_find buf k = Some b \<Longrightarrow> \<exists>e. umap_find src k = Some e \<and> se_packet e = re_packet b"
  using assms unfolding stores_ok_def by blast+

lemma bounded_erase [llr_stores]: "bounded m buf \<Longrightarrow> bounded m (umap_erase k buf)"
  unfolding bounded_def umap_erase_def by (auto intro: order_trans [OF length_filter_le])

lemma llr_inv_new: "llr_inv LlrManager_new"
  by (simp add: LlrManager_new_def llr_inv_def stores_ok_def bounded_def ledger_ok_def Time_Max_def)

subsection \<open>Eviction\<close>

lemma fold_oldest_min:
  "fold oldest_step buf best = Some x \<Longrightarrow>
   (\<forall>y \<in> set buf. seqNum (fst x) \<le> seqNum (fst y)) \<and> (\<forall>b. best = Some b \<longrightarrow> seqNum (fst x) \<le> seqNum (fst b))"
proof (induction buf arbitrary: best)
  case (Cons a buf)
  then have "fold oldest_step buf (oldest_step a best) = Some x" by simp
  from Cons.IH [OF this] show ?case
    by (cases best; cases a) (auto simp: oldest_step_def not_less split: if_splits)
qed simp

lemma oldest_min: "oldest buf = Some x \<Longrightarrow> y \<in> set buf \<Longrightarrow> seqNum (fst x) \<le> seqNum (fst y)"
  using fold_oldest_min [of buf None x] by (simp add: oldest_def)

lemma oldest_None: "oldest buf = None \<longleftrightarrow> buf = []"
  by (cases buf) (auto simp: oldest_def oldest_step_def fold_oldest_Some)

text \<open>
  The eviction loop drops a set of keys with the lowest sequence numbers, just enough to
  make room for one entry, and touches nothing else.
\<close>

lemma enforce_loop_spec:
  assumes "umap_wf (m_retryBuffer lm)" "0 < m_maxBufferSize lm" "m_overflowPolicy lm = DROP_OLDEST"
    and "enforce_loop lm = (lm', evs)"
  shows "\<exists>evicted c. lm' = lm\<lparr>m_overflowCount := c,
            m_retryBuffer := filter (\<lambda>x. fst x \<notin> set evicted) (m_retryBuffer lm)\<rparr>
       \<and> length (m_retryBuffer lm') = min (length (m_retryBuffer lm)) (unat (m_maxBufferSize lm) - 1)
       \<and> (\<forall>k \<in> set evicted. k \<in> fst ` set (m_retryBuffer lm))
       \<and> (\<forall>k \<in> set evicted. \<forall>x \<in> set (m_retryBuffer lm'). seqNum k \<le> seqNum (fst x))"
  using assms
proof (induction lm arbitrary: lm' evs rule: enforce_loop.induct)
  case (1 lm)
  show ?case
  proof (cases "length (m_retryBuffer lm) \<ge> unat (m_maxBufferSize lm)")
    case True
    have pos: "0 < unat (m_maxBufferSize lm)" using "1.prems"(2) by (simp add: word_less_nat_alt)
    with True have "m_retryBuffer lm \<noteq> []" by auto
    then obtain key x where old: "oldest (m_retryBuffer lm) = Some (key, x)"
      by (metis oldest_None option.exhaust surj_pair)
    let ?lm = "lm\<lparr>m_overflowCount := m_overflowCount lm + 1, m_retryBuffer := umap_erase key (m_retryBuffer lm)\<rparr>"
    obtain lm1 evs1 where rec: "enforce_loop ?lm = (lm1, evs1)" by fastforce
    have lm': "lm' = lm1" using True old rec "1.prems"(3,4) by (simp add: enforce_loop.simps [of lm])
    have mem: "(key, x) \<in> set (m_retryBuffer lm)" by (rule oldest_mem [OF old])
    have "umap_wf (m_retryBuffer ?lm)" using "1.prems"(1) by (simp add: umap_simps)
    from "1.IH" [OF True "1.prems"(3) old refl refl this _ _ rec] "1.prems"(2,3)
    obtain evicted c where e: "lm1 = ?lm\<lparr>m_overflowCount := c,
         m_retryBuffer := filter (\<lambda>x. fst x \<notin> set evicted) (umap_erase key (m_retryBuffer lm))\<rparr>"
      "length (m_retryBuffer lm1) = min (length (umap_erase key (m_retryBuffer lm))) (unat (m_maxBufferSize lm) - 1)"
      "\<forall>k \<in> set evicted. k \<in> fst ` set (umap_erase key (m_retryBuffer lm))"
      "\<forall>k \<in> set evicted. \<forall>x \<in> set (m_retryBuffer lm1). seqNum k \<le> seqNum (fst x)" by auto
    have len: "length (umap_erase key (m_retryBuffer lm)) = length (m_retryBuffer lm) - 1"
      using ust.size_erase [OF "1.prems"(1), of key] mem umap_find_in_keys [of "m_retryBuffer lm" key] by force
    have "filter (\<lambda>x. fst x \<notin> set evicted) (umap_erase key (m_retryBuffer lm))
        = filter (\<lambda>x. fst x \<notin> set (key # evicted)) (m_retryBuffer lm)"
      by (simp add: umap_erase_def conj_commute)
    moreover have "seqNum key \<le> seqNum (fst x)" if "x \<in> set (m_retryBuffer lm1)" for x
      using that oldest_min [OF old, of x] unfolding e(1) by (auto simp: umap_erase_def)
    moreover have "k \<in> fst ` set (m_retryBuffer lm)" if "k \<in> set (key # evicted)" for k
      using that e(3) mem by (force simp: umap_erase_def)
    ultimately show ?thesis
      unfolding lm' using e(2,4) len True
      by (intro exI [of _ "key # evicted"] exI [of _ c]) (auto simp: e(1))
  next
    case False
    with "1.prems"(4) have "lm' = lm" by (simp add: enforce_loop.simps [of lm])
    with False show ?thesis by (intro exI [of _ "[]"] exI [of _ "m_overflowCount lm"]) simp
  qed
qed


lemma EnforceBufferLimit_room:
  assumes "umap_wf (m_retryBuffer lm)" "0 < m_maxBufferSize lm" "m_overflowPolicy lm = DROP_OLDEST"
    and "EnforceBufferLimit lm = (lm', evs, r)"
  shows "\<exists>evicted c. lm' = lm\<lparr>m_overflowCount := c,
            m_retryBuffer := filter (\<lambda>x. fst x \<notin> set evicted) (m_retryBuffer lm)\<rparr>
       \<and> length (m_retryBuffer lm') = min (length (m_retryBuffer lm)) (unat (m_maxBufferSize lm) - 1)
       \<and> (\<forall>k \<in> set evicted. k \<in> fst ` set (m_retryBuffer lm))
       \<and> (\<forall>k \<in> set evicted. \<forall>x \<in> set (m_retryBuffer lm'). seqNum k \<le> seqNum (fst x))"
proof -
  from assms(2,4) have "enforce_loop lm = (lm', evs)"
    by (auto simp: EnforceBufferLimit_def Let_def split: prod.splits if_splits)
  from enforce_loop_spec [OF assms(1-3) this] show ?thesis .
qed

lemma stores_ok_evict_many [llr_stores]:
  "stores_ok limit src buf \<Longrightarrow> stores_ok limit src (filter (\<lambda>x. fst x \<notin> set ks) buf)"
proof (induction ks)
  case (Cons k ks)
  have "filter (\<lambda>x. fst x \<notin> set (k # ks)) buf = umap_erase k (filter (\<lambda>x. fst x \<notin> set ks) buf)"
    by (simp add: umap_erase_def conj_commute)
  with stores_ok_evict [OF Cons.IH [OF Cons.prems], of k] show ?case by simp
qed simp

subsection \<open>Storing a packet\<close>

text \<open>The source entry that \<open>StorePacket\<close> leaves behind.\<close>

definition stored_source :: "Time \<Rightarrow> LlrManager \<Rightarrow> RetryKey \<Rightarrow> Packet \<Rightarrow> SourceEntry" where
  "stored_source now lm key pkt =
     (let e = (case umap_find (m_sourceStore lm) key of
             None \<Rightarrow> \<lparr>se_packet = pkt, se_destRank = destRank key, retryCount = 0, wireArmed = False, timeoutEvent = None\<rparr>
           | Some e \<Rightarrow> e\<lparr>se_packet := pkt, se_destRank := destRank key\<rparr>)
      in if timeoutEvent e = None \<and> wireArmed e \<and> m_retryTimeout lm > 0 \<and> CanSchedule now (m_retryTimeout lm)
         then e\<lparr>timeoutEvent := Schedule now (m_retryTimeout lm)\<rparr> else e)"

definition packet_key :: "u32 \<Rightarrow> u16 \<Rightarrow> Packet \<Rightarrow> RetryKey" where
  "packet_key s d pkt = MakeRetryKey s d (GetFlowId (PeekHeader pkt)) (GetVirtualChannel (PeekHeader pkt))"

abbreviation buffer_full :: "LlrManager \<Rightarrow> RetryKey \<Rightarrow> bool" where
  "buffer_full lm key \<equiv>
     m_maxBufferSize lm > 0 \<and> length (umap_erase key (m_retryBuffer lm)) \<ge> unat (m_maxBufferSize lm)"

lemma stored_source_ok:
  assumes inv: "stores_ok (m_retryLimit lm) (m_sourceStore lm) buf"
  shows "entry_ok (m_retryLimit lm) (packet_key s d pkt) (stored_source now lm (packet_key s d pkt) pkt)"
    and "se_packet (stored_source now lm key pkt) = pkt"
    and "retryCount (stored_source now lm key pkt) =
           (case umap_find (m_sourceStore lm) key of None \<Rightarrow> 0 | Some e \<Rightarrow> retryCount e)"
proof -
  show "entry_ok (m_retryLimit lm) (packet_key s d pkt) (stored_source now lm (packet_key s d pkt) pkt)"
    using stores_okD(3) [OF inv, of "packet_key s d pkt"]
    by (auto simp: entry_ok_def stored_source_def packet_key_def MakeRetryKey_def Let_def split: option.splits)
qed (simp_all add: stored_source_def Let_def split: option.splits)

text \<open>Where a stored packet goes: refused, kept with room, or kept after an eviction.\<close>

lemma StorePacket_cases:
  fixes s d pkt lm now
  defines "key \<equiv> packet_key s d pkt"
  defines "lm1 \<equiv> lm\<lparr>m_sourceStore := umap_put key (stored_source now lm key pkt) (m_sourceStore lm),
                    m_retryBuffer := umap_erase key (m_retryBuffer lm)\<rparr>"
  shows "StorePacket now lm s pkt d =
     (if buffer_full lm key \<and> m_overflowPolicy lm = DROP_NEWEST then
        (lm1\<lparr>m_overflowCount := m_overflowCount lm + 1\<rparr>,
         [OverflowTrace s (of_nat (length (umap_erase key (m_retryBuffer lm))))], False)
      else let (lm2, evs, _) = (if buffer_full lm key then EnforceBufferLimit lm1 else (lm1, [], True));
               buf = umap_put key \<lparr>re_packet = pkt, re_destRank = d\<rparr> (m_retryBuffer lm2)
           in (lm2\<lparr>m_retryBuffer := buf,
                   m_peakBufferSize := max (m_peakBufferSize lm2) (of_nat (length buf))\<rparr>, evs, True))"
proof -
  have src: "(let source = (case umap_find (m_sourceStore lm) key of
             None \<Rightarrow> \<lparr>se_packet = pkt, se_destRank = d, retryCount = 0, wireArmed = False, timeoutEvent = None\<rparr>
           | Some e \<Rightarrow> e\<lparr>se_packet := pkt, se_destRank := d\<rparr>)
       in if timeoutEvent source \<noteq> None then source
          else if \<not> wireArmed source then source
          else if m_retryTimeout lm > 0 \<and> \<not> IsUnrepresentableTimeout now (m_retryTimeout lm)
          then source\<lparr>timeoutEvent := Schedule now (m_retryTimeout lm)\<rparr> else source)
     = stored_source now lm key pkt"
    by (auto simp: stored_source_def key_def packet_key_def MakeRetryKey_def IsUnrepresentableTimeout_def Let_def
        split: option.split)
  show ?thesis
    unfolding StorePacket_def Let_def [of "PeekHeader pkt"] packet_key_def [symmetric] key_def [symmetric]
    using src unfolding Let_def lm1_def by simp
qed


text \<open>The buffer before the new copy is put in, on the path that keeps it.\<close>

lemma StorePacket_kept:
  fixes s d pkt lm now
  defines "key \<equiv> packet_key s d pkt"
  assumes wf: "umap_wf (m_retryBuffer lm)"
    and keep: "\<not> (buffer_full lm key \<and> m_overflowPolicy lm = DROP_NEWEST)"
  shows "\<exists>evicted c peak evs.
      StorePacket now lm s pkt d =
        (lm\<lparr>m_sourceStore := umap_put key (stored_source now lm key pkt) (m_sourceStore lm),
            m_overflowCount := c,
            m_retryBuffer := umap_put key \<lparr>re_packet = pkt, re_destRank = d\<rparr>
              (filter (\<lambda>x. fst x \<notin> set evicted) (umap_erase key (m_retryBuffer lm))),
            m_peakBufferSize := peak\<rparr>, evs, True)
      \<and> (m_maxBufferSize lm > 0 \<longrightarrow>
           length (filter (\<lambda>x. fst x \<notin> set evicted) (umap_erase key (m_retryBuffer lm))) < unat (m_maxBufferSize lm))
      \<and> (\<not> buffer_full lm key \<longrightarrow> evicted = [])
      \<and> (\<forall>k \<in> set evicted. \<forall>x \<in> set (filter (\<lambda>x. fst x \<notin> set evicted) (umap_erase key (m_retryBuffer lm))).
            seqNum k \<le> seqNum (fst x))"
proof (cases "buffer_full lm key")
  case True
  let ?lm1 = "lm\<lparr>m_sourceStore := umap_put key (stored_source now lm key pkt) (m_sourceStore lm),
                 m_retryBuffer := umap_erase key (m_retryBuffer lm)\<rparr>"
  obtain lm2 evs r where e: "EnforceBufferLimit ?lm1 = (lm2, evs, r)" by (metis prod_cases3)
  have pol: "m_overflowPolicy lm = DROP_OLDEST" using keep True by (cases "m_overflowPolicy lm") auto
  from EnforceBufferLimit_room [OF _ _ _ e] wf True pol obtain evicted c where
    lm2: "lm2 = ?lm1\<lparr>m_overflowCount := c,
       m_retryBuffer := filter (\<lambda>x. fst x \<notin> set evicted) (umap_erase key (m_retryBuffer lm))\<rparr>"
    and len: "length (m_retryBuffer lm2) = min (length (umap_erase key (m_retryBuffer lm))) (unat (m_maxBufferSize lm) - 1)"
    and low: "\<forall>k \<in> set evicted. \<forall>x \<in> set (m_retryBuffer lm2). seqNum k \<le> seqNum (fst x)"
    by (auto simp: umap_simps)
  have "0 < unat (m_maxBufferSize lm)" using True by (simp add: word_less_nat_alt)
  with len have "length (m_retryBuffer lm2) < unat (m_maxBufferSize lm)" by simp
  with True keep e low show ?thesis
    unfolding StorePacket_cases key_def [symmetric]
    by (intro exI [of _ evicted] exI [of _ c]) (simp add: Let_def lm2, blast)
next
  case False
  then show ?thesis
    unfolding StorePacket_cases key_def [symmetric]
    by (intro exI [of _ "[]"] exI [of _ "m_overflowCount lm"]) (auto simp: Let_def not_le)
qed

lemma bounded_put:
  "umap_wf buf \<Longrightarrow> (m > 0 \<longrightarrow> length buf < unat m) \<Longrightarrow> bounded m (umap_put k b buf)"
  unfolding bounded_def using ust.size_put_le [of buf k b] by auto

lemma StorePacket_inv:
  assumes inv: "llr_inv lm" and st: "StorePacket now lm s pkt d = (lm', evs, kept)"
  shows "llr_inv lm'"
proof -
  let ?key = "packet_key s d pkt" and ?l = "m_retryLimit lm"
  let ?src = "umap_put ?key (stored_source now lm ?key pkt) (m_sourceStore lm)"
  have st0: "stores_ok ?l (m_sourceStore lm) (m_retryBuffer lm)" and led: "ledger_ok lm"
    and bd: "bounded (m_maxBufferSize lm) (m_retryBuffer lm)" using inv by (simp_all add: llr_inv_def)
  have src: "stores_ok ?l ?src (umap_erase ?key (m_retryBuffer lm))"
    by (rule stores_ok_update [OF stores_ok_evict [OF st0] stored_source_ok(1) [OF st0]]) simp
  show ?thesis
  proof (cases "buffer_full lm ?key \<and> m_overflowPolicy lm = DROP_NEWEST")
    case True
    then have "lm' = lm\<lparr>m_sourceStore := ?src, m_retryBuffer := umap_erase ?key (m_retryBuffer lm),
        m_overflowCount := m_overflowCount lm + 1\<rparr>"
      using st unfolding StorePacket_cases by simp
    with src led bounded_erase [OF bd] show ?thesis by (simp add: llr_inv_def ledger_ok_def)
  next
    case False
    have wf: "umap_wf (m_retryBuffer lm)" by (rule stores_okD(2) [OF st0])
    from StorePacket_kept [OF wf False, of now] st obtain evicted c peak where
      lm': "lm' = lm\<lparr>m_sourceStore := ?src, m_overflowCount := c,
            m_retryBuffer := umap_put ?key \<lparr>re_packet = pkt, re_destRank = d\<rparr>
              (filter (\<lambda>x. fst x \<notin> set evicted) (umap_erase ?key (m_retryBuffer lm))),
            m_peakBufferSize := peak\<rparr>"
      and len: "m_maxBufferSize lm > 0 \<longrightarrow>
         length (filter (\<lambda>x. fst x \<notin> set evicted) (umap_erase ?key (m_retryBuffer lm))) < unat (m_maxBufferSize lm)"
      by auto
    note ev = stores_ok_evict_many [OF src, of evicted]
    have "stores_ok ?l ?src (m_retryBuffer lm')"
      unfolding lm' using stores_ok_copy [OF ev] stored_source_ok(2) [OF st0] by simp
    moreover have "bounded (m_maxBufferSize lm) (m_retryBuffer lm')"
      unfolding lm' using bounded_put [OF stores_okD(2) [OF ev] len] by simp
    ultimately show ?thesis using led by (simp add: llr_inv_def ledger_ok_def lm')
  qed
qed


text \<open>
  C25: storing never loses a packet. Whatever the overflow policy evicts or refuses is only
  a fast copy: every packet that was outstanding still is, unchanged, and the new packet
  is outstanding too, under the key of its own header, with its retry count kept across a
  re-store. The copy is kept unless the full buffer refuses new entries, and copies are
  evicted only from a full buffer, lowest sequence numbers first.
\<close>

theorem store_never_loses_a_packet:
  assumes inv: "llr_inv lm" and st: "StorePacket now lm s pkt d = (lm', evs, kept)"
  shows "(\<forall>k. k \<noteq> packet_key s d pkt \<longrightarrow> umap_find (m_sourceStore lm') k = umap_find (m_sourceStore lm) k)
    \<and> (\<exists>e. umap_find (m_sourceStore lm') (packet_key s d pkt) = Some e \<and> se_packet e = pkt
          \<and> retryCount e = (case umap_find (m_sourceStore lm) (packet_key s d pkt) of
                              None \<Rightarrow> 0 | Some e0 \<Rightarrow> retryCount e0))
    \<and> (kept \<longleftrightarrow> \<not> (buffer_full lm (packet_key s d pkt) \<and> m_overflowPolicy lm = DROP_NEWEST))
    \<and> (kept \<longrightarrow> umap_find (m_retryBuffer lm') (packet_key s d pkt) = Some \<lparr>re_packet = pkt, re_destRank = d\<rparr>)
    \<and> (\<forall>k b. umap_find (m_retryBuffer lm) k = Some b \<and> umap_find (m_retryBuffer lm') k = None
          \<and> k \<noteq> packet_key s d pkt \<longrightarrow> buffer_full lm (packet_key s d pkt)
          \<and> (\<forall>k' b'. k' \<noteq> packet_key s d pkt \<and> umap_find (m_retryBuffer lm') k' = Some b' \<longrightarrow> seqNum k \<le> seqNum k'))"
proof -
  let ?key = "packet_key s d pkt"
  let ?src = "umap_put ?key (stored_source now lm ?key pkt) (m_sourceStore lm)"
  have st0: "stores_ok (m_retryLimit lm) (m_sourceStore lm) (m_retryBuffer lm)" using inv by (simp add: llr_inv_def)
  have wf: "umap_wf (m_retryBuffer lm)" by (rule stores_okD(2) [OF st0])
  note fresh = stored_source_ok(2,3) [OF st0, of now ?key pkt]
  show ?thesis
  proof (cases "buffer_full lm ?key \<and> m_overflowPolicy lm = DROP_NEWEST")
    case True
    then have "lm' = lm\<lparr>m_sourceStore := ?src, m_retryBuffer := umap_erase ?key (m_retryBuffer lm),
        m_overflowCount := m_overflowCount lm + 1\<rparr>" "\<not> kept"
      using st unfolding StorePacket_cases by simp_all
    with True fresh show ?thesis by auto
  next
    case False
    from StorePacket_kept [OF wf False, of now] st obtain evicted c peak where
      lm': "lm' = lm\<lparr>m_sourceStore := ?src, m_overflowCount := c,
            m_retryBuffer := umap_put ?key \<lparr>re_packet = pkt, re_destRank = d\<rparr>
              (filter (\<lambda>x. fst x \<notin> set evicted) (umap_erase ?key (m_retryBuffer lm))),
            m_peakBufferSize := peak\<rparr>" and kept: kept
      and none: "\<not> buffer_full lm ?key \<longrightarrow> evicted = []"
      and low: "\<forall>k \<in> set evicted. \<forall>x \<in> set (filter (\<lambda>x. fst x \<notin> set evicted) (umap_erase ?key (m_retryBuffer lm))).
            seqNum k \<le> seqNum (fst x)" by auto
    let ?kept = "filter (\<lambda>x. fst x \<notin> set evicted) (umap_erase ?key (m_retryBuffer lm))"
    have buf': "umap_find (m_retryBuffer lm') k = umap_find ?kept k" if "k \<noteq> ?key" for k
      using that by (simp add: lm')
    have evict: "buffer_full lm ?key \<and> (\<forall>k' b'. k' \<noteq> ?key \<and> umap_find (m_retryBuffer lm') k' = Some b' \<longrightarrow> seqNum k \<le> seqNum k')"
      if "umap_find (m_retryBuffer lm) k = Some b \<and> umap_find (m_retryBuffer lm') k = None \<and> k \<noteq> ?key" for k b
    proof -
      from that have "k \<in> fst ` set (m_retryBuffer lm)" "k \<notin> fst ` set ?kept"
        using umap_find_in_keys [of "m_retryBuffer lm" k] umap_find_in_keys [of ?kept k] buf' [of k] by simp_all
      with that have gone: "k \<in> set evicted" by (auto simp: umap_erase_def)
      have "seqNum k \<le> seqNum k'" if "k' \<noteq> ?key" "umap_find (m_retryBuffer lm') k' = Some b'" for k' b'
      proof -
        have "k' \<in> fst ` set ?kept" using that buf' [of k'] umap_find_in_keys [of ?kept k'] by simp
        with low gone show ?thesis by blast
      qed
      with gone none show ?thesis by (metis empty_iff list.set(1))
    qed
    have "umap_find (m_sourceStore lm') = (umap_find (m_sourceStore lm))(?key \<mapsto> stored_source now lm ?key pkt)"
      by (simp add: lm' fun_eq_iff)
    moreover have "umap_find (m_retryBuffer lm') ?key = Some \<lparr>re_packet = pkt, re_destRank = d\<rparr>" by (simp add: lm')
    ultimately show ?thesis using fresh kept False evict by (intro conjI allI impI) (simp_all del: not_None_eq)
  qed
qed


theorem store_never_loses_a_packet_witness:
  "\<exists>lm' evs kept. StorePacket 5 (Llr_SetMaxBufferSize LlrManager_new 1) 7
       \<lparr>pkt_header = FabricHeader_new, pkt_body = []\<rparr> 3 = (lm', evs, kept)
     \<and> (\<exists>e. umap_find (m_sourceStore lm') (packet_key 7 3 \<lparr>pkt_header = FabricHeader_new, pkt_body = []\<rparr>) = Some e)"
proof -
  have inv: "llr_inv (Llr_SetMaxBufferSize LlrManager_new 1)"
    using llr_inv_new by (simp add: llr_inv_def Llr_SetMaxBufferSize_def bounded_def ledger_ok_def LlrManager_new_def)
  obtain lm' evs kept where st: "StorePacket 5 (Llr_SetMaxBufferSize LlrManager_new 1) 7
       \<lparr>pkt_header = FabricHeader_new, pkt_body = []\<rparr> 3 = (lm', evs, kept)" by (metis prod_cases3)
  from store_never_loses_a_packet [OF inv st] st show ?thesis by blast
qed

subsection \<open>Retransmission loops\<close>

text \<open>What one retry does to a source entry: it is gone when its budget is spent.\<close>

definition retried :: "u32 \<Rightarrow> SourceEntry \<Rightarrow> SourceEntry option" where
  "retried limit e =
     (if retryCount e + 1 > limit then None
      else Some (e\<lparr>retryCount := retryCount e + 1, wireArmed := False, timeoutEvent := None\<rparr>))"

abbreviation llr_stores_inv :: "LlrManager \<Rightarrow> bool" where
  "llr_stores_inv lm \<equiv> stores_ok (m_retryLimit lm) (m_sourceStore lm) (m_retryBuffer lm)
     \<and> bounded (m_maxBufferSize lm) (m_retryBuffer lm)"

definition retry_effect :: "LlrManager \<Rightarrow> RetryKey \<Rightarrow> LlrManager \<Rightarrow> Retransmission option \<Rightarrow> bool" where
  "retry_effect lm k lm' r =
     (umap_find (m_sourceStore lm') =
        (umap_find (m_sourceStore lm))(k := Option.bind (umap_find (m_sourceStore lm) k) (retried (m_retryLimit lm)))
      \<and> (r = None \<longleftrightarrow> umap_find (m_sourceStore lm') k = None)
      \<and> (\<forall>rt. r = Some rt \<longrightarrow> map_option se_packet (umap_find (m_sourceStore lm) k) = Some (rt_packet rt))
      \<and> m_retryLimit lm' = m_retryLimit lm \<and> m_maxBufferSize lm' = m_maxBufferSize lm)"

text \<open>
  The contract of a loop that retries a list of keys, carrying a value from one to the
  next. Both retransmission modes are instances.
\<close>

locale retransmission_loop =
  fixes loop :: "LlrManager \<Rightarrow> RetryKey list \<Rightarrow> 'c \<Rightarrow> LlrManager \<times> llr_event list \<times> Retransmission list"
    and step :: "LlrManager \<Rightarrow> RetryKey \<Rightarrow> 'c \<Rightarrow> LlrManager \<times> llr_event list \<times> Retransmission option"
    and carry :: "'c \<Rightarrow> Retransmission option \<Rightarrow> 'c"
  assumes loop_Nil: "loop lm [] c = (lm, [], [])"
    and loop_Cons: "step lm k c = (lm1, evs1, r) \<Longrightarrow> loop lm1 ks (carry c r) = (lm2, evs2, rts) \<Longrightarrow>
       loop lm (k # ks) c = (lm2, evs1 @ evs2, (case r of None \<Rightarrow> [] | Some rt \<Rightarrow> [rt]) @ rts)"
    and step_effect: "llr_stores_inv lm \<Longrightarrow> step lm k c = (lm', evs, r) \<Longrightarrow>
       llr_stores_inv lm' \<and> retry_effect lm k lm' r"
begin

lemma loop_spec:
  assumes "llr_stores_inv lm" "distinct ks" "loop lm ks c = (lm', evs, rts)"
  shows "llr_stores_inv lm' \<and> m_retryLimit lm' = m_retryLimit lm
    \<and> (\<forall>k. umap_find (m_sourceStore lm') k =
          (if k \<in> set ks then Option.bind (umap_find (m_sourceStore lm) k) (retried (m_retryLimit lm))
           else umap_find (m_sourceStore lm) k))
    \<and> map (\<lambda>rt. Some (rt_packet rt)) rts =
        map (\<lambda>k. map_option se_packet (umap_find (m_sourceStore lm) k))
          (filter (\<lambda>k. umap_find (m_sourceStore lm') k \<noteq> None) ks)"
  using assms
proof (induction ks arbitrary: lm c evs rts)
  case Nil
  then show ?case by (simp add: loop_Nil)
next
  case (Cons k ks)
  obtain lm1 evs1 r where s: "step lm k c = (lm1, evs1, r)" by (metis prod_cases3)
  obtain lm2 evs2 rts2 where l: "loop lm1 ks (carry c r) = (lm2, evs2, rts2)" by (metis prod_cases3)
  from step_effect [OF Cons.prems(1) s] have inv1: "llr_stores_inv lm1"
    and src1: "umap_find (m_sourceStore lm1) = (umap_find (m_sourceStore lm))
      (k := Option.bind (umap_find (m_sourceStore lm) k) (retried (m_retryLimit lm)))"
    and r: "r = None \<longleftrightarrow> umap_find (m_sourceStore lm1) k = None"
      "\<forall>rt. r = Some rt \<longrightarrow> map_option se_packet (umap_find (m_sourceStore lm) k) = Some (rt_packet rt)"
    and lim: "m_retryLimit lm1 = m_retryLimit lm"
    unfolding retry_effect_def by blast+
  have k: "k \<notin> set ks" and "distinct ks" using Cons.prems(2) by simp_all
  from loop_Cons [OF s l] Cons.prems(3) have lm': "lm' = lm2" and rts: "rts = (case r of None \<Rightarrow> [] | Some rt \<Rightarrow> [rt]) @ rts2"
    by simp_all
  from Cons.IH [OF inv1 \<open>distinct ks\<close> l [folded lm']] have inv2: "llr_stores_inv lm'"
    and lim2: "m_retryLimit lm' = m_retryLimit lm"
    and src2: "\<And>k'. umap_find (m_sourceStore lm') k' =
      (if k' \<in> set ks then Option.bind (umap_find (m_sourceStore lm1) k') (retried (m_retryLimit lm))
       else umap_find (m_sourceStore lm1) k')"
    and pk: "map (\<lambda>rt. Some (rt_packet rt)) rts2 =
        map (\<lambda>k. map_option se_packet (umap_find (m_sourceStore lm1) k))
          (filter (\<lambda>k. umap_find (m_sourceStore lm') k \<noteq> None) ks)" unfolding lim by blast+
  have src: "umap_find (m_sourceStore lm') k' =
      (if k' \<in> set (k # ks) then Option.bind (umap_find (m_sourceStore lm) k') (retried (m_retryLimit lm))
       else umap_find (m_sourceStore lm) k')" for k'
    using src1 src2 [of k'] k by (cases "k' = k") simp_all
  have same: "map (\<lambda>k. map_option se_packet (umap_find (m_sourceStore lm1) k)) ks' =
      map (\<lambda>k. map_option se_packet (umap_find (m_sourceStore lm) k)) ks'" if "k \<notin> set ks'" for ks'
    using that src1 by auto
  have "map (\<lambda>rt. Some (rt_packet rt)) rts =
        map (\<lambda>k. map_option se_packet (umap_find (m_sourceStore lm) k))
          (filter (\<lambda>k. umap_find (m_sourceStore lm') k \<noteq> None) (k # ks))"
    using r pk k same [of "filter (\<lambda>k. umap_find (m_sourceStore lm') k \<noteq> None) ks"] src2 [of k]
    by (cases r) (auto simp: rts)
  with inv2 lim2 src show ?case by blast
qed

end


lemma stores_finds:
  "llr_stores_inv lm \<Longrightarrow> umap_find (m_retryBuffer lm) k = Some b \<Longrightarrow> umap_find (m_sourceStore lm) k = Some e \<Longrightarrow>
   re_packet b = se_packet e"
  using stores_okD(4) [of "m_retryLimit lm" "m_sourceStore lm" "m_retryBuffer lm" k b] by auto

lemma retried_ok: "entry_ok limit k e \<Longrightarrow> retried limit e = Some e' \<Longrightarrow> entry_ok limit k e'"
  by (auto simp: entry_ok_def retried_def split: if_splits)

lemma umap_find_put_eq: "umap_find (umap_put k v m) = (umap_find m)(k \<mapsto> v)"
  by (simp add: fun_eq_iff)

lemma umap_find_erase_eq: "umap_find (umap_erase k m) = (umap_find m)(k := None)"
  by (simp add: fun_eq_iff)

lemma umap_put_put: "umap_put k v (umap_put k w m) = umap_put k v m"
  by (induction m) (auto simp: umap_put_def)

lemma umap_erase_put: "umap_erase k (umap_put k v m) = umap_erase k m"
  by (induction m) (auto simp: umap_put_def umap_erase_def)

text \<open>One retry, case by case.\<close>

lemma retry_one_None:
  "umap_find (m_sourceStore lm) k = None \<Longrightarrow> retry_one fr now lm k w = (lm, [], None)"
  by (simp add: retry_one_def)

lemma retry_one_lost:
  "umap_find (m_sourceStore lm) k = Some e \<Longrightarrow> retryCount e + 1 > m_retryLimit lm \<Longrightarrow>
   retry_one fr now lm k w =
     (lm\<lparr>m_sourceStore := umap_erase k (m_sourceStore lm), m_retryBuffer := umap_erase k (m_retryBuffer lm),
         m_permanentLossCount := m_permanentLossCount lm + 1\<rparr>,
      PermanentLossTrace (seqNum k) (se_destRank e) #
        (if m_permanentLossCallback lm \<noteq> None then [PermanentLoss (PeekHeader (se_packet e))] else []), None)"
  by (simp add: retry_one_def lose_packet_def RemoveOutstandingPacket_def umap_erase_put Let_def)

lemma ReserveSourceReload_frame:
  "ReserveSourceReload fr now lm b = (lm', d) \<Longrightarrow>
     m_sourceStore lm' = m_sourceStore lm \<and> m_retryBuffer lm' = m_retryBuffer lm
     \<and> m_retryLimit lm' = m_retryLimit lm \<and> m_maxBufferSize lm' = m_maxBufferSize lm"
  by (auto simp: ReserveSourceReload_def Let_def)

lemma retry_one_sent:
  assumes e: "umap_find (m_sourceStore lm) k = Some e" and c: "\<not> retryCount e + 1 > m_retryLimit lm"
    and r: "retry_one fr now lm k w = (lm', evs, rt)"
  shows "m_sourceStore lm' = umap_put k (e\<lparr>retryCount := retryCount e + 1, wireArmed := False, timeoutEvent := None\<rparr>)
           (m_sourceStore lm)"
    and "m_retryBuffer lm' = m_retryBuffer lm" "m_retryLimit lm' = m_retryLimit lm"
    and "m_maxBufferSize lm' = m_maxBufferSize lm" "evs = [RetryTrace (seqNum k) (se_destRank e)]"
    and "\<exists>p d s. rt = Some \<lparr>rt_packet = p, readyDelay = d, sourceReload = s\<rparr>
           \<and> (umap_find (m_retryBuffer lm) k = None \<longrightarrow> p = se_packet e)
           \<and> (\<forall>b. umap_find (m_retryBuffer lm) k = Some b \<longrightarrow> p = re_packet b)
           \<and> (\<forall>od. w = Some od \<longrightarrow> od \<le> d)"
  using assms
  by (auto simp: retry_one_def Let_def umap_put_put ReserveSourceReload_def split: option.splits)


lemma retry_effect_absent:
  "umap_find (m_sourceStore lm) k = None \<Longrightarrow> m_sourceStore lm' = m_sourceStore lm \<Longrightarrow>
   m_retryLimit lm' = m_retryLimit lm \<Longrightarrow> m_maxBufferSize lm' = m_maxBufferSize lm \<Longrightarrow> retry_effect lm k lm' None"
  by (simp add: retry_effect_def fun_upd_idem)

lemma retry_one_effect:
  assumes inv: "llr_stores_inv lm" and r: "retry_one fr now lm k w = (lm', evs, rt)"
  shows "llr_stores_inv lm' \<and> retry_effect lm k lm' rt"
proof (cases "umap_find (m_sourceStore lm) k")
  case None
  with r have "lm' = lm" "rt = None" by (simp_all add: retry_one_None)
  with inv retry_effect_absent [OF None] show ?thesis by simp
next
  case (Some e)
  have ok: "entry_ok (m_retryLimit lm) k e" using inv stores_okD(3) Some by blast
  show ?thesis
  proof (cases "retryCount e + 1 > m_retryLimit lm")
    case True
    have "stores_ok (m_retryLimit lm) (umap_erase k (m_sourceStore lm)) (umap_erase k (m_retryBuffer lm))"
      "bounded (m_maxBufferSize lm) (umap_erase k (m_retryBuffer lm))"
      using inv by (simp_all add: llr_stores)
    moreover from r retry_one_lost [OF Some True, of fr now w] have
      lm': "m_sourceStore lm' = umap_erase k (m_sourceStore lm)" "m_retryBuffer lm' = umap_erase k (m_retryBuffer lm)"
        "m_retryLimit lm' = m_retryLimit lm" "m_maxBufferSize lm' = m_maxBufferSize lm" "rt = None" by auto
    moreover have "retried (m_retryLimit lm) e = None" using True by (simp add: retried_def)
    ultimately show ?thesis unfolding retry_effect_def lm' umap_find_erase_eq Some by simp
  next
    case False
    let ?e = "e\<lparr>retryCount := retryCount e + 1, wireArmed := False, timeoutEvent := None\<rparr>"
    note s = retry_one_sent [OF Some False r]
    have ret: "retried (m_retryLimit lm) e = Some ?e" using False by (simp add: retried_def)
    have "stores_ok (m_retryLimit lm) (umap_put k ?e (m_sourceStore lm)) (m_retryBuffer lm)"
    proof (rule stores_ok_update)
      show "stores_ok (m_retryLimit lm) (m_sourceStore lm) (m_retryBuffer lm)" using inv ..
      show "entry_ok (m_retryLimit lm) k ?e" by (rule retried_ok [OF ok ret])
      show "se_packet ?e = re_packet b" if "umap_find (m_retryBuffer lm) k = Some b" for b
        using stores_finds [OF inv that Some] by simp
    qed
    moreover obtain x where "rt = Some x" "rt_packet x = se_packet e"
    proof (cases "umap_find (m_retryBuffer lm) k")
      case (Some b)
      with s(6) stores_finds [OF inv Some \<open>umap_find (m_sourceStore lm) k = Some e\<close>] that show thesis by auto
    qed (use s(6) that in auto)
    ultimately show ?thesis
      using inv ret unfolding retry_effect_def s(1-4) umap_find_put_eq Some by simp
  qed
qed

definition gbn_carry :: "Time \<Rightarrow> Retransmission option \<Rightarrow> Time" where
  "gbn_carry c r = (case r of None \<Rightarrow> c | Some rt \<Rightarrow> readyDelay rt)"

interpretation gbn: retransmission_loop "retry_loop fr now" "\<lambda>lm k c. retry_one fr now lm k (Some c)" gbn_carry
  for fr now
proof
  fix lm k c lm' evs r
  assume "llr_stores_inv lm" "retry_one fr now lm k (Some c) = (lm', evs, r)"
  then show "llr_stores_inv lm' \<and> retry_effect lm k lm' r" by (rule retry_one_effect)
qed (simp_all add: gbn_carry_def Let_def)

definition sack_step ::
  "(u32 \<Rightarrow> u64 \<Rightarrow> Time) \<Rightarrow> Time \<Rightarrow> LlrManager \<Rightarrow> RetryKey \<Rightarrow> unit \<Rightarrow>
     LlrManager \<times> llr_event list \<times> Retransmission option" where
  "sack_step fr now lm k u =
     retry_one fr now (if umap_find (m_sourceStore lm) k = None
        then lm\<lparr>m_retryMissCount := m_retryMissCount lm + 1\<rparr> else lm) k None"

lemma sack_step_effect:
  assumes "llr_stores_inv lm" "sack_step fr now lm k u = (lm', evs, r)"
  shows "llr_stores_inv lm' \<and> retry_effect lm k lm' r"
proof (cases "umap_find (m_sourceStore lm) k = None")
  case True
  with assms(2) have "lm' = lm\<lparr>m_retryMissCount := m_retryMissCount lm + 1\<rparr>" "r = None"
    by (simp_all add: sack_step_def retry_one_None)
  with assms(1) retry_effect_absent [OF True] show ?thesis by simp
next
  case False
  then have "retry_one fr now lm k None = (lm', evs, r)" using assms(2) unfolding sack_step_def by (simp only: if_False)
  with assms(1) show ?thesis by (rule retry_one_effect)
qed

interpretation sack: retransmission_loop "\<lambda>lm ks u. sack_loop fr now lm ks" "sack_step fr now" "\<lambda>u r. ()"
  for fr now
proof
  fix lm k u lm' evs r
  assume "llr_stores_inv lm" "sack_step fr now lm k u = (lm', evs, r)"
  then show "llr_stores_inv lm' \<and> retry_effect lm k lm' r" by (rule sack_step_effect)
qed (simp_all add: sack_step_def Let_def)


subsection \<open>The two retransmission modes\<close>

definition in_flow :: "u16 \<Rightarrow> u16 \<Rightarrow> u8 \<Rightarrow> RetryKey \<Rightarrow> bool" where
  "in_flow d f v k = (destRank k = d \<and> flowId k = f \<and> vcId k = v)"

lemma in_flow_eq: "in_flow d f v k \<Longrightarrow> in_flow d f v k' \<Longrightarrow> seqNum k = seqNum k' \<Longrightarrow> k = k'"
  by (cases k; cases k') (simp add: in_flow_def)

lemma retry_keys:
  assumes inv: "llr_stores_inv lm"
  shows "set (retry_keys lm s d f v) = {k. in_flow d f v k \<and> s \<le> seqNum k \<and> umap_find (m_sourceStore lm) k \<noteq> None}"
    and "distinct (retry_keys lm s d f v)"
proof -
  have wf: "umap_wf (m_sourceStore lm)" using inv stores_okD(1) by blast
  have "(k, e) \<in> set (m_sourceStore lm) \<Longrightarrow> se_destRank e = destRank k" for k e
    using inv stores_okD(3) umap_mem_iff [OF wf] by (fastforce simp: entry_ok_def)
  then show "set (retry_keys lm s d f v) = {k. in_flow d f v k \<and> s \<le> seqNum k \<and> umap_find (m_sourceStore lm) k \<noteq> None}"
    unfolding umap_find_in_keys by (force simp: retry_keys_def in_flow_def)
  show "distinct (retry_keys lm s d f v)"
    using wf distinct_map_filter by (auto simp: retry_keys_def umap_wf_def)
qed

lemma sorted_flow_keys:
  assumes "distinct ks" "\<forall>k \<in> set ks. in_flow d f v k"
  shows "sorted_wrt (<) (map seqNum (sort_key seqNum ks))"
proof -
  have "inj_on seqNum (set ks)" by (rule inj_onI) (use assms(2) in_flow_eq in blast)
  then have "distinct (map seqNum (sort_key seqNum ks))" using assms(1) by (simp add: distinct_map)
  then show ?thesis by (simp add: strict_sorted_iff)
qed

lemma sorted_wrt_map_filter: "sorted_wrt P (map f xs) \<Longrightarrow> sorted_wrt P (map f (filter Q xs))"
  by (induction xs) auto

lemma retry_loop_delays:
  "retry_loop fr now lm ks c = (lm', evs, rts) \<Longrightarrow>
   sorted (map readyDelay rts) \<and> (\<forall>rt \<in> set rts. c \<le> readyDelay rt)"
proof (induction ks arbitrary: lm c evs rts lm')
  case (Cons k ks)
  obtain lm1 evs1 r where s: "retry_one fr now lm k (Some c) = (lm1, evs1, r)" by (metis prod_cases3)
  obtain lm2 evs2 rts2 where l: "retry_loop fr now lm1 ks (gbn_carry c r) = (lm2, evs2, rts2)" by (metis prod_cases3)
  from gbn.loop_Cons [OF s l] Cons.prems have rts: "rts = (case r of None \<Rightarrow> [] | Some rt \<Rightarrow> [rt]) @ rts2" by simp
  note ih = Cons.IH [OF l]
  have "c \<le> gbn_carry c r"
  proof (cases "umap_find (m_sourceStore lm) k")
    case None
    with s show ?thesis by (simp add: retry_one_None gbn_carry_def)
  next
    case (Some e)
    show ?thesis
    proof (cases "retryCount e + 1 > m_retryLimit lm")
      case True
      with retry_one_lost [OF Some True] s show ?thesis by (simp add: gbn_carry_def)
    next
      case False
      with retry_one_sent(6) [OF Some False s] show ?thesis by (auto simp: gbn_carry_def)
    qed
  qed
  with ih show ?case by (cases r) (auto simp: rts gbn_carry_def)
qed simp

text \<open>
  C12: Go-Back-N. A retry request for sequence number \<open>s\<close> of one flow and virtual channel
  resends exactly the outstanding packets of that stream from \<open>s\<close> on whose budget is not
  spent, in strictly ascending sequence order and with ascending delays, each one the packet that was
  stored; the others of them are dropped, and no packet of another stream is touched.
\<close>

theorem go_back_n_resends_the_suffix:
  assumes inv: "llr_inv lm" and h: "HandleRetryRequest fr now lm s d f v = (lm', evs, rts)"
  shows "\<exists>ks. set ks = {k. in_flow d f v k \<and> s \<le> seqNum k \<and> umap_find (m_sourceStore lm') k \<noteq> None}
      \<and> sorted_wrt (<) (map seqNum ks) \<and> sorted (map readyDelay rts)
      \<and> map (\<lambda>rt. Some (rt_packet rt)) rts = map (\<lambda>k. map_option se_packet (umap_find (m_sourceStore lm) k)) ks
      \<and> (\<forall>k. umap_find (m_sourceStore lm') k =
           (if in_flow d f v k \<and> s \<le> seqNum k
            then Option.bind (umap_find (m_sourceStore lm) k) (retried (m_retryLimit lm))
            else umap_find (m_sourceStore lm) k))"
proof -
  have st: "llr_stores_inv lm" using inv by (simp add: llr_inv_def)
  let ?keys = "sort_key seqNum (retry_keys lm s d f v)"
  obtain lm1 where l: "retry_loop fr now lm ?keys 0 = (lm1, evs, rts)" and same: "m_sourceStore lm' = m_sourceStore lm1"
    using h by (auto simp: HandleRetryRequest_def Let_def split: prod.splits)
  have dist: "distinct ?keys" using retry_keys(2) [OF st] by simp
  from gbn.loop_spec [OF st dist l] have
    src: "\<And>k. umap_find (m_sourceStore lm') k =
        (if k \<in> set ?keys then Option.bind (umap_find (m_sourceStore lm) k) (retried (m_retryLimit lm))
         else umap_find (m_sourceStore lm) k)"
    and pk: "map (\<lambda>rt. Some (rt_packet rt)) rts =
        map (\<lambda>k. map_option se_packet (umap_find (m_sourceStore lm) k))
          (filter (\<lambda>k. umap_find (m_sourceStore lm') k \<noteq> None) ?keys)"
    unfolding same by blast+
  let ?ks = "filter (\<lambda>k. umap_find (m_sourceStore lm') k \<noteq> None) ?keys"
  have gone: "umap_find (m_sourceStore lm') k = None" if "umap_find (m_sourceStore lm) k = None" for k
    using src [of k] that by simp
  have keys: "set ?keys = {k. in_flow d f v k \<and> s \<le> seqNum k \<and> umap_find (m_sourceStore lm) k \<noteq> None}"
    using retry_keys(1) [OF st] by simp
  have "set ?ks = {k. in_flow d f v k \<and> s \<le> seqNum k \<and> umap_find (m_sourceStore lm') k \<noteq> None}"
    using keys gone by auto
  moreover have "sorted_wrt (<) (map seqNum ?ks)"
    using retry_keys(1) [OF st] by (intro sorted_wrt_map_filter sorted_flow_keys [where d = d and f = f and v = v, OF retry_keys(2) [OF st]]) auto
  moreover have "umap_find (m_sourceStore lm') k =
      (if in_flow d f v k \<and> s \<le> seqNum k
       then Option.bind (umap_find (m_sourceStore lm) k) (retried (m_retryLimit lm))
       else umap_find (m_sourceStore lm) k)" for k
    using src [of k] keys by (cases "umap_find (m_sourceStore lm) k") auto
  moreover have "sorted (map readyDelay rts)" using retry_loop_delays [OF l] by blast
  ultimately show ?thesis using pk by blast
qed


text \<open>A manager with three packets of one flow outstanding and room for two copies.\<close>

definition packet_of :: "u16 \<Rightarrow> u8 \<Rightarrow> Packet" where
  "packet_of f v = \<lparr>pkt_header = SetVirtualChannel (SetFlowId FabricHeader_new f) v, pkt_body = []\<rparr>"

definition three_stored :: LlrManager where
  "three_stored =
     foldl (\<lambda>lm s. fst (StorePacket 0 lm s (packet_of 4 1) 9)) (Llr_SetMaxBufferSize LlrManager_new 2) [12, 10, 11]"

lemma llr_inv_settings:
  "llr_inv lm \<Longrightarrow> bounded m (m_retryBuffer lm) \<Longrightarrow> llr_inv (Llr_SetMaxBufferSize lm m)"
  by (simp add: llr_inv_def Llr_SetMaxBufferSize_def ledger_ok_def)

lemma foldl_store_inv:
  "llr_inv lm \<Longrightarrow> llr_inv (foldl (\<lambda>lm s. fst (StorePacket now lm s pkt d)) lm ss)"
proof (induction ss arbitrary: lm)
  case (Cons s ss)
  obtain lm' evs kept where "StorePacket now lm s pkt d = (lm', evs, kept)" by (metis prod_cases3)
  with StorePacket_inv [OF Cons.prems this] Cons.IH show ?case by simp
qed simp

lemma three_stored_inv: "llr_inv three_stored"
  unfolding three_stored_def
  by (intro foldl_store_inv llr_inv_settings llr_inv_new) (simp add: bounded_def LlrManager_new_def)

theorem go_back_n_resends_the_suffix_witness:
  "\<exists>lm' evs rts ks. HandleRetryRequest (\<lambda>b r. 7) 0 three_stored 11 9 4 1 = (lm', evs, rts)
     \<and> set ks = {k. in_flow 9 4 1 k \<and> 11 \<le> seqNum k \<and> umap_find (m_sourceStore lm') k \<noteq> None}
     \<and> sorted_wrt (<) (map seqNum ks)"
proof -
  obtain lm' evs rts where h: "HandleRetryRequest (\<lambda>b r. 7) 0 three_stored 11 9 4 1 = (lm', evs, rts)"
    by (metis prod_cases3)
  from go_back_n_resends_the_suffix [OF three_stored_inv h] h show ?thesis by blast
qed

text \<open>
  C30: selective retransmission. A SACK request resends exactly the requested packets of
  the stream that are outstanding and have budget left, in ascending order, each one the
  packet that was stored, drops the requested ones whose budget is spent, and touches no
  other packet of any stream.
\<close>

theorem sack_resends_exactly_the_requested:
  assumes inv: "llr_inv lm" and dist: "distinct ss"
    and h: "HandleSackRequest fr now lm ss d f v = (lm', evs, rts)"
  shows "map (\<lambda>rt. Some (rt_packet rt)) rts =
        map (\<lambda>s. map_option se_packet (umap_find (m_sourceStore lm) (MakeRetryKey s d f v)))
          (filter (\<lambda>s. umap_find (m_sourceStore lm') (MakeRetryKey s d f v) \<noteq> None) (sort ss))
      \<and> (\<forall>k. umap_find (m_sourceStore lm') k =
           (if in_flow d f v k \<and> seqNum k \<in> set ss
            then Option.bind (umap_find (m_sourceStore lm) k) (retried (m_retryLimit lm))
            else umap_find (m_sourceStore lm) k))"
proof -
  let ?key = "\<lambda>s. MakeRetryKey s d f v"
  have st: "llr_stores_inv lm" using inv by (simp add: llr_inv_def)
  have "distinct (map ?key (sort ss))" using dist by (auto simp: distinct_map MakeRetryKey_def intro: inj_onI)
  from sack.loop_spec [OF st this h [unfolded HandleSackRequest_def]]
  have src: "\<And>k. umap_find (m_sourceStore lm') k =
        (if k \<in> set (map ?key (sort ss)) then Option.bind (umap_find (m_sourceStore lm) k) (retried (m_retryLimit lm))
         else umap_find (m_sourceStore lm) k)"
    and pk: "map (\<lambda>rt. Some (rt_packet rt)) rts =
        map (\<lambda>k. map_option se_packet (umap_find (m_sourceStore lm) k))
          (filter (\<lambda>k. umap_find (m_sourceStore lm') k \<noteq> None) (map ?key (sort ss)))" by blast+
  have "k \<in> set (map ?key (sort ss)) \<longleftrightarrow> in_flow d f v k \<and> seqNum k \<in> set ss" for k
    by (cases k) (auto simp: MakeRetryKey_def in_flow_def)
  with src pk show ?thesis by (simp add: filter_map comp_def)
qed

theorem sack_resends_exactly_the_requested_witness:
  "\<exists>lm' evs rts. HandleSackRequest (\<lambda>b r. 7) 0 three_stored [12, 99] 9 4 1 = (lm', evs, rts)
     \<and> umap_find (m_sourceStore lm') (MakeRetryKey 10 9 4 1) = umap_find (m_sourceStore three_stored) (MakeRetryKey 10 9 4 1)"
proof -
  obtain lm' evs rts where h: "HandleSackRequest (\<lambda>b r. 7) 0 three_stored [12, 99] 9 4 1 = (lm', evs, rts)"
    by (metis prod_cases3)
  have "distinct [12, 99 :: u32]" by simp
  from sack_resends_exactly_the_requested [OF three_stored_inv this h] h show ?thesis
    by (simp add: MakeRetryKey_def)
qed


subsection \<open>The retry budget\<close>

lemma HandleRetryRequest_stores:
  assumes st: "llr_stores_inv lm" and h: "HandleRetryRequest fr now lm s d f v = (lm', evs, rts)"
  shows "llr_stores_inv lm'" "m_retryLimit lm' = m_retryLimit lm"
    and "in_flow d f v k \<Longrightarrow> s \<le> seqNum k \<Longrightarrow> umap_find (m_sourceStore lm) k = Some e \<Longrightarrow>
         umap_find (m_sourceStore lm') k = retried (m_retryLimit lm) e"
    and "umap_find (m_sourceStore lm) k = None \<Longrightarrow> umap_find (m_sourceStore lm') k = None"
proof -
  let ?keys = "sort_key seqNum (retry_keys lm s d f v)"
  obtain lm1 where l: "retry_loop fr now lm ?keys 0 = (lm1, evs, rts)" and same: "m_sourceStore lm' = m_sourceStore lm1"
      "m_retryBuffer lm' = m_retryBuffer lm1" "m_retryLimit lm' = m_retryLimit lm1" "m_maxBufferSize lm' = m_maxBufferSize lm1"
    using h by (auto simp: HandleRetryRequest_def Let_def split: prod.splits)
  have dist: "distinct ?keys" using retry_keys(2) [OF st] by simp
  note spec = gbn.loop_spec [OF st dist l]
  from spec show "llr_stores_inv lm'" "m_retryLimit lm' = m_retryLimit lm" unfolding same by blast+
  from spec have src: "umap_find (m_sourceStore lm') k =
      (if k \<in> set ?keys then Option.bind (umap_find (m_sourceStore lm) k) (retried (m_retryLimit lm))
       else umap_find (m_sourceStore lm) k)" for k unfolding same by blast
  show "umap_find (m_sourceStore lm') k = retried (m_retryLimit lm) e"
    if "in_flow d f v k" "s \<le> seqNum k" "umap_find (m_sourceStore lm) k = Some e"
    using src [of k] that retry_keys(1) [OF st] by simp
  show "umap_find (m_sourceStore lm') k = None" if "umap_find (m_sourceStore lm) k = None"
    using src [of k] that by simp
qed

text \<open>A series of retry requests of one stream, each with its time and sequence number.\<close>

fun retry_requests ::
  "(u32 \<Rightarrow> u64 \<Rightarrow> Time) \<Rightarrow> u16 \<Rightarrow> u16 \<Rightarrow> u8 \<Rightarrow> LlrManager \<Rightarrow> (Time \<times> u32) list \<Rightarrow> LlrManager" where
  "retry_requests fr d f v lm [] = lm"
| "retry_requests fr d f v lm ((now, s) # rs) =
     retry_requests fr d f v (fst (HandleRetryRequest fr now lm s d f v)) rs"

lemma retry_requests_budget:
  assumes "llr_stores_inv lm" "in_flow d f v k" "\<forall>(t, s) \<in> set rs. s \<le> seqNum k"
    and "unat (m_retryLimit lm) < 2 ^ 32 - 1"
    and "case umap_find (m_sourceStore lm) k of None \<Rightarrow> n > unat (m_retryLimit lm)
         | Some e \<Rightarrow> n = unat (retryCount e) \<and> n \<le> unat (m_retryLimit lm)"
  shows "case umap_find (m_sourceStore (retry_requests fr d f v lm rs)) k of
           None \<Rightarrow> n + length rs > unat (m_retryLimit lm)
         | Some e \<Rightarrow> n + length rs = unat (retryCount e) \<and> n + length rs \<le> unat (m_retryLimit lm)"
  using assms
proof (induction rs arbitrary: lm n)
  case (Cons r rs)
  obtain now s where r: "r = (now, s)" by (cases r)
  obtain lm' evs rts where h: "HandleRetryRequest fr now lm s d f v = (lm', evs, rts)" by (metis prod_cases3)
  note spec = HandleRetryRequest_stores [OF Cons.prems(1) h]
  have s: "s \<le> seqNum k" and rest: "\<forall>(t, s) \<in> set rs. s \<le> seqNum k" using Cons.prems(3) r by auto
  have "case umap_find (m_sourceStore lm') k of None \<Rightarrow> Suc n > unat (m_retryLimit lm)
      | Some e \<Rightarrow> Suc n = unat (retryCount e) \<and> Suc n \<le> unat (m_retryLimit lm)"
  proof (cases "umap_find (m_sourceStore lm) k")
    case None
    with Cons.prems(5) spec(4) [OF None] show ?thesis by simp
  next
    case (Some e)
    have n: "n = unat (retryCount e)" "n \<le> unat (m_retryLimit lm)" using Cons.prems(5) Some by simp_all
    then have "unat (retryCount e + 1) = Suc n" using Cons.prems(4) by (simp add: unat_word_ariths)
    with spec(3) [OF Cons.prems(2) s Some] show ?thesis
      by (auto simp: retried_def word_less_nat_alt)
  qed
  from Cons.IH [OF spec(1) Cons.prems(2) rest _ this [folded spec(2)]] spec(2) Cons.prems(4) r h show ?case
    by (simp split: option.splits)
qed (simp split: option.splits)

text \<open>
  C27: the retry budget is exact. A packet that has not been retried yet survives exactly
  as many retry requests as the retry limit says, being resent each time; the next request
  drops it for good.
\<close>

theorem retry_budget_is_exact:
  assumes inv: "llr_inv lm" and k: "in_flow d f v k" "\<forall>(t, s) \<in> set rs. s \<le> seqNum k"
    and e: "umap_find (m_sourceStore lm) k = Some e" "retryCount e = 0"
    and limit: "unat (m_retryLimit lm) < 2 ^ 32 - 1"
  shows "umap_find (m_sourceStore (retry_requests fr d f v lm rs)) k \<noteq> None \<longleftrightarrow> length rs \<le> unat (m_retryLimit lm)"
proof -
  have st: "llr_stores_inv lm" using inv by (simp add: llr_inv_def)
  from retry_requests_budget [OF st k limit, of 0 fr] e show ?thesis by (auto split: option.splits)
qed

lemmas llr_eval = three_stored_def packet_of_def StorePacket_def EnforceBufferLimit_def enforce_loop.simps oldest_def
  oldest_step_def MakeRetryKey_def PeekHeader_def GetFlowId_def GetVirtualChannel_def SetFlowId_def
  SetVirtualChannel_def Llr_SetMaxBufferSize_def LlrManager_new_def umap_find_def umap_put_def umap_erase_def

lemma three_stored_entry:
  "\<exists>e. umap_find (m_sourceStore three_stored) (MakeRetryKey 11 9 4 1) = Some e \<and> retryCount e = 0"
  "m_retryLimit three_stored = 3"
  by (simp_all add: llr_eval Let_def)

theorem retry_budget_is_exact_witness:
  "umap_find (m_sourceStore (retry_requests (\<lambda>b r. 7) 9 4 1 three_stored [(0, 10), (5, 11), (9, 11), (12, 8)]))
     (MakeRetryKey 11 9 4 1) = None"
proof -
  obtain e where e: "umap_find (m_sourceStore three_stored) (MakeRetryKey 11 9 4 1) = Some e" "retryCount e = 0"
    using three_stored_entry(1) by blast
  from retry_budget_is_exact [OF three_stored_inv _ _ e, of 9 4 1 "[(0, 10), (5, 11), (9, 11), (12, 8)]" "\<lambda>b r. 7"]
    three_stored_entry(2)
  show ?thesis by (simp add: in_flow_def MakeRetryKey_def)
qed

subsection \<open>The reload server\<close>

text \<open>
  What the code relies on of \<open>TimeBounds::FromRate\<close>: a nonnegative time, at most
  \<open>Time::Max()\<close>.
\<close>

definition rate_ok :: "(u32 \<Rightarrow> u64 \<Rightarrow> Time) \<Rightarrow> bool" where
  "rate_ok fr = (\<forall>b r. 0 \<le> fr b r \<and> fr b r \<le> Time_Max)"

lemma ReserveSourceReload_ledger:
  assumes led: "ledger_ok lm" and fr: "rate_ok fr" and now: "0 \<le> now" "now \<le> Time_Max"
    and r: "ReserveSourceReload fr now lm bytes = (lm', delay)"
  shows "ledger_ok lm'" "0 \<le> delay" "now + delay = m_sourceReloadAvailable lm'"
    and "m_sourceReloadAvailable lm \<le> m_sourceReloadAvailable lm'"
    and "m_sourceReloadAvailable lm' = Time_Max \<or> m_sourceReloadLatency lm \<le> delay"
proof -
  define transfer where "transfer = (if m_sourceReloadBandwidth lm > 0 \<and> bytes > 0
                          then fr bytes (m_sourceReloadBandwidth lm) else 0)"
  define service where "service = SaturatingAdd (m_sourceReloadLatency lm) transfer"
  define start where "start = max now (m_sourceReloadAvailable lm)"
  have tr: "0 \<le> transfer" "transfer \<le> Time_Max" using fr by (auto simp: transfer_def rate_ok_def Time_Max_def)
  have lat: "0 \<le> m_sourceReloadLatency lm" "m_sourceReloadLatency lm \<le> Time_Max"
    and av: "0 \<le> m_sourceReloadAvailable lm" "m_sourceReloadAvailable lm \<le> Time_Max"
    and sv: "0 \<le> m_sourceReloadServiceTime lm" "m_sourceReloadServiceTime lm \<le> Time_Max"
    using led by (simp_all add: ledger_ok_def)
  note bounds = sat.nonneg sat.bounded sat.increasing
  have se: "0 \<le> service" "service \<le> Time_Max" "m_sourceReloadLatency lm \<le> service"
    unfolding service_def using lat tr by (simp_all add: bounds)
  have st: "0 \<le> start" "start \<le> Time_Max" "now \<le> start" "m_sourceReloadAvailable lm \<le> start"
    using now av by (simp_all add: start_def)
  have lm': "lm' = lm\<lparr>m_sourceReloadAvailable := SaturatingAdd start service,
       m_sourceReloadCount := m_sourceReloadCount lm + 1, m_sourceReloadBytes := m_sourceReloadBytes lm + ucast bytes,
       m_sourceReloadServiceTime := SaturatingAdd (m_sourceReloadServiceTime lm) service\<rparr>"
    and delay: "delay = i64_wrap (SaturatingAdd start service - now)"
    using r unfolding ReserveSourceReload_def Let_def transfer_def [symmetric] service_def [symmetric]
      start_def [symmetric] by simp_all
  have avail: "SaturatingAdd start service = min (start + service) Time_Max" using st se by (simp add: SaturatingAdd_min)
  have "start \<le> SaturatingAdd start service" "SaturatingAdd start service \<le> Time_Max"
    using st se by (simp_all add: bounds)
  then have d: "delay = SaturatingAdd start service - now"
    unfolding delay using st now by (intro i64_wrap_id) (simp add: i64_def Time_Max_def)
  show "ledger_ok lm'" using lat sv st se by (simp add: lm' ledger_ok_def bounds)
  show "0 \<le> delay" "now + delay = m_sourceReloadAvailable lm'"
    "m_sourceReloadAvailable lm \<le> m_sourceReloadAvailable lm'"
    using st \<open>start \<le> SaturatingAdd start service\<close> by (simp_all add: d lm')
  show "m_sourceReloadAvailable lm' = Time_Max \<or> m_sourceReloadLatency lm \<le> delay"
    using avail st(3) se(3) by (simp add: d lm' min_def)
qed

text \<open>
  C35: reloading evicted packets is a first-come first-served server that never fires early
  and never wraps: each reservation is ready no earlier than every one before it, its
  delay is nonnegative and at least the access latency, unless the server has saturated at
  the end of time.
\<close>

theorem reload_server_is_fifo:
  assumes led: "ledger_ok lm" and fr: "rate_ok fr" and now: "0 \<le> now1" "now1 \<le> now2" "now2 \<le> Time_Max"
    and r1: "ReserveSourceReload fr now1 lm bytes1 = (lm1, delay1)"
    and r2: "ReserveSourceReload fr now2 lm1 bytes2 = (lm2, delay2)"
  shows "0 \<le> delay1 \<and> 0 \<le> delay2 \<and> now1 + delay1 \<le> now2 + delay2 \<and> now2 + delay2 \<le> Time_Max
     \<and> (now2 + delay2 = Time_Max \<or> m_sourceReloadLatency lm1 \<le> delay2) \<and> ledger_ok lm2"
proof -
  have n1: "now1 \<le> Time_Max" "0 \<le> now2" using now by simp_all
  note a = ReserveSourceReload_ledger [OF led fr now(1) n1(1) r1]
  note b = ReserveSourceReload_ledger [OF a(1) fr n1(2) now(3) r2]
  from b(1) have "m_sourceReloadAvailable lm2 \<le> Time_Max" by (simp add: ledger_ok_def)
  with a b show ?thesis by auto
qed

theorem reload_server_is_fifo_witness:
  "\<exists>lm1 d1 lm2 d2. ReserveSourceReload (\<lambda>b r. 7) 100 LlrManager_new 64 = (lm1, d1)
     \<and> ReserveSourceReload (\<lambda>b r. 7) 120 lm1 64 = (lm2, d2) \<and> 100 + d1 \<le> 120 + d2"
proof -
  obtain lm1 d1 where r1: "ReserveSourceReload (\<lambda>b r. 7) 100 LlrManager_new 64 = (lm1, d1)" by fastforce
  obtain lm2 d2 where r2: "ReserveSourceReload (\<lambda>b r. 7) 120 lm1 64 = (lm2, d2)" by fastforce
  have "ledger_ok LlrManager_new" "rate_ok (\<lambda>b r. 7)"
    by (simp_all add: ledger_ok_def LlrManager_new_def rate_ok_def Time_Max_def)
  from reload_server_is_fifo [OF this _ _ _ r1 r2] r1 r2 show ?thesis by (auto simp: Time_Max_def)
qed


subsection \<open>Acknowledgements and timers\<close>

lemma RemoveOutstandingPacket_inv: "llr_inv lm \<Longrightarrow> llr_inv (RemoveOutstandingPacket lm k)"
  by (simp add: llr_inv_def RemoveOutstandingPacket_def ledger_ok_def llr_stores)

lemma remove_all:
  "llr_inv lm \<Longrightarrow> llr_inv (foldl RemoveOutstandingPacket lm ks)"
  "umap_find (m_sourceStore (foldl RemoveOutstandingPacket lm ks)) k =
     (if k \<in> set ks then None else umap_find (m_sourceStore lm) k)"
  "umap_find (m_retryBuffer (foldl RemoveOutstandingPacket lm ks)) k =
     (if k \<in> set ks then None else umap_find (m_retryBuffer lm) k)"
  by (induction ks arbitrary: lm) (simp_all add: RemoveOutstandingPacket_inv, simp_all add: RemoveOutstandingPacket_def)

text \<open>
  C34: a cumulative acknowledgement retires exactly the packets of its own stream up to the
  acknowledged sequence number, both records of each, and traces every one of them once;
  everything else stays outstanding, and the invariant is kept.
\<close>

theorem cumulative_ack_retires_exactly:
  assumes inv: "llr_inv lm" and h: "RemovePacketsUpTo lm s d f v = (lm', evs)"
  shows "llr_inv lm' \<and> distinct evs
    \<and> set evs = (\<lambda>k. AckTrace (seqNum k) d) ` {k. in_flow d f v k \<and> seqNum k \<le> s \<and> umap_find (m_sourceStore lm) k \<noteq> None}
    \<and> (\<forall>k. umap_find (m_sourceStore lm') k = (if in_flow d f v k \<and> seqNum k \<le> s then None else umap_find (m_sourceStore lm) k))
    \<and> (\<forall>k. umap_find (m_retryBuffer lm') k = (if in_flow d f v k \<and> seqNum k \<le> s then None else umap_find (m_retryBuffer lm) k))"
proof -
  let ?ks = "filter (\<lambda>k. destRank k = d \<and> flowId k = f \<and> vcId k = v \<and> seqNum k \<le> s) (map fst (m_sourceStore lm))"
  have st: "llr_stores_inv lm" using inv by (simp add: llr_inv_def)
  have lm': "lm' = foldl RemoveOutstandingPacket lm ?ks" and evs: "evs = map (\<lambda>k. AckTrace (seqNum k) d) ?ks"
    using h by (simp_all add: RemovePacketsUpTo_def Let_def)
  have ks: "set ?ks = {k. in_flow d f v k \<and> seqNum k \<le> s \<and> umap_find (m_sourceStore lm) k \<noteq> None}"
    unfolding umap_find_in_keys by (auto simp: in_flow_def)
  have "distinct ?ks" using stores_okD(1) st by (auto simp: umap_wf_def)
  moreover have "inj_on (\<lambda>k. AckTrace (seqNum k) d) (set ?ks)" unfolding ks by (rule inj_onI) (auto intro: in_flow_eq)
  ultimately have "distinct evs" unfolding evs by (simp add: distinct_map)
  moreover have "umap_find (m_retryBuffer lm) k = None" if "umap_find (m_sourceStore lm) k = None" for k
    using st stores_okD(4) [of "m_retryLimit lm" "m_sourceStore lm" "m_retryBuffer lm" k] that
    by (cases "umap_find (m_retryBuffer lm) k") auto
  moreover have "set evs = (\<lambda>k. AckTrace (seqNum k) d) ` {k. in_flow d f v k \<and> seqNum k \<le> s \<and> umap_find (m_sourceStore lm) k \<noteq> None}"
    unfolding evs set_map ks ..
  ultimately show ?thesis
    unfolding lm' remove_all(2,3) ks using remove_all(1) [OF inv, of ?ks] by (auto split: if_splits)
qed

theorem cumulative_ack_retires_exactly_witness:
  "\<exists>lm' evs. RemovePacketsUpTo three_stored 11 9 4 1 = (lm', evs) \<and> llr_inv lm'
     \<and> umap_find (m_sourceStore lm') (MakeRetryKey 11 9 4 1) = None"
proof -
  obtain lm' evs where h: "RemovePacketsUpTo three_stored 11 9 4 1 = (lm', evs)" by fastforce
  from cumulative_ack_retires_exactly [OF three_stored_inv h] h show ?thesis
    by (simp add: in_flow_def MakeRetryKey_def)
qed

text \<open>
  Arming at transmission only ever extends. When a packet reaches the wire and the
  configured timeout can be scheduled, its timer is pending afterwards, at the later of the
  deadline counted from now and the deadline it already had, and the simulator's clock
  cannot wrap; no other packet is affected.
\<close>

lemma arming_only_extends_the_deadline:
  assumes now: "0 \<le> now" "i64 now" and timeout: "0 < m_retryTimeout lm" "i64 (m_retryTimeout lm)"
    and can: "CanSchedule now (m_retryTimeout lm)"
    and e: "umap_find (m_sourceStore lm) (MakeRetryKey s d f v) = Some e"
  shows "\<exists>e'. umap_find (m_sourceStore (ArmRetryTimeoutAtTransmission now lm s d f v)) (MakeRetryKey s d f v) = Some e'
      \<and> wireArmed e' \<and> se_packet e' = se_packet e \<and> retryCount e' = retryCount e
      \<and> timeoutEvent e' = Some (case timeoutEvent e of None \<Rightarrow> now + m_retryTimeout lm
                                 | Some pending \<Rightarrow> max pending (now + m_retryTimeout lm))
      \<and> now + m_retryTimeout lm < Time_Max
      \<and> (\<forall>k. k \<noteq> MakeRetryKey s d f v \<longrightarrow>
           umap_find (m_sourceStore (ArmRetryTimeoutAtTransmission now lm s d f v)) k = umap_find (m_sourceStore lm) k)"
proof -
  have lt: "now + m_retryTimeout lm < Time_Max" using can now(1) by (simp add: CanSchedule_def Horizon_def)
  have wrap: "i64_wrap (now + m_retryTimeout lm) = now + m_retryTimeout lm"
    using lt now timeout by (intro i64_wrap_id) (simp add: i64_def Time_Max_def)
  have sched: "Schedule now (m_retryTimeout lm) = Some (now + m_retryTimeout lm)"
    using can wrap by (simp add: Schedule_def add.commute)
  show ?thesis
    using timeout can e lt
    by (cases "timeoutEvent e")
      (auto simp: ArmRetryTimeoutAtTransmission_def IsUnrepresentableTimeout_def wrap sched Let_def max_def)
qed

text \<open>
  An endpoint that is disposed of severs only its own bindings. If a successor has
  re-bound one of the callbacks, that binding and every outstanding packet, copy and
  timer survive; otherwise both callbacks are gone and so are both stores.
\<close>

lemma detach_spares_the_successor:
  "((timeoutOwner \<noteq> None \<and> m_timeoutCallback lm \<noteq> None \<and> m_timeoutCallback lm \<noteq> timeoutOwner
      \<or> lossOwner \<noteq> None \<and> m_permanentLossCallback lm \<noteq> None \<and> m_permanentLossCallback lm \<noteq> lossOwner) \<longrightarrow>
     m_sourceStore (Llr_DetachFromEndpoint lm timeoutOwner lossOwner) = m_sourceStore lm
     \<and> m_retryBuffer (Llr_DetachFromEndpoint lm timeoutOwner lossOwner) = m_retryBuffer lm
     \<and> (m_timeoutCallback lm \<noteq> timeoutOwner \<longrightarrow>
          m_timeoutCallback (Llr_DetachFromEndpoint lm timeoutOwner lossOwner) = m_timeoutCallback lm)
     \<and> (m_permanentLossCallback lm \<noteq> lossOwner \<longrightarrow>
          m_permanentLossCallback (Llr_DetachFromEndpoint lm timeoutOwner lossOwner) = m_permanentLossCallback lm))
   \<and> ((timeoutOwner = None \<or> m_timeoutCallback lm = None \<or> m_timeoutCallback lm = timeoutOwner) \<and>
      (lossOwner = None \<or> m_permanentLossCallback lm = None \<or> m_permanentLossCallback lm = lossOwner) \<longrightarrow>
     m_sourceStore (Llr_DetachFromEndpoint lm timeoutOwner lossOwner) = []
     \<and> m_retryBuffer (Llr_DetachFromEndpoint lm timeoutOwner lossOwner) = []
     \<and> m_timeoutCallback (Llr_DetachFromEndpoint lm timeoutOwner lossOwner) = None
     \<and> m_permanentLossCallback (Llr_DetachFromEndpoint lm timeoutOwner lossOwner) = None)"
  by (auto simp: Llr_DetachFromEndpoint_def Llr_Clear_def Let_def)

subsection \<open>The manager as a machine\<close>

datatype llr_op =
    OpStore Time u32 Packet u16
  | OpArm Time u32 u16 u16 u8
  | OpTimer RetryKey
  | OpAck u32 u16 u16 u8
  | OpAckUpTo u32 u16 u16 u8
  | OpSacked "u32 list" u16 u16 u8
  | OpRetry Time u32 u16 u16 u8
  | OpSack Time "u32 list" u16 u16 u8
  | OpLimit u32
  | OpMaxBuffer u32
  | OpPolicy LlrOverflowPolicy
  | OpTimeout Time
  | OpLatency Time
  | OpBandwidth u64
  | OpCallbacks "callback option" "callback option"
  | OpDetach "callback option" "callback option"
  | OpClear

fun llr_step :: "(u32 \<Rightarrow> u64 \<Rightarrow> Time) \<Rightarrow> LlrManager \<Rightarrow> llr_op \<Rightarrow> LlrManager result" where
  "llr_step fr lm (OpStore now s p d) = Inr (fst (StorePacket now lm s p d))"
| "llr_step fr lm (OpArm now s d f v) = Inr (ArmRetryTimeoutAtTransmission now lm s d f v)"
| "llr_step fr lm (OpTimer k) = Inr (fst (run_timer lm k))"
| "llr_step fr lm (OpAck s d f v) = Inr (fst (RemovePacket lm s d f v))"
| "llr_step fr lm (OpAckUpTo s d f v) = Inr (fst (RemovePacketsUpTo lm s d f v))"
| "llr_step fr lm (OpSacked ss d f v) = Inr (fst (RemoveSackedPackets lm ss d f v))"
| "llr_step fr lm (OpRetry now s d f v) = Inr (fst (HandleRetryRequest fr now lm s d f v))"
| "llr_step fr lm (OpSack now ss d f v) = Inr (fst (HandleSackRequest fr now lm ss d f v))"
| "llr_step fr lm (OpLimit l) = Inr (SetRetryLimit lm l)"
| "llr_step fr lm (OpMaxBuffer m) = Inr (Llr_SetMaxBufferSize lm m)"
| "llr_step fr lm (OpPolicy p) = Inr (SetOverflowPolicy lm p)"
| "llr_step fr lm (OpTimeout t) = Inr (SetRetryTimeout lm t)"
| "llr_step fr lm (OpLatency t) = SetSourceReloadLatency lm t"
| "llr_step fr lm (OpBandwidth b) = Inr (SetSourceReloadBandwidth lm b)"
| "llr_step fr lm (OpCallbacks a b) = Inr (SetPermanentLossCallback (SetTimeoutCallback lm a) b)"
| "llr_step fr lm (OpDetach a b) = Inr (Llr_DetachFromEndpoint lm a b)"
| "llr_step fr lm OpClear = Inr (Llr_Clear lm)"

text \<open>
  The clock is within its range, settings are not lowered below what the stores already
  hold, and a latency is nonnegative.
\<close>

fun llr_pre :: "(u32 \<Rightarrow> u64 \<Rightarrow> Time) \<Rightarrow> LlrManager \<Rightarrow> llr_op \<Rightarrow> bool" where
  "llr_pre fr lm (OpRetry now s d f v) = (rate_ok fr \<and> 0 \<le> now \<and> now \<le> Time_Max)"
| "llr_pre fr lm (OpSack now ss d f v) = (rate_ok fr \<and> 0 \<le> now \<and> now \<le> Time_Max \<and> distinct ss)"
| "llr_pre fr lm (OpLimit l) = (\<forall>(k, e) \<in> set (m_sourceStore lm). retryCount e \<le> l)"
| "llr_pre fr lm (OpMaxBuffer m) = (m = 0 \<or> length (m_retryBuffer lm) \<le> unat m)"
| "llr_pre fr lm (OpLatency t) = (0 \<le> t \<and> t \<le> Time_Max)"
| "llr_pre fr lm _ = True"

lemma retry_one_ledger:
  assumes "ledger_ok lm" "rate_ok fr" "0 \<le> now" "now \<le> Time_Max" "retry_one fr now lm k w = (lm', evs, r)"
  shows "ledger_ok lm'"
proof (cases "umap_find (m_sourceStore lm) k")
  case None
  with assms show ?thesis by (simp add: retry_one_None)
next
  case (Some e)
  show ?thesis
  proof (cases "retryCount e + 1 > m_retryLimit lm")
    case True
    from retry_one_lost [OF Some True] assms(1,5) show ?thesis by (auto simp: ledger_ok_def)
  next
    case False
    let ?lm = "lm\<lparr>m_sourceStore := umap_put k (e\<lparr>retryCount := retryCount e + 1\<rparr>) (m_sourceStore lm)\<rparr>"
    obtain lm1 d where res: "ReserveSourceReload fr now ?lm (GetPayloadSize (PeekHeader (se_packet e))) = (lm1, d)"
      by fastforce
    have "ledger_ok ?lm" using assms(1) by (simp add: ledger_ok_def)
    from ReserveSourceReload_ledger(1) [OF this assms(2-4) res] assms(1,5) Some False res
    show ?thesis by (auto simp: retry_one_def Let_def ledger_ok_def split: option.splits)
  qed
qed

lemma retry_loop_ledger:
  "ledger_ok lm \<Longrightarrow> rate_ok fr \<Longrightarrow> 0 \<le> now \<Longrightarrow> now \<le> Time_Max \<Longrightarrow>
   ledger_ok (fst (retry_loop fr now lm ks c))"
proof (induction ks arbitrary: lm c)
  case (Cons k ks)
  obtain lm1 evs1 r where s: "retry_one fr now lm k (Some c) = (lm1, evs1, r)" by (metis prod_cases3)
  from Cons.IH [OF retry_one_ledger [OF Cons.prems s] Cons.prems(2-), of "gbn_carry c r"] s show ?case
    by (auto simp: Let_def gbn_carry_def split: prod.splits)
qed simp

lemma sack_loop_ledger:
  "ledger_ok lm \<Longrightarrow> rate_ok fr \<Longrightarrow> 0 \<le> now \<Longrightarrow> now \<le> Time_Max \<Longrightarrow> ledger_ok (fst (sack_loop fr now lm ks))"
proof (induction ks arbitrary: lm)
  case (Cons k ks)
  let ?lm = "if umap_find (m_sourceStore lm) k = None then lm\<lparr>m_retryMissCount := m_retryMissCount lm + 1\<rparr> else lm"
  have "ledger_ok ?lm" using Cons.prems(1) by (simp add: ledger_ok_def)
  moreover obtain lm1 evs1 r where s: "retry_one fr now ?lm k None = (lm1, evs1, r)" by (metis prod_cases3)
  ultimately have "ledger_ok lm1" using retry_one_ledger Cons.prems(2-) by blast
  from Cons.IH [OF this Cons.prems(2-)] s show ?case by (auto simp: Let_def split: prod.splits)
qed simp


lemma HandleRetryRequest_inv:
  assumes inv: "llr_inv lm" and fr: "rate_ok fr" and now: "0 \<le> now" "now \<le> Time_Max"
  shows "llr_inv (fst (HandleRetryRequest fr now lm s d f v))"
proof -
  obtain lm' evs rts where h: "HandleRetryRequest fr now lm s d f v = (lm', evs, rts)" by (metis prod_cases3)
  have st: "llr_stores_inv lm" and led: "ledger_ok lm" using inv by (simp_all add: llr_inv_def)
  from retry_loop_ledger [OF led fr now, of "sort_key seqNum (retry_keys lm s d f v)" 0] h have "ledger_ok lm'"
    by (auto simp: HandleRetryRequest_def Let_def ledger_ok_def split: prod.splits if_splits)
  with HandleRetryRequest_stores(1) [OF st h] h show ?thesis by (simp add: llr_inv_def)
qed

lemma HandleSackRequest_inv:
  assumes inv: "llr_inv lm" and fr: "rate_ok fr" and now: "0 \<le> now" "now \<le> Time_Max" and "distinct ss"
  shows "llr_inv (fst (HandleSackRequest fr now lm ss d f v))"
proof -
  let ?ks = "map (\<lambda>s. MakeRetryKey s d f v) (sort ss)"
  obtain lm' evs rts where h: "sack_loop fr now lm ?ks = (lm', evs, rts)" by (metis prod_cases3)
  have st: "llr_stores_inv lm" and led: "ledger_ok lm" using inv by (simp_all add: llr_inv_def)
  have "distinct ?ks" using assms(5) by (auto simp: distinct_map MakeRetryKey_def intro: inj_onI)
  from sack.loop_spec [OF st this h] have "llr_stores_inv lm'" by blast
  with sack_loop_ledger [OF led fr now, of ?ks] h show ?thesis by (simp add: llr_inv_def HandleSackRequest_def)
qed

text \<open>Touching one source entry without changing its packet.\<close>

lemma touch_entry_inv:
  assumes inv: "llr_inv lm" and e: "umap_find (m_sourceStore lm) k = Some e"
    and ok: "entry_ok (m_retryLimit lm) k e'" and pkt: "se_packet e' = se_packet e"
  shows "llr_inv (lm\<lparr>m_sourceStore := umap_put k e' (m_sourceStore lm)\<rparr>)"
proof -
  have st: "llr_stores_inv lm" using inv by (simp add: llr_inv_def)
  have "stores_ok (m_retryLimit lm) (umap_put k e' (m_sourceStore lm)) (m_retryBuffer lm)"
    using st stores_finds [OF st _ e] ok pkt by (intro stores_ok_update) simp_all
  with inv show ?thesis by (simp add: llr_inv_def ledger_ok_def)
qed

lemma Arm_inv: "llr_inv lm \<Longrightarrow> llr_inv (ArmRetryTimeoutAtTransmission now lm s d f v)"
proof (cases "umap_find (m_sourceStore lm) (MakeRetryKey s d f v)")
  case (Some e)
  assume inv: "llr_inv lm"
  then have ok: "entry_ok (m_retryLimit lm) (MakeRetryKey s d f v) e"
    using Some stores_okD(3) by (auto simp: llr_inv_def)
  show ?thesis
    unfolding ArmRetryTimeoutAtTransmission_def Let_def
    using inv ok Some by (auto simp: entry_ok_def intro!: touch_entry_inv [OF inv Some] split: option.split)
qed (simp add: ArmRetryTimeoutAtTransmission_def)

lemma run_timer_inv: "llr_inv lm \<Longrightarrow> llr_inv (fst (run_timer lm k))"
proof (cases "umap_find (m_sourceStore lm) k")
  case (Some e)
  assume inv: "llr_inv lm"
  then have ok: "entry_ok (m_retryLimit lm) k e" using Some stores_okD(3) by (auto simp: llr_inv_def)
  show ?thesis
    using inv Some ok touch_entry_inv [OF inv Some, of "e\<lparr>timeoutEvent := None\<rparr>"]
    by (simp add: run_timer_def entry_ok_def Let_def)
qed (simp add: run_timer_def)

lemma RemoveSackedPackets_inv: "llr_inv lm \<Longrightarrow> llr_inv (fst (RemoveSackedPackets lm ss d f v))"
  by (induction lm ss d f v rule: RemoveSackedPackets.induct)
    (auto simp: Let_def RemoveOutstandingPacket_inv split: prod.splits)

lemma SetRetryLimit_inv:
  assumes inv: "llr_inv lm" and l: "\<forall>(k, e) \<in> set (m_sourceStore lm). retryCount e \<le> l"
  shows "llr_inv (SetRetryLimit lm l)"
proof -
  have st: "stores_ok (m_retryLimit lm) (m_sourceStore lm) (m_retryBuffer lm)" using inv by (simp add: llr_inv_def)
  have "entry_ok l k e" if "umap_find (m_sourceStore lm) k = Some e" for k e
    using stores_okD(3) [OF st that] l that umap_mem_iff [OF stores_okD(1) [OF st]] by (auto simp: entry_ok_def)
  with st have "stores_ok l (m_sourceStore lm) (m_retryBuffer lm)" unfolding stores_ok_def by blast
  with inv show ?thesis by (simp add: llr_inv_def SetRetryLimit_def ledger_ok_def)
qed

lemma llr_inv_Clear: "llr_inv lm \<Longrightarrow> llr_inv (Llr_Clear lm)"
  by (simp add: llr_inv_def Llr_Clear_def stores_ok_def bounded_def ledger_ok_def Time_Max_def)

lemma llr_inv_callbacks:
  "llr_inv lm \<Longrightarrow> llr_inv (lm\<lparr>m_timeoutCallback := a\<rparr>)" "llr_inv lm \<Longrightarrow> llr_inv (lm\<lparr>m_permanentLossCallback := b\<rparr>)"
  by (simp_all add: llr_inv_def ledger_ok_def)

lemma Detach_inv: "llr_inv lm \<Longrightarrow> llr_inv (Llr_DetachFromEndpoint lm a b)"
  by (auto simp: Llr_DetachFromEndpoint_def Let_def intro!: llr_inv_Clear llr_inv_callbacks)

lemma llr_step_inv:
  assumes inv: "llr_inv lm" and pre: "llr_pre fr lm x"
  shows "\<exists>lm'. llr_step fr lm x = Inr lm' \<and> llr_inv lm'"
proof (cases x)
  case (OpStore now s p d)
  obtain lm' evs kept where "StorePacket now lm s p d = (lm', evs, kept)" by (metis prod_cases3)
  with StorePacket_inv [OF inv this] OpStore show ?thesis by simp
next
  case (OpRetry now s d f v)
  with pre HandleRetryRequest_inv [OF inv] show ?thesis by simp
next
  case (OpSack now ss d f v)
  with pre HandleSackRequest_inv [OF inv] show ?thesis by simp
next
  case (OpLimit l)
  with pre SetRetryLimit_inv [OF inv] show ?thesis by simp
qed (use inv pre in \<open>simp_all add: Arm_inv run_timer_inv RemovePacket_def Let_def RemoveOutstandingPacket_inv
    RemovePacketsUpTo_def remove_all RemoveSackedPackets_inv Llr_SetMaxBufferSize_def SetOverflowPolicy_def SetRetryTimeout_def
    SetSourceReloadLatency_def SetSourceReloadBandwidth_def SetPermanentLossCallback_def SetTimeoutCallback_def
    Detach_inv llr_inv_Clear\<close>, simp_all add: llr_inv_def ledger_ok_def bounded_def, auto?)

interpretation llr: guarded_machine "llr_step fr" llr_inv "llr_pre fr" for fr
  by unfold_locales (rule llr_step_inv)

text \<open>
  C6: every history of the manager keeps its stores consistent. After any sequence of
  stores, transmissions, timeouts, acknowledgements, retry requests and setting changes,
  no call has aborted, each fast copy is a copy of an outstanding packet, the retry buffer
  is within its configured size, every outstanding packet has retries left, and only
  packets that have reached the wire have a pending timer.
\<close>

theorem llr_history_keeps_stores_consistent:
  assumes "admissible (llr_step fr) (llr_pre fr) LlrManager_new ops"
  shows "\<exists>lm. run_ops (llr_step fr) LlrManager_new ops = Inr lm \<and> llr_inv lm
    \<and> (\<forall>k b. umap_find (m_retryBuffer lm) k = Some b \<longrightarrow>
         (\<exists>e. umap_find (m_sourceStore lm) k = Some e \<and> se_packet e = re_packet b))
    \<and> (m_maxBufferSize lm > 0 \<longrightarrow> length (m_retryBuffer lm) \<le> unat (m_maxBufferSize lm))
    \<and> (\<forall>k e. umap_find (m_sourceStore lm) k = Some e \<longrightarrow>
         retryCount e \<le> m_retryLimit lm \<and> (timeoutEvent e \<noteq> None \<longrightarrow> wireArmed e))"
proof -
  from llr.run_progress [OF llr_inv_new assms] obtain lm where
    r: "run_ops (llr_step fr) LlrManager_new ops = Inr lm" and inv: "llr_inv lm" by blast
  from inv have "stores_ok (m_retryLimit lm) (m_sourceStore lm) (m_retryBuffer lm)"
    "bounded (m_maxBufferSize lm) (m_retryBuffer lm)" by (simp_all add: llr_inv_def)
  note parts = stores_okD(3,4) [OF this(1)] this(2)
  show ?thesis
    using r inv parts by (auto simp: bounded_def entry_ok_def)
qed

theorem llr_history_keeps_stores_consistent_witness:
  "\<exists>lm. run_ops (llr_step (\<lambda>b r. 7)) LlrManager_new
      [OpMaxBuffer 2, OpStore 0 1 (packet_of 4 1) 9, OpArm 5 1 9 4 1, OpRetry 1200 1 9 4 1, OpAck 1 9 4 1] = Inr lm
     \<and> llr_inv lm"
proof -
  have "admissible (llr_step (\<lambda>b r. 7)) (llr_pre (\<lambda>b r. 7)) LlrManager_new
      [OpMaxBuffer 2, OpStore 0 1 (packet_of 4 1) 9, OpArm 5 1 9 4 1, OpRetry 1200 1 9 4 1, OpAck 1 9 4 1]"
    by (simp add: LlrManager_new_def rate_ok_def Time_Max_def)
  from llr_history_keeps_stores_consistent [OF this] show ?thesis by blast
qed

end
