(* ===== verification/ProtocolGraph.thy ===== *)
theory ProtocolGraph
  imports FabricHeader TimeBounds
begin

text \<open>
  The event-dependency graph of one communication operation
  (\<open>protocol-transaction.h\<close>, the graph half of \<open>protocol-transaction.cc\<close>): its nodes, how
  they are added, and its validation by local checks, a queue-based topological sort and a
  backward reachability search. Node identifiers are natural numbers (indices of
  \<open>m_nodes\<close>); the \<open>uint32_t\<close> counters wrap. The loops carry fuel, \<open>None\<close> meaning that
  they do not stop. The theorem of this theory is that validation decides exactly the
  graphs that are well formed, acyclic, and whose every node leads to the one completion.
\<close>

subsection \<open>Data\<close>

datatype ProtocolTransactionActionType =
  SEND_DATA | SEND_P2P | SEND_MEMORY_READ | SEND_MEMORY_WRITE | SEND_COLLECTIVE | ACTION_CUSTOM

datatype ProtocolTransactionEventType =
  PACKET_DELIVERED | RESPONSE_RECEIVED | ACK_RECEIVED | EVENT_CUSTOM

datatype ProtocolTransactionNodeType = ACTION | WAIT | DELAY | COMPLETE

datatype ProtocolTransactionDependency = DEP_ALL | DEP_ANY

record ProtocolTransactionAction =
  act_type :: ProtocolTransactionActionType
  act_packetType :: FabricPacketType
  act_sourceRank :: u16
  act_destinationRank :: u16
  act_flowId :: u16
  act_virtualChannel :: u8
  act_protocolId :: u8
  act_effectiveBytes :: u64
  act_wireBytes :: u64
  act_chunkBytes :: u64
  act_address :: u64
  act_stageId :: u32

record ProtocolTransactionEvent =
  ev_type :: ProtocolTransactionEventType
  ev_packetType :: FabricPacketType
  ev_sourceRank :: u16
  ev_destinationRank :: u16
  ev_flowId :: u16
  ev_bytes :: u64
  ev_stageId :: u32

record ProtocolTransactionEventMatcher =
  mt_type :: ProtocolTransactionEventType
  mt_sourceRank :: u16
  mt_destinationRank :: u16
  mt_flowId :: u16
  mt_stageId :: u32
  mt_matchPacketType :: bool
  mt_packetType :: FabricPacketType

definition ANY_RANK :: u16 where "ANY_RANK = 65535"
definition ANY_FLOW :: u16 where "ANY_FLOW = 65535"
definition ANY_STAGE :: u32 where "ANY_STAGE = 4294967295"
definition INVALID_NODE :: nat where "INVALID_NODE = 4294967295"

definition Matches :: "ProtocolTransactionEventMatcher \<Rightarrow> ProtocolTransactionEvent \<Rightarrow> bool" where
  "Matches m ev =
     (if mt_type m \<noteq> ev_type ev then False
      else if mt_sourceRank m \<noteq> ANY_RANK \<and> mt_sourceRank m \<noteq> ev_sourceRank ev then False
      else if mt_destinationRank m \<noteq> ANY_RANK \<and> mt_destinationRank m \<noteq> ev_destinationRank ev then False
      else if mt_flowId m \<noteq> ANY_FLOW \<and> mt_flowId m \<noteq> ev_flowId ev then False
      else if mt_stageId m \<noteq> ANY_STAGE \<and> mt_stageId m \<noteq> ev_stageId ev then False
      else \<not> mt_matchPacketType m \<or> packet_type_code (mt_packetType m) = packet_type_code (ev_packetType ev))"

record ProtocolTransactionNode =
  nd_id :: nat
  nd_type :: ProtocolTransactionNodeType
  nd_dependency :: ProtocolTransactionDependency
  nd_dependencies :: "nat list"
  nd_action :: ProtocolTransactionAction
  nd_matcher :: ProtocolTransactionEventMatcher
  nd_targetBytes :: u64
  nd_targetEvents :: u32
  nd_delay :: Time
  nd_label :: string

type_synonym ProtocolTransactionGraph = "ProtocolTransactionNode list"

definition action_new :: ProtocolTransactionAction where
  "action_new =
     \<lparr>act_type = SEND_DATA, act_packetType = PT_DATA, act_sourceRank = 0, act_destinationRank = 0,
      act_flowId = 0, act_virtualChannel = 0, act_protocolId = 0, act_effectiveBytes = 0,
      act_wireBytes = 0, act_chunkBytes = 0, act_address = 0, act_stageId = 0\<rparr>"

definition matcher_new :: ProtocolTransactionEventMatcher where
  "matcher_new =
     \<lparr>mt_type = PACKET_DELIVERED, mt_sourceRank = ANY_RANK, mt_destinationRank = ANY_RANK,
      mt_flowId = ANY_FLOW, mt_stageId = ANY_STAGE, mt_matchPacketType = False, mt_packetType = PT_DATA\<rparr>"

definition node_new :: ProtocolTransactionNode where
  "node_new =
     \<lparr>nd_id = INVALID_NODE, nd_type = ACTION, nd_dependency = DEP_ALL, nd_dependencies = [],
      nd_action = action_new, nd_matcher = matcher_new, nd_targetBytes = 0, nd_targetEvents = 0,
      nd_delay = 0, nd_label = ''''\<rparr>"

subsection \<open>Building a graph\<close>

definition AddNode :: "ProtocolTransactionGraph \<Rightarrow> ProtocolTransactionNode \<Rightarrow> ProtocolTransactionGraph \<times> nat" where
  "AddNode g node =
     (let node = node\<lparr>nd_id := length g mod 2 ^ 32\<rparr> in (g @ [node], nd_id node))"

definition AddAction ::
  "ProtocolTransactionGraph \<Rightarrow> ProtocolTransactionAction \<Rightarrow> nat list \<Rightarrow> string \<Rightarrow> ProtocolTransactionGraph \<times> nat" where
  "AddAction g act deps label =
     AddNode g (node_new\<lparr>nd_type := ACTION, nd_action := act, nd_dependencies := deps, nd_label := label\<rparr>)"

definition AddWait ::
  "ProtocolTransactionGraph \<Rightarrow> ProtocolTransactionEventMatcher \<Rightarrow> u64 \<Rightarrow> u32 \<Rightarrow> nat list \<Rightarrow> string \<Rightarrow>
     ProtocolTransactionGraph \<times> nat" where
  "AddWait g m targetBytes targetEvents deps label =
     AddNode g (node_new\<lparr>nd_type := WAIT, nd_matcher := m, nd_targetBytes := targetBytes,
       nd_targetEvents := targetEvents, nd_dependencies := deps, nd_label := label\<rparr>)"

definition AddDelay ::
  "ProtocolTransactionGraph \<Rightarrow> Time \<Rightarrow> nat list \<Rightarrow> string \<Rightarrow> ProtocolTransactionGraph \<times> nat" where
  "AddDelay g delay deps label =
     AddNode g (node_new\<lparr>nd_type := DELAY, nd_delay := delay, nd_dependencies := deps, nd_label := label\<rparr>)"

definition AddCompletion ::
  "ProtocolTransactionGraph \<Rightarrow> nat list \<Rightarrow> ProtocolTransactionDependency \<Rightarrow> string \<Rightarrow>
     ProtocolTransactionGraph \<times> nat" where
  "AddCompletion g deps dep label =
     AddNode g (node_new\<lparr>nd_type := COMPLETE, nd_dependencies := deps, nd_dependency := dep, nd_label := label\<rparr>)"

definition GetNode :: "ProtocolTransactionGraph \<Rightarrow> nat \<Rightarrow> ProtocolTransactionNode result" where
  "GetNode g i = ns_assert (i < length g) ''Protocol transaction node ID out of range'' (Inr (g ! i))"

subsection \<open>Validation\<close>

datatype verdict = Valid | Invalid string

text \<open>The two vectors the first pass fills: successors and in-degrees.\<close>

type_synonym adjacency = "nat list list \<times> nat list"

fun check_deps :: "nat \<Rightarrow> nat \<Rightarrow> nat list \<Rightarrow> adjacency \<Rightarrow> string + adjacency" where
  "check_deps n i [] adj = Inr adj"
| "check_deps n i (d # ds) (succs, indegree) =
     (if d \<ge> n then Inl ''transaction node depends on an unknown node''
      else if d = i then Inl ''transaction node depends on itself''
      else check_deps n i ds (succs[d := succs ! d @ [i]], indegree[i := u32_inc (indegree ! i)]))"

fun check_nodes ::
  "nat \<Rightarrow> ProtocolTransactionNode list \<Rightarrow> nat \<times> nat \<times> adjacency \<Rightarrow> string + nat \<times> nat \<times> adjacency" where
  "check_nodes n [] st = Inr st"
| "check_nodes n (node # nodes) (completionCount, completionId, adj) =
     (if nd_id node \<ge> n then Inl ''transaction graph contains a non-contiguous node ID''
      else let (completionCount, completionId) =
                 (if nd_type node = COMPLETE then (u32_inc completionCount, nd_id node)
                  else (completionCount, completionId))
           in if nd_type node = WAIT \<and> nd_targetBytes node = 0 \<and> nd_targetEvents node = 0
              then Inl ''wait node has no completion threshold''
              else if nd_type node = DELAY \<and> nd_delay node < 0
              then Inl ''delay node has a negative duration''
              else case check_deps n (nd_id node) (nd_dependencies node) adj of
                     Inl e \<Rightarrow> Inl e
                   | Inr adj \<Rightarrow> check_nodes n nodes (completionCount, completionId, adj))"

fun relax :: "nat list \<Rightarrow> nat list \<times> nat list \<Rightarrow> nat list \<times> nat list" where
  "relax [] (indegree, ready) = (indegree, ready)"
| "relax (s # ss) (indegree, ready) =
     (let indegree = indegree[s := u32_dec (indegree ! s)]
      in relax ss (indegree, if indegree ! s = 0 then ready @ [s] else ready))"

fun sort_loop :: "nat \<Rightarrow> nat list list \<Rightarrow> nat list \<Rightarrow> nat list \<Rightarrow> nat \<Rightarrow> nat option" where
  "sort_loop 0 succs indegree ready visited = None"
| "sort_loop (Suc fuel) succs indegree [] visited = Some visited"
| "sort_loop (Suc fuel) succs indegree (i # ready) visited =
     (let (indegree, ready) = relax (succs ! i) (indegree, ready)
      in sort_loop fuel succs indegree ready (u32_inc visited))"

fun mark_deps :: "nat list \<Rightarrow> bool list \<times> nat list \<Rightarrow> bool list \<times> nat list" where
  "mark_deps [] (reaches, ready) = (reaches, ready)"
| "mark_deps (d # ds) (reaches, ready) =
     mark_deps ds (if \<not> reaches ! d then (reaches[d := True], ready @ [d]) else (reaches, ready))"

fun reach_loop :: "nat \<Rightarrow> ProtocolTransactionGraph \<Rightarrow> bool list \<Rightarrow> nat list \<Rightarrow> bool list option" where
  "reach_loop 0 g reaches ready = None"
| "reach_loop (Suc fuel) g reaches [] = Some reaches"
| "reach_loop (Suc fuel) g reaches (i # ready) =
     (let (reaches, ready) = mark_deps (nd_dependencies (g ! i)) (reaches, ready)
      in reach_loop fuel g reaches ready)"

definition Validate :: "ProtocolTransactionGraph \<Rightarrow> verdict option" where
  "Validate g =
     (let n = length g in
      if g = [] then Some (Invalid ''transaction graph is empty'')
      else case check_nodes n g (0, INVALID_NODE, replicate n [], replicate n 0) of
        Inl e \<Rightarrow> Some (Invalid e)
      | Inr (completionCount, completionId, succs, indegree) \<Rightarrow>
          if completionCount \<noteq> 1
          then Some (Invalid ''transaction graph must contain exactly one completion node'')
          else case sort_loop (Suc n) succs indegree (filter (\<lambda>i. indegree ! i = 0) [0..<n]) 0 of
            None \<Rightarrow> None
          | Some visited \<Rightarrow>
              if visited \<noteq> n then Some (Invalid ''transaction graph contains a dependency cycle'')
              else case reach_loop (Suc n) g ((replicate n False)[completionId := True]) [completionId] of
                None \<Rightarrow> None
              | Some reaches \<Rightarrow>
                  if False \<in> set reaches
                  then Some (Invalid ''transaction graph contains a node that cannot affect completion'')
                  else Some Valid)"

subsection \<open>What a valid graph is\<close>

abbreviation deps_of :: "ProtocolTransactionGraph \<Rightarrow> nat \<Rightarrow> nat list" where
  "deps_of g v \<equiv> nd_dependencies (g ! v)"

definition dep_edges :: "ProtocolTransactionGraph \<Rightarrow> (nat \<times> nat) set" where
  "dep_edges g = {(u, v). v < length g \<and> u \<in> set (deps_of g v)}"

definition local_ok :: "ProtocolTransactionGraph \<Rightarrow> nat \<Rightarrow> bool" where
  "local_ok g v =
     ((nd_type (g ! v) = WAIT \<longrightarrow> nd_targetBytes (g ! v) \<noteq> 0 \<or> nd_targetEvents (g ! v) \<noteq> 0)
      \<and> (nd_type (g ! v) = DELAY \<longrightarrow> 0 \<le> nd_delay (g ! v))
      \<and> (\<forall>d \<in> set (deps_of g v). d < length g \<and> d \<noteq> v))"

definition completions :: "ProtocolTransactionGraph \<Rightarrow> nat list" where
  "completions g = filter (\<lambda>v. nd_type (g ! v) = COMPLETE) [0..<length g]"

text \<open>
  Every wait has a threshold, no delay is negative, dependencies exist, there is exactly
  one completion node, no node waits for itself, and every node is awaited, directly or
  not, by the completion.
\<close>

definition valid_graph :: "ProtocolTransactionGraph \<Rightarrow> bool" where
  "valid_graph g =
     ((\<forall>v < length g. local_ok g v) \<and> acyclic (dep_edges g)
      \<and> (\<exists>c. completions g = [c] \<and> (\<forall>v < length g. (v, c) \<in> (dep_edges g)\<^sup>*)))"

text \<open>Graphs built by the \<open>Add\<close> functions are numbered by position; the counters fit.\<close>

definition well_numbered :: "ProtocolTransactionGraph \<Rightarrow> bool" where
  "well_numbered g =
     ((\<forall>v < length g. nd_id (g ! v) = v \<and> length (deps_of g v) < 2 ^ 32) \<and> length g < 2 ^ 32)"

subsection \<open>The first pass\<close>

text \<open>The state of the two vectors after the first \<open>k\<close> nodes.\<close>

definition adj_upto :: "ProtocolTransactionGraph \<Rightarrow> nat \<Rightarrow> adjacency \<Rightarrow> bool" where
  "adj_upto g k adj =
     (case adj of (succs, indegree) \<Rightarrow>
        length succs = length g \<and> length indegree = length g
        \<and> (\<forall>u < length g. \<forall>v. count_list (succs ! u) v = (if v < k then count_list (deps_of g v) u else 0))
        \<and> (\<forall>v < length g. indegree ! v = (if v < k then length (deps_of g v) else 0)))"

lemma check_deps_spec:
  assumes "length succs = n" "i < length indegree" "indegree ! i + length ds < 2 ^ 32"
  shows "case check_deps n i ds (succs, indegree) of
      Inl e \<Rightarrow> \<exists>d \<in> set ds. \<not> (d < n \<and> d \<noteq> i)
    | Inr (succs', indegree') \<Rightarrow> (\<forall>d \<in> set ds. d < n \<and> d \<noteq> i)
        \<and> indegree' = indegree[i := indegree ! i + length ds] \<and> length succs' = n
        \<and> (\<forall>u < n. \<forall>v. count_list (succs' ! u) v = count_list (succs ! u) v + (if v = i then count_list ds u else 0))"
  using assms
proof (induction ds arbitrary: succs indegree)
  case (Cons d ds)
  show ?case
  proof (cases "d < n \<and> d \<noteq> i")
    case True
    let ?S = "succs[d := succs ! d @ [i]]" and ?I = "indegree[i := u32_inc (indegree ! i)]"
    have inc: "u32_inc (indegree ! i) = Suc (indegree ! i)" using Cons.prems(3) by (intro u32_inc_small) simp
    have pre: "length ?S = n" "i < length ?I" "?I ! i + length ds < 2 ^ 32" using Cons.prems inc by simp_all
    have "count_list (?S ! u) v = count_list (succs ! u) v + (if u = d \<and> v = i then 1 else 0)" if "u < n" for u v
      using that True Cons.prems(1) by (auto simp: nth_list_update)
    with Cons.IH [OF pre] True Cons.prems(2) inc show ?thesis
      by (auto split: sum.splits)
  qed (auto simp: not_less)
qed simp

lemma adj_step:
  assumes adj: "adj_upto g k (succs, indegree)" and k: "k < length g" and wn: "well_numbered g"
  shows "case check_deps (length g) k (deps_of g k) (succs, indegree) of
      Inl e \<Rightarrow> \<exists>d \<in> set (deps_of g k). \<not> (d < length g \<and> d \<noteq> k)
    | Inr adj' \<Rightarrow> (\<forall>d \<in> set (deps_of g k). d < length g \<and> d \<noteq> k) \<and> adj_upto g (Suc k) adj'"
proof -
  have ik: "indegree ! k = 0" and len: "length succs = length g" "length indegree = length g"
    using adj k by (simp_all add: adj_upto_def)
  have "indegree ! k + length (deps_of g k) < 2 ^ 32" using ik wn k by (simp add: well_numbered_def)
  from check_deps_spec [OF len(1) _ this] k len(2) have spec: "case check_deps (length g) k (deps_of g k) (succs, indegree) of
      Inl e \<Rightarrow> \<exists>d \<in> set (deps_of g k). \<not> (d < length g \<and> d \<noteq> k)
    | Inr (succs', indegree') \<Rightarrow> (\<forall>d \<in> set (deps_of g k). d < length g \<and> d \<noteq> k)
        \<and> indegree' = indegree[k := indegree ! k + length (deps_of g k)] \<and> length succs' = length g
        \<and> (\<forall>u < length g. \<forall>v. count_list (succs' ! u) v =
             count_list (succs ! u) v + (if v = k then count_list (deps_of g k) u else 0))" by simp
  show ?thesis
  proof (cases "check_deps (length g) k (deps_of g k) (succs, indegree)")
    case (Inr adj')
    obtain succs' indegree' where adj': "adj' = (succs', indegree')" by (cases adj')
    from spec Inr adj' have ok: "\<forall>d \<in> set (deps_of g k). d < length g \<and> d \<noteq> k"
      and I: "indegree' = indegree[k := length (deps_of g k)]" and S: "length succs' = length g"
      and cnt: "\<And>u v. u < length g \<Longrightarrow> count_list (succs' ! u) v =
         count_list (succs ! u) v + (if v = k then count_list (deps_of g k) u else 0)"
      using ik by simp_all
    have "adj_upto g (Suc k) (succs', indegree')"
      using adj S len cnt unfolding adj_upto_def I by (auto simp: less_Suc_eq nth_list_update)
    with Inr adj' ok show ?thesis by simp
  qed (use spec in simp)
qed

lemma check_nodes_spec:
  assumes "well_numbered g" "nodes = drop k g" "k \<le> length g" "adj_upto g k adj" "c \<le> k"
  shows "case check_nodes (length g) nodes (c, cid, adj) of
      Inl e \<Rightarrow> \<exists>v < length g. k \<le> v \<and> \<not> local_ok g v
    | Inr (c', cid', adj') \<Rightarrow> (\<forall>v < length g. k \<le> v \<longrightarrow> local_ok g v) \<and> adj_upto g (length g) adj'
        \<and> c' = c + length (filter (\<lambda>v. nd_type (g ! v) = COMPLETE) [k..<length g])
        \<and> cid' = last (cid # filter (\<lambda>v. nd_type (g ! v) = COMPLETE) [k..<length g])"
  using assms
proof (induction nodes arbitrary: k c cid adj)
  case Nil
  then show ?case by simp
next
  case (Cons node nodes)
  have k: "k < length g" using Cons.prems(2,3) by (cases "k < length g") auto
  then have node: "node = g ! k" and nodes: "nodes = drop (Suc k) g"
    using Cons.prems(2) unfolding Cons_nth_drop_Suc [OF k, symmetric] by simp_all
  have nid: "nd_id (g ! k) = k" and n: "length g < 2 ^ 32" using Cons.prems(1) k by (simp_all add: well_numbered_def)
  obtain succs indegree where adj: "adj = (succs, indegree)" by (cases adj)
  let ?done = "nd_type (g ! k) = COMPLETE"
  let ?c = "if ?done then Suc c else c" and ?cid = "if ?done then k else cid"
  have inc: "u32_inc c = Suc c" using Cons.prems(5) k n by (intro u32_inc_small) simp
  have upt: "[k..<length g] = k # [Suc k..<length g]" using k by (simp add: upt_conv_Cons)
  note step = adj_step [OF Cons.prems(4) [unfolded adj] k Cons.prems(1)]
  have unfold: "check_nodes (length g) (node # nodes) (c, cid, adj) =
     (if nd_type (g ! k) = WAIT \<and> nd_targetBytes (g ! k) = 0 \<and> nd_targetEvents (g ! k) = 0
      then Inl ''wait node has no completion threshold''
      else if nd_type (g ! k) = DELAY \<and> nd_delay (g ! k) < 0 then Inl ''delay node has a negative duration''
      else case check_deps (length g) k (deps_of g k) (succs, indegree) of Inl e \<Rightarrow> Inl e
           | Inr adj \<Rightarrow> check_nodes (length g) nodes (?c, ?cid, adj))"
    using k by (simp add: node nid inc adj)
  show ?case
  proof (cases "check_deps (length g) k (deps_of g k) (succs, indegree)")
    case (Inl e)
    with step k show ?thesis unfolding unfold by (auto simp: local_ok_def)
  next
    case (Inr adj')
    with step have ok: "\<forall>d \<in> set (deps_of g k). d < length g \<and> d \<noteq> k" and adj': "adj_upto g (Suc k) adj'" by simp_all
    have le: "Suc k \<le> length g" and c: "?c \<le> Suc k" using k Cons.prems(5) by simp_all
    note ih = Cons.IH [OF Cons.prems(1) nodes le adj' c, of ?cid]
    show ?thesis
    proof (cases "local_ok g k")
      case False
      with ok k show ?thesis unfolding unfold by (auto simp: local_ok_def)
    next
      case True
      define r where "r = check_nodes (length g) nodes (?c, ?cid, adj')"
      have eq: "check_nodes (length g) (node # nodes) (c, cid, adj) = r"
        unfolding unfold Inr r_def using True by (auto simp: local_ok_def)
      have all: "(\<forall>v < length g. k \<le> v \<longrightarrow> local_ok g v) \<longleftrightarrow> (\<forall>v < length g. Suc k \<le> v \<longrightarrow> local_ok g v)"
        using True by (metis Suc_leD Suc_leI le_neq_implies_less)
      have ex: "(\<exists>v < length g. Suc k \<le> v \<and> \<not> local_ok g v) \<Longrightarrow> (\<exists>v < length g. k \<le> v \<and> \<not> local_ok g v)"
        using Suc_leD by blast
      have filt: "filter (\<lambda>v. nd_type (g ! v) = COMPLETE) [k..<length g] =
          (if ?done then [k] else []) @ filter (\<lambda>v. nd_type (g ! v) = COMPLETE) [Suc k..<length g]"
        unfolding upt by simp
      show ?thesis
        using ih [folded r_def] unfolding eq all filt by (cases r) (auto intro: ex)
    qed
  qed
qed

subsection \<open>The topological sort\<close>

text \<open>
  Relaxing the successors of a node subtracts their multiplicity from the in-degrees and
  queues exactly the nodes whose in-degree becomes zero.
\<close>

lemma relax_spec:
  assumes "\<forall>v \<in> set ss. v < length indegree" "\<forall>v < length indegree. count_list ss v \<le> indegree ! v \<and> indegree ! v < 2 ^ 32"
    and "relax ss (indegree, ready) = (indegree', ready')"
  shows "length indegree' = length indegree \<and> (\<forall>v < length indegree. indegree' ! v = indegree ! v - count_list ss v)
     \<and> (\<exists>new. ready' = ready @ new \<and> distinct new \<and> set new = {v \<in> set ss. indegree ! v = count_list ss v})"
  using assms
proof (induction ss arbitrary: indegree ready)
  case (Cons s ss)
  let ?I = "indegree[s := u32_dec (indegree ! s)]"
  have s: "s < length indegree" using Cons.prems(1) by simp
  have pos: "0 < indegree ! s" "indegree ! s < 2 ^ 32" using Cons.prems(2) s by (auto dest!: spec [of _ s])
  have dec: "u32_dec (indegree ! s) = indegree ! s - 1" using pos by (rule u32_dec_pos)
  have I: "?I ! v = indegree ! v - (if v = s then 1 else 0)" if "v < length indegree" for v
    using that dec s by (simp add: nth_list_update)
  have bounds: "count_list ss v \<le> ?I ! v \<and> ?I ! v < 2 ^ 32" if v: "v < length indegree" for v
    using Cons.prems(2) [rule_format, OF v] unfolding I [OF v] by (auto split: if_splits)
  obtain r where r: "r = (if ?I ! s = 0 then ready @ [s] else ready)" by simp
  have rec: "relax ss (?I, r) = (indegree', ready')" using Cons.prems(3) by (simp add: Let_def r)
  from Cons.IH [OF _ _ rec] Cons.prems(1) bounds obtain new where
    len: "length indegree' = length indegree" and sub: "\<forall>v < length indegree. indegree' ! v = ?I ! v - count_list ss v"
    and new: "ready' = r @ new" "distinct new" "set new = {v \<in> set ss. ?I ! v = count_list ss v}" by auto
  have sub': "\<forall>v < length indegree. indegree' ! v = indegree ! v - count_list (s # ss) v"
    using sub I by (auto split: if_splits)
  have Is: "?I ! s = indegree ! s - 1" using I [OF s] by simp
  let ?new = "if ?I ! s = 0 then s # new else new"
  have zero: "s \<notin> set ss" if "?I ! s = 0" using bounds [OF s] that by (simp add: count_list_0_iff)
  have "ready' = ready @ ?new" using new(1) r by simp
  moreover have "distinct ?new" using new(2,3) zero by auto
  moreover have "set ?new = {v \<in> set (s # ss). indegree ! v = count_list (s # ss) v}"
  proof -
    have "v \<in> set ?new \<longleftrightarrow> v \<in> set (s # ss) \<and> indegree ! v = count_list (s # ss) v" for v
    proof (cases "v = s")
      case True
      show ?thesis
        using True pos(1) Is zero new(3) by (cases "s \<in> set ss") (auto simp: count_list_0_iff)
    next
      case False
      then have "?I ! v = indegree ! v" by simp
      with False new(3) show ?thesis by auto
    qed
    then show ?thesis by blast
  qed
  ultimately show ?case using len sub' by blast
qed simp

text \<open>
  \<open>P\<close> has been taken from the queue in this order and \<open>Q\<close> is still in it: the
  in-degrees count the dependencies that are not in \<open>P\<close>, the queue holds the other nodes
  without any, and \<open>P\<close> lists dependencies before the nodes that need them.
\<close>

definition sort_inv :: "ProtocolTransactionGraph \<Rightarrow> nat list \<Rightarrow> nat list \<Rightarrow> nat list \<Rightarrow> bool" where
  "sort_inv g P Q indegree =
     (length indegree = length g \<and> distinct (P @ Q) \<and> set (P @ Q) \<subseteq> {..<length g}
      \<and> (\<forall>v < length g. indegree ! v = length (filter (\<lambda>u. u \<notin> set P) (deps_of g v)))
      \<and> (\<forall>v < length g. v \<in> set (P @ Q) \<longleftrightarrow> indegree ! v = 0)
      \<and> (\<forall>j < length P. set (deps_of g (P ! j)) \<subseteq> set (take j P)))"

lemma length_filter_snoc:
  "i \<notin> set P \<Longrightarrow> length (filter (\<lambda>u. u \<notin> set (P @ [i])) ds) + count_list ds i = length (filter (\<lambda>u. u \<notin> set P) ds)"
  by (induction ds) auto

lemma length_below: "distinct xs \<Longrightarrow> set xs \<subseteq> {..<n} \<Longrightarrow> length xs \<le> n"
  using card_mono [of "{..<n}" "set xs"] by (simp add: distinct_card)

lemma sort_inv_step:
  assumes inv: "sort_inv g P (i # Q) I" and adj: "adj_upto g (length g) (succs, I0)" and wn: "well_numbered g"
    and r: "relax (succs ! i) (I, Q) = (I', Q')"
  shows "sort_inv g (P @ [i]) Q' I'"
proof -
  have i: "i < length g" "i \<notin> set P" and len: "length I = length g" and dist: "distinct (P @ i # Q)"
    and sub: "set (P @ i # Q) \<subseteq> {..<length g}"
    and I: "\<And>v. v < length g \<Longrightarrow> I ! v = length (filter (\<lambda>u. u \<notin> set P) (deps_of g v))"
    and zero: "\<And>v. v < length g \<Longrightarrow> v \<in> set (P @ i # Q) \<longleftrightarrow> I ! v = 0"
    and topo: "\<And>j. j < length P \<Longrightarrow> set (deps_of g (P ! j)) \<subseteq> set (take j P)"
    using inv by (auto simp: sort_inv_def)
  have cnt: "count_list (succs ! i) v = (if v < length g then count_list (deps_of g v) i else 0)" for v
    using adj i(1) by (simp add: adj_upto_def)
  note snoc = length_filter_snoc [OF i(2)]
  have small: "I ! v < 2 ^ 32" if "v < length g" for v
    using wn that le_less_trans [OF length_filter_le] by (auto simp: I [OF that] well_numbered_def)
  have below: "\<forall>v \<in> set (succs ! i). v < length I"
    using cnt len by (metis count_list_0_iff)
  have bounds: "\<forall>v < length I. count_list (succs ! i) v \<le> I ! v \<and> I ! v < 2 ^ 32"
  proof (intro allI impI conjI)
    fix v assume v: "v < length I"
    show "count_list (succs ! i) v \<le> I ! v" using snoc [of "deps_of g v"] v len by (simp add: cnt I)
    show "I ! v < 2 ^ 32" using small v len by simp
  qed
  from relax_spec [OF below bounds r] obtain new where
    len': "length I' = length I" and I': "\<And>v. v < length g \<Longrightarrow> I' ! v = I ! v - count_list (deps_of g v) i"
    and Q': "Q' = Q @ new" and new: "distinct new" "set new = {v \<in> set (succs ! i). I ! v = count_list (succs ! i) v}"
    by (auto simp: len cnt)
  have mem: "v \<in> set new \<longleftrightarrow> v < length g \<and> 0 < I ! v \<and> I ! v = count_list (deps_of g v) i" for v
    using below new(2) len cnt [of v] count_list_0_iff [of "succs ! i" v] by auto
  have I'': "I' ! v = length (filter (\<lambda>u. u \<notin> set (P @ [i])) (deps_of g v))" if "v < length g" for v
    using snoc [of "deps_of g v"] that by (simp add: I' I)
  have le: "count_list (deps_of g v) i \<le> I ! v" if "v < length g" for v using snoc [of "deps_of g v"] by (simp add: I [OF that])
  have zero': "v \<in> set ((P @ [i]) @ Q') \<longleftrightarrow> I' ! v = 0" if v: "v < length g" for v
    using zero [OF v] mem [of v] I' [OF v] le [OF v] v by (auto simp: Q')
  have dist': "distinct ((P @ [i]) @ Q')"
    using dist new(1) mem zero by (fastforce simp: Q')
  have sub': "set ((P @ [i]) @ Q') \<subseteq> {..<length g}" using sub mem by (auto simp: Q')
  have "I ! i = 0" using zero [OF i(1)] by simp
  then have "set (deps_of g i) \<subseteq> set P" by (auto simp: I [OF i(1)] filter_empty_conv)
  then have topo': "set (deps_of g ((P @ [i]) ! j)) \<subseteq> set (take j (P @ [i]))" if "j < length (P @ [i])" for j
    using that topo [of j] by (auto simp: nth_append less_Suc_eq)
  show ?thesis
    unfolding sort_inv_def len' len by (intro conjI allI impI refl dist' sub' I'' zero' topo')
qed

lemma sort_loop_spec:
  assumes "sort_inv g P Q I" "adj_upto g (length g) (succs, I0)" "well_numbered g" "length g < length P + fuel"
  shows "\<exists>P' I'. sort_loop fuel succs I Q (length P) = Some (length P') \<and> sort_inv g P' [] I'"
  using assms
proof (induction fuel arbitrary: P Q I)
  case 0
  have "distinct P" "set P \<subseteq> {..<length g}" using "0.prems"(1) by (auto simp: sort_inv_def)
  with length_below [of P "length g"] "0.prems"(4) show ?case by simp
next
  case (Suc fuel)
  show ?case
  proof (cases Q)
    case Nil
    with Suc.prems(1) show ?thesis by auto
  next
    case (Cons i Q0)
    obtain I1 Q1 where r: "relax (succs ! i) (I, Q0) = (I1, Q1)" by fastforce
    have inv1: "sort_inv g (P @ [i]) Q1 I1"
      by (rule sort_inv_step [OF _ Suc.prems(2,3) r]) (use Suc.prems(1) Cons in simp)
    have "distinct (P @ [i])" "set (P @ [i]) \<subseteq> {..<length g}" using Suc.prems(1) Cons by (auto simp: sort_inv_def)
    from length_below [OF this] Suc.prems(3) have "u32_inc (length P) = length (P @ [i])"
      using u32_inc_small [of "length P"] by (simp add: well_numbered_def)
    with Suc.IH [OF inv1 Suc.prems(2,3)] Suc.prems(4) Cons r show ?thesis by simp
  qed
qed

lemma sort_inv_init:
  assumes adj: "adj_upto g (length g) (succs, I)"
  shows "sort_inv g [] (filter (\<lambda>i. I ! i = 0) [0..<length g]) I"
  using adj by (auto simp: sort_inv_def adj_upto_def)

text \<open>The sort takes every node exactly when there is no dependency cycle.\<close>

lemma sorted_iff_acyclic:
  assumes inv: "sort_inv g P [] I" and ok: "\<forall>v < length g. local_ok g v"
  shows "length P = length g \<longleftrightarrow> acyclic (dep_edges g)"
proof
  have dist: "distinct P" and sub: "set P \<subseteq> {..<length g}"
    and topo: "\<And>j. j < length P \<Longrightarrow> set (deps_of g (P ! j)) \<subseteq> set (take j P)"
    and all: "\<And>v. v < length g \<Longrightarrow> v \<in> set P \<longleftrightarrow> set (deps_of g v) \<subseteq> set P"
    using inv by (auto simp: sort_inv_def filter_empty_conv subset_iff)
  show "acyclic (dep_edges g)" if "length P = length g"
  proof -
    have "set P = {..<length g}" using dist sub that by (intro card_subset_eq) (simp_all add: distinct_card)
    define rank where "rank v = (THE j. j < length P \<and> P ! j = v)" for v
    have rank: "rank (P ! j) = j" if "j < length P" for j
      unfolding rank_def using that dist by (auto simp: nth_eq_iff_index_eq)
    have "(u, v) \<in> measure rank" if "(u, v) \<in> dep_edges g" for u v
    proof -
      from that have v: "v < length g" "u \<in> set (deps_of g v)" by (simp_all add: dep_edges_def)
      with \<open>set P = _\<close> obtain j where j: "j < length P" "P ! j = v" by (metis in_set_conv_nth lessThan_iff)
      with topo v(2) have "u \<in> set (take j P)" by blast
      then obtain k where "k < j" "P ! k = u" by (auto simp: in_set_conv_nth)
      with j rank show ?thesis by fastforce
    qed
    then have "dep_edges g \<subseteq> measure rank" by auto
    then show ?thesis by (rule acyclic_subset [OF wf_acyclic [OF wf_measure]])
  qed
  show "length P = length g" if ac: "acyclic (dep_edges g)"
  proof -
    have "dep_edges g \<subseteq> {..<length g} \<times> {..<length g}" using ok by (auto simp: dep_edges_def local_ok_def)
    then have "wf (dep_edges g)" using ac by (intro finite_acyclic_wf) (auto intro: finite_subset)
    then have "v < length g \<longrightarrow> v \<in> set P" for v
    proof (induction v rule: wf_induct_rule)
      case (less v)
      then show ?case using all [of v] ok by (auto simp: dep_edges_def local_ok_def)
    qed
    with sub have "set P = {..<length g}" by auto
    with distinct_card [OF dist] show ?thesis by simp
  qed
qed

subsection \<open>The backward search\<close>

lemma count_False_update:
  "d < length R \<Longrightarrow> \<not> R ! d \<Longrightarrow> Suc (count_list (R[d := True]) False) = count_list R False"
proof (induction R arbitrary: d)
  case (Cons r R)
  then show ?case by (cases d) auto
qed simp

lemma mark_deps_spec:
  assumes "\<forall>d \<in> set ds. d < length R" "mark_deps ds (R, Q) = (R', Q')"
  shows "length R' = length R \<and> (\<forall>v < length R. R' ! v \<longleftrightarrow> R ! v \<or> v \<in> set ds)
     \<and> (\<exists>new. Q' = Q @ new \<and> set new \<subseteq> set ds \<and> (\<forall>d \<in> set ds. R ! d \<or> d \<in> set new)
          \<and> count_list R' False + length new = count_list R False)"
  using assms
proof (induction ds arbitrary: R Q)
  case (Cons d ds)
  show ?case
  proof (cases "R ! d")
    case True
    with Cons.prems have "mark_deps ds (R, Q) = (R', Q')" by simp
    from Cons.IH [OF _ this] Cons.prems(1) True show ?thesis by auto
  next
    case False
    have d: "d < length R" using Cons.prems(1) by simp
    from False Cons.prems(2) have "mark_deps ds (R[d := True], Q @ [d]) = (R', Q')" by simp
    from Cons.IH [OF _ this] Cons.prems(1) obtain new where
      R': "length R' = length R" "\<forall>v < length R. R' ! v \<longleftrightarrow> R[d := True] ! v \<or> v \<in> set ds"
      and new: "Q' = (Q @ [d]) @ new" "set new \<subseteq> set ds" "\<forall>x \<in> set ds. R[d := True] ! x \<or> x \<in> set new"
        "count_list R' False + length new = count_list (R[d := True]) False" by auto
    have "\<forall>v < length R. R' ! v \<longleftrightarrow> R ! v \<or> v \<in> set (d # ds)"
      using R'(2) d by (auto simp: nth_list_update)
    moreover have "\<forall>x \<in> set (d # ds). R ! x \<or> x \<in> set (d # new)"
      using new(3) d by (auto simp: nth_list_update split: if_splits)
    moreover have "count_list R' False + length (d # new) = count_list R False"
      using new(4) count_False_update [OF d False] by simp
    ultimately show ?thesis using R'(1) new(1,2) by (intro conjI exI [of _ "d # new"]) auto
  qed
qed simp

definition reach_inv :: "ProtocolTransactionGraph \<Rightarrow> nat \<Rightarrow> bool list \<Rightarrow> nat list \<Rightarrow> bool" where
  "reach_inv g c R Q =
     (length R = length g \<and> c < length g \<and> R ! c \<and> (\<forall>v \<in> set Q. v < length g \<and> R ! v)
      \<and> (\<forall>v < length g. R ! v \<longrightarrow> (v, c) \<in> (dep_edges g)\<^sup>*)
      \<and> (\<forall>v < length g. R ! v \<longrightarrow> v \<in> set Q \<or> (\<forall>d \<in> set (deps_of g v). R ! d)))"

lemma reach_inv_step:
  assumes inv: "reach_inv g c R (i # Q)" and ok: "\<forall>v < length g. local_ok g v"
    and mk: "mark_deps (deps_of g i) (R, Q) = (R', Q')"
  shows "reach_inv g c R' Q'" "count_list R' False + length Q' = count_list R False + length Q"
proof -
  have i: "i < length g" "R ! i" and len: "length R = length g" and c: "c < length g" "R ! c"
    and Q: "\<forall>v \<in> set Q. v < length g \<and> R ! v" and path: "\<And>v. v < length g \<Longrightarrow> R ! v \<Longrightarrow> (v, c) \<in> (dep_edges g)\<^sup>*"
    and clos: "\<And>v. v < length g \<Longrightarrow> R ! v \<Longrightarrow> v = i \<or> v \<in> set Q \<or> (\<forall>d \<in> set (deps_of g v). R ! d)"
    using inv by (auto simp: reach_inv_def)
  have dn: "d < length g" if "v < length g" "d \<in> set (deps_of g v)" for v d
    using that ok by (auto simp: local_ok_def)
  have "\<forall>d \<in> set (deps_of g i). d < length R" using dn i len by simp
  from mark_deps_spec [OF this mk] len obtain new where
    len': "length R' = length g" and R': "\<And>v. v < length g \<Longrightarrow> R' ! v \<longleftrightarrow> R ! v \<or> v \<in> set (deps_of g i)"
    and new: "Q' = Q @ new" "set new \<subseteq> set (deps_of g i)" "\<forall>d \<in> set (deps_of g i). R ! d \<or> d \<in> set new"
      "count_list R' False + length new = count_list R False" by auto
  have "(v, c) \<in> (dep_edges g)\<^sup>*" if v: "v < length g" "R' ! v" for v
  proof (cases "R ! v")
    case False
    with v R' have "(v, i) \<in> dep_edges g" using i by (simp add: dep_edges_def)
    then show ?thesis using path [OF i] by (rule converse_rtrancl_into_rtrancl)
  qed (use path v in simp)
  moreover have "v \<in> set Q' \<or> (\<forall>d \<in> set (deps_of g v). R' ! d)" if v: "v < length g" "R' ! v" for v
  proof (cases "R ! v")
    case True
    with clos [OF v(1)] show ?thesis using R' dn [OF v(1)] dn [OF i(1)] by (auto simp: new(1))
  next
    case False
    with v R' new(3) show ?thesis by (auto simp: new(1))
  qed
  moreover have "\<forall>v \<in> set Q'. v < length g \<and> R' ! v"
    using Q R' new(2) dn [OF i(1)] by (auto simp: new(1))
  ultimately show "reach_inv g c R' Q'" using len' c R' [OF c(1)] by (simp add: reach_inv_def)
  show "count_list R' False + length Q' = count_list R False + length Q" using new(1,4) by simp
qed

lemma reach_loop_spec:
  assumes "reach_inv g c R Q" "\<forall>v < length g. local_ok g v" "count_list R False + length Q < fuel"
  shows "\<exists>R'. reach_loop fuel g R Q = Some R' \<and> reach_inv g c R' []"
  using assms
proof (induction fuel arbitrary: R Q)
  case (Suc fuel)
  show ?case
  proof (cases Q)
    case Nil
    with Suc.prems(1) show ?thesis by simp
  next
    case (Cons i Q0)
    obtain R1 Q1 where mk: "mark_deps (deps_of g i) (R, Q0) = (R1, Q1)" by fastforce
    note step = reach_inv_step [OF _ Suc.prems(2) mk, of c]
    have "reach_inv g c R1 Q1" "count_list R1 False + length Q1 < fuel"
      using step Suc.prems(1,3) Cons by simp_all
    from Suc.IH [OF this(1) Suc.prems(2) this(2)] Cons mk show ?thesis by simp
  qed
qed simp

text \<open>The search marks exactly the nodes that lead to the completion.\<close>

lemma reach_marks:
  assumes inv: "reach_inv g c R []" and ok: "\<forall>v < length g. local_ok g v"
  shows "False \<notin> set R \<longleftrightarrow> (\<forall>v < length g. (v, c) \<in> (dep_edges g)\<^sup>*)"
proof -
  have len: "length R = length g" and path: "\<And>v. v < length g \<Longrightarrow> R ! v \<Longrightarrow> (v, c) \<in> (dep_edges g)\<^sup>*"
    and clos: "\<And>v d. v < length g \<Longrightarrow> R ! v \<Longrightarrow> d \<in> set (deps_of g v) \<Longrightarrow> R ! d" and c: "c < length g" "R ! c"
    using inv by (auto simp: reach_inv_def)
  have "v < length g \<longrightarrow> R ! v" if "(v, c) \<in> (dep_edges g)\<^sup>*" for v
    using that
  proof (induction rule: converse_rtrancl_induct)
    case (step u w)
    then have "w < length g" "u \<in> set (deps_of g w)" by (simp_all add: dep_edges_def)
    with step clos show ?case by blast
  qed (use c in simp)
  with path have "(\<forall>v < length g. (v, c) \<in> (dep_edges g)\<^sup>*) \<longleftrightarrow> (\<forall>v < length g. R ! v)" by blast
  also have "\<dots> \<longleftrightarrow> False \<notin> set R" using len by (metis (full_types) in_set_conv_nth)
  finally show ?thesis by simp
qed

subsection \<open>Validation is correct\<close>

lemma adj_init: "adj_upto g 0 (replicate (length g) [], replicate (length g) 0)"
  by (simp add: adj_upto_def)

lemma count_False_init: "c < n \<Longrightarrow> count_list ((replicate n False)[c := True]) False + 1 = n"
proof -
  assume c: "c < n"
  have "count_list (replicate n False) False = n" by (induction n) auto
  with count_False_update [of c "replicate n False"] c show ?thesis by simp
qed

lemma reach_inv_init: "c < length g \<Longrightarrow> reach_inv g c ((replicate (length g) False)[c := True]) [c]"
  by (auto simp: reach_inv_def nth_list_update split: if_splits)

text \<open>After a successful first pass and the count check.\<close>

lemma Validate_tail:
  assumes wn: "well_numbered g" and adj: "adj_upto g (length g) (succs, I)"
    and ok: "\<forall>v < length g. local_ok g v" and c: "completions g = [c]"
  shows "\<exists>visited R. sort_loop (Suc (length g)) succs I (filter (\<lambda>i. I ! i = 0) [0..<length g]) 0 = Some visited
     \<and> reach_loop (Suc (length g)) g ((replicate (length g) False)[c := True]) [c] = Some R
     \<and> (visited = length g \<and> False \<notin> set R \<longleftrightarrow> valid_graph g)"
proof -
  have "c \<in> set (completions g)" using c by simp
  then have cn: "c < length g" by (simp add: completions_def)
  from sort_loop_spec [OF sort_inv_init [OF adj] adj wn, of "Suc (length g)"] obtain P I' where
    s: "sort_loop (Suc (length g)) succs I (filter (\<lambda>i. I ! i = 0) [0..<length g]) 0 = Some (length P)"
    and P: "sort_inv g P [] I'" by auto
  from reach_loop_spec [OF reach_inv_init [OF cn] ok, of "Suc (length g)"] count_False_init [OF cn] obtain R where
    r: "reach_loop (Suc (length g)) g ((replicate (length g) False)[c := True]) [c] = Some R"
    and R: "reach_inv g c R []" by auto
  from s r sorted_iff_acyclic [OF P ok] reach_marks [OF R ok] ok c show ?thesis
    by (auto simp: valid_graph_def)
qed

lemma validate_decides:
  assumes wn: "well_numbered g"
  shows "(\<exists>verdict. Validate g = Some verdict) \<and> (Validate g = Some Valid \<longleftrightarrow> valid_graph g)"
proof (cases "g = []")
  case True
  then show ?thesis by (simp add: Validate_def valid_graph_def completions_def)
next
  case False
  let ?init = "(0, INVALID_NODE, replicate (length g) [], replicate (length g) 0)"
  note pass = check_nodes_spec [OF wn, of g 0 "(replicate (length g) [], replicate (length g) 0)" 0 INVALID_NODE]
  show ?thesis
  proof (cases "check_nodes (length g) g ?init")
    case (Inl e)
    with pass adj_init [of g] have "\<not> (\<forall>v < length g. local_ok g v)" by auto
    with Inl False show ?thesis by (simp add: Validate_def valid_graph_def)
  next
    case (Inr st)
    obtain count cid succs I where st: "st = (count, cid, succs, I)" by (cases st) auto
    with pass Inr adj_init [of g] have ok: "\<forall>v < length g. local_ok g v"
      and adj: "adj_upto g (length g) (succs, I)" and count: "count = length (completions g)"
      and cid: "cid = last (INVALID_NODE # completions g)"
      by (simp_all add: completions_def)
    show ?thesis
    proof (cases "count = 1")
      case one: True
      then obtain c where c: "completions g = [c]" using count by (cases "completions g") auto
      then have "cid = c" using cid by simp
      from Validate_tail [OF wn adj ok c] obtain visited R where
        s: "sort_loop (Suc (length g)) succs I (filter (\<lambda>i. I ! i = 0) [0..<length g]) 0 = Some visited"
        and r: "reach_loop (Suc (length g)) g ((replicate (length g) False)[c := True]) [c] = Some R"
        and v: "visited = length g \<and> False \<notin> set R \<longleftrightarrow> valid_graph g" by blast
      have "Validate g = (if visited \<noteq> length g then Some (Invalid ''transaction graph contains a dependency cycle'')
          else if False \<in> set R then Some (Invalid ''transaction graph contains a node that cannot affect completion'')
          else Some Valid)"
        unfolding Validate_def Let_def Inr st using False one s r \<open>cid = c\<close>
        by (simp del: sort_loop.simps reach_loop.simps)
      with v show ?thesis by auto
    next
      case other: False
      then have "\<not> valid_graph g" using count by (auto simp: valid_graph_def)
      with other Inr st False show ?thesis by (simp add: Validate_def)
    qed
  qed
qed

text \<open>
  C18: validation always returns, and it accepts exactly the valid graphs: those whose
  nodes are locally well formed, that have exactly one completion node and no dependency
  cycle, and every node of which the completion depends on.
\<close>

theorem validate_decides_valid_graphs:
  assumes "well_numbered g"
  shows "(\<exists>verdict. Validate g = Some verdict) \<and> (Validate g = Some Valid \<longleftrightarrow> valid_graph g)"
  by (rule validate_decides [OF assms])

text \<open>A transfer: send, wait for its delivery, complete.\<close>

definition send_and_wait :: ProtocolTransactionGraph where
  "send_and_wait =
     (let (g, a) = AddAction [] action_new [] ''send'';
          (g, w) = AddWait g matcher_new 64 0 [a] ''delivered'';
          (g, c) = AddCompletion g [w] DEP_ALL ''complete''
      in g)"

lemmas graph_eval = send_and_wait_def AddAction_def AddWait_def AddDelay_def AddCompletion_def AddNode_def node_new_def

lemma send_and_wait_numbered: "well_numbered send_and_wait"
  by (auto simp: graph_eval well_numbered_def nth_Cons' Let_def less_Suc_eq_0_disj)

theorem validate_decides_valid_graphs_witness: "valid_graph send_and_wait"
proof -
  have "Validate send_and_wait = Some Valid"
    by (simp add: graph_eval Validate_def INVALID_NODE_def u32_inc_small u32_dec_pos upt_rec Let_def numeral_3_eq_3)
  with validate_decides_valid_graphs [OF send_and_wait_numbered] show ?thesis by simp
qed

text \<open>
  Graphs built by the \<open>Add\<close> functions are numbered by position.
\<close>

lemma AddNode_well_numbered:
  assumes "well_numbered g" "length g + 1 < 2 ^ 32" "length (nd_dependencies node) < 2 ^ 32"
  shows "well_numbered (fst (AddNode g node)) \<and> snd (AddNode g node) = length g"
  using assms by (auto simp: well_numbered_def AddNode_def nth_append less_Suc_eq)

end
