(* ===== verification/ProtocolExecutor.thy ===== *)
theory ProtocolExecutor
  imports ProtocolGraph
begin

text \<open>
  The executor of a transaction graph (\<open>ProtocolTransactionExecutor\<close>). Ready nodes leave
  a queue: actions go out through a callback and are complete at once, waits and delays
  become active, the completion ends the transaction; completed nodes release their
  successors. An action callback may report events synchronously: \<open>react\<close> maps an action
  to the events its callback passes to \<open>NotifyEvent\<close> before it returns. At that point
  \<open>m_advancing\<close> is set, so the nested \<open>Advance\<close> only requests another round. The other
  two callbacks are recorded as events. A delay timer is the absolute time of its pending
  event. The loops carry fuel and yield \<open>Diverges\<close> without it; the theorems show that no
  run meets an assertion or runs out of fuel.
\<close>

subsection \<open>State\<close>

datatype ProtocolTransactionNodeState = PENDING | ACTIVE | COMPLETED

record RuntimeNode =
  rn_state :: ProtocolTransactionNodeState
  observedBytes :: u64
  observedEvents :: u32
  remainingDependencies :: nat
  queued :: bool
  delayEvent :: "Time option"

record WaitIndexKey =
  wk_eventType :: u8
  wk_sourceRank :: u16
  wk_destinationRank :: u16
  wk_flowId :: u16
  wk_stageId :: u32
  wk_packetType :: u8
  wk_wildcardMask :: u8

record ProtocolTransactionExecutor =
  m_graph :: ProtocolTransactionGraph
  m_runtime :: "RuntimeNode list"
  m_successors :: "nat list list"
  m_readyNodes :: "nat list"
  m_waitIndex :: "(WaitIndexKey, nat list) umap"
  m_actionCallback :: bool
  m_nodeCompletionCallback :: bool
  m_completionCallback :: bool
  m_graphSet :: bool
  m_started :: bool
  m_complete :: bool
  m_completionNotified :: bool
  m_advancing :: bool
  m_advanceRequested :: bool

text \<open>What leaves the executor.\<close>

datatype tx_event = ActionOut ProtocolTransactionAction | NodeCompleted nat | TransactionComplete

definition RuntimeNode_new :: RuntimeNode where
  "RuntimeNode_new =
     \<lparr>rn_state = PENDING, observedBytes = 0, observedEvents = 0, remainingDependencies = 0,
      queued = False, delayEvent = None\<rparr>"

definition Executor_new :: ProtocolTransactionExecutor where
  "Executor_new =
     \<lparr>m_graph = [], m_runtime = [], m_successors = [], m_readyNodes = [], m_waitIndex = [],
      m_actionCallback = False, m_nodeCompletionCallback = False, m_completionCallback = False,
      m_graphSet = False, m_started = False, m_complete = False, m_completionNotified = False,
      m_advancing = False, m_advanceRequested = False\<rparr>"

abbreviation upd_runtime ::
  "nat \<Rightarrow> (RuntimeNode \<Rightarrow> RuntimeNode) \<Rightarrow> ProtocolTransactionExecutor \<Rightarrow> ProtocolTransactionExecutor" where
  "upd_runtime v f ex \<equiv> ex\<lparr>m_runtime := (m_runtime ex)[v := f (m_runtime ex ! v)]\<rparr>"

subsection \<open>Set-up\<close>

definition InitializeRuntime :: "ProtocolTransactionExecutor \<Rightarrow> ProtocolTransactionExecutor" where
  "InitializeRuntime ex =
     ex\<lparr>m_runtime := foldl (\<lambda>rt node. rt[nd_id node := (rt ! nd_id node)
            \<lparr>remainingDependencies := length (nd_dependencies node) mod 2 ^ 32\<rparr>])
          (replicate (length (m_graph ex)) RuntimeNode_new) (m_graph ex),
        m_waitIndex := [], m_readyNodes := []\<rparr>"

definition link_node :: "nat list list \<Rightarrow> ProtocolTransactionNode \<Rightarrow> nat list list" where
  "link_node succs node = foldl (\<lambda>succs d. succs[d := succs ! d @ [nd_id node]]) succs (nd_dependencies node)"

text \<open>
  \<open>SetGraph\<close>: the new executor, whether the graph was taken, and the error message left
  behind; \<open>None\<close> if validation does not return.
\<close>

definition SetGraph ::
  "ProtocolTransactionExecutor \<Rightarrow> ProtocolTransactionGraph \<Rightarrow> (ProtocolTransactionExecutor \<times> bool \<times> string) option" where
  "SetGraph ex g =
     (if m_started ex then Some (ex, False, ''cannot replace a running transaction graph'')
      else case Validate g of
        None \<Rightarrow> None
      | Some (Invalid e) \<Rightarrow> Some (ex, False, e)
      | Some Valid \<Rightarrow>
          Some (InitializeRuntime (ex\<lparr>m_graph := g, m_graphSet := True,
                  m_successors := foldl link_node (replicate (length g) []) g\<rparr>), True, ''''))"

definition SetActionCallback :: "ProtocolTransactionExecutor \<Rightarrow> bool \<Rightarrow> ProtocolTransactionExecutor" where
  "SetActionCallback ex b = ex\<lparr>m_actionCallback := b\<rparr>"

definition SetNodeCompletionCallback :: "ProtocolTransactionExecutor \<Rightarrow> bool \<Rightarrow> ProtocolTransactionExecutor" where
  "SetNodeCompletionCallback ex b = ex\<lparr>m_nodeCompletionCallback := b\<rparr>"

definition SetCompletionCallback :: "ProtocolTransactionExecutor \<Rightarrow> bool \<Rightarrow> ProtocolTransactionExecutor" where
  "SetCompletionCallback ex b = ex\<lparr>m_completionCallback := b\<rparr>"

definition Executor_Reset :: "ProtocolTransactionExecutor \<Rightarrow> ProtocolTransactionExecutor" where
  "Executor_Reset ex =
     (InitializeRuntime ex)\<lparr>m_started := False, m_complete := False, m_completionNotified := False,
        m_advancing := False, m_advanceRequested := False\<rparr>"

definition Executor_DoDispose :: "ProtocolTransactionExecutor \<Rightarrow> ProtocolTransactionExecutor" where
  "Executor_DoDispose ex =
     (Executor_Reset ex)\<lparr>m_actionCallback := False, m_nodeCompletionCallback := False, m_completionCallback := False\<rparr>"

definition GetNodeState :: "ProtocolTransactionExecutor \<Rightarrow> nat \<Rightarrow> ProtocolTransactionNodeState result" where
  "GetNodeState ex v =
     ns_assert (v < length (m_runtime ex)) ''Protocol transaction node ID out of range'' (Inr (rn_state (m_runtime ex ! v)))"

definition GetObservedBytes :: "ProtocolTransactionExecutor \<Rightarrow> nat \<Rightarrow> u64 result" where
  "GetObservedBytes ex v =
     ns_assert (v < length (m_runtime ex)) ''Protocol transaction node ID out of range'' (Inr (observedBytes (m_runtime ex ! v)))"

definition GetObservedEvents :: "ProtocolTransactionExecutor \<Rightarrow> nat \<Rightarrow> u32 result" where
  "GetObservedEvents ex v =
     ns_assert (v < length (m_runtime ex)) ''Protocol transaction node ID out of range'' (Inr (observedEvents (m_runtime ex ! v)))"

subsection \<open>The wait index\<close>

fun event_type_code :: "ProtocolTransactionEventType \<Rightarrow> u8" where
  "event_type_code PACKET_DELIVERED = 0"
| "event_type_code RESPONSE_RECEIVED = 1"
| "event_type_code ACK_RECEIVED = 2"
| "event_type_code EVENT_CUSTOM = 3"

definition SOURCE_WILDCARD :: u8 where "SOURCE_WILDCARD = push_bit 0 1"
definition DESTINATION_WILDCARD :: u8 where "DESTINATION_WILDCARD = push_bit 1 1"
definition FLOW_WILDCARD :: u8 where "FLOW_WILDCARD = push_bit 2 1"
definition STAGE_WILDCARD :: u8 where "STAGE_WILDCARD = push_bit 3 1"
definition PACKET_TYPE_WILDCARD :: u8 where "PACKET_TYPE_WILDCARD = push_bit 4 1"

text \<open>\<open>MakeWaitIndexKey\<close> fills the key field by field; a wildcard sets a bit of the mask instead.\<close>

definition wildcard_or :: "bool \<Rightarrow> u8 \<Rightarrow> (WaitIndexKey \<Rightarrow> WaitIndexKey) \<Rightarrow> WaitIndexKey \<Rightarrow> WaitIndexKey" where
  "wildcard_or any flag fill key =
     (if any then key\<lparr>wk_wildcardMask := wk_wildcardMask key OR flag\<rparr> else fill key)"

definition MakeWaitIndexKey :: "ProtocolTransactionEventMatcher \<Rightarrow> WaitIndexKey" where
  "MakeWaitIndexKey m =
     (let key = \<lparr>wk_eventType = event_type_code (mt_type m), wk_sourceRank = 0, wk_destinationRank = 0,
                 wk_flowId = 0, wk_stageId = 0, wk_packetType = 0, wk_wildcardMask = 0\<rparr>;
          key = wildcard_or (mt_sourceRank m = ANY_RANK) SOURCE_WILDCARD (wk_sourceRank_update (\<lambda>_. mt_sourceRank m)) key;
          key = wildcard_or (mt_destinationRank m = ANY_RANK) DESTINATION_WILDCARD
                  (wk_destinationRank_update (\<lambda>_. mt_destinationRank m)) key;
          key = wildcard_or (mt_flowId m = ANY_FLOW) FLOW_WILDCARD (wk_flowId_update (\<lambda>_. mt_flowId m)) key;
          key = wildcard_or (mt_stageId m = ANY_STAGE) STAGE_WILDCARD (wk_stageId_update (\<lambda>_. mt_stageId m)) key;
          key = wildcard_or (\<not> mt_matchPacketType m) PACKET_TYPE_WILDCARD
                  (wk_packetType_update (\<lambda>_. packet_type_code (mt_packetType m))) key
      in key)"

text \<open>The key \<open>NotifyEvent\<close> looks up for one combination of wildcards.\<close>

definition event_key :: "ProtocolTransactionEvent \<Rightarrow> u8 \<Rightarrow> WaitIndexKey" where
  "event_key ev wm =
     \<lparr>wk_eventType = event_type_code (ev_type ev),
      wk_sourceRank = (if wm AND SOURCE_WILDCARD \<noteq> 0 then 0 else ev_sourceRank ev),
      wk_destinationRank = (if wm AND DESTINATION_WILDCARD \<noteq> 0 then 0 else ev_destinationRank ev),
      wk_flowId = (if wm AND FLOW_WILDCARD \<noteq> 0 then 0 else ev_flowId ev),
      wk_stageId = (if wm AND STAGE_WILDCARD \<noteq> 0 then 0 else ev_stageId ev),
      wk_packetType = (if wm AND PACKET_TYPE_WILDCARD \<noteq> 0 then 0 else packet_type_code (ev_packetType ev)),
      wk_wildcardMask = wm\<rparr>"

definition RegisterWait :: "ProtocolTransactionExecutor \<Rightarrow> ProtocolTransactionNode \<Rightarrow> ProtocolTransactionExecutor" where
  "RegisterWait ex node =
     (let key = MakeWaitIndexKey (nd_matcher node);
          waiting = (case umap_find (m_waitIndex ex) key of None \<Rightarrow> [] | Some ids \<Rightarrow> ids)
      in ex\<lparr>m_waitIndex := umap_put key (waiting @ [nd_id node]) (m_waitIndex ex)\<rparr>)"

subsection \<open>Completion of a node\<close>

fun propagate_loop :: "ProtocolTransactionExecutor \<Rightarrow> nat list \<Rightarrow> ProtocolTransactionExecutor result" where
  "propagate_loop ex [] = Inr ex"
| "propagate_loop ex (s # ss) =
     (if rn_state (m_runtime ex ! s) \<noteq> PENDING \<or> queued (m_runtime ex ! s) then propagate_loop ex ss
      else and_then (GetNode (m_graph ex) s) (\<lambda>node.
        if nd_dependency node = DEP_ANY
        then propagate_loop ((upd_runtime s (\<lambda>r. r\<lparr>queued := True\<rparr>) ex)\<lparr>m_readyNodes := m_readyNodes ex @ [s]\<rparr>) ss
        else if \<not> remainingDependencies (m_runtime ex ! s) > 0 then Inl (NsAssert ''remainingDependencies > 0'')
        else let left = u32_dec (remainingDependencies (m_runtime ex ! s));
                 ex' = upd_runtime s (\<lambda>r. r\<lparr>remainingDependencies := left\<rparr>) ex
             in if left = 0
                then propagate_loop ((upd_runtime s (\<lambda>r. r\<lparr>queued := True\<rparr>) ex')\<lparr>m_readyNodes := m_readyNodes ex @ [s]\<rparr>) ss
                else propagate_loop ex' ss))"

definition PropagateCompletion :: "ProtocolTransactionExecutor \<Rightarrow> nat \<Rightarrow> ProtocolTransactionExecutor result" where
  "PropagateCompletion ex v = propagate_loop ex (m_successors ex ! v)"

definition MarkCompleted :: "ProtocolTransactionExecutor \<Rightarrow> nat \<Rightarrow> (ProtocolTransactionExecutor \<times> tx_event list) result" where
  "MarkCompleted ex v =
     (if rn_state (m_runtime ex ! v) = COMPLETED then Inr (ex, [])
      else let ex1 = upd_runtime v (\<lambda>r. r\<lparr>rn_state := COMPLETED\<rparr>) ex
           in and_then (PropagateCompletion ex1 v) (\<lambda>ex2.
                Inr (ex2, if m_nodeCompletionCallback ex then [NodeCompleted v] else [])))"

fun mark_all :: "ProtocolTransactionExecutor \<Rightarrow> nat list \<Rightarrow> (ProtocolTransactionExecutor \<times> tx_event list) result" where
  "mark_all ex [] = Inr (ex, [])"
| "mark_all ex (v # vs) =
     and_then (MarkCompleted ex v) (\<lambda>(ex1, evs1).
       and_then (mark_all ex1 vs) (\<lambda>(ex2, evs2). Inr (ex2, evs1 @ evs2)))"

subsection \<open>Events\<close>

definition observe ::
  "ProtocolTransactionEvent \<Rightarrow> nat \<Rightarrow> ProtocolTransactionExecutor \<times> nat list \<Rightarrow> (ProtocolTransactionExecutor \<times> nat list) result" where
  "observe ev v st =
     (case st of (ex, completed) \<Rightarrow>
        and_then (GetNode (m_graph ex) v) (\<lambda>node.
          let rt = m_runtime ex ! v
          in if rn_state rt \<noteq> ACTIVE \<or> \<not> Matches (nd_matcher node) ev then Inr (ex, completed)
             else let bytes = (if 18446744073709551615 - observedBytes rt < ev_bytes ev then 18446744073709551615
                               else observedBytes rt + ev_bytes ev);
                      events = observedEvents rt + 1;
                      bytesSatisfied = (nd_targetBytes node = 0 \<or> bytes \<ge> nd_targetBytes node);
                      eventsSatisfied = (nd_targetEvents node = 0 \<or> events \<ge> nd_targetEvents node);
                      ex' = upd_runtime v (\<lambda>r. r\<lparr>observedBytes := bytes, observedEvents := events\<rparr>) ex
                  in Inr (ex', if bytesSatisfied \<and> eventsSatisfied then completed @ [v] else completed)))"

fun observe_all ::
  "ProtocolTransactionEvent \<Rightarrow> nat list \<Rightarrow> ProtocolTransactionExecutor \<times> nat list \<Rightarrow>
     (ProtocolTransactionExecutor \<times> nat list) result" where
  "observe_all ev [] st = Inr st"
| "observe_all ev (v # vs) st = and_then (observe ev v st) (observe_all ev vs)"

fun mask_loop ::
  "ProtocolTransactionEvent \<Rightarrow> u8 list \<Rightarrow> ProtocolTransactionExecutor \<times> nat list \<Rightarrow>
     (ProtocolTransactionExecutor \<times> nat list) result" where
  "mask_loop ev [] st = Inr st"
| "mask_loop ev (wm # wms) st =
     (case umap_find (m_waitIndex (fst st)) (event_key ev wm) of
        None \<Rightarrow> mask_loop ev wms st
      | Some ids \<Rightarrow> and_then (observe_all ev ids st) (mask_loop ev wms))"

definition wildcard_masks :: "u8 list" where
  "wildcard_masks = map of_nat [0..<32]"

text \<open>The body of \<open>NotifyEvent\<close> up to the call of \<open>Advance\<close>; the flag says whether it is called.\<close>

definition notify_body ::
  "ProtocolTransactionExecutor \<Rightarrow> ProtocolTransactionEvent \<Rightarrow> (ProtocolTransactionExecutor \<times> tx_event list \<times> bool) result" where
  "notify_body ex ev =
     (if \<not> m_started ex \<or> m_complete ex then Inr (ex, [], False)
      else and_then (mask_loop ev wildcard_masks (ex, [])) (\<lambda>(ex1, completed).
             and_then (mark_all ex1 completed) (\<lambda>(ex2, evs). Inr (ex2, evs, completed \<noteq> []))))"

text \<open>\<open>NotifyEvent\<close> called from an action callback: \<open>m_advancing\<close> is set.\<close>

fun notify_nested ::
  "ProtocolTransactionExecutor \<Rightarrow> ProtocolTransactionEvent list \<Rightarrow> (ProtocolTransactionExecutor \<times> tx_event list) result" where
  "notify_nested ex [] = Inr (ex, [])"
| "notify_nested ex (ev # evs) =
     and_then (notify_body ex ev) (\<lambda>(ex1, out1, advance).
       let ex1 = (if advance then ex1\<lparr>m_advanceRequested := True\<rparr> else ex1)
       in and_then (notify_nested ex1 evs) (\<lambda>(ex2, out2). Inr (ex2, out1 @ out2)))"

subsection \<open>Advance\<close>

fun drain ::
  "nat \<Rightarrow> Time \<Rightarrow> ProtocolTransactionExecutor \<Rightarrow>
     (ProtocolTransactionExecutor \<times> tx_event list \<times> ProtocolTransactionAction list) result" where
  "drain 0 now ex = Inl Diverges"
| "drain (Suc fuel) now ex =
     (case m_readyNodes ex of
        [] \<Rightarrow> Inr (ex, [], [])
      | v # rest \<Rightarrow>
          let ex = (upd_runtime v (\<lambda>r. r\<lparr>queued := False\<rparr>) ex)\<lparr>m_readyNodes := rest\<rparr>
          in if rn_state (m_runtime ex ! v) \<noteq> PENDING then drain fuel now ex
             else and_then (GetNode (m_graph ex) v) (\<lambda>node.
               case nd_type node of
                 ACTION \<Rightarrow>
                   and_then (MarkCompleted ex v) (\<lambda>(ex1, evs1).
                     and_then (drain fuel now ex1) (\<lambda>(ex2, evs2, acts).
                       Inr (ex2, evs1 @ evs2, nd_action node # acts)))
               | WAIT \<Rightarrow>
                   drain fuel now (RegisterWait (upd_runtime v (\<lambda>r. r\<lparr>rn_state := ACTIVE\<rparr>) ex) node)
               | DELAY \<Rightarrow>
                   drain fuel now (upd_runtime v (\<lambda>r. if nd_delay node < Time_Max - now
                       then r\<lparr>rn_state := ACTIVE, delayEvent := Some (i64_wrap (nd_delay node + now))\<rparr>
                       else r\<lparr>rn_state := ACTIVE\<rparr>) ex)
               | COMPLETE \<Rightarrow>
                   and_then (MarkCompleted ex v) (\<lambda>(ex1, evs1).
                     and_then (drain fuel now (ex1\<lparr>m_complete := True\<rparr>)) (\<lambda>(ex2, evs2, acts).
                       Inr (ex2, evs1 @ evs2, acts)))))"

fun run_actions ::
  "(ProtocolTransactionAction \<Rightarrow> ProtocolTransactionEvent list) \<Rightarrow> ProtocolTransactionExecutor \<Rightarrow>
     ProtocolTransactionAction list \<Rightarrow> (ProtocolTransactionExecutor \<times> tx_event list) result" where
  "run_actions react ex [] = Inr (ex, [])"
| "run_actions react ex (a # acts) =
     (if m_actionCallback ex then
        and_then (notify_nested ex (react a)) (\<lambda>(ex1, evs1).
          and_then (run_actions react ex1 acts) (\<lambda>(ex2, evs2). Inr (ex2, ActionOut a # evs1 @ evs2)))
      else run_actions react ex acts)"

fun rounds ::
  "nat \<Rightarrow> (ProtocolTransactionAction \<Rightarrow> ProtocolTransactionEvent list) \<Rightarrow> Time \<Rightarrow> ProtocolTransactionExecutor \<Rightarrow>
     (ProtocolTransactionExecutor \<times> tx_event list) result" where
  "rounds 0 react now ex = Inl Diverges"
| "rounds (Suc fuel) react now ex =
     (let ex0 = ex\<lparr>m_advanceRequested := False\<rparr> in
      and_then (drain (Suc (length (m_runtime ex0))) now ex0) (\<lambda>(ex1, evs1, acts).
        and_then (run_actions react ex1 acts) (\<lambda>(ex2, evs2).
          if m_advanceRequested ex2
          then and_then (rounds fuel react now ex2) (\<lambda>(ex3, evs3). Inr (ex3, evs1 @ evs2 @ evs3))
          else Inr (ex2, evs1 @ evs2))))"

definition MaybeNotifyCompletion :: "ProtocolTransactionExecutor \<Rightarrow> ProtocolTransactionExecutor \<times> tx_event list" where
  "MaybeNotifyCompletion ex =
     (if m_complete ex \<and> \<not> m_completionNotified ex
      then (ex\<lparr>m_completionNotified := True\<rparr>, if m_completionCallback ex then [TransactionComplete] else [])
      else (ex, []))"

definition Advance ::
  "(ProtocolTransactionAction \<Rightarrow> ProtocolTransactionEvent list) \<Rightarrow> Time \<Rightarrow> ProtocolTransactionExecutor \<Rightarrow>
     (ProtocolTransactionExecutor \<times> tx_event list) result" where
  "Advance react now ex =
     (if m_advancing ex then Inr (ex\<lparr>m_advanceRequested := True\<rparr>, [])
      else and_then (rounds (Suc (length (m_runtime ex))) react now (ex\<lparr>m_advancing := True\<rparr>)) (\<lambda>(ex1, evs1).
        let (ex2, evs2) = MaybeNotifyCompletion (ex1\<lparr>m_advancing := False\<rparr>)
        in Inr (ex2, evs1 @ evs2)))"

definition Start ::
  "(ProtocolTransactionAction \<Rightarrow> ProtocolTransactionEvent list) \<Rightarrow> Time \<Rightarrow> ProtocolTransactionExecutor \<Rightarrow>
     (ProtocolTransactionExecutor \<times> tx_event list) result" where
  "Start react now ex =
     ns_assert (m_graphSet ex) ''SetGraph must be called before starting a transaction''
       (ns_assert (\<not> m_started ex) ''Protocol transaction already started''
         (let roots = map nd_id (filter (\<lambda>node. nd_dependencies node = []) (m_graph ex));
              ex' = ex\<lparr>m_started := True,
                       m_runtime := foldl (\<lambda>rt v. rt[v := (rt ! v)\<lparr>queued := True\<rparr>]) (m_runtime ex) roots,
                       m_readyNodes := m_readyNodes ex @ roots\<rparr>
          in Advance react now ex'))"

definition NotifyEvent ::
  "(ProtocolTransactionAction \<Rightarrow> ProtocolTransactionEvent list) \<Rightarrow> Time \<Rightarrow> ProtocolTransactionExecutor \<Rightarrow>
     ProtocolTransactionEvent \<Rightarrow> (ProtocolTransactionExecutor \<times> tx_event list) result" where
  "NotifyEvent react now ex ev =
     and_then (notify_body ex ev) (\<lambda>(ex1, evs1, advance).
       if advance then and_then (Advance react now ex1) (\<lambda>(ex2, evs2). Inr (ex2, evs1 @ evs2))
       else Inr (ex1, evs1))"

definition OnDelayExpired ::
  "(ProtocolTransactionAction \<Rightarrow> ProtocolTransactionEvent list) \<Rightarrow> Time \<Rightarrow> ProtocolTransactionExecutor \<Rightarrow> nat \<Rightarrow>
     (ProtocolTransactionExecutor \<times> tx_event list) result" where
  "OnDelayExpired react now ex v =
     (if \<not> m_started ex \<or> m_complete ex \<or> v \<ge> length (m_runtime ex) then Inr (ex, [])
      else if rn_state (m_runtime ex ! v) \<noteq> ACTIVE then Inr (ex, [])
      else and_then (MarkCompleted ex v) (\<lambda>(ex1, evs1).
             and_then (Advance react now ex1) (\<lambda>(ex2, evs2). Inr (ex2, evs1 @ evs2))))"

subsection \<open>The wait index finds what a scan would find\<close>

lemmas wildcard_defs = SOURCE_WILDCARD_def DESTINATION_WILDCARD_def FLOW_WILDCARD_def
  STAGE_WILDCARD_def PACKET_TYPE_WILDCARD_def

lemma event_type_code_inj [simp]: "event_type_code a = event_type_code b \<longleftrightarrow> a = b"
  by (cases a; cases b) simp_all

text \<open>The mask of a matcher, bit by bit.\<close>

definition matcher_mask :: "ProtocolTransactionEventMatcher \<Rightarrow> u8" where
  "matcher_mask m = wk_wildcardMask (MakeWaitIndexKey m)"

definition five_flags :: "bool \<Rightarrow> bool \<Rightarrow> bool \<Rightarrow> bool \<Rightarrow> bool \<Rightarrow> u8" where
  "five_flags a b c d e =
     (if a then 1 else 0) + (if b then 2 else 0) + (if c then 4 else 0) + (if d then 8 else 0) + (if e then 16 else 0)"

lemma five_flags_bits:
  "(five_flags a b c d e AND SOURCE_WILDCARD \<noteq> 0) = a"
  "(five_flags a b c d e AND DESTINATION_WILDCARD \<noteq> 0) = b"
  "(five_flags a b c d e AND FLOW_WILDCARD \<noteq> 0) = c"
  "(five_flags a b c d e AND STAGE_WILDCARD \<noteq> 0) = d"
  "(five_flags a b c d e AND PACKET_TYPE_WILDCARD \<noteq> 0) = e"
  "unat (five_flags a b c d e) < 32"
  by (cases a; cases b; cases c; cases d; cases e; simp add: five_flags_def wildcard_defs)+

lemma wildcard_or_fields:
  "wk_wildcardMask (wildcard_or a b f key) = (if a then wk_wildcardMask key OR b else wk_wildcardMask (f key))"
  "wk_eventType (wildcard_or a b f key) = (if a then wk_eventType key else wk_eventType (f key))"
  "wk_sourceRank (wildcard_or a b f key) = (if a then wk_sourceRank key else wk_sourceRank (f key))"
  "wk_destinationRank (wildcard_or a b f key) = (if a then wk_destinationRank key else wk_destinationRank (f key))"
  "wk_flowId (wildcard_or a b f key) = (if a then wk_flowId key else wk_flowId (f key))"
  "wk_stageId (wildcard_or a b f key) = (if a then wk_stageId key else wk_stageId (f key))"
  "wk_packetType (wildcard_or a b f key) = (if a then wk_packetType key else wk_packetType (f key))"
  by (simp_all add: wildcard_or_def)

lemma matcher_mask_flags:
  "matcher_mask m = five_flags (mt_sourceRank m = ANY_RANK) (mt_destinationRank m = ANY_RANK)
     (mt_flowId m = ANY_FLOW) (mt_stageId m = ANY_STAGE) (\<not> mt_matchPacketType m)"
proof -
  have "matcher_mask m =
     ((((0 OR (if mt_sourceRank m = ANY_RANK then SOURCE_WILDCARD else 0))
        OR (if mt_destinationRank m = ANY_RANK then DESTINATION_WILDCARD else 0))
        OR (if mt_flowId m = ANY_FLOW then FLOW_WILDCARD else 0))
        OR (if mt_stageId m = ANY_STAGE then STAGE_WILDCARD else 0))
        OR (if \<not> mt_matchPacketType m then PACKET_TYPE_WILDCARD else 0)"
    by (simp add: matcher_mask_def MakeWaitIndexKey_def wildcard_or_fields)
  then show ?thesis unfolding five_flags_def wildcard_defs
    by (cases "mt_sourceRank m = ANY_RANK"; cases "mt_destinationRank m = ANY_RANK"; cases "mt_flowId m = ANY_FLOW";
        cases "mt_stageId m = ANY_STAGE"; cases "mt_matchPacketType m"; simp)
qed

lemma matcher_mask_bits:
  "(matcher_mask m AND SOURCE_WILDCARD \<noteq> 0) = (mt_sourceRank m = ANY_RANK)"
  "(matcher_mask m AND DESTINATION_WILDCARD \<noteq> 0) = (mt_destinationRank m = ANY_RANK)"
  "(matcher_mask m AND FLOW_WILDCARD \<noteq> 0) = (mt_flowId m = ANY_FLOW)"
  "(matcher_mask m AND STAGE_WILDCARD \<noteq> 0) = (mt_stageId m = ANY_STAGE)"
  "(matcher_mask m AND PACKET_TYPE_WILDCARD \<noteq> 0) = (\<not> mt_matchPacketType m)"
  "unat (matcher_mask m) < 32"
  by (simp_all only: matcher_mask_flags five_flags_bits)

lemma MakeWaitIndexKey_fields:
  "wk_eventType (MakeWaitIndexKey m) = event_type_code (mt_type m)"
  "wk_sourceRank (MakeWaitIndexKey m) = (if mt_sourceRank m = ANY_RANK then 0 else mt_sourceRank m)"
  "wk_destinationRank (MakeWaitIndexKey m) = (if mt_destinationRank m = ANY_RANK then 0 else mt_destinationRank m)"
  "wk_flowId (MakeWaitIndexKey m) = (if mt_flowId m = ANY_FLOW then 0 else mt_flowId m)"
  "wk_stageId (MakeWaitIndexKey m) = (if mt_stageId m = ANY_STAGE then 0 else mt_stageId m)"
  "wk_packetType (MakeWaitIndexKey m) = (if mt_matchPacketType m then packet_type_code (mt_packetType m) else 0)"
  "wk_wildcardMask (MakeWaitIndexKey m) = matcher_mask m"
  by (simp_all add: matcher_mask_def MakeWaitIndexKey_def wildcard_or_fields)

lemma WaitIndexKey_eq_iff:
  "(k :: WaitIndexKey) = k' \<longleftrightarrow> wk_eventType k = wk_eventType k' \<and> wk_sourceRank k = wk_sourceRank k'
     \<and> wk_destinationRank k = wk_destinationRank k' \<and> wk_flowId k = wk_flowId k' \<and> wk_stageId k = wk_stageId k'
     \<and> wk_packetType k = wk_packetType k' \<and> wk_wildcardMask k = wk_wildcardMask k'"
  by (cases k; cases k') auto

lemma event_key_of_matcher:
  "event_key ev (matcher_mask m) = MakeWaitIndexKey m \<longleftrightarrow> Matches m ev"
proof -
  have field: "((if w then z else x) = (if w then z else y)) \<longleftrightarrow> \<not> (\<not> w \<and> y \<noteq> x)" for w and x y z :: 'z by auto
  have code: "((if \<not> w then z else x) = (if w then y else z)) \<longleftrightarrow> \<not> w \<or> y = x" for w and x y z :: 'z by auto
  have early: "(if p then False else q) \<longleftrightarrow> \<not> p \<and> q" for p q by simp
  show ?thesis
    unfolding WaitIndexKey_eq_iff MakeWaitIndexKey_fields event_key_def WaitIndexKey.select_convs
      matcher_mask_bits field code event_type_code_inj Matches_def
    by (simp only: early eq_commute [of "ev_type ev"] simp_thms)
qed

lemma event_key_mask: "event_key ev wm = MakeWaitIndexKey m \<Longrightarrow> wm = matcher_mask m"
  by (simp add: WaitIndexKey_eq_iff MakeWaitIndexKey_fields event_key_def)

lemma event_key_iff: "event_key ev wm = MakeWaitIndexKey m \<longleftrightarrow> wm = matcher_mask m \<and> Matches m ev"
  using event_key_mask event_key_of_matcher by metis

subsection \<open>The scheduling invariant\<close>

abbreviation node_state :: "RuntimeNode list \<Rightarrow> nat \<Rightarrow> ProtocolTransactionNodeState" where
  "node_state rt v \<equiv> rn_state (rt ! v)"

definition completed_set :: "RuntimeNode list \<Rightarrow> nat set" where
  "completed_set rt = {v. v < length rt \<and> node_state rt v = COMPLETED}"

text \<open>The nodes in \<open>D\<close> are enough for \<open>v\<close> to start.\<close>

definition enabled_by :: "ProtocolTransactionGraph \<Rightarrow> nat set \<Rightarrow> nat \<Rightarrow> bool" where
  "enabled_by g D v =
     (if nd_dependency (g ! v) = DEP_ANY then deps_of g v = [] \<or> set (deps_of g v) \<inter> D \<noteq> {}
      else set (deps_of g v) \<subseteq> D)"

definition outstanding :: "ProtocolTransactionGraph \<Rightarrow> nat set \<Rightarrow> nat \<Rightarrow> nat" where
  "outstanding g D v = length (filter (\<lambda>d. d \<notin> D) (deps_of g v))"

definition links_ok :: "ProtocolTransactionGraph \<Rightarrow> nat list list \<Rightarrow> bool" where
  "links_ok g succs =
     (length succs = length g
      \<and> (\<forall>u < length g. \<forall>v. count_list (succs ! u) v = (if v < length g then count_list (deps_of g v) u else 0)))"

text \<open>
  A node that waits for its dependencies: \<open>pend\<close> are the successors of the node that just
  completed which propagation has not reached yet.
\<close>

definition waiting_ok ::
  "ProtocolTransactionGraph \<Rightarrow> RuntimeNode list \<Rightarrow> nat list \<Rightarrow> nat \<Rightarrow> bool" where
  "waiting_ok g rt pend v =
     (if nd_dependency (g ! v) = DEP_ANY
      then deps_of g v \<noteq> [] \<and> (set (deps_of g v) \<inter> completed_set rt \<noteq> {} \<longrightarrow> v \<in> set pend)
      else remainingDependencies (rt ! v) = outstanding g (completed_set rt) v + count_list pend v
           \<and> 0 < remainingDependencies (rt ! v) \<and> remainingDependencies (rt ! v) \<le> length (deps_of g v))"

definition node_ok :: "ProtocolTransactionGraph \<Rightarrow> RuntimeNode list \<Rightarrow> nat list \<Rightarrow> nat \<Rightarrow> bool" where
  "node_ok g rt pend v =
     ((queued (rt ! v) \<longrightarrow> node_state rt v = PENDING)
      \<and> (if node_state rt v = PENDING \<and> \<not> queued (rt ! v) then waiting_ok g rt pend v
         else enabled_by g (completed_set rt) v)
      \<and> (node_state rt v = ACTIVE \<longrightarrow> nd_type (g ! v) \<in> {WAIT, DELAY}))"

definition core ::
  "ProtocolTransactionGraph \<Rightarrow> nat list list \<Rightarrow> RuntimeNode list \<Rightarrow> nat list \<Rightarrow> nat list \<Rightarrow> bool" where
  "core g succs rt ready pend =
     (valid_graph g \<and> well_numbered g \<and> length rt = length g \<and> links_ok g succs
      \<and> distinct ready \<and> set ready = {v. v < length g \<and> queued (rt ! v)}
      \<and> (\<forall>v \<in> set pend. v < length g \<and> set (deps_of g v) \<inter> completed_set rt \<noteq> {})
      \<and> (\<forall>v < length g. node_ok g rt pend v))"

lemma enabled_by_mono: "enabled_by g D v \<Longrightarrow> D \<subseteq> E \<Longrightarrow> enabled_by g E v"
  by (auto simp: enabled_by_def split: if_splits)

lemma outstanding_zero: "outstanding g D v = 0 \<longleftrightarrow> set (deps_of g v) \<subseteq> D"
  by (auto simp: outstanding_def filter_empty_conv)

lemma length_filter_insert:
  "u \<notin> D \<Longrightarrow> length (filter (\<lambda>d. d \<notin> D) xs) = length (filter (\<lambda>d. d \<notin> insert u D) xs) + count_list xs u"
  by (induction xs) auto

lemma outstanding_insert:
  "u \<notin> D \<Longrightarrow> outstanding g D v = outstanding g (insert u D) v + count_list (deps_of g v) u"
  by (simp only: outstanding_def length_filter_insert)

lemma completed_set_update_same:
  "rn_state r = node_state rt s \<Longrightarrow> completed_set (rt[s := r]) = completed_set rt"
  by (cases "s < length rt") (auto simp: completed_set_def nth_list_update)

lemma completed_set_update:
  "s < length rt \<Longrightarrow> completed_set (rt[s := r]) =
     (if rn_state r = COMPLETED then insert s (completed_set rt) else completed_set rt - {s})"
  by (auto simp: completed_set_def nth_list_update)

lemma completed_set_less: "v \<in> completed_set rt \<Longrightarrow> v < length rt"
  by (simp add: completed_set_def)

subsection \<open>Propagation\<close>

lemma node_ok_other:
  assumes "v \<noteq> s" "rn_state r = node_state rt s"
  shows "node_ok g (rt[s := r]) ss v = node_ok g rt (s # ss) v"
  using assms by (simp add: node_ok_def waiting_ok_def completed_set_update_same)

lemma core_step:
  assumes core: "core g succs rt ready (s # ss)" and st: "rn_state r = node_state rt s"
    and new: "node_ok g (rt[s := r]) ss s"
    and q: "ready' = (if queued r \<and> \<not> queued (rt ! s) then ready @ [s] else ready)"
      "queued (rt ! s) \<Longrightarrow> queued r"
  shows "core g succs (rt[s := r]) ready' ss"
proof -
  have s: "s < length rt" using core by (simp add: core_def)
  have "node_ok g (rt[s := r]) ss v" if "v < length g" for v
    using new node_ok_other [of v s, OF _ st] core that by (cases "v = s") (simp_all add: core_def)
  moreover have "distinct ready' \<and> set ready' = {v. v < length g \<and> queued (rt[s := r] ! v)}"
    using core s q by (auto simp: core_def nth_list_update)
  ultimately show ?thesis using core by (simp add: core_def completed_set_update_same st)
qed

lemma core_skip:
  assumes core: "core g succs rt ready (s # ss)" and skip: "node_state rt s \<noteq> PENDING \<or> queued (rt ! s)"
  shows "core g succs rt ready ss"
proof -
  have "node_ok g rt (s # ss) s" using core by (simp add: core_def)
  with skip have "node_ok g (rt[s := rt ! s]) ss s" by (auto simp: node_ok_def)
  from core_step [OF core refl this, of ready] show ?thesis by simp
qed

lemma core_queue:
  assumes core: "core g succs rt ready (s # ss)" and st: "node_state rt s = PENDING" "\<not> queued (rt ! s)"
    and en: "enabled_by g (completed_set rt) s" and r: "rn_state r = PENDING" "queued r"
  shows "core g succs (rt[s := r]) (ready @ [s]) ss"
proof -
  have "s < length rt" using core by (simp add: core_def)
  then have "node_ok g (rt[s := r]) ss s"
    using en r st(1) by (simp add: node_ok_def completed_set_update_same)
  from core_step [OF core _ this] r st show ?thesis by simp
qed

definition work_of :: "RuntimeNode \<Rightarrow> ProtocolTransactionNodeState \<times> u64 \<times> u32 \<times> Time option" where
  "work_of r = (rn_state r, observedBytes r, observedEvents r, delayEvent r)"

lemma work_of_simps [simp]:
  "work_of (r\<lparr>remainingDependencies := k\<rparr>) = work_of r" "work_of (r\<lparr>queued := b\<rparr>) = work_of r"
  by (simp_all add: work_of_def)

lemma work_of_update:
  "work_of r = work_of (rt ! s) \<Longrightarrow> map work_of (rt[s := r]) = map work_of rt"
  by (cases "s < length rt") (auto simp: list_eq_iff_nth_eq nth_list_update map_update)

lemma propagate_loop_core:
  assumes "core (m_graph ex) (m_successors ex) (m_runtime ex) (m_readyNodes ex) ss"
  shows "\<exists>rt ready. propagate_loop ex ss = Inr (ex\<lparr>m_runtime := rt, m_readyNodes := ready\<rparr>)
    \<and> core (m_graph ex) (m_successors ex) rt ready [] \<and> map work_of rt = map work_of (m_runtime ex)"
  using assms
proof (induction ss arbitrary: ex)
  case Nil
  then show ?case by (intro exI [of _ "m_runtime ex"] exI [of _ "m_readyNodes ex"]) simp
next
  case (Cons s ss)
  let ?g = "m_graph ex" and ?rt = "m_runtime ex" and ?D = "completed_set (m_runtime ex)"
  have s: "s < length ?g" "length ?rt = length ?g" "well_numbered ?g" and ok: "node_ok ?g ?rt (s # ss) s"
    and hit: "set (deps_of ?g s) \<inter> ?D \<noteq> {}"
    using Cons.prems by (simp_all add: core_def)
  have queue: ?case
    if st: "node_state ?rt s = PENDING" "\<not> queued (?rt ! s)" and en: "enabled_by ?g ?D s"
      and r: "work_of r = work_of (?rt ! s)" "queued r"
      and eq: "propagate_loop ex (s # ss) = propagate_loop (ex\<lparr>m_runtime := ?rt[s := r], m_readyNodes := m_readyNodes ex @ [s]\<rparr>) ss"
    for r
  proof -
    have "rn_state r = PENDING" using r st by (simp add: work_of_def)
    from Cons.IH [of "ex\<lparr>m_runtime := ?rt[s := r], m_readyNodes := m_readyNodes ex @ [s]\<rparr>"]
      core_queue [OF Cons.prems st en this r(2)] show ?thesis by (auto simp: eq work_of_update r simp del: propagate_loop.simps)
  qed
  show ?case
  proof (cases "node_state ?rt s \<noteq> PENDING \<or> queued (?rt ! s)")
    case True
    from Cons.IH [OF core_skip [OF Cons.prems True]] True show ?thesis by auto
  next
    case st: False
    show ?thesis
    proof (cases "nd_dependency (?g ! s) = DEP_ANY")
      case True
      then have "enabled_by ?g ?D s" using hit by (simp add: enabled_by_def)
      then show ?thesis using st s True
        by (intro queue [of "(?rt ! s)\<lparr>queued := True\<rparr>"]) (auto simp: GetNode_def ns_assert_def)
    next
      case all: False
      let ?rem = "remainingDependencies (?rt ! s)"
      have rem: "?rem = outstanding ?g ?D s + Suc (count_list ss s)" "?rem \<le> length (deps_of ?g s)"
        using ok st all by (auto simp: node_ok_def waiting_ok_def)
      have "length (deps_of ?g s) < 2 ^ 32" using s by (simp add: well_numbered_def)
      with rem have dec: "u32_dec ?rem = ?rem - 1" by (intro u32_dec_pos) simp_all
      show ?thesis
      proof (cases "?rem = 1")
        case True
        then have "enabled_by ?g ?D s" using rem all outstanding_zero [of ?g ?D s] by (simp add: enabled_by_def)
        then show ?thesis using st s all True dec rem
          by (intro queue [of "(?rt ! s)\<lparr>remainingDependencies := 0, queued := True\<rparr>"])
            (auto simp: GetNode_def ns_assert_def)
      next
        case False
        let ?r = "(?rt ! s)\<lparr>remainingDependencies := ?rem - 1\<rparr>"
        have "node_ok ?g (?rt[s := ?r]) ss s"
          using ok st all False rem s by (auto simp: node_ok_def waiting_ok_def completed_set_update_same)
        from core_step [OF Cons.prems _ this, of "m_readyNodes ex"] st
        have "core ?g (m_successors ex) (?rt[s := ?r]) (m_readyNodes ex) ss" by simp
        moreover have eq: "propagate_loop ex (s # ss) = propagate_loop (ex\<lparr>m_runtime := ?rt[s := ?r]\<rparr>) ss"
          using st s all False dec rem by (auto simp: GetNode_def ns_assert_def Let_def)
        ultimately show ?thesis using Cons.IH [of "ex\<lparr>m_runtime := ?rt[s := ?r]\<rparr>"]
          by (auto simp: eq work_of_update simp del: propagate_loop.simps)
      qed
    qed
  qed
qed

subsection \<open>A node leaves the queue or stops being active\<close>

lemma core_leave:
  assumes core: "core g succs rt ready []" and v: "v < length g" "enabled_by g (completed_set rt) v"
    and open_: "node_state rt v \<noteq> COMPLETED"
    and r: "rn_state r \<noteq> PENDING" "\<not> queued r" "rn_state r = ACTIVE \<longrightarrow> nd_type (g ! v) \<in> {WAIT, DELAY}"
  shows "core g succs (rt[v := r]) (filter (\<lambda>w. w \<noteq> v) ready) (if rn_state r = COMPLETED then succs ! v else [])"
proof -
  let ?D = "completed_set rt" and ?rt = "rt[v := r]"
  let ?pend = "if rn_state r = COMPLETED then succs ! v else []"
  have len: "length rt = length g" and links: "\<And>w. count_list (succs ! v) w = (if w < length g then count_list (deps_of g w) v else 0)"
    using core v by (auto simp: core_def links_ok_def)
  have vD: "v \<notin> ?D" using open_ by (simp add: completed_set_def)
  have D: "completed_set ?rt = (if rn_state r = COMPLETED then insert v ?D else ?D)"
    using v len vD by (simp add: completed_set_update)
  have other: "node_ok g ?rt ?pend w" if w: "w < length g" "w \<noteq> v" for w
  proof -
    have ok: "node_ok g rt [] w" using core w by (simp add: core_def)
    have mem: "v \<in> set (deps_of g w) \<Longrightarrow> w \<in> set (succs ! v)"
      using links [of w] w by (metis count_list_0_iff)
    have "waiting_ok g rt [] w \<Longrightarrow> waiting_ok g ?rt ?pend w"
      using w vD mem outstanding_insert [OF vD, of g w] by (auto simp: waiting_ok_def D links)
    moreover have "enabled_by g ?D w \<Longrightarrow> enabled_by g (completed_set ?rt) w"
      by (rule enabled_by_mono) (auto simp: D)
    ultimately show ?thesis using ok w by (simp add: node_ok_def split: if_splits)
  qed
  have "enabled_by g (completed_set ?rt) v" by (rule enabled_by_mono [OF v(2)]) (auto simp: D)
  then have self: "node_ok g ?rt ?pend v" using r v len by (simp add: node_ok_def)
  have pend: "w < length g \<and> set (deps_of g w) \<inter> completed_set ?rt \<noteq> {}" if "w \<in> set ?pend" for w
  proof -
    have "rn_state r = COMPLETED" "count_list (succs ! v) w \<noteq> 0"
      using that by (auto simp: count_list_0_iff split: if_splits)
    with links [of w] have "w < length g" "v \<in> set (deps_of g w)"
      by (metis count_list_0_iff)+
    with \<open>rn_state r = COMPLETED\<close> show ?thesis by (auto simp: D)
  qed
  have q: "set (filter (\<lambda>w. w \<noteq> v) ready) = {w. w < length g \<and> queued (?rt ! w)}" "distinct ready"
    using core r v len by (auto simp: core_def nth_list_update)
  have "\<forall>w < length g. node_ok g ?rt ?pend w" using other self by blast
  with pend q core show ?thesis by (simp add: core_def)
qed

lemma MarkCompleted_core:
  assumes "node_state (m_runtime ex) v \<noteq> COMPLETED"
    "core (m_graph ex) (m_successors ex) ((m_runtime ex)[v := (m_runtime ex ! v)\<lparr>rn_state := COMPLETED\<rparr>])
       (m_readyNodes ex) (m_successors ex ! v)"
  shows "\<exists>rt ready. MarkCompleted ex v = Inr (ex\<lparr>m_runtime := rt, m_readyNodes := ready\<rparr>,
             if m_nodeCompletionCallback ex then [NodeCompleted v] else [])
    \<and> core (m_graph ex) (m_successors ex) rt ready []
    \<and> map work_of rt = map work_of ((m_runtime ex)[v := (m_runtime ex ! v)\<lparr>rn_state := COMPLETED\<rparr>])"
  using propagate_loop_core [of "upd_runtime v (\<lambda>r. r\<lparr>rn_state := COMPLETED\<rparr>) ex" "m_successors ex ! v"] assms
  by (auto simp: MarkCompleted_def PropagateCompletion_def Let_def)

subsection \<open>The wait index invariant\<close>

definition index_nodes :: "(WaitIndexKey, nat list) umap \<Rightarrow> WaitIndexKey \<Rightarrow> nat list" where
  "index_nodes idx k = (case umap_find idx k of None \<Rightarrow> [] | Some ids \<Rightarrow> ids)"

definition wait_key :: "ProtocolTransactionGraph \<Rightarrow> nat \<Rightarrow> WaitIndexKey" where
  "wait_key g v = MakeWaitIndexKey (nd_matcher (g ! v))"

text \<open>Under every key the index lists the waits with that key that have been started.\<close>

definition index_ok :: "ProtocolTransactionGraph \<Rightarrow> RuntimeNode list \<Rightarrow> (WaitIndexKey, nat list) umap \<Rightarrow> bool" where
  "index_ok g rt idx =
     (\<forall>k. distinct (index_nodes idx k)
        \<and> set (index_nodes idx k) =
            {v. v < length g \<and> nd_type (g ! v) = WAIT \<and> node_state rt v \<noteq> PENDING \<and> wait_key g v = k})"

lemma index_ok_cong:
  "(\<And>v. v < length g \<Longrightarrow> nd_type (g ! v) = WAIT \<Longrightarrow> (node_state rt' v = PENDING) = (node_state rt v = PENDING)) \<Longrightarrow>
   index_ok g rt' idx = index_ok g rt idx"
  by (auto simp: index_ok_def)

lemma index_nodes_RegisterWait:
  "index_nodes (m_waitIndex (RegisterWait ex node)) k =
     index_nodes (m_waitIndex ex) k @ (if MakeWaitIndexKey (nd_matcher node) = k then [nd_id node] else [])"
  by (auto simp: index_nodes_def RegisterWait_def Let_def split: option.splits)

lemma RegisterWait_frame:
  "RegisterWait ex node = ex\<lparr>m_waitIndex := m_waitIndex (RegisterWait ex node)\<rparr>"
  by (simp add: RegisterWait_def Let_def)

lemma index_ok_register:
  assumes "index_ok g rt (m_waitIndex ex)" "v < length g" "length rt = length g" "nd_type (g ! v) = WAIT"
    "nd_id (g ! v) = v" "node_state rt v = PENDING" "rn_state r \<noteq> PENDING"
  shows "index_ok g (rt[v := r]) (m_waitIndex (RegisterWait ex (g ! v)))"
  using assms by (auto simp: index_ok_def index_nodes_RegisterWait wait_key_def nth_list_update split: if_splits)

subsection \<open>Observing an event\<close>

definition counted :: "ProtocolTransactionEvent \<Rightarrow> RuntimeNode \<Rightarrow> RuntimeNode" where
  "counted ev r = r\<lparr>observedBytes := (if 18446744073709551615 - observedBytes r < ev_bytes ev then 18446744073709551615
                                  else observedBytes r + ev_bytes ev),
                   observedEvents := observedEvents r + 1\<rparr>"

definition satisfied :: "ProtocolTransactionNode \<Rightarrow> RuntimeNode \<Rightarrow> bool" where
  "satisfied node r =
     ((nd_targetBytes node = 0 \<or> observedBytes r \<ge> nd_targetBytes node)
      \<and> (nd_targetEvents node = 0 \<or> observedEvents r \<ge> nd_targetEvents node))"

definition hit :: "ProtocolTransactionEvent \<Rightarrow> ProtocolTransactionGraph \<Rightarrow> RuntimeNode list \<Rightarrow> nat \<Rightarrow> bool" where
  "hit ev g rt v = (node_state rt v = ACTIVE \<and> Matches (nd_matcher (g ! v)) ev)"

definition count_at :: "ProtocolTransactionEvent \<Rightarrow> ProtocolTransactionGraph \<Rightarrow> nat set \<Rightarrow> RuntimeNode list \<Rightarrow> RuntimeNode list" where
  "count_at ev g V rt = map (\<lambda>v. if v \<in> V \<and> hit ev g rt v then counted ev (rt ! v) else rt ! v) [0..<length rt]"

text \<open>
  The reference: a scan over all nodes, without an index, that counts the event at every
  active wait it matches and lists the waits whose thresholds are then met.
\<close>

definition scan_hits :: "ProtocolTransactionEvent \<Rightarrow> ProtocolTransactionGraph \<Rightarrow> RuntimeNode list \<Rightarrow> nat set" where
  "scan_hits ev g rt = {v. v < length g \<and> nd_type (g ! v) = WAIT \<and> hit ev g rt v}"

definition scan_completed :: "ProtocolTransactionEvent \<Rightarrow> ProtocolTransactionGraph \<Rightarrow> RuntimeNode list \<Rightarrow> nat set" where
  "scan_completed ev g rt = {v \<in> scan_hits ev g rt. satisfied (g ! v) (counted ev (rt ! v))}"

lemma rn_state_counted [simp]: "rn_state (counted ev r) = rn_state r" "queued (counted ev r) = queued r"
    "remainingDependencies (counted ev r) = remainingDependencies r"
  by (simp_all add: counted_def)

lemma observe_eq:
  assumes "v < length (m_graph ex)"
  shows "observe ev v (ex, c) =
     (if hit ev (m_graph ex) (m_runtime ex) v
      then Inr (upd_runtime v (counted ev) ex,
                c @ filter (\<lambda>v. satisfied (m_graph ex ! v) (counted ev (m_runtime ex ! v))) [v])
      else Inr (ex, c))"
  using assms by (auto simp: observe_def GetNode_def ns_assert_def hit_def Let_def satisfied_def counted_def)

lemma count_at_insert:
  assumes "v < length rt" "v \<notin> V"
  shows "count_at ev g V (if hit ev g rt v then rt[v := counted ev (rt ! v)] else rt) = count_at ev g (insert v V) rt"
proof (rule nth_equalityI)
  let ?rt = "if hit ev g rt v then rt[v := counted ev (rt ! v)] else rt"
  fix i assume "i < length (count_at ev g V ?rt)"
  then have i: "i < length rt" "length ?rt = length rt" by (simp_all add: count_at_def split: if_splits)
  show "count_at ev g V ?rt ! i = count_at ev g (insert v V) rt ! i"
  proof (cases "i = v")
    case True
    with i assms show ?thesis by (simp add: count_at_def)
  next
    case False
    then have "?rt ! i = rt ! i" "hit ev g ?rt i = hit ev g rt i" by (simp_all add: hit_def)
    with False i show ?thesis by (simp add: count_at_def)
  qed
qed (simp add: count_at_def)

lemma count_at_empty [simp]: "count_at ev g {} rt = rt"
  by (simp add: count_at_def map_nth)

lemma observe_all_eq:
  assumes "distinct vs" "set vs \<subseteq> {..<length (m_graph ex)}" "length (m_runtime ex) = length (m_graph ex)"
  shows "observe_all ev vs (ex, c) =
     Inr (ex\<lparr>m_runtime := count_at ev (m_graph ex) (set vs) (m_runtime ex)\<rparr>,
          c @ filter (\<lambda>v. hit ev (m_graph ex) (m_runtime ex) v
                     \<and> satisfied (m_graph ex ! v) (counted ev (m_runtime ex ! v))) vs)"
  using assms
proof (induction vs arbitrary: ex c)
  case Nil
  then show ?case by simp
next
  case (Cons v vs)
  let ?g = "m_graph ex" and ?rt = "m_runtime ex"
  let ?ex = "if hit ev ?g ?rt v then upd_runtime v (counted ev) ex else ex"
  define rt' where "rt' = (if hit ev ?g ?rt v then ?rt[v := counted ev (?rt ! v)] else ?rt)"
  have v: "v < length ?g" "v \<notin> set vs" using Cons.prems by auto
  have ex: "m_graph ?ex = ?g" "m_runtime ?ex = rt'" "\<And>r. ?ex\<lparr>m_runtime := r\<rparr> = ex\<lparr>m_runtime := r\<rparr>" by (simp_all add: rt'_def)
  have len: "length rt' = length ?g" using Cons.prems by (simp add: rt'_def)
  have nth: "rt' ! x = ?rt ! x" if "x \<in> set vs" for x
  proof -
    have "x \<noteq> v" using v that by auto
    then show ?thesis by (simp add: rt'_def)
  qed
  have same: "filter (\<lambda>v. hit ev ?g rt' v \<and> satisfied (?g ! v) (counted ev (rt' ! v))) vs
      = filter (\<lambda>v. hit ev ?g ?rt v \<and> satisfied (?g ! v) (counted ev (?rt ! v))) vs"
    by (intro filter_cong refl) (simp add: hit_def nth)
  have "observe_all ev vs (?ex, c') = Inr (ex\<lparr>m_runtime := count_at ev ?g (set (v # vs)) ?rt\<rparr>,
      c' @ filter (\<lambda>v. hit ev ?g ?rt v \<and> satisfied (?g ! v) (counted ev (?rt ! v))) vs)" for c'
    using Cons.IH [of ?ex c'] Cons.prems v count_at_insert [of v ?rt "set vs" ev ?g, folded rt'_def]
    by (simp add: same ex len)
  then show ?case using v by (cases "hit ev ?g ?rt v") (simp_all add: observe_eq)
qed

definition mask_hits :: "ProtocolTransactionEvent \<Rightarrow> (WaitIndexKey, nat list) umap \<Rightarrow> u8 list \<Rightarrow> nat list" where
  "mask_hits ev idx wms = concat (map (\<lambda>wm. index_nodes idx (event_key ev wm)) wms)"

lemma observe_keeps_index: "observe ev v st = Inr st' \<Longrightarrow> m_waitIndex (fst st') = m_waitIndex (fst st)"
  by (auto simp: observe_def Let_def split: prod.splits if_splits)

lemma observe_all_keeps_index: "observe_all ev vs st = Inr st' \<Longrightarrow> m_waitIndex (fst st') = m_waitIndex (fst st)"
  by (induction vs arbitrary: st) (fastforce dest: observe_keeps_index)+

lemma observe_all_append:
  "observe_all ev (vs @ ws) st = and_then (observe_all ev vs st) (observe_all ev ws)"
proof (induction vs arbitrary: st)
  case (Cons v vs)
  then show ?case by (cases "observe ev v st") simp_all
qed simp

lemma mask_loop_eq: "mask_loop ev wms st = observe_all ev (mask_hits ev (m_waitIndex (fst st)) wms) st"
proof (induction wms arbitrary: st)
  case (Cons wm wms)
  show ?case
  proof (cases "umap_find (m_waitIndex (fst st)) (event_key ev wm)")
    case (Some ids)
    then show ?thesis
    proof (cases "observe_all ev ids st")
      case (Inr st')
      then show ?thesis using Some Cons observe_all_keeps_index [OF Inr]
        by (simp add: mask_hits_def index_nodes_def observe_all_append)
    qed (simp add: mask_hits_def index_nodes_def observe_all_append)
  qed (use Cons in \<open>simp add: mask_hits_def index_nodes_def\<close>)
qed (simp add: mask_hits_def)

lemma distinct_concat_map:
  "distinct xs \<Longrightarrow> (\<And>x. x \<in> set xs \<Longrightarrow> distinct (f x)) \<Longrightarrow>
   (\<And>x y. x \<in> set xs \<Longrightarrow> y \<in> set xs \<Longrightarrow> x \<noteq> y \<Longrightarrow> set (f x) \<inter> set (f y) = {}) \<Longrightarrow> distinct (concat (map f xs))"
proof (induction xs)
  case (Cons x xs)
  have "set (f x) \<inter> set (concat (map f xs)) = {}" 
    using Cons.prems(1) Cons.prems(3) [of x] by fastforce
  with Cons show ?case by simp
qed simp

lemma wildcard_masks_mem: "wm \<in> set wildcard_masks \<longleftrightarrow> unat wm < 32"
proof
  assume "unat wm < 32"
  moreover have "wm = of_nat (unat wm)" by simp
  ultimately show "wm \<in> set wildcard_masks" unfolding wildcard_masks_def by (metis atLeastLessThan_iff image_eqI list.set_map set_upt zero_le)
qed (auto simp: wildcard_masks_def unat_of_nat)

lemma wildcard_masks_distinct: "distinct wildcard_masks"
  by (simp add: wildcard_masks_def upt_rec)

lemma mask_hits_all:
  assumes "index_ok g rt idx"
  shows "distinct (mask_hits ev idx wildcard_masks)"
    and "set (mask_hits ev idx wildcard_masks) =
      {v. v < length g \<and> nd_type (g ! v) = WAIT \<and> node_state rt v \<noteq> PENDING \<and> Matches (nd_matcher (g ! v)) ev}"
proof -
  have nodes: "distinct (index_nodes idx k)" "set (index_nodes idx k) =
      {v. v < length g \<and> nd_type (g ! v) = WAIT \<and> node_state rt v \<noteq> PENDING \<and> wait_key g v = k}" for k
    using assms by (simp_all add: index_ok_def)
  have key: "event_key ev wm \<noteq> event_key ev wm'" if "wm \<noteq> wm'" for wm wm'
    using that by (simp add: event_key_def)
  show "distinct (mask_hits ev idx wildcard_masks)" unfolding mask_hits_def
    by (intro distinct_concat_map wildcard_masks_distinct nodes) (auto simp: nodes dest: key)
  show "set (mask_hits ev idx wildcard_masks) =
      {v. v < length g \<and> nd_type (g ! v) = WAIT \<and> node_state rt v \<noteq> PENDING \<and> Matches (nd_matcher (g ! v)) ev}"
    by (auto simp: mask_hits_def nodes wait_key_def eq_commute [of "MakeWaitIndexKey _"] event_key_iff
        wildcard_masks_mem matcher_mask_bits)
qed

text \<open>The body of the loop over the masks does what the scan does.\<close>

lemma mask_loop_scan:
  assumes "index_ok g (m_runtime ex) (m_waitIndex ex)" "m_graph ex = g" "length (m_runtime ex) = length g"
  shows "\<exists>completed. mask_loop ev wildcard_masks (ex, []) =
      Inr (ex\<lparr>m_runtime := count_at ev g (scan_hits ev g (m_runtime ex)) (m_runtime ex)\<rparr>, completed)
    \<and> distinct completed \<and> set completed = scan_completed ev g (m_runtime ex)"
proof -
  let ?rt = "m_runtime ex" and ?vs = "mask_hits ev (m_waitIndex ex) wildcard_masks"
  note hits = mask_hits_all [OF assms(1), of ev]
  have "count_at ev g (set ?vs) ?rt = count_at ev g (scan_hits ev g ?rt) ?rt"
    unfolding count_at_def hits(2) assms(3) by (intro map_cong refl if_cong) (auto simp: scan_hits_def hit_def)
  moreover have "set (filter (\<lambda>v. hit ev g ?rt v \<and> satisfied (g ! v) (counted ev (?rt ! v))) ?vs) = scan_completed ev g ?rt"
    unfolding set_filter hits(2) by (auto simp: scan_completed_def scan_hits_def hit_def)
  moreover have "set ?vs \<subseteq> {..<length g}" unfolding hits(2) by auto
  ultimately show ?thesis using hits(1) assms(2,3) by (auto simp: mask_loop_eq observe_all_eq)
qed

subsection \<open>The invariant of a running transaction\<close>

fun nodes_of :: "tx_event list \<Rightarrow> nat list" where
  "nodes_of [] = []"
| "nodes_of (NodeCompleted v # tr) = v # nodes_of tr"
| "nodes_of (_ # tr) = nodes_of tr"

fun actions_of :: "tx_event list \<Rightarrow> ProtocolTransactionAction list" where
  "actions_of [] = []"
| "actions_of (ActionOut a # tr) = a # actions_of tr"
| "actions_of (_ # tr) = actions_of tr"

lemma nodes_of_append [simp]: "nodes_of (xs @ ys) = nodes_of xs @ nodes_of ys"
  by (induction xs rule: nodes_of.induct) simp_all

lemma actions_of_append [simp]: "actions_of (xs @ ys) = actions_of xs @ actions_of ys"
  by (induction xs rule: actions_of.induct) simp_all

text \<open>Every node of a schedule is preceded by what enables it, and comes once.\<close>

definition schedule_ok :: "ProtocolTransactionGraph \<Rightarrow> nat list \<Rightarrow> bool" where
  "schedule_ok g seq = (distinct seq \<and> (\<forall>i < length seq. enabled_by g (set (take i seq)) (seq ! i)))"

lemma schedule_ok_snoc:
  "schedule_ok g (seq @ [v]) \<longleftrightarrow> schedule_ok g seq \<and> v \<notin> set seq \<and> enabled_by g (set seq) v"
  by (auto simp: schedule_ok_def nth_append less_Suc_eq)

definition action_log :: "ProtocolTransactionGraph \<Rightarrow> nat list \<Rightarrow> ProtocolTransactionAction list" where
  "action_log g seq = map (\<lambda>v. nd_action (g ! v)) (filter (\<lambda>v. nd_type (g ! v) = ACTION) seq)"

definition node_actions :: "ProtocolTransactionGraph \<Rightarrow> ProtocolTransactionAction set" where
  "node_actions g = (\<lambda>v. nd_action (g ! v)) ` {v. v < length g \<and> nd_type (g ! v) = ACTION}"

text \<open>
  What the trace \<open>tr\<close> says, depending on the callbacks that are set: the completed nodes in
  a legal order, the actions of the completed action nodes in the same order except for
  those in \<open>acts\<close> that are still to be sent, and one completion notice, once notified.
  Only actions of the graph are sent.
\<close>

definition logged :: "ProtocolTransactionExecutor \<Rightarrow> tx_event list \<Rightarrow> ProtocolTransactionAction list \<Rightarrow> bool" where
  "logged ex tr acts =
     ((m_nodeCompletionCallback ex \<longrightarrow>
         set (nodes_of tr) = completed_set (m_runtime ex) \<and> schedule_ok (m_graph ex) (nodes_of tr))
      \<and> (m_actionCallback ex \<and> m_nodeCompletionCallback ex \<longrightarrow> actions_of tr @ acts = action_log (m_graph ex) (nodes_of tr))
      \<and> (m_completionCallback ex \<longrightarrow> count_list tr TransactionComplete = (if m_completionNotified ex then 1 else 0))
      \<and> set (actions_of tr @ acts) \<subseteq> node_actions (m_graph ex))"

definition completion_reached :: "ProtocolTransactionGraph \<Rightarrow> nat set \<Rightarrow> bool" where
  "completion_reached g D = (\<exists>c \<in> D. nd_type (g ! c) = COMPLETE)"

definition tx_inv :: "ProtocolTransactionExecutor \<Rightarrow> tx_event list \<Rightarrow> ProtocolTransactionAction list \<Rightarrow> bool" where
  "tx_inv ex tr acts =
     (core (m_graph ex) (m_successors ex) (m_runtime ex) (m_readyNodes ex) []
      \<and> index_ok (m_graph ex) (m_runtime ex) (m_waitIndex ex) \<and> m_started ex
      \<and> m_complete ex = completion_reached (m_graph ex) (completed_set (m_runtime ex))
      \<and> (m_completionNotified ex \<longrightarrow> m_complete ex) \<and> logged ex tr acts)"

text \<open>What an operation leaves alone; nodes never become incomplete again.\<close>

definition evolves :: "ProtocolTransactionExecutor \<Rightarrow> ProtocolTransactionExecutor \<Rightarrow> bool" where
  "evolves ex ex' =
     (m_graph ex' = m_graph ex \<and> m_actionCallback ex' = m_actionCallback ex
      \<and> m_nodeCompletionCallback ex' = m_nodeCompletionCallback ex \<and> m_completionCallback ex' = m_completionCallback ex
      \<and> m_advancing ex' = m_advancing ex \<and> m_completionNotified ex' = m_completionNotified ex
      \<and> completed_set (m_runtime ex) \<subseteq> completed_set (m_runtime ex'))"

lemma evolves_refl [simp]: "evolves ex ex"
  by (simp add: evolves_def)

lemma evolves_trans [trans]: "evolves a b \<Longrightarrow> evolves b c \<Longrightarrow> evolves a c"
  by (auto simp: evolves_def)

lemma core_cong:
  assumes "length rt' = length rt"
    "\<And>v. v < length rt \<Longrightarrow> rn_state (rt' ! v) = rn_state (rt ! v) \<and> queued (rt' ! v) = queued (rt ! v)
       \<and> remainingDependencies (rt' ! v) = remainingDependencies (rt ! v)"
  shows "completed_set rt' = completed_set rt" and "core g succs rt' ready pend = core g succs rt ready pend"
proof -
  show D: "completed_set rt' = completed_set rt" using assms by (auto simp: completed_set_def)
  have "node_ok g rt' pend v = node_ok g rt pend v" if "v < length rt" for v
    using assms(2) [OF that] by (simp add: node_ok_def waiting_ok_def D)
  then show "core g succs rt' ready pend = core g succs rt ready pend"
    using assms by (auto simp: core_def D)
qed

lemma pop_eq:
  "core g succs rt (v # rest) [] \<Longrightarrow> filter (\<lambda>w. w \<noteq> v) (v # rest) = rest"
  by (auto simp: core_def filter_id_conv)

definition released :: "nat \<Rightarrow> ProtocolTransactionExecutor \<Rightarrow> ProtocolTransactionExecutor" where
  "released v ex = (upd_runtime v (\<lambda>r. r\<lparr>queued := False\<rparr>) ex)\<lparr>m_readyNodes := filter (\<lambda>w. w \<noteq> v) (m_readyNodes ex)\<rparr>"

definition node_events :: "ProtocolTransactionExecutor \<Rightarrow> nat \<Rightarrow> tx_event list" where
  "node_events ex v = (if m_nodeCompletionCallback ex then [NodeCompleted v] else [])"

lemma core_enabled:
  assumes "core g succs rt ready []" "v < length g" "queued (rt ! v) \<or> node_state rt v \<noteq> PENDING"
  shows "enabled_by g (completed_set rt) v"
proof -
  have "node_ok g rt [] v" using assms by (simp add: core_def)
  with assms(3) show ?thesis by (auto simp: node_ok_def)
qed

lemma complete_node:
  assumes inv: "tx_inv ex tr acts" and v: "v < length (m_graph ex)" "node_state (m_runtime ex) v \<noteq> COMPLETED"
    and started: "queued (m_runtime ex ! v) \<or> node_state (m_runtime ex) v = ACTIVE"
    and wait: "nd_type (m_graph ex ! v) = WAIT \<longrightarrow> node_state (m_runtime ex) v = ACTIVE"
  shows "\<exists>rt ready. MarkCompleted (released v ex) v = Inr (ex\<lparr>m_runtime := rt, m_readyNodes := ready\<rparr>, node_events ex v)
    \<and> tx_inv (ex\<lparr>m_runtime := rt, m_readyNodes := ready, m_complete := m_complete ex \<or> nd_type (m_graph ex ! v) = COMPLETE\<rparr>)
         (tr @ node_events ex v) (acts @ (if nd_type (m_graph ex ! v) = ACTION then [nd_action (m_graph ex ! v)] else []))
    \<and> completed_set rt = insert v (completed_set (m_runtime ex))
    \<and> (\<forall>w < length (m_graph ex). node_state rt w = (if w = v then COMPLETED else node_state (m_runtime ex) w))"
proof -
  let ?g = "m_graph ex" and ?rt = "m_runtime ex" and ?D = "completed_set (m_runtime ex)"
  let ?r = "(?rt ! v)\<lparr>queued := False, rn_state := COMPLETED\<rparr>"
  have core: "core ?g (m_successors ex) ?rt (m_readyNodes ex) []" using inv by (simp add: tx_inv_def)
  then have len: "length ?rt = length ?g" by (simp add: core_def)
  have en: "enabled_by ?g ?D v" using core_enabled [OF core v(1)] started by auto
  have "core ?g (m_successors ex) (?rt[v := ?r]) (filter (\<lambda>w. w \<noteq> v) (m_readyNodes ex)) (m_successors ex ! v)"
    using core_leave [OF core v(1) en v(2), of ?r] by simp
  with MarkCompleted_core [of "released v ex" v] v len
  obtain rt ready where mark: "MarkCompleted (released v ex) v
        = Inr (ex\<lparr>m_runtime := rt, m_readyNodes := ready\<rparr>, node_events ex v)"
      and core': "core ?g (m_successors ex) rt ready []"
      and work: "map work_of rt = map work_of (?rt[v := ?r])"
    by (auto simp: released_def node_events_def)
  have states: "map rn_state rt = map rn_state (?rt[v := ?r])"
    using arg_cong [OF work, of "map fst"] by (simp add: work_of_def comp_def)
  then have D: "completed_set rt = insert v ?D"
    using v len completed_set_update [of v ?rt ?r] by (auto simp: completed_set_def list_eq_iff_nth_eq)
  have vD: "v \<notin> ?D" using v by (simp add: completed_set_def)
  have st: "node_state rt w = (if w = v then COMPLETED else node_state ?rt w)" if "w < length ?g" for w
    using that states v len by (auto simp: list_eq_iff_nth_eq nth_list_update)
  have idx: "index_ok ?g rt (m_waitIndex ex)"
    using inv wait by (subst index_ok_cong [of ?g rt ?rt]) (auto simp: st tx_inv_def)
  have "logged (ex\<lparr>m_runtime := rt, m_readyNodes := ready\<rparr>) (tr @ node_events ex v)
      (acts @ (if nd_type (?g ! v) = ACTION then [nd_action (?g ! v)] else []))"
    using inv vD en v(1) by (auto simp: tx_inv_def logged_def node_events_def D schedule_ok_snoc action_log_def node_actions_def)
  then have inv': "tx_inv (ex\<lparr>m_runtime := rt, m_readyNodes := ready, m_complete := m_complete ex \<or> nd_type (?g ! v) = COMPLETE\<rparr>)
       (tr @ node_events ex v) (acts @ (if nd_type (?g ! v) = ACTION then [nd_action (?g ! v)] else []))"
    using inv core' idx by (auto simp: tx_inv_def D completion_reached_def logged_def)
  show ?thesis using mark D st inv' by (intro exI [of _ rt] exI [of _ ready]) simp
qed

subsection \<open>Draining the queue\<close>

definition pending_set :: "RuntimeNode list \<Rightarrow> nat set" where
  "pending_set rt = {v. v < length rt \<and> node_state rt v = PENDING}"

lemma finite_pending [simp]: "finite (pending_set rt)"
  by (simp add: pending_set_def)

lemma tx_inv_facts:
  assumes "tx_inv ex tr acts"
  shows "length (m_runtime ex) = length (m_graph ex)"
    and "v \<in> set (m_readyNodes ex) \<Longrightarrow> v < length (m_graph ex) \<and> queued (m_runtime ex ! v) \<and> node_state (m_runtime ex) v = PENDING"
    and "v < length (m_graph ex) \<Longrightarrow> nd_id (m_graph ex ! v) = v"
    and "v < length (m_graph ex) \<Longrightarrow> node_state (m_runtime ex) v = ACTIVE \<Longrightarrow>
      nd_type (m_graph ex ! v) \<in> {WAIT, DELAY} \<and> \<not> queued (m_runtime ex ! v) \<and> v \<notin> set (m_readyNodes ex)"
  using assms by (auto simp: tx_inv_def core_def well_numbered_def node_ok_def)

lemma tx_inv_head:
  assumes "tx_inv ex tr acts" "m_readyNodes ex = v # rest"
  shows "v < length (m_graph ex)" "queued (m_runtime ex ! v)" "node_state (m_runtime ex) v = PENDING"
    "length (m_runtime ex) = length (m_graph ex)" "nd_id (m_graph ex ! v) = v"
  using tx_inv_facts(1,3) [OF assms(1)] tx_inv_facts(2) [OF assms(1), of v] assms(2) by simp_all

lemma pending_set_less:
  assumes "v < length rt" "length rt' = length rt" "node_state rt v = PENDING"
    "\<forall>w < length rt. node_state rt' w = (if w = v then s else node_state rt w)" "s \<noteq> PENDING"
  shows "pending_set rt' = pending_set rt - {v}" and "card (pending_set rt') < card (pending_set rt)"
proof -
  show eq: "pending_set rt' = pending_set rt - {v}" using assms by (auto simp: pending_set_def split: if_splits)
  have "v \<in> pending_set rt" using assms by (simp add: pending_set_def)
  then show "card (pending_set rt') < card (pending_set rt)" unfolding eq by (intro card_Diff1_less finite_pending)
qed

lemma activate_node:
  assumes inv: "tx_inv ex tr acts" and ready: "m_readyNodes ex = v # rest"
    and r: "rn_state r = ACTIVE" "\<not> queued r" and ty: "nd_type (m_graph ex ! v) \<in> {WAIT, DELAY}"
    and idx: "index_ok (m_graph ex) ((m_runtime ex)[v := r]) idx"
  shows "tx_inv (ex\<lparr>m_runtime := (m_runtime ex)[v := r], m_readyNodes := rest, m_waitIndex := idx\<rparr>) tr acts"
    and "card (pending_set ((m_runtime ex)[v := r])) < card (pending_set (m_runtime ex))"
    and "completed_set ((m_runtime ex)[v := r]) = completed_set (m_runtime ex)"
proof -
  have core: "core (m_graph ex) (m_successors ex) (m_runtime ex) (v # rest) []" using inv ready by (simp add: tx_inv_def)
  have v: "v < length (m_graph ex)" "queued (m_runtime ex ! v)" "node_state (m_runtime ex) v = PENDING"
    "length (m_runtime ex) = length (m_graph ex)"
    using tx_inv_head [OF inv ready] by simp_all
  have en: "enabled_by (m_graph ex) (completed_set (m_runtime ex)) v" using core_enabled [OF core v(1)] v by simp
  have core': "core (m_graph ex) (m_successors ex) ((m_runtime ex)[v := r]) rest []"
    using core_leave [OF core v(1) en, of r] v r ty pop_eq [OF core] by simp
  show D: "completed_set ((m_runtime ex)[v := r]) = completed_set (m_runtime ex)"
    using v r by (auto simp: completed_set_def nth_list_update)
  show "tx_inv (ex\<lparr>m_runtime := (m_runtime ex)[v := r], m_readyNodes := rest, m_waitIndex := idx\<rparr>) tr acts"
    using inv core' idx D by (auto simp: tx_inv_def logged_def)
  show "card (pending_set ((m_runtime ex)[v := r])) < card (pending_set (m_runtime ex))"
    using v r by (intro pending_set_less(2) [of v _ _ ACTIVE]) (auto simp: nth_list_update)
qed

lemma released_head:
  assumes "tx_inv ex tr acts" "m_readyNodes ex = v # rest"
  shows "(upd_runtime v (\<lambda>r. r\<lparr>queued := False\<rparr>) ex)\<lparr>m_readyNodes := rest\<rparr> = released v ex"
  using assms pop_eq [of _ _ _ v rest] unfolding released_def tx_inv_def by metis

text \<open>The fuel \<open>Advance\<close> gives is enough: every pass takes one node out of \<open>PENDING\<close>.\<close>

lemma drain_inv:
  assumes "tx_inv ex tr acts0" "card (pending_set (m_runtime ex)) < fuel"
  shows "\<exists>ex' evs acts. drain fuel now ex = Inr (ex', evs, acts) \<and> tx_inv ex' (tr @ evs) (acts0 @ acts)
    \<and> m_readyNodes ex' = [] \<and> evolves ex ex' \<and> m_advanceRequested ex' = m_advanceRequested ex"
  using assms
proof (induction fuel arbitrary: ex tr acts0)
  case (Suc fuel)
  show ?case
  proof (cases "m_readyNodes ex")
    case Nil
    with Suc.prems show ?thesis by (intro exI [of _ ex] exI [of _ "[]"]) simp
  next
    case (Cons v rest)
    let ?g = "m_graph ex" and ?rt = "m_runtime ex" and ?node = "m_graph ex ! v"
    note inv = Suc.prems(1) and head = released_head [OF Suc.prems(1) Cons]
    note v = tx_inv_head [OF inv Cons]
    have node: "GetNode ?g v = Inr ?node" using v by (simp add: GetNode_def ns_assert_def)
    have rel: "m_graph (released v ex) = ?g" "m_runtime (released v ex) ! v = (?rt ! v)\<lparr>queued := False\<rparr>"
      using v by (simp_all add: released_def)
    have act: ?thesis
      if r: "rn_state r = ACTIVE" "\<not> queued r" and ty: "nd_type ?node \<in> {WAIT, DELAY}"
        and idx: "index_ok ?g (?rt[v := r]) idx"
        and eq: "drain (Suc fuel) now ex = drain fuel now (ex\<lparr>m_readyNodes := rest, m_runtime := ?rt[v := r], m_waitIndex := idx\<rparr>)"
      for r idx
    proof -
      let ?ex = "ex\<lparr>m_runtime := ?rt[v := r], m_readyNodes := rest, m_waitIndex := idx\<rparr>"
      note a = activate_node [OF inv Cons r ty idx]
      have ev: "evolves ex ?ex" using a(3) by (simp add: evolves_def)
      have "card (pending_set (m_runtime ?ex)) < fuel" using a(2) Suc.prems(2) by simp
      from Suc.IH [OF a(1) this] obtain ex' evs acts where run: "drain fuel now ?ex = Inr (ex', evs, acts)"
        and post: "tx_inv ex' (tr @ evs) (acts0 @ acts)" "m_readyNodes ex' = []" "evolves ?ex ex'"
          "m_advanceRequested ex' = m_advanceRequested ex"
        by auto
      have "drain (Suc fuel) now ex = Inr (ex', evs, acts)" unfolding eq run [symmetric]
        by (rule arg_cong [of _ _ "drain fuel now"]) simp
      with post evolves_trans [OF ev post(3)] show ?thesis by blast
    qed
    have cmp: ?thesis
      if ty: "nd_type ?node \<noteq> WAIT" and acts: "acts = (if nd_type ?node = ACTION then [nd_action ?node] else [])"
        and eq: "\<And>ex1 evs1. MarkCompleted (released v ex) v = Inr (ex1, evs1) \<Longrightarrow> drain (Suc fuel) now ex =
          and_then (drain fuel now (ex1\<lparr>m_complete := m_complete ex1 \<or> nd_type ?node = COMPLETE\<rparr>))
            (\<lambda>(ex2, evs2, acts2). Inr (ex2, evs1 @ evs2, acts @ acts2))"
      for acts
    proof -
      obtain rt ready where mark: "MarkCompleted (released v ex) v = Inr (ex\<lparr>m_runtime := rt, m_readyNodes := ready\<rparr>, node_events ex v)"
        and inv': "tx_inv (ex\<lparr>m_runtime := rt, m_readyNodes := ready, m_complete := m_complete ex \<or> nd_type ?node = COMPLETE\<rparr>)
          (tr @ node_events ex v) (acts0 @ acts)"
        and D: "completed_set rt = insert v (completed_set ?rt)"
        and st: "\<forall>w < length ?g. node_state rt w = (if w = v then COMPLETED else node_state ?rt w)"
        using complete_node [OF inv v(1)] v ty acts by auto
      let ?ex = "ex\<lparr>m_runtime := rt, m_readyNodes := ready, m_complete := m_complete ex \<or> nd_type ?node = COMPLETE\<rparr>"
      have "length rt = length ?g" using tx_inv_facts(1) [OF inv'] by simp
      then have "card (pending_set (m_runtime ?ex)) < fuel"
        using Suc.prems(2) pending_set_less(2) [of v ?rt rt COMPLETED] v st by simp
      moreover have "evolves ex ?ex" using D by (auto simp: evolves_def)
      ultimately show ?thesis using Suc.IH [OF inv'] eq [OF mark]
        by (fastforce intro: evolves_trans)
    qed
    show ?thesis
    proof (cases "nd_type ?node")
      case ACTION
      show ?thesis by (rule cmp) (use ACTION Cons v node rel in \<open>auto simp: head simp del: and_then_Inr split: sum.splits\<close>)
    next
      case WAIT
      let ?r = "(?rt ! v)\<lparr>queued := False, rn_state := ACTIVE\<rparr>"
      have idx: "index_ok ?g (?rt[v := ?r]) (m_waitIndex (RegisterWait ex ?node))"
        using inv v WAIT by (intro index_ok_register) (auto simp: tx_inv_def)
      show ?thesis by (rule act [OF _ _ _ idx])
        (use WAIT Cons v node rel in \<open>simp_all add: head released_def RegisterWait_def Let_def\<close>)
    next
      case DELAY
      let ?r = "(?rt ! v)\<lparr>queued := False, rn_state := ACTIVE, delayEvent := (if nd_delay ?node < Time_Max - now
        then Some (i64_wrap (nd_delay ?node + now)) else delayEvent (?rt ! v))\<rparr>"
      have idx: "index_ok ?g (?rt[v := ?r]) (m_waitIndex ex)"
        using inv DELAY v by (subst index_ok_cong [of ?g _ ?rt]) (auto simp: tx_inv_def nth_list_update)
      show ?thesis by (rule act [OF _ _ _ idx])
        (use DELAY Cons v node rel in \<open>simp_all add: head released_def\<close>)
    next
      case COMPLETE
      show ?thesis by (rule cmp) (use COMPLETE Cons v node rel in \<open>auto simp: head simp del: and_then_Inr split: sum.splits\<close>)
    qed
  qed
qed simp

declare drain.simps [simp del]

subsection \<open>Events during a run\<close>

lemma complete_active:
  assumes inv: "tx_inv ex tr acts" and v: "v < length (m_graph ex)" "node_state (m_runtime ex) v = ACTIVE"
  shows "\<exists>ex'. MarkCompleted ex v = Inr (ex', node_events ex v) \<and> tx_inv ex' (tr @ node_events ex v) acts
    \<and> evolves ex ex' \<and> m_advanceRequested ex' = m_advanceRequested ex
    \<and> completed_set (m_runtime ex') = insert v (completed_set (m_runtime ex))
    \<and> (\<forall>w < length (m_graph ex). w \<noteq> v \<longrightarrow> node_state (m_runtime ex') w = node_state (m_runtime ex) w)"
proof -
  note facts = tx_inv_facts(4) [OF inv v]
  have rt: "(m_runtime ex)[v := (m_runtime ex ! v)\<lparr>queued := False\<rparr>] = m_runtime ex"
    using facts by (simp add: list_update_same_conv tx_inv_facts(1) [OF inv] v(1))
  have q: "filter (\<lambda>w. w \<noteq> v) (m_readyNodes ex) = m_readyNodes ex" using facts by (auto simp: filter_id_conv)
  have rel: "released v ex = ex" by (simp add: released_def rt q)
  have ty: "nd_type (m_graph ex ! v) \<noteq> ACTION" "nd_type (m_graph ex ! v) \<noteq> COMPLETE" using facts by auto
  obtain rt ready where mark: "MarkCompleted ex v = Inr (ex\<lparr>m_runtime := rt, m_readyNodes := ready\<rparr>, node_events ex v)"
    and inv': "tx_inv (ex\<lparr>m_runtime := rt, m_readyNodes := ready, m_complete := m_complete ex\<rparr>) (tr @ node_events ex v) acts"
    and D: "completed_set rt = insert v (completed_set (m_runtime ex))"
    and st: "\<forall>w < length (m_graph ex). node_state rt w = (if w = v then COMPLETED else node_state (m_runtime ex) w)"
    using complete_node [OF inv v(1)] v(2) ty by (auto simp: rel)
  have "ex\<lparr>m_runtime := rt, m_readyNodes := ready, m_complete := m_complete ex\<rparr> = ex\<lparr>m_runtime := rt, m_readyNodes := ready\<rparr>"
    by simp
  with inv' have "tx_inv (ex\<lparr>m_runtime := rt, m_readyNodes := ready\<rparr>) (tr @ node_events ex v) acts" by simp
  with mark D st show ?thesis
    by (intro exI [of _ "ex\<lparr>m_runtime := rt, m_readyNodes := ready\<rparr>"]) (auto simp: evolves_def)
qed

lemma mark_all_inv:
  assumes "tx_inv ex tr acts" "distinct vs" "\<forall>v \<in> set vs. v < length (m_graph ex) \<and> node_state (m_runtime ex) v = ACTIVE"
  shows "\<exists>ex' evs. mark_all ex vs = Inr (ex', evs) \<and> tx_inv ex' (tr @ evs) acts \<and> evolves ex ex'
    \<and> m_advanceRequested ex' = m_advanceRequested ex
    \<and> completed_set (m_runtime ex') = completed_set (m_runtime ex) \<union> set vs \<and> (vs = [] \<longrightarrow> ex' = ex)"
  using assms
proof (induction vs arbitrary: ex tr)
  case (Cons v vs)
  then have v: "v < length (m_graph ex)" "node_state (m_runtime ex) v = ACTIVE" by auto
  obtain ex1 where mark: "MarkCompleted ex v = Inr (ex1, node_events ex v)"
    and inv1: "tx_inv ex1 (tr @ node_events ex v) acts" and ev1: "evolves ex ex1"
    and D1: "m_advanceRequested ex1 = m_advanceRequested ex" "completed_set (m_runtime ex1) = insert v (completed_set (m_runtime ex))"
    and st: "\<forall>w < length (m_graph ex). w \<noteq> v \<longrightarrow> node_state (m_runtime ex1) w = node_state (m_runtime ex) w"
    using complete_active [OF Cons.prems(1) v] by blast
  have "\<forall>w \<in> set vs. w < length (m_graph ex1) \<and> node_state (m_runtime ex1) w = ACTIVE"
  proof
    fix w assume w: "w \<in> set vs"
    then have "w \<noteq> v" "w < length (m_graph ex)" "node_state (m_runtime ex) w = ACTIVE" using Cons.prems by auto
    with st ev1 show "w < length (m_graph ex1) \<and> node_state (m_runtime ex1) w = ACTIVE" by (simp add: evolves_def)
  qed
  from Cons.IH [OF inv1 _ this] Cons.prems obtain ex2 evs2 where run: "mark_all ex1 vs = Inr (ex2, evs2)"
    and post: "tx_inv ex2 ((tr @ node_events ex v) @ evs2) acts" "evolves ex1 ex2"
      "m_advanceRequested ex2 = m_advanceRequested ex1" "completed_set (m_runtime ex2) = completed_set (m_runtime ex1) \<union> set vs"
    by auto
  then show ?case using mark D1 evolves_trans [OF ev1 post(2)]
    by (intro exI [of _ ex2] exI [of _ "node_events ex v @ evs2"]) auto
qed simp

lemma count_at_nth: "v < length rt \<Longrightarrow> count_at ev g V rt ! v = (if v \<in> V \<and> hit ev g rt v then counted ev (rt ! v) else rt ! v)"
  by (simp add: count_at_def)

lemma count_at_inv:
  assumes "tx_inv ex tr acts"
  shows "tx_inv (ex\<lparr>m_runtime := count_at ev (m_graph ex) V (m_runtime ex)\<rparr>) tr acts"
    and "completed_set (count_at ev (m_graph ex) V (m_runtime ex)) = completed_set (m_runtime ex)"
proof -
  let ?rt = "count_at ev (m_graph ex) V (m_runtime ex)"
  have len: "length ?rt = length (m_runtime ex)" by (simp add: count_at_def)
  have nth: "rn_state (?rt ! v) = rn_state (m_runtime ex ! v) \<and> queued (?rt ! v) = queued (m_runtime ex ! v)
      \<and> remainingDependencies (?rt ! v) = remainingDependencies (m_runtime ex ! v)" if "v < length (m_runtime ex)" for v
    using that by (simp add: count_at_nth)
  note same = core_cong [OF len nth]
  show "completed_set ?rt = completed_set (m_runtime ex)" by (rule same)
  have "index_ok (m_graph ex) ?rt (m_waitIndex ex) = index_ok (m_graph ex) (m_runtime ex) (m_waitIndex ex)"
    using nth tx_inv_facts(1) [OF assms] by (intro index_ok_cong) auto
  with assms show "tx_inv (ex\<lparr>m_runtime := ?rt\<rparr>) tr acts" by (auto simp: tx_inv_def logged_def same)
qed

lemma notify_body_inv:
  assumes inv: "tx_inv ex tr acts"
  shows "\<exists>ex' evs adv. notify_body ex ev = Inr (ex', evs, adv) \<and> tx_inv ex' (tr @ evs) acts \<and> evolves ex ex'
    \<and> m_advanceRequested ex' = m_advanceRequested ex
    \<and> (if adv then completed_set (m_runtime ex) \<subset> completed_set (m_runtime ex')
       else completed_set (m_runtime ex') = completed_set (m_runtime ex) \<and> m_readyNodes ex' = m_readyNodes ex)"
proof (cases "m_complete ex")
  case True
  with inv show ?thesis by (auto simp: notify_body_def)
next
  case False
  let ?g = "m_graph ex" and ?rt = "m_runtime ex"
  let ?rt1 = "count_at ev ?g (scan_hits ev ?g ?rt) ?rt"
  let ?ex1 = "ex\<lparr>m_runtime := ?rt1\<rparr>"
  have started: "m_started ex" "index_ok ?g ?rt (m_waitIndex ex)" "length ?rt = length ?g"
    using inv by (simp_all add: tx_inv_def core_def)
  obtain vs where loop: "mask_loop ev wildcard_masks (ex, []) = Inr (?ex1, vs)"
    and vs: "distinct vs" "set vs = scan_completed ev ?g ?rt"
    using mask_loop_scan [OF started(2) refl started(3), of ev] by blast
  note inv1 = count_at_inv [OF inv, of ev "scan_hits ev ?g ?rt"]
  have active: "\<forall>v \<in> set vs. v < length (m_graph ?ex1) \<and> node_state (m_runtime ?ex1) v = ACTIVE"
    using started(3) by (auto simp: vs scan_completed_def scan_hits_def hit_def count_at_nth)
  from mark_all_inv [OF inv1(1) vs(1) active] obtain ex2 evs where run: "mark_all ?ex1 vs = Inr (ex2, evs)"
    and post: "tx_inv ex2 (tr @ evs) acts" "evolves ?ex1 ex2" "m_advanceRequested ex2 = m_advanceRequested ?ex1"
      "completed_set (m_runtime ex2) = completed_set ?rt1 \<union> set vs" "vs = [] \<longrightarrow> ex2 = ?ex1"
    by auto
  have "evolves ex ?ex1" using inv1(2) by (simp add: evolves_def)
  then have ev: "evolves ex ex2" using post(2) by (rule evolves_trans)
  have D: "completed_set (m_runtime ex2) = completed_set ?rt \<union> set vs" using post(4) inv1(2) by simp
  have "v \<notin> completed_set ?rt" if "v \<in> set vs" for v
    using that by (auto simp: vs scan_completed_def scan_hits_def hit_def completed_set_def)
  then have "vs \<noteq> [] \<Longrightarrow> completed_set ?rt \<subset> completed_set (m_runtime ex2)"
    unfolding D by (cases vs) auto
  with post ev D False started loop run show ?thesis
    by (intro exI [of _ ex2] exI [of _ evs] exI [of _ "vs \<noteq> []"]) (auto simp: notify_body_def)
qed

text \<open>
  While actions are being sent, either nothing completed and the queue is as it was, or a
  node completed and another round was requested.
\<close>

definition requests :: "ProtocolTransactionExecutor \<Rightarrow> ProtocolTransactionExecutor \<Rightarrow> bool" where
  "requests ex ex' =
     (m_advanceRequested ex' \<and> completed_set (m_runtime ex) \<subset> completed_set (m_runtime ex')
      \<or> m_advanceRequested ex' = m_advanceRequested ex \<and> completed_set (m_runtime ex') = completed_set (m_runtime ex)
        \<and> m_readyNodes ex' = m_readyNodes ex)"

lemma requests_refl [simp]: "requests ex ex"
  by (simp add: requests_def)

lemma requests_trans: "requests a b \<Longrightarrow> requests b c \<Longrightarrow> requests a c"
  by (auto simp: requests_def)

lemma tx_inv_flags [simp]:
  "tx_inv (ex\<lparr>m_advanceRequested := b\<rparr>) tr acts = tx_inv ex tr acts"
  "tx_inv (ex\<lparr>m_advancing := b\<rparr>) tr acts = tx_inv ex tr acts"
  by (simp_all add: tx_inv_def logged_def)

lemma notify_nested_inv:
  assumes "tx_inv ex tr acts"
  shows "\<exists>ex' out. notify_nested ex evs = Inr (ex', out) \<and> tx_inv ex' (tr @ out) acts \<and> evolves ex ex' \<and> requests ex ex'"
  using assms
proof (induction evs arbitrary: ex tr)
  case (Cons ev evs)
  obtain ex1 out1 adv where body: "notify_body ex ev = Inr (ex1, out1, adv)"
    and inv1: "tx_inv ex1 (tr @ out1) acts" and ev1: "evolves ex ex1"
    and req: "m_advanceRequested ex1 = m_advanceRequested ex"
      "if adv then completed_set (m_runtime ex) \<subset> completed_set (m_runtime ex1)
       else completed_set (m_runtime ex1) = completed_set (m_runtime ex) \<and> m_readyNodes ex1 = m_readyNodes ex"
    using notify_body_inv [OF Cons.prems] by blast
  define ex1' where "ex1' = (if adv then ex1\<lparr>m_advanceRequested := True\<rparr> else ex1)"
  have inv1': "tx_inv ex1' (tr @ out1) acts" and ev1': "evolves ex ex1'" and req': "requests ex ex1'"
    using inv1 ev1 req by (auto simp: ex1'_def evolves_def requests_def)
  from Cons.IH [OF inv1'] obtain ex2 out2 where run: "notify_nested ex1' evs = Inr (ex2, out2)"
    and post: "tx_inv ex2 ((tr @ out1) @ out2) acts" "evolves ex1' ex2" "requests ex1' ex2" by blast
  have "notify_nested ex (ev # evs) = Inr (ex2, out1 @ out2)"
    using body run by (simp add: ex1'_def Let_def)
  with post evolves_trans [OF ev1' post(2)] requests_trans [OF req' post(3)] show ?case
    by (intro exI [of _ ex2] exI [of _ "out1 @ out2"]) (simp del: notify_nested.simps)
qed simp

lemma logged_send:
  assumes "tx_inv ex tr (a # acts)"
  shows "tx_inv ex (tr @ (if m_actionCallback ex then [ActionOut a] else [])) acts"
  using assms by (auto simp: tx_inv_def logged_def)

lemma run_actions_inv:
  assumes "tx_inv ex tr acts"
  shows "\<exists>ex' out. run_actions react ex acts = Inr (ex', out) \<and> tx_inv ex' (tr @ out) [] \<and> evolves ex ex' \<and> requests ex ex'"
  using assms
proof (induction acts arbitrary: ex tr)
  case (Cons a acts)
  note inv = logged_send [OF Cons.prems]
  show ?case
  proof (cases "m_actionCallback ex")
    case True
    then obtain ex1 out1 where n: "notify_nested ex (react a) = Inr (ex1, out1)"
      and inv1: "tx_inv ex1 ((tr @ [ActionOut a]) @ out1) acts" and ev1: "evolves ex ex1" and req1: "requests ex ex1"
      using notify_nested_inv [OF inv, of "react a"] by auto
    from Cons.IH [OF inv1] obtain ex2 out2 where run: "run_actions react ex1 acts = Inr (ex2, out2)"
      and post: "tx_inv ex2 (((tr @ [ActionOut a]) @ out1) @ out2) []" "evolves ex1 ex2" "requests ex1 ex2" by blast
    show ?thesis using True n run post evolves_trans [OF ev1 post(2)] requests_trans [OF req1 post(3)]
      by (intro exI [of _ ex2] exI [of _ "ActionOut a # out1 @ out2"]) simp
  next
    case False
    with Cons.IH inv show ?thesis by simp
  qed
qed simp

lemma completed_card_le: "length (m_runtime ex) = n \<Longrightarrow> card (completed_set (m_runtime ex)) \<le> n"
  using card_mono [of "{..<n}" "completed_set (m_runtime ex)"] by (auto simp: completed_set_def)

lemma finite_completed [simp]: "finite (completed_set rt)"
  by (simp add: completed_set_def)

text \<open>A further round is only requested when a node completed, so there are at most as many as nodes.\<close>

lemma rounds_inv:
  assumes "tx_inv ex tr []" "length (m_graph ex) - card (completed_set (m_runtime ex)) < fuel"
  shows "\<exists>ex' out. rounds fuel react now ex = Inr (ex', out) \<and> tx_inv ex' (tr @ out) [] \<and> evolves ex ex' \<and> m_readyNodes ex' = []"
  using assms
proof (induction fuel arbitrary: ex tr)
  case (Suc fuel)
  let ?ex0 = "ex\<lparr>m_advanceRequested := False\<rparr>"
  have inv0: "tx_inv ?ex0 tr []" using Suc.prems by simp
  have "card (pending_set (m_runtime ?ex0)) < Suc (length (m_runtime ?ex0))"
    using card_mono [of "{..<length (m_runtime ex)}" "pending_set (m_runtime ex)"] by (auto simp: pending_set_def less_Suc_eq_le)
  from drain_inv [OF inv0 this, of now] obtain ex1 evs1 acts where d: "drain (Suc (length (m_runtime ?ex0))) now ?ex0 = Inr (ex1, evs1, acts)"
    and inv1: "tx_inv ex1 (tr @ evs1) acts" and ev1: "evolves ?ex0 ex1" "m_readyNodes ex1 = []" "\<not> m_advanceRequested ex1"
    by auto
  from run_actions_inv [OF inv1] obtain ex2 evs2 where ra: "run_actions react ex1 acts = Inr (ex2, evs2)"
    and inv2: "tx_inv ex2 ((tr @ evs1) @ evs2) []" and ev2: "evolves ex1 ex2" "requests ex1 ex2" by blast
  have "evolves ex ?ex0" by (simp add: evolves_def)
  then have ev: "evolves ex ex2" using ev1(1) ev2(1) evolves_trans by blast
  show ?case
  proof (cases "m_advanceRequested ex2")
    case False
    then have "m_readyNodes ex2 = []" using ev1 ev2 by (simp add: requests_def)
    with False d ra inv2 ev show ?thesis by (auto simp: Let_def)
  next
    case True
    then have "completed_set (m_runtime ex1) \<subset> completed_set (m_runtime ex2)" using ev1 ev2 by (auto simp: requests_def)
    moreover have "completed_set (m_runtime ex) \<subseteq> completed_set (m_runtime ex1)" using ev1 by (simp add: evolves_def)
    ultimately have "card (completed_set (m_runtime ex)) < card (completed_set (m_runtime ex2))"
      by (intro psubset_card_mono) auto
    moreover have g: "m_graph ex2 = m_graph ex" using ev by (simp add: evolves_def)
    moreover have "card (completed_set (m_runtime ex2)) \<le> length (m_graph ex)"
      using completed_card_le [of ex2] tx_inv_facts(1) [OF inv2] g by simp
    ultimately have "length (m_graph ex2) - card (completed_set (m_runtime ex2)) < fuel"
      using Suc.prems(2) by simp
    from Suc.IH [OF inv2 this] obtain ex3 evs3 where r: "rounds fuel react now ex2 = Inr (ex3, evs3)"
      and post: "tx_inv ex3 (((tr @ evs1) @ evs2) @ evs3) []" "evolves ex2 ex3" "m_readyNodes ex3 = []" by blast
    from post True d ra r evolves_trans [OF ev post(2)] show ?thesis
      by (intro exI [of _ ex3] exI [of _ "evs1 @ evs2 @ evs3"]) (simp add: Let_def)
  qed
qed simp

declare rounds.simps [simp del]

subsection \<open>Whole operations\<close>

text \<open>Between operations nothing is queued and a reached completion has been notified.\<close>

definition settled :: "ProtocolTransactionExecutor \<Rightarrow> tx_event list \<Rightarrow> bool" where
  "settled ex tr =
     (tx_inv ex tr [] \<and> \<not> m_advancing ex \<and> m_readyNodes ex = [] \<and> m_completionNotified ex = m_complete ex)"

text \<open>What the operations keep: the graph, the callbacks, and what is complete.\<close>

definition keeps :: "ProtocolTransactionExecutor \<Rightarrow> ProtocolTransactionExecutor \<Rightarrow> bool" where
  "keeps ex ex' =
     (m_graph ex' = m_graph ex \<and> m_actionCallback ex' = m_actionCallback ex
      \<and> m_nodeCompletionCallback ex' = m_nodeCompletionCallback ex \<and> m_completionCallback ex' = m_completionCallback ex
      \<and> completed_set (m_runtime ex) \<subseteq> completed_set (m_runtime ex'))"

lemma keeps_refl [simp]: "keeps ex ex"
  by (simp add: keeps_def)

lemma keeps_trans [trans]: "keeps a b \<Longrightarrow> keeps b c \<Longrightarrow> keeps a c"
  by (auto simp: keeps_def)

lemma evolves_keeps: "evolves ex ex' \<Longrightarrow> keeps ex ex'"
  by (simp add: evolves_def keeps_def)

lemma Advance_inv:
  assumes inv: "tx_inv ex tr []" and idle: "\<not> m_advancing ex"
  shows "\<exists>ex' out. Advance react now ex = Inr (ex', out) \<and> settled ex' (tr @ out) \<and> keeps ex ex'"
proof -
  let ?ex0 = "ex\<lparr>m_advancing := True\<rparr>"
  have "length (m_graph ?ex0) - card (completed_set (m_runtime ?ex0)) < Suc (length (m_runtime ex))"
    using tx_inv_facts(1) [OF inv] by simp
  then obtain ex1 out where r: "rounds (Suc (length (m_runtime ex))) react now ?ex0 = Inr (ex1, out)"
    and inv1: "tx_inv ex1 (tr @ out) []" and ev: "evolves ?ex0 ex1" "m_readyNodes ex1 = []"
    using rounds_inv [of ?ex0 tr "Suc (length (m_runtime ex))" react now] inv by auto
  let ?ex2 = "ex1\<lparr>m_advancing := False\<rparr>"
  obtain ex3 evs where m: "MaybeNotifyCompletion ?ex2 = (ex3, evs)" by fastforce
  have "settled ex3 ((tr @ out) @ evs) \<and> keeps ex ex3"
  proof (cases "m_complete ex1 \<and> \<not> m_completionNotified ex1")
    case True
    then have "ex3 = ?ex2\<lparr>m_completionNotified := True\<rparr>" "evs = (if m_completionCallback ex1 then [TransactionComplete] else [])"
      using m by (simp_all add: MaybeNotifyCompletion_def)
    with True inv1 ev show ?thesis by (auto simp: settled_def tx_inv_def logged_def evolves_def keeps_def)
  next
    case False
    then have "ex3 = ?ex2" "evs = []" using m by (auto simp: MaybeNotifyCompletion_def split: if_splits)
    with False inv1 ev show ?thesis by (auto simp: settled_def tx_inv_def logged_def evolves_def keeps_def)
  qed
  with r m idle show ?thesis by (intro exI [of _ ex3] exI [of _ "out @ evs"]) (simp add: Advance_def Let_def)
qed

lemma NotifyEvent_settled:
  assumes "settled ex tr"
  shows "\<exists>ex' out. NotifyEvent react now ex ev = Inr (ex', out) \<and> settled ex' (tr @ out) \<and> keeps ex ex'"
proof -
  have inv: "tx_inv ex tr []" and idle: "\<not> m_advancing ex" using assms by (simp_all add: settled_def)
  obtain ex1 evs1 adv where body: "notify_body ex ev = Inr (ex1, evs1, adv)" and inv1: "tx_inv ex1 (tr @ evs1) []"
    and ev1: "evolves ex ex1" and D: "if adv then completed_set (m_runtime ex) \<subset> completed_set (m_runtime ex1)
       else completed_set (m_runtime ex1) = completed_set (m_runtime ex) \<and> m_readyNodes ex1 = m_readyNodes ex"
    using notify_body_inv [OF inv] by blast
  have same: "\<not> m_advancing ex1" "m_graph ex1 = m_graph ex" "m_completionNotified ex1 = m_completionNotified ex"
    using ev1 idle by (simp_all add: evolves_def)
  show ?thesis
  proof (cases adv)
    case True
    from Advance_inv [OF inv1 same(1), of react now] obtain ex2 evs2 where "Advance react now ex1 = Inr (ex2, evs2)"
      "settled ex2 ((tr @ evs1) @ evs2)" "keeps ex1 ex2" by blast
    with True body same keeps_trans [OF evolves_keeps [OF ev1]] show ?thesis
      by (intro exI [of _ ex2] exI [of _ "evs1 @ evs2"]) (simp add: NotifyEvent_def)
  next
    case False
    with D same inv1 inv assms have "settled ex1 (tr @ evs1)" by (simp add: settled_def tx_inv_def)
    with False body evolves_keeps [OF ev1] show ?thesis by (simp add: NotifyEvent_def)
  qed
qed

lemma OnDelayExpired_settled:
  assumes "settled ex tr"
  shows "\<exists>ex' out. OnDelayExpired react now ex v = Inr (ex', out) \<and> settled ex' (tr @ out) \<and> keeps ex ex'"
proof (cases "\<not> m_started ex \<or> m_complete ex \<or> v \<ge> length (m_runtime ex) \<or> node_state (m_runtime ex) v \<noteq> ACTIVE")
  case True
  with assms show ?thesis by (intro exI [of _ ex] exI [of _ "[]"]) (auto simp: OnDelayExpired_def)
next
  case False
  have inv: "tx_inv ex tr []" and idle: "\<not> m_advancing ex" using assms by (simp_all add: settled_def)
  have v: "v < length (m_graph ex)" "node_state (m_runtime ex) v = ACTIVE" using False tx_inv_facts(1) [OF inv] by auto
  obtain ex1 where mark: "MarkCompleted ex v = Inr (ex1, node_events ex v)" and inv1: "tx_inv ex1 (tr @ node_events ex v) []"
    and ev1: "evolves ex ex1" using complete_active [OF inv v] by blast
  have same: "\<not> m_advancing ex1" "m_graph ex1 = m_graph ex" using ev1 idle by (simp_all add: evolves_def)
  from Advance_inv [OF inv1 same(1), of react now] obtain ex2 evs2 where "Advance react now ex1 = Inr (ex2, evs2)"
    "settled ex2 ((tr @ node_events ex v) @ evs2)" "keeps ex1 ex2" by blast
  with False mark same keeps_trans [OF evolves_keeps [OF ev1]] show ?thesis
    by (intro exI [of _ ex2] exI [of _ "node_events ex v @ evs2"]) (simp add: OnDelayExpired_def)
qed

subsection \<open>Loading and starting a graph\<close>

definition fresh_runtime :: "ProtocolTransactionGraph \<Rightarrow> RuntimeNode list" where
  "fresh_runtime g = map (\<lambda>node. RuntimeNode_new\<lparr>remainingDependencies := length (nd_dependencies node)\<rparr>) g"

definition idle_flags :: "ProtocolTransactionExecutor \<Rightarrow> bool" where
  "idle_flags ex = (\<not> m_started ex \<and> \<not> m_complete ex \<and> \<not> m_completionNotified ex \<and> \<not> m_advancing ex)"

definition loaded :: "ProtocolTransactionExecutor \<Rightarrow> bool" where
  "loaded ex =
     (valid_graph (m_graph ex) \<and> well_numbered (m_graph ex) \<and> links_ok (m_graph ex) (m_successors ex) \<and> idle_flags ex
      \<and> m_runtime ex = fresh_runtime (m_graph ex) \<and> m_readyNodes ex = [] \<and> m_waitIndex ex = [])"

lemma init_loop:
  assumes "well_numbered g" "k \<le> length g"
  shows "foldl (\<lambda>rt node. rt[nd_id node := (rt ! nd_id node)\<lparr>remainingDependencies := length (nd_dependencies node) mod 2 ^ 32\<rparr>])
      (replicate (length g) RuntimeNode_new) (take k g) = fresh_runtime (take k g) @ replicate (length g - k) RuntimeNode_new"
  using assms(2)
proof (induction k)
  case (Suc k)
  have k: "nd_id (g ! k) = k" "length (deps_of g k) < 2 ^ 32" using assms Suc.prems by (simp_all add: well_numbered_def)
  have "replicate (length g - k) RuntimeNode_new = RuntimeNode_new # replicate (length g - Suc k) RuntimeNode_new"
    using Suc.prems by (metis Suc_diff_Suc Suc_le_lessD replicate_Suc)
  with Suc k show ?case
    by (simp add: take_Suc_conv_app_nth fresh_runtime_def list_update_append nth_append)
qed (simp add: fresh_runtime_def)

lemma InitializeRuntime_fresh:
  "well_numbered (m_graph ex) \<Longrightarrow> InitializeRuntime ex = ex\<lparr>m_runtime := fresh_runtime (m_graph ex), m_waitIndex := [], m_readyNodes := []\<rparr>"
  using init_loop [of "m_graph ex" "length (m_graph ex)"] by (simp add: InitializeRuntime_def)

lemma length_link_node [simp]: "length (link_node succs node) = length succs"
proof -
  have "length (foldl (\<lambda>succs d. succs[d := succs ! d @ [i]]) succs ds) = length succs" for i :: nat and ds
    by (induction ds arbitrary: succs) simp_all
  then show ?thesis by (simp add: link_node_def)
qed

lemma count_link_node:
  assumes "set (nd_dependencies node) \<subseteq> {..<length succs}" "u < length succs"
  shows "count_list (link_node succs node ! u) v =
      count_list (succs ! u) v + (if v = nd_id node then count_list (nd_dependencies node) u else 0)"
proof -
  have "count_list (foldl (\<lambda>succs d. succs[d := succs ! d @ [i]]) succs ds ! u) v =
      count_list (succs ! u) v + (if v = i then count_list ds u else 0)"
    if "set ds \<subseteq> {..<length succs}" "u < length succs" for i ds
    using that by (induction ds arbitrary: succs) (auto simp: nth_list_update)
  then show ?thesis using assms by (simp add: link_node_def)
qed

lemma link_loop:
  assumes wn: "well_numbered g" and local: "\<forall>v < length g. local_ok g v" and k: "k \<le> length g"
  shows "length (foldl link_node (replicate (length g) []) (take k g)) = length g \<and> (\<forall>u < length g. \<forall>v.
     count_list (foldl link_node (replicate (length g) []) (take k g) ! u) v = (if v < k then count_list (deps_of g v) u else 0))"
  using k
proof (induction k)
  case (Suc k)
  let ?S = "foldl link_node (replicate (length g) []) (take k g)"
  have lok: "local_ok g k" "nd_id (g ! k) = k" using wn local Suc.prems by (auto simp: well_numbered_def)
  then have k: "nd_id (g ! k) = k" "set (deps_of g k) \<subseteq> {..<length ?S}"
    using Suc by (auto simp: local_ok_def)
  have "foldl link_node (replicate (length g) []) (take (Suc k) g) = link_node ?S (g ! k)"
    using Suc.prems by (simp add: take_Suc_conv_app_nth)
  with Suc k count_link_node [OF k(2)] show ?case by (auto simp: less_Suc_eq)
qed simp

lemma SetGraph_loads:
  assumes idle: "idle_flags ex" and wn: "well_numbered g"
  shows "\<exists>ex' e. SetGraph ex g = Some (ex', valid_graph g, e)
    \<and> (if valid_graph g then loaded ex' \<and> m_graph ex' = g \<and> m_graphSet ex' else ex' = ex)"
proof (cases "valid_graph g")
  case True
  then have "Validate g = Some Valid" using validate_decides [OF wn] by simp
  moreover have "links_ok g (foldl link_node (replicate (length g) []) g)"
    using link_loop [OF wn, of "length g"] True by (simp add: links_ok_def valid_graph_def)
  ultimately show ?thesis using idle wn True
    by (simp add: SetGraph_def idle_flags_def loaded_def InitializeRuntime_fresh)
next
  case False
  then obtain e where "Validate g = Some (Invalid e)"
    using validate_decides [OF wn] by (metis verdict.exhaust)
  with False idle show ?thesis by (simp add: SetGraph_def idle_flags_def)
qed

lemma mark_roots:
  assumes "set vs \<subseteq> {..<length rt}"
  shows "length (foldl (\<lambda>rt v. rt[v := (rt ! v)\<lparr>queued := True\<rparr>]) rt vs) = length rt"
    and "v < length rt \<Longrightarrow> foldl (\<lambda>rt v. rt[v := (rt ! v)\<lparr>queued := True\<rparr>]) rt vs ! v =
      (if v \<in> set vs then (rt ! v)\<lparr>queued := True\<rparr> else rt ! v)"
  using assms by (induction vs arbitrary: rt) (auto simp: nth_list_update)

definition roots :: "ProtocolTransactionGraph \<Rightarrow> nat list" where
  "roots g = map nd_id (filter (\<lambda>node. nd_dependencies node = []) g)"

lemma roots_eq:
  assumes "well_numbered g"
  shows "roots g = filter (\<lambda>v. deps_of g v = []) [0..<length g]"
proof -
  have "filter (\<lambda>node. nd_dependencies node = []) g = map ((!) g) (filter (\<lambda>v. deps_of g v = []) [0..<length g])"
    using filter_map [of "\<lambda>node. nd_dependencies node = []" "(!) g" "[0..<length g]"] by (simp add: map_nth comp_def)
  then have "roots g = map (\<lambda>v. nd_id (g ! v)) (filter (\<lambda>v. deps_of g v = []) [0..<length g])"
    by (simp add: roots_def)
  also have "\<dots> = filter (\<lambda>v. deps_of g v = []) [0..<length g]"
    using assms by (intro map_idI) (simp add: well_numbered_def)
  finally show ?thesis .
qed

lemma outstanding_empty: "outstanding g {} v = length (deps_of g v)"
  by (simp add: outstanding_def)

lemma start_inv:
  assumes ld: "loaded ex"
  shows "tx_inv (ex\<lparr>m_started := True,
      m_runtime := foldl (\<lambda>rt v. rt[v := (rt ! v)\<lparr>queued := True\<rparr>]) (m_runtime ex) (roots (m_graph ex)),
      m_readyNodes := m_readyNodes ex @ roots (m_graph ex)\<rparr>) [] []"
proof -
  let ?g = "m_graph ex"
  define rt where "rt = foldl (\<lambda>rt v. rt[v := (rt ! v)\<lparr>queued := True\<rparr>]) (m_runtime ex) (roots ?g)"
  have wn: "well_numbered ?g" and fresh: "m_runtime ex = fresh_runtime ?g" using ld by (simp_all add: loaded_def)
  note r = roots_eq [OF wn]
  have sub: "set (roots ?g) \<subseteq> {..<length (m_runtime ex)}" using r by (auto simp: fresh fresh_runtime_def)
  have len: "length rt = length ?g" using mark_roots(1) [OF sub] by (simp add: rt_def fresh fresh_runtime_def)
  have nth: "rt ! v = RuntimeNode_new\<lparr>remainingDependencies := length (deps_of ?g v), queued := (deps_of ?g v = [])\<rparr>"
    if "v < length ?g" for v
    using mark_roots(2) [OF sub, of v] that by (auto simp: rt_def fresh fresh_runtime_def r RuntimeNode_new_def)
  have D: "completed_set rt = {}" using nth len by (auto simp: completed_set_def RuntimeNode_new_def)
  have "node_ok ?g rt [] v" if "v < length ?g" for v
    using nth [OF that] by (auto simp: node_ok_def waiting_ok_def D enabled_by_def outstanding_empty RuntimeNode_new_def)
  then have "core ?g (m_successors ex) rt (roots ?g) []"
    using ld len nth by (auto simp: core_def loaded_def r)
  moreover have "index_ok ?g rt []"
    using nth by (auto simp: index_ok_def index_nodes_def RuntimeNode_new_def)
  ultimately show ?thesis using ld D unfolding rt_def [symmetric]
    by (auto simp: tx_inv_def loaded_def idle_flags_def logged_def schedule_ok_def action_log_def completion_reached_def)
qed

lemma Start_settled:
  assumes "loaded ex" "m_graphSet ex"
  shows "\<exists>ex' out. Start react now ex = Inr (ex', out) \<and> settled ex' out \<and> keeps ex ex'"
proof -
  have "completed_set (fresh_runtime (m_graph ex)) = {}"
    by (auto simp: completed_set_def fresh_runtime_def RuntimeNode_new_def)
  with Advance_inv [OF start_inv [OF assms(1)], of react now] assms show ?thesis
    by (auto simp: Start_def ns_assert_def loaded_def idle_flags_def roots_def Let_def keeps_def)
qed

lemma Reset_loaded:
  assumes "settled ex tr"
  shows "loaded (Executor_Reset ex)"
proof -
  have "well_numbered (m_graph ex)" using assms by (simp add: settled_def tx_inv_def core_def)
  with assms show ?thesis
    by (simp add: Executor_Reset_def InitializeRuntime_fresh loaded_def idle_flags_def settled_def tx_inv_def core_def)
qed

subsection \<open>Runs of the executor\<close>

datatype tx_op =
    OpCallbacks bool bool bool
  | OpSetGraph ProtocolTransactionGraph
  | OpStart "ProtocolTransactionAction \<Rightarrow> ProtocolTransactionEvent list" Time
  | OpNotify "ProtocolTransactionAction \<Rightarrow> ProtocolTransactionEvent list" Time ProtocolTransactionEvent
  | OpDelay "ProtocolTransactionAction \<Rightarrow> ProtocolTransactionEvent list" Time nat
  | OpReset

text \<open>A run carries the trace of the current transaction.\<close>

definition continue ::
  "tx_event list \<Rightarrow> (ProtocolTransactionExecutor \<times> tx_event list) result \<Rightarrow> (ProtocolTransactionExecutor \<times> tx_event list) result" where
  "continue tr r = and_then r (\<lambda>(ex, out). Inr (ex, tr @ out))"

fun tx_step :: "ProtocolTransactionExecutor \<times> tx_event list \<Rightarrow> tx_op \<Rightarrow> (ProtocolTransactionExecutor \<times> tx_event list) result" where
  "tx_step (ex, tr) (OpCallbacks a n c) =
     Inr (SetCompletionCallback (SetNodeCompletionCallback (SetActionCallback ex a) n) c, tr)"
| "tx_step (ex, tr) (OpSetGraph g) = (case SetGraph ex g of None \<Rightarrow> Inl Diverges | Some (ex', _, _) \<Rightarrow> Inr (ex', tr))"
| "tx_step (ex, tr) (OpStart react now) = continue tr (Start react now ex)"
| "tx_step (ex, tr) (OpNotify react now ev) = continue tr (NotifyEvent react now ex ev)"
| "tx_step (ex, tr) (OpDelay react now v) = continue tr (OnDelayExpired react now ex v)"
| "tx_step (ex, tr) OpReset = Inr (Executor_Reset ex, [])"

text \<open>What the caller promises: built graphs, one start, callbacks set beforehand.\<close>

fun tx_pre :: "ProtocolTransactionExecutor \<times> tx_event list \<Rightarrow> tx_op \<Rightarrow> bool" where
  "tx_pre (ex, tr) (OpCallbacks a n c) = (\<not> m_started ex)"
| "tx_pre (ex, tr) (OpSetGraph g) = well_numbered g"
| "tx_pre (ex, tr) (OpStart react now) = (m_graphSet ex \<and> \<not> m_started ex)"
| "tx_pre (ex, tr) _ = True"

fun tx_ok :: "ProtocolTransactionExecutor \<times> tx_event list \<Rightarrow> bool" where
  "tx_ok (ex, tr) =
     (if m_started ex then settled ex tr else idle_flags ex \<and> tr = [] \<and> (m_graphSet ex \<longrightarrow> loaded ex))"

lemma settled_started: "settled ex tr \<Longrightarrow> m_started ex"
  by (simp add: settled_def tx_inv_def)

lemma idle_noop:
  assumes "idle_flags ex"
  shows "NotifyEvent react now ex ev = Inr (ex, [])" "OnDelayExpired react now ex v = Inr (ex, [])"
  using assms by (simp_all add: idle_flags_def NotifyEvent_def notify_body_def OnDelayExpired_def)

lemma continue_settled:
  "\<exists>ex' out. r = Inr (ex', out) \<and> settled ex' (tr @ out) \<and> P ex' \<Longrightarrow> \<exists>s'. continue tr r = Inr s' \<and> tx_ok s'"
  by (auto simp: continue_def dest: settled_started)

interpretation tx: guarded_machine tx_step tx_ok tx_pre
proof
  fix s :: "ProtocolTransactionExecutor \<times> tx_event list" and x :: tx_op
  assume ok: "tx_ok s" and pre: "tx_pre s x"
  obtain ex tr where s: "s = (ex, tr)" by fastforce
  have idle: "idle_flags ex \<and> tr = []" if "\<not> m_started ex" using that ok s by simp
  have run: "settled ex tr" if "m_started ex" using that ok s by simp
  show "\<exists>s'. tx_step s x = Inr s' \<and> tx_ok s'"
  proof (cases x)
    case (OpCallbacks a n c)
    then show ?thesis using ok pre s
      by (auto simp: SetActionCallback_def SetNodeCompletionCallback_def SetCompletionCallback_def idle_flags_def loaded_def)
  next
    case (OpSetGraph g)
    show ?thesis
    proof (cases "m_started ex")
      case True
      with run OpSetGraph s show ?thesis by (simp add: SetGraph_def)
    next
      case False
      with idle pre OpSetGraph s have wn: "well_numbered g" and id: "idle_flags ex" "tr = []" by auto
      from SetGraph_loads [OF id(1) wn] obtain ex' e where "SetGraph ex g = Some (ex', valid_graph g, e)"
        and post: "if valid_graph g then loaded ex' \<and> m_graph ex' = g \<and> m_graphSet ex' else ex' = ex" by blast
      moreover have "tx_ok (ex', tr)"
        using post ok s id by (auto simp: loaded_def idle_flags_def split: if_splits)
      ultimately show ?thesis using OpSetGraph s by simp
    qed
  next
    case (OpStart react now)
    with ok pre s have "loaded ex" "m_graphSet ex" "tr = []" by auto
    with continue_settled [of "Start react now ex" "[]"] Start_settled [of ex react now] OpStart s show ?thesis
      by (simp del: tx_ok.simps)
  next
    case (OpNotify react now ev)
    show ?thesis
    proof (cases "m_started ex")
      case True
      from continue_settled [OF NotifyEvent_settled [OF run [OF True], of react now ev]] OpNotify s show ?thesis by simp
    next
      case False
      then show ?thesis using ok s OpNotify idle_noop(1) [of ex react now ev] by (simp add: continue_def)
    qed
  next
    case (OpDelay react now v)
    show ?thesis
    proof (cases "m_started ex")
      case True
      from continue_settled [OF OnDelayExpired_settled [OF run [OF True], of react now v]] OpDelay s show ?thesis by simp
    next
      case False
      then show ?thesis using ok s OpDelay idle_noop(2) [of ex react now v] by (simp add: continue_def)
    qed
  next
    case OpReset
    show ?thesis
    proof (cases "m_started ex")
      case True
      from Reset_loaded [OF run [OF True]] OpReset s show ?thesis by (simp add: loaded_def idle_flags_def)
    next
      case False
      with idle ok s have "idle_flags (Executor_Reset ex)" "m_graphSet ex \<longrightarrow> loaded (Executor_Reset ex)"
        by (auto simp: Executor_Reset_def idle_flags_def loaded_def InitializeRuntime_fresh)
      then show ?thesis using OpReset s by (simp add: idle_flags_def Executor_Reset_def InitializeRuntime_def)
    qed
  qed
qed

subsection \<open>A run\<close>

definition delivered :: ProtocolTransactionEvent where
  "delivered = \<lparr>ev_type = PACKET_DELIVERED, ev_packetType = PT_DATA, ev_sourceRank = 0, ev_destinationRank = 1,
     ev_flowId = 0, ev_bytes = 64, ev_stageId = 0\<rparr>"

definition session :: "tx_op list" where
  "session = [OpCallbacks True True True, OpSetGraph send_and_wait, OpStart (\<lambda>_. []) 0]"

lemma send_and_wait_accepted: "Validate send_and_wait = Some Valid"
  by (simp add: graph_eval Validate_def INVALID_NODE_def u32_inc_small u32_dec_pos upt_rec Let_def numeral_3_eq_3)

definition loaded_session :: ProtocolTransactionExecutor where
  "loaded_session = Executor_new\<lparr>m_graph := send_and_wait, m_graphSet := True, m_successors := [[1], [2], []],
     m_runtime := [RuntimeNode_new, RuntimeNode_new\<lparr>remainingDependencies := 1\<rparr>, RuntimeNode_new\<lparr>remainingDependencies := 1\<rparr>],
     m_actionCallback := True, m_nodeCompletionCallback := True, m_completionCallback := True\<rparr>"

lemma session_loads:
  "SetGraph (Executor_new\<lparr>m_actionCallback := True, m_nodeCompletionCallback := True, m_completionCallback := True\<rparr>) send_and_wait
     = Some (loaded_session, True, [])"
  by (simp add: SetGraph_def send_and_wait_accepted InitializeRuntime_def Executor_new_def loaded_session_def RuntimeNode_new_def)
    (simp add: graph_eval link_node_def Let_def)

lemma session_starts:
  "Start (\<lambda>_. []) 0 loaded_session = Inr (loaded_session\<lparr>m_started := True, m_advanceRequested := False,
     m_runtime := [RuntimeNode_new\<lparr>rn_state := COMPLETED\<rparr>, RuntimeNode_new\<lparr>rn_state := ACTIVE, remainingDependencies := 0\<rparr>,
        RuntimeNode_new\<lparr>remainingDependencies := 1\<rparr>],
     m_waitIndex := [(MakeWaitIndexKey matcher_new, [1])]\<rparr>, [NodeCompleted 0, ActionOut action_new])"
  by (simp add: Start_def Advance_def loaded_session_def ns_assert_def Executor_new_def RuntimeNode_new_def graph_eval Let_def)
    (simp add: rounds.simps drain.simps MarkCompleted_def PropagateCompletion_def GetNode_def ns_assert_def u32_dec_pos RegisterWait_def umap_put_def umap_find_def Let_def MaybeNotifyCompletion_def)

subsection \<open>What holds of every run\<close>

lemma waiting_blocked:
  assumes "waiting_ok g rt [] v"
  shows "\<exists>d \<in> set (deps_of g v). d \<notin> completed_set rt"
proof (cases "nd_dependency (g ! v) = DEP_ANY")
  case True
  with assms have "deps_of g v \<noteq> []" "set (deps_of g v) \<inter> completed_set rt = {}" by (auto simp: waiting_ok_def)
  then show ?thesis by (cases "deps_of g v") auto
next
  case False
  with assms have "outstanding g (completed_set rt) v \<noteq> 0" by (simp add: waiting_ok_def)
  then show ?thesis unfolding outstanding_zero by blast
qed

lemma blocked_only_by_active:
  assumes "settled ex tr" "\<not> m_complete ex"
  shows "\<exists>v < length (m_graph ex). node_state (m_runtime ex) v = ACTIVE"
proof -
  let ?g = "m_graph ex" and ?rt = "m_runtime ex"
  have core: "core ?g (m_successors ex) ?rt [] []" and nc: "\<not> completion_reached ?g (completed_set ?rt)"
    using assms by (auto simp: settled_def tx_inv_def)
  then have valid: "valid_graph ?g" and len: "length ?rt = length ?g" and ok: "\<And>v. v < length ?g \<Longrightarrow> node_ok ?g ?rt [] v"
    and nq: "\<And>v. v < length ?g \<Longrightarrow> \<not> queued (?rt ! v)" by (auto simp: core_def)
  obtain c where c: "completions ?g = [c]" and acyc: "acyclic (dep_edges ?g)" and loc: "\<forall>v < length ?g. local_ok ?g v"
    using valid by (auto simp: valid_graph_def)
  have "c \<in> set (completions ?g)" using c by simp
  then have cc: "c < length ?g" "nd_type (?g ! c) = COMPLETE" by (simp_all add: completions_def)
  have "node_state ?rt c \<noteq> COMPLETED" using nc cc len by (auto simp: completion_reached_def completed_set_def)
  moreover have "node_state ?rt c \<noteq> ACTIVE" using ok [OF cc(1)] cc(2) by (auto simp: node_ok_def)
  ultimately have "c \<in> pending_set ?rt" using cc(1) len by (cases "node_state ?rt c") (simp_all add: pending_set_def)
  have "dep_edges ?g \<subseteq> {..<length ?g} \<times> {..<length ?g}" using loc by (auto simp: dep_edges_def local_ok_def)
  then have "wf (dep_edges ?g)" using acyc by (intro finite_acyclic_wf) (auto intro: finite_subset)
  then obtain v where v: "v \<in> pending_set ?rt" and min: "\<And>u. (u, v) \<in> dep_edges ?g \<Longrightarrow> u \<notin> pending_set ?rt"
    using \<open>c \<in> pending_set ?rt\<close> by (rule wfE_min) blast
  have vn: "v < length ?g" "node_state ?rt v = PENDING" using v len by (simp_all add: pending_set_def)
  then have "waiting_ok ?g ?rt [] v" using ok [OF vn(1)] nq [OF vn(1)] by (simp add: node_ok_def)
  then obtain d where d: "d \<in> set (deps_of ?g v)" "d \<notin> completed_set ?rt" using waiting_blocked by blast
  have "d < length ?g" using d loc vn by (auto simp: local_ok_def)
  moreover have "d \<notin> pending_set ?rt" using min d vn by (simp add: dep_edges_def)
  ultimately have "node_state ?rt d = ACTIVE"
    using d(2) len by (cases "node_state ?rt d") (simp_all add: pending_set_def completed_set_def)
  with \<open>d < length ?g\<close> show ?thesis by blast
qed

lemma tx_ok_new: "tx_ok (Executor_new, [])"
  by (simp add: Executor_new_def idle_flags_def)

lemma run_settled:
  assumes "admissible tx_step tx_pre (Executor_new, []) ops" "run_ops tx_step (Executor_new, []) ops = Inr (ex, tr)" "m_started ex"
  shows "settled ex tr"
  using tx.run_inv [OF tx_ok_new assms(1,2)] assms(3) by simp

lemma session_admissible: "admissible tx_step tx_pre (Executor_new, []) session"
  using send_and_wait_numbered session_loads
  by (simp add: session_def SetActionCallback_def SetNodeCompletionCallback_def SetCompletionCallback_def
      session_starts continue_def) (simp add: Executor_new_def loaded_session_def)

definition running_session :: ProtocolTransactionExecutor where
  "running_session = loaded_session\<lparr>m_started := True, m_advanceRequested := False,
     m_runtime := [RuntimeNode_new\<lparr>rn_state := COMPLETED\<rparr>, RuntimeNode_new\<lparr>rn_state := ACTIVE, remainingDependencies := 0\<rparr>,
        RuntimeNode_new\<lparr>remainingDependencies := 1\<rparr>],
     m_waitIndex := [(MakeWaitIndexKey matcher_new, [1])]\<rparr>"

lemma session_runs:
  "run_ops tx_step (Executor_new, []) session = Inr (running_session, [NodeCompleted 0, ActionOut action_new])"
  using session_loads
  by (simp add: session_def SetActionCallback_def SetNodeCompletionCallback_def SetCompletionCallback_def
      session_starts continue_def running_session_def)

lemma running_session_flags:
  "m_started running_session" "\<not> m_complete running_session" "m_actionCallback running_session"
  "m_nodeCompletionCallback running_session" "m_completionCallback running_session"
  by (simp_all add: running_session_def loaded_session_def Executor_new_def)

text \<open>
  C7: no assertion of the executor can fail and none of its loops runs for ever. Whatever
  graphs are offered, however events, timers and restarts are interleaved, and whatever
  events the action callbacks report while the executor is running, every operation
  returns. The caller only has to offer graphs built by the \<open>Add\<close> functions, to start
  an executor that has a graph once, and to set callbacks beforehand.
\<close>

theorem transaction_runs_never_stop:
  assumes "admissible tx_step tx_pre (Executor_new, []) ops"
  shows "\<exists>ex tr. run_ops tx_step (Executor_new, []) ops = Inr (ex, tr)"
  using tx.run_progress [OF tx_ok_new assms] by auto

theorem transaction_runs_never_stop_witness:
  "\<exists>ex tr. run_ops tx_step (Executor_new, []) session = Inr (ex, tr)"
  by (rule transaction_runs_never_stop [OF session_admissible])

text \<open>
  C2: the trace of a transaction is a legal execution of its graph. The nodes reported
  complete are exactly the completed ones, each reported once and only after what it
  depends on (all of its dependencies, or one where the node asks for any); the action of
  every completed action node has been sent exactly once, in the order of completion; the
  completion callback has been called exactly once if the completion node is complete and
  not at all otherwise.
\<close>

theorem transaction_trace_is_legal:
  assumes "admissible tx_step tx_pre (Executor_new, []) ops" "run_ops tx_step (Executor_new, []) ops = Inr (ex, tr)"
    "m_started ex" "m_actionCallback ex" "m_nodeCompletionCallback ex" "m_completionCallback ex"
  shows "set (nodes_of tr) = {v. v < length (m_graph ex) \<and> GetNodeState ex v = Inr COMPLETED}
    \<and> schedule_ok (m_graph ex) (nodes_of tr) \<and> actions_of tr = action_log (m_graph ex) (nodes_of tr)
    \<and> count_list tr TransactionComplete = (if completion_reached (m_graph ex) (set (nodes_of tr)) then 1 else 0)"
proof -
  have s: "settled ex tr" using run_settled [OF assms(1-3)] .
  then have "length (m_runtime ex) = length (m_graph ex)" by (simp add: settled_def tx_inv_def core_def)
  then have "completed_set (m_runtime ex) = {v. v < length (m_graph ex) \<and> GetNodeState ex v = Inr COMPLETED}"
    by (auto simp: completed_set_def GetNodeState_def ns_assert_def)
  with s assms(4-6) show ?thesis by (auto simp: settled_def tx_inv_def logged_def)
qed

theorem transaction_trace_is_legal_witness:
  "schedule_ok (m_graph running_session) (nodes_of [NodeCompleted 0, ActionOut action_new])"
  using transaction_trace_is_legal [OF session_admissible session_runs] running_session_flags by simp

text \<open>
  C20: a transaction never deadlocks on itself. Between operations a started transaction
  that is not complete has an active wait or delay: what it waits for is an event or a
  timer, not one of its own nodes.
\<close>

theorem incomplete_transaction_waits_for_the_outside:
  assumes "admissible tx_step tx_pre (Executor_new, []) ops" "run_ops tx_step (Executor_new, []) ops = Inr (ex, tr)"
    "m_started ex" "\<not> m_complete ex"
  shows "\<exists>v < length (m_graph ex). GetNodeState ex v = Inr ACTIVE \<and> nd_type (m_graph ex ! v) \<in> {WAIT, DELAY}"
proof -
  have s: "settled ex tr" using run_settled [OF assms(1-3)] .
  then have inv: "tx_inv ex tr []" by (simp add: settled_def)
  obtain v where v: "v < length (m_graph ex)" "node_state (m_runtime ex) v = ACTIVE"
    using blocked_only_by_active [OF s assms(4)] by blast
  with tx_inv_facts(1) [OF inv] tx_inv_facts(4) [OF inv v] show ?thesis
    by (auto simp: GetNodeState_def ns_assert_def)
qed

theorem incomplete_transaction_waits_for_the_outside_witness:
  "\<exists>v < length (m_graph running_session). GetNodeState running_session v = Inr ACTIVE
     \<and> nd_type (m_graph running_session ! v) \<in> {WAIT, DELAY}"
  using incomplete_transaction_waits_for_the_outside [OF session_admissible session_runs] running_session_flags by simp

text \<open>
  C19: the wait index is exact. Looking an event up under its 32 combinations of wildcards
  counts it at exactly the active waits a scan of all nodes with \<open>Matches\<close> would find,
  once at each, and yields exactly the waits whose thresholds are then met, without
  repetition.
\<close>

theorem wait_index_agrees_with_scan:
  assumes "admissible tx_step tx_pre (Executor_new, []) ops" "run_ops tx_step (Executor_new, []) ops = Inr (ex, tr)" "m_started ex"
  shows "\<exists>completed. mask_loop ev wildcard_masks (ex, []) =
      Inr (ex\<lparr>m_runtime := count_at ev (m_graph ex) (scan_hits ev (m_graph ex) (m_runtime ex)) (m_runtime ex)\<rparr>, completed)
    \<and> distinct completed \<and> set completed = scan_completed ev (m_graph ex) (m_runtime ex)"
proof -
  have "tx_inv ex tr []" using run_settled [OF assms] by (simp add: settled_def)
  then show ?thesis by (intro mask_loop_scan) (simp_all add: tx_inv_def core_def)
qed

theorem wait_index_agrees_with_scan_witness:
  "\<exists>ex completed. mask_loop delivered wildcard_masks (running_session, []) = Inr (ex, completed)
     \<and> set completed = {1}"
proof -
  have "scan_completed delivered (m_graph running_session) (m_runtime running_session) = {1}"
    by (auto simp: scan_completed_def scan_hits_def running_session_def loaded_session_def graph_eval Let_def hit_def
        Matches_def matcher_new_def delivered_def RuntimeNode_new_def satisfied_def counted_def less_Suc_eq nth_Cons')
  with wait_index_agrees_with_scan [OF session_admissible session_runs running_session_flags(1), of delivered]
  show ?thesis by auto
qed

end
