(* ===== verification/ProtocolModels.thy ===== *)
theory ProtocolModels
  imports ProtocolGraph
begin

text \<open>
  The vendor protocol models (\<open>protocol-model.cc\<close>, \<open>nccl-protocol-model.cc\<close>,
  \<open>ethernet-protocol-model.cc\<close>): which framing a transfer of a given size uses, how many
  bytes it puts on the wire, and how one logical transfer becomes an action node and the
  wait node for its delivery. A C++ object with virtual methods is a record of functions.
  The NCCL model scales \<open>SIMPLE\<close> transfers by a \<open>double\<close> efficiency: the value of the
  floating-point expression is an argument, absent when the efficiency is exactly 1.
\<close>

subsection \<open>Requests\<close>

datatype ProtocolTransactionKind =
  DATA_TRANSFER | P2P_TRANSFER | MEMORY_READ | MEMORY_WRITE | COLLECTIVE_OFFLOAD

record ProtocolTransactionRequest =
  rq_kind :: ProtocolTransactionKind
  rq_packetType :: FabricPacketType
  rq_sourceRank :: u16
  rq_destinationRank :: u16
  rq_flowId :: u16
  rq_virtualChannel :: u8
  rq_effectiveBytes :: u64
  rq_responseBytes :: u64
  rq_address :: u64
  rq_stageId :: u32
  rq_hasProtocolId :: bool
  rq_protocolId :: u8
  rq_label :: string

definition request_new :: ProtocolTransactionRequest where
  "request_new =
     \<lparr>rq_kind = DATA_TRANSFER, rq_packetType = PT_DATA, rq_sourceRank = 0, rq_destinationRank = 0, rq_flowId = 0,
      rq_virtualChannel = 0, rq_effectiveBytes = 0, rq_responseBytes = 0, rq_address = 0, rq_stageId = 0,
      rq_hasProtocolId = False, rq_protocolId = 0, rq_label = ''''\<rparr>"

text \<open>The virtual methods of \<open>ProtocolModel\<close> that graph construction calls.\<close>

record ProtocolModel =
  pm_GetProtocolId :: "u64 \<Rightarrow> u8"
  pm_GetWireSize :: "u64 \<Rightarrow> u8 \<Rightarrow> u64"
  pm_GetChunkSize :: "u8 \<Rightarrow> u64"
  pm_GetStartupDelayNs :: "u8 \<Rightarrow> u16 \<Rightarrow> u64"

subsection \<open>One transfer\<close>

definition transfer_action :: "ProtocolModel \<Rightarrow> ProtocolTransactionRequest \<Rightarrow> ProtocolTransactionAction" where
  "transfer_action pm req =
     (let pid = (if rq_hasProtocolId req then rq_protocolId req else pm_GetProtocolId pm (rq_effectiveBytes req));
          action = action_new\<lparr>act_packetType := rq_packetType req, act_sourceRank := rq_sourceRank req,
            act_destinationRank := rq_destinationRank req, act_flowId := rq_flowId req,
            act_virtualChannel := rq_virtualChannel req, act_effectiveBytes := rq_effectiveBytes req,
            act_address := rq_address req, act_stageId := rq_stageId req, act_protocolId := pid,
            act_wireBytes := pm_GetWireSize pm (rq_effectiveBytes req) pid, act_chunkBytes := pm_GetChunkSize pm pid\<rparr>
      in case rq_kind req of
           DATA_TRANSFER \<Rightarrow> action\<lparr>act_type := SEND_DATA\<rparr>
         | P2P_TRANSFER \<Rightarrow> action\<lparr>act_type := SEND_P2P\<rparr>
         | MEMORY_READ \<Rightarrow> action\<lparr>act_type := SEND_MEMORY_READ, act_packetType := PT_MEMORY_READ\<rparr>
         | MEMORY_WRITE \<Rightarrow> action\<lparr>act_type := SEND_MEMORY_WRITE, act_packetType := PT_MEMORY_WRITE\<rparr>
         | COLLECTIVE_OFFLOAD \<Rightarrow> action\<lparr>act_type := SEND_COLLECTIVE\<rparr>)"

definition transfer_matcher :: "ProtocolTransactionRequest \<Rightarrow> ProtocolTransactionEventMatcher" where
  "transfer_matcher req =
     (let matcher = matcher_new\<lparr>mt_sourceRank := rq_sourceRank req, mt_flowId := rq_flowId req, mt_stageId := rq_stageId req,
            mt_matchPacketType := True, mt_packetType := rq_packetType req\<rparr>
      in case rq_kind req of
           DATA_TRANSFER \<Rightarrow> matcher\<lparr>mt_type := PACKET_DELIVERED, mt_destinationRank := rq_destinationRank req\<rparr>
         | P2P_TRANSFER \<Rightarrow> matcher\<lparr>mt_type := PACKET_DELIVERED, mt_destinationRank := rq_destinationRank req\<rparr>
         | MEMORY_READ \<Rightarrow> matcher\<lparr>mt_type := RESPONSE_RECEIVED, mt_sourceRank := rq_destinationRank req,
             mt_destinationRank := rq_sourceRank req, mt_packetType := PT_MEMORY_RESP\<rparr>
         | MEMORY_WRITE \<Rightarrow> matcher\<lparr>mt_type := PACKET_DELIVERED, mt_destinationRank := rq_destinationRank req,
             mt_packetType := PT_MEMORY_WRITE\<rparr>
         | COLLECTIVE_OFFLOAD \<Rightarrow> matcher\<lparr>mt_type := PACKET_DELIVERED, mt_sourceRank := ANY_RANK,
             mt_destinationRank := rq_sourceRank req, mt_stageId := ANY_STAGE, mt_matchPacketType := False\<rparr>)"

definition completion_bytes :: "ProtocolTransactionRequest \<Rightarrow> u64" where
  "completion_bytes req =
     (if rq_kind req = MEMORY_READ \<or> rq_kind req = COLLECTIVE_OFFLOAD
      then if rq_responseBytes req > 0 then rq_responseBytes req else rq_effectiveBytes req
      else rq_effectiveBytes req)"

definition AddTransaction ::
  "ProtocolModel \<Rightarrow> ProtocolTransactionGraph \<Rightarrow> ProtocolTransactionRequest \<Rightarrow> nat list \<Rightarrow> ProtocolTransactionGraph \<times> nat" where
  "AddTransaction pm g req deps =
     (let prefix = (if rq_label req = '''' then ''transfer'' else rq_label req);
          (g, actionNode) = AddAction g (transfer_action pm req) deps (prefix @ ''.send'')
      in AddWait g (transfer_matcher req) (completion_bytes req) 0 [actionNode] (prefix @ ''.delivery''))"

subsection \<open>The NCCL model\<close>

datatype NcclProtocol = NCCL_NONE | LL | LL128 | SIMPLE | NCCL_unnamed u8

definition nccl_protocol_of :: "u8 \<Rightarrow> NcclProtocol" where
  "nccl_protocol_of b =
     (if b = 0 then NCCL_NONE else if b = 1 then LL else if b = 2 then LL128 else if b = 3 then SIMPLE else NCCL_unnamed b)"

fun nccl_protocol_code :: "NcclProtocol \<Rightarrow> u8" where
  "nccl_protocol_code NCCL_NONE = 0"
| "nccl_protocol_code LL = 1"
| "nccl_protocol_code LL128 = 2"
| "nccl_protocol_code SIMPLE = 3"
| "nccl_protocol_code (NCCL_unnamed b) = b"

fun NcclProtocolToString :: "NcclProtocol \<Rightarrow> string" where
  "NcclProtocolToString NCCL_NONE = ''NONE''"
| "NcclProtocolToString LL = ''LL''"
| "NcclProtocolToString LL128 = ''LL128''"
| "NcclProtocolToString SIMPLE = ''SIMPLE''"
| "NcclProtocolToString (NCCL_unnamed _) = ''UNKNOWN''"

definition LL_LINE_SIZE :: u64 where "LL_LINE_SIZE = 128"
definition LL_DATA_PER_LINE :: u64 where "LL_DATA_PER_LINE = 64"
definition LL128_LINE_SIZE :: u64 where "LL128_LINE_SIZE = 128"
definition LL128_DATA_PER_LINE :: u64 where "LL128_DATA_PER_LINE = 120"
definition LL_CHUNK_SIZE :: u64 where "LL_CHUNK_SIZE = 16384"
definition LL128_CHUNK_SIZE :: u64 where "LL128_CHUNK_SIZE = 8192"
definition SIMPLE_CHUNK_SIZE :: u64 where "SIMPLE_CHUNK_SIZE = 524288"

definition framed_wire_size :: "u64 \<Rightarrow> u64 \<Rightarrow> u64 \<Rightarrow> u64" where
  "framed_wire_size dataSize dataPerLine lineSize =
     (let lines = dataSize div dataPerLine + (if dataSize mod dataPerLine \<noteq> 0 then 1 else 0)
      in if lines > 18446744073709551615 div lineSize then 18446744073709551615 else lines * lineSize)"

definition Nccl_GetWireSize :: "u64 \<Rightarrow> NcclProtocol \<Rightarrow> u64" where
  "Nccl_GetWireSize dataSize protocol =
     (case protocol of
        LL \<Rightarrow> framed_wire_size dataSize LL_DATA_PER_LINE LL_LINE_SIZE
      | LL128 \<Rightarrow> framed_wire_size dataSize LL128_DATA_PER_LINE LL128_LINE_SIZE
      | _ \<Rightarrow> dataSize)"

definition Nccl_GetDataSize :: "u64 \<Rightarrow> NcclProtocol \<Rightarrow> u64" where
  "Nccl_GetDataSize wireSize protocol =
     (case protocol of
        LL \<Rightarrow> (wireSize div LL_LINE_SIZE) * LL_DATA_PER_LINE
      | LL128 \<Rightarrow> (wireSize div LL128_LINE_SIZE) * LL128_DATA_PER_LINE
      | _ \<Rightarrow> wireSize)"

fun Nccl_GetChunkSize :: "NcclProtocol \<Rightarrow> u64" where
  "Nccl_GetChunkSize LL = LL_CHUNK_SIZE"
| "Nccl_GetChunkSize LL128 = LL128_CHUNK_SIZE"
| "Nccl_GetChunkSize _ = SIMPLE_CHUNK_SIZE"

fun Nccl_GetLineSize :: "NcclProtocol \<Rightarrow> u64" where
  "Nccl_GetLineSize LL = LL_LINE_SIZE"
| "Nccl_GetLineSize LL128 = LL128_LINE_SIZE"
| "Nccl_GetLineSize _ = LL_LINE_SIZE"

text \<open>
  The attributes of an \<open>NcclProtocolModel\<close>. \<open>simpleQuotient\<close> is \<open>None\<close> for an efficiency of
  1.0, otherwise the value of \<open>std::ceil(double(dataSize) / m_simpleWireEfficiency)\<close>.
\<close>

record NcclProtocolModel =
  nm_forceProtocolId :: u8
  m_llThreshold :: u64
  m_ll128Threshold :: u64
  m_startupDelayLL :: u64
  m_startupDelayLL128 :: u64
  m_startupDelaySIMPLE :: u64
  simpleQuotient :: "(u64 \<Rightarrow> int) option"
  m_perGpuStartupDelayNs :: u64

definition NcclProtocolModel_new :: NcclProtocolModel where
  "NcclProtocolModel_new =
     \<lparr>nm_forceProtocolId = 0, m_llThreshold = 8 * 1024, m_ll128Threshold = 2 * 1024 * 1024, m_startupDelayLL = 65000,
      m_startupDelayLL128 = 65000, m_startupDelaySIMPLE = 65000, simpleQuotient = None, m_perGpuStartupDelayNs = 0\<rparr>"

definition GetProtocolForSize :: "NcclProtocolModel \<Rightarrow> u64 \<Rightarrow> NcclProtocol" where
  "GetProtocolForSize nm dataSize =
     (if dataSize < m_llThreshold nm then LL else if dataSize < m_ll128Threshold nm then LL128 else SIMPLE)"

definition Nccl_GetProtocolId :: "NcclProtocolModel \<Rightarrow> u64 \<Rightarrow> u8" where
  "Nccl_GetProtocolId nm dataSize =
     (if nm_forceProtocolId nm \<noteq> 0 then nm_forceProtocolId nm else nccl_protocol_code (GetProtocolForSize nm dataSize))"

definition Nccl_WireSize :: "NcclProtocolModel \<Rightarrow> u64 \<Rightarrow> u8 \<Rightarrow> u64" where
  "Nccl_WireSize nm dataSize protocolId =
     (let protocol = nccl_protocol_of protocolId
      in if protocol = SIMPLE
         then (case simpleQuotient nm of
                 None \<Rightarrow> dataSize
               | Some q \<Rightarrow> if q dataSize \<ge> 18446744073709551615 then 18446744073709551615 else of_int (q dataSize))
         else Nccl_GetWireSize dataSize protocol)"

definition Nccl_StartupDelayNs :: "NcclProtocolModel \<Rightarrow> u8 \<Rightarrow> u64" where
  "Nccl_StartupDelayNs nm protocolId =
     (case nccl_protocol_of protocolId of
        LL \<Rightarrow> m_startupDelayLL nm
      | LL128 \<Rightarrow> m_startupDelayLL128 nm
      | _ \<Rightarrow> m_startupDelaySIMPLE nm)"

definition Nccl_GetStartupDelayNs :: "NcclProtocolModel \<Rightarrow> u8 \<Rightarrow> u16 \<Rightarrow> u64" where
  "Nccl_GetStartupDelayNs nm protocolId numGpus =
     Nccl_StartupDelayNs nm protocolId + m_perGpuStartupDelayNs nm * ucast numGpus"

fun Nccl_GetPerStepLatencyNs :: "NcclProtocol \<Rightarrow> u64" where
  "Nccl_GetPerStepLatencyNs SIMPLE = 1000"
| "Nccl_GetPerStepLatencyNs _ = 0"

definition nccl_model :: "NcclProtocolModel \<Rightarrow> ProtocolModel" where
  "nccl_model nm =
     \<lparr>pm_GetProtocolId = Nccl_GetProtocolId nm, pm_GetWireSize = Nccl_WireSize nm,
      pm_GetChunkSize = (\<lambda>b. Nccl_GetChunkSize (nccl_protocol_of b)), pm_GetStartupDelayNs = Nccl_GetStartupDelayNs nm\<rparr>"

subsection \<open>The plain Ethernet model\<close>

text \<open>The checker of the efficiency attribute admits 1.0 only, so sizes are exact.\<close>

record EthernetProtocolModel =
  em_startupDelayNs :: u64
  em_perStepLatencyNs :: u64
  em_chunkSize :: u64

definition EthernetProtocolModel_new :: EthernetProtocolModel where
  "EthernetProtocolModel_new = \<lparr>em_startupDelayNs = 1500, em_perStepLatencyNs = 800, em_chunkSize = 9 * 1024\<rparr>"

definition Eth_GetProtocolId :: "u64 \<Rightarrow> u8" where
  "Eth_GetProtocolId dataSize = 0"

definition Eth_GetWireSize :: "u64 \<Rightarrow> u8 \<Rightarrow> u64" where
  "Eth_GetWireSize dataSize protocolId = dataSize"

definition Eth_GetDataSize :: "u64 \<Rightarrow> u8 \<Rightarrow> u64" where
  "Eth_GetDataSize wireSize protocolId = wireSize"

definition Eth_GetChunkSize :: "EthernetProtocolModel \<Rightarrow> u8 \<Rightarrow> u64" where
  "Eth_GetChunkSize em protocolId = em_chunkSize em"

definition Eth_GetStartupDelayNs :: "EthernetProtocolModel \<Rightarrow> u8 \<Rightarrow> u16 \<Rightarrow> u64" where
  "Eth_GetStartupDelayNs em protocolId numGpus = em_startupDelayNs em"

fun Eth_GetMemoryLatencyNs :: "MemoryAccessType \<Rightarrow> u64" where
  "Eth_GetMemoryLatencyNs SYNC_LOAD_STORE = 1000"
| "Eth_GetMemoryLatencyNs ASYNC_URMA = 5000"
| "Eth_GetMemoryLatencyNs _ = 0"

definition ethernet_model :: "EthernetProtocolModel \<Rightarrow> ProtocolModel" where
  "ethernet_model em =
     \<lparr>pm_GetProtocolId = Eth_GetProtocolId, pm_GetWireSize = Eth_GetWireSize,
      pm_GetChunkSize = Eth_GetChunkSize em, pm_GetStartupDelayNs = Eth_GetStartupDelayNs em\<rparr>"

subsection \<open>Framing is exact and never wraps\<close>

lemma div_ceil:
  assumes "0 < (per :: nat)"
  shows "(n + per - 1) div per = n div per + (if n mod per = 0 then 0 else 1)"
proof -
  have split: "n = n div per * per + n mod per" by simp
  have "n mod per < per" using assms by simp
  then have "(n mod per + per - 1) div per = (if n mod per = 0 then 0 else 1)"
    using assms by (auto intro!: div_nat_eqI simp: less_diff_conv2 Suc_le_eq less_SucI)
  moreover have eq: "n + per - 1 = (n mod per + per - 1) + n div per * per"
    using assms split by linarith
  have "(n + per - 1) div per = n div per + (n mod per + per - 1) div per"
    unfolding eq using assms by (intro div_mult_self1) simp
  ultimately show ?thesis by simp
qed

lemma framed_wire_size_exact:
  fixes d :: u64
  assumes "0 < dataPerLine" "0 < lineSize"
  shows "unat (framed_wire_size d dataPerLine lineSize) =
     min (2 ^ 64 - 1) ((unat d + unat dataPerLine - 1) div unat dataPerLine * unat lineSize)"
proof -
  define per where "per = unat dataPerLine"
  have per: "0 < per" "0 < unat lineSize" using assms by (simp_all add: per_def unat_gt_0 word_neq_0_conv)
  define lines where "lines = d div dataPerLine + (if d mod dataPerLine \<noteq> 0 then 1 else 0)"
  have dlt: "unat d < 2 ^ 64" using unsigned_less [of d, where 'a = nat] by simp
  have small: "unat d div per + (if unat d mod per = 0 then 0 else 1) < 2 ^ 64"
  proof (cases "unat d mod per = 0")
    case True
    then show ?thesis using le_less_trans [OF div_le_dividend dlt, of per] by simp
  next
    case False
    then have "per \<noteq> 1" "unat d \<noteq> 0" by (auto intro!: Nat.gr0I)
    then have "1 < per" "0 < unat d" using per by simp_all
    then have "unat d div per < unat d" by simp
    then show ?thesis using False dlt by simp
  qed
  have rem: "(d mod dataPerLine \<noteq> 0) = (unat d mod per \<noteq> 0)"
    by (metis per_def unat_eq_zero unat_mod)
  have lines: "unat lines = (unat d + per - 1) div per"
    unfolding lines_def div_ceil [OF per(1)] rem using small
    by (auto simp: unat_word_ariths unat_div per_def)
  have gt: "lines > 18446744073709551615 div lineSize \<longleftrightarrow> \<not> unat lines * unat lineSize < 2 ^ 64"
    using per(2) by (simp add: word_less_nat_alt unat_div div_less_iff_less_mult not_less) linarith
  have "unat (framed_wire_size d dataPerLine lineSize) = min (2 ^ 64 - 1) (unat lines * unat lineSize)"
    unfolding framed_wire_size_def Let_def lines_def [symmetric]
    using gt by (auto simp: unat_word_ariths min_def)
  then show ?thesis by (simp add: lines per_def)
qed

text \<open>The smallest multiple of the line's data that holds the transfer, at most one line more than it.\<close>

lemma framed_round_trip:
  fixes d :: u64
  assumes "0 < dataPerLine" "dataPerLine \<le> lineSize" "framed_wire_size d dataPerLine lineSize \<noteq> 18446744073709551615"
  shows "unat (framed_wire_size d dataPerLine lineSize div lineSize * dataPerLine) =
      (unat d + unat dataPerLine - 1) div unat dataPerLine * unat dataPerLine"
proof -
  let ?n = "(unat d + unat dataPerLine - 1) div unat dataPerLine"
  have pos: "0 < lineSize" "unat dataPerLine \<le> unat lineSize" using assms by (auto simp: word_le_nat_alt intro: order_less_le_trans)
  have "unat (framed_wire_size d dataPerLine lineSize) \<noteq> 2 ^ 64 - 1"
    using assms(3) by (simp add: word_unat_eq_iff)
  with framed_wire_size_exact [OF assms(1) pos(1), of d]
  have w: "unat (framed_wire_size d dataPerLine lineSize) = ?n * unat lineSize" "?n * unat lineSize < 2 ^ 64" by (auto simp: min_def split: if_splits)
  have "?n * unat dataPerLine < 2 ^ 64" using w(2) pos(2) by (meson le_less_trans mult_le_mono2)
  moreover have "unat (framed_wire_size d dataPerLine lineSize) div unat lineSize = ?n"
    using pos(1) by (simp add: w(1) unat_gt_0 word_neq_0_conv)
  ultimately show ?thesis by (simp add: unat_word_ariths unat_div mod_mult_left_eq)
qed

text \<open>
  What a framing promises: unless the wire size saturates, unframing it gives back at
  least the data and less than one more unit of the framing.
\<close>

locale wire_framing =
  fixes wire :: "u64 \<Rightarrow> u64"
    and payload :: "u64 \<Rightarrow> u64"
    and unit :: nat
  assumes covers: "wire d \<noteq> 18446744073709551615 \<Longrightarrow> unat d \<le> unat (payload (wire d))"
    and tight: "wire d \<noteq> 18446744073709551615 \<Longrightarrow> unat (payload (wire d)) < unat d + unit"
begin

lemma same_wire_close:
  assumes "wire d = wire e" "wire d \<noteq> 18446744073709551615" "unat d \<le> unat e"
  shows "unat e - unat d < unit"
  using covers [of e] tight [of d] assms by simp

lemma unit_exact: "unit = 1 \<Longrightarrow> wire d \<noteq> 18446744073709551615 \<Longrightarrow> payload (wire d) = d"
  using covers [of d] tight [of d] by (simp add: word_unat_eq_iff)

end

lemma ceil_bounds: "0 < (per :: nat) \<Longrightarrow> n \<le> (n + per - 1) div per * per \<and> (n + per - 1) div per * per < n + per"
proof -
  assume per: "0 < per"
  have "(n + per - 1) div per * per = (n + per - 1) - (n + per - 1) mod per"
    by (simp add: minus_mod_eq_div_mult)
  moreover have "(n + per - 1) mod per < per" using per by simp
  ultimately show ?thesis using per by linarith
qed

lemma framed_covers:
  fixes d :: u64
  assumes "0 < dataPerLine" "dataPerLine \<le> lineSize" "framed_wire_size d dataPerLine lineSize \<noteq> 18446744073709551615"
  shows "unat d \<le> unat (framed_wire_size d dataPerLine lineSize div lineSize * dataPerLine)"
    and "unat (framed_wire_size d dataPerLine lineSize div lineSize * dataPerLine) < unat d + unat dataPerLine"
  using ceil_bounds [of "unat dataPerLine" "unat d"] assms(1)
  by (simp_all add: framed_round_trip [OF assms] unat_gt_0 word_neq_0_conv)

interpretation ll: wire_framing "\<lambda>d. Nccl_GetWireSize d LL" "\<lambda>w. Nccl_GetDataSize w LL" 64
proof
  fix d
  assume a: "Nccl_GetWireSize d LL \<noteq> 18446744073709551615"
  note facts = framed_covers [of LL_DATA_PER_LINE LL_LINE_SIZE d]
  show "unat d \<le> unat (Nccl_GetDataSize (Nccl_GetWireSize d LL) LL)"
    using facts(1) a by (simp add: Nccl_GetDataSize_def Nccl_GetWireSize_def LL_DATA_PER_LINE_def LL_LINE_SIZE_def)
  show "unat (Nccl_GetDataSize (Nccl_GetWireSize d LL) LL) < unat d + 64"
    using facts(2) a by (simp add: Nccl_GetDataSize_def Nccl_GetWireSize_def LL_DATA_PER_LINE_def LL_LINE_SIZE_def)
qed

interpretation ll128: wire_framing "\<lambda>d. Nccl_GetWireSize d LL128" "\<lambda>w. Nccl_GetDataSize w LL128" 120
proof
  fix d
  assume a: "Nccl_GetWireSize d LL128 \<noteq> 18446744073709551615"
  note facts = framed_covers [of LL128_DATA_PER_LINE LL128_LINE_SIZE d]
  show "unat d \<le> unat (Nccl_GetDataSize (Nccl_GetWireSize d LL128) LL128)"
    using facts(1) a by (simp add: Nccl_GetDataSize_def Nccl_GetWireSize_def LL128_DATA_PER_LINE_def LL128_LINE_SIZE_def)
  show "unat (Nccl_GetDataSize (Nccl_GetWireSize d LL128) LL128) < unat d + 120"
    using facts(2) a by (simp add: Nccl_GetDataSize_def Nccl_GetWireSize_def LL128_DATA_PER_LINE_def LL128_LINE_SIZE_def)
qed

interpretation eth: wire_framing "\<lambda>d. Eth_GetWireSize d p" "\<lambda>w. Eth_GetDataSize w p" 1
  by unfold_locales (simp_all add: Eth_GetWireSize_def Eth_GetDataSize_def)

definition nccl_line_data :: "NcclProtocol \<Rightarrow> nat" where
  "nccl_line_data p = (if p = LL then 64 else 120)"

text \<open>
  C38: the line protocols LL and LL128 put exactly as many whole lines on the wire as the
  data needs, or the saturation marker when that count does not fit 64 bits: no
  intermediate sum or product wraps. Unframing a wire size that did not saturate gives at
  least the data, and less than one line's worth more.
\<close>

theorem nccl_framing_is_exact:
  assumes "p = LL \<or> p = LL128"
  shows "unat (Nccl_GetWireSize d p) =
      min (2 ^ 64 - 1) ((unat d + nccl_line_data p - 1) div nccl_line_data p * unat (Nccl_GetLineSize p))
    \<and> (Nccl_GetWireSize d p \<noteq> 18446744073709551615 \<longrightarrow>
         unat d \<le> unat (Nccl_GetDataSize (Nccl_GetWireSize d p) p)
         \<and> unat (Nccl_GetDataSize (Nccl_GetWireSize d p) p) < unat d + nccl_line_data p)"
proof -
  have exact: "unat (Nccl_GetWireSize d p) =
      min (2 ^ 64 - 1) ((unat d + nccl_line_data p - 1) div nccl_line_data p * unat (Nccl_GetLineSize p))"
    using assms framed_wire_size_exact [of LL_DATA_PER_LINE LL_LINE_SIZE d] framed_wire_size_exact [of LL128_DATA_PER_LINE LL128_LINE_SIZE d]
    by (auto simp: Nccl_GetWireSize_def nccl_line_data_def LL_DATA_PER_LINE_def LL_LINE_SIZE_def LL128_DATA_PER_LINE_def LL128_LINE_SIZE_def)
  show ?thesis using assms ll.covers [of d] ll.tight [of d] ll128.covers [of d] ll128.tight [of d]
    by (intro conjI exact) (auto simp: nccl_line_data_def)
qed

theorem nccl_framing_is_exact_witness:
  "unat (Nccl_GetWireSize 121 LL128) = 256 \<and> unat (Nccl_GetDataSize (Nccl_GetWireSize 121 LL128) LL128) = 240"
  using nccl_framing_is_exact [of LL128 121]
  by (simp add: nccl_line_data_def LL128_LINE_SIZE_def Nccl_GetDataSize_def Nccl_GetWireSize_def framed_wire_size_def
      LL128_DATA_PER_LINE_def)

end
