(* ===== verification/ProtocolConfig.thy ===== *)
theory ProtocolConfig
  imports ProtocolModels
begin

text \<open>
  The configuration language (\<open>protocol-config.cc\<close>): the expression evaluator, a
  recursive-descent parser that computes as it reads, and the loader of \<open>.cfg\<close> files. A
  file is the list of its lines, \<open>None\<close> if it cannot be opened. The cursor of the parser
  is the rest of its input. The mutually recursive parser carries fuel; the theorems show
  that the fuel \<open>Run\<close> passes is always enough and that the evaluator computes the values
  of the grammar its comment states.
\<close>

subsection \<open>Characters and strings of the C++ library\<close>

definition isspace :: "char \<Rightarrow> bool" where
  "isspace c = (c \<in> {CHR '' '', CHR 0x09, CHR 0x0A, CHR 0x0B, CHR 0x0C, CHR 0x0D})"

definition isdigit :: "char \<Rightarrow> bool" where
  "isdigit c = (c \<in> set ''0123456789'')"

definition isalpha :: "char \<Rightarrow> bool" where
  "isalpha c = (c \<in> set ''abcdefghijklmnopqrstuvwxyz'' \<or> c \<in> set ''ABCDEFGHIJKLMNOPQRSTUVWXYZ'')"

definition isalnum :: "char \<Rightarrow> bool" where
  "isalnum c = (isalpha c \<or> isdigit c)"

definition digit_value :: "char \<Rightarrow> nat" where
  "digit_value c = of_char c - 48"

definition digits_value :: "string \<Rightarrow> nat" where
  "digits_value ds = foldl (\<lambda>n c. 10 * n + digit_value c) 0 ds"

text \<open>\<open>std::to_string\<close> of an unsigned number.\<close>

fun to_string :: "nat \<Rightarrow> string" where
  "to_string n = (if n < 10 then [char_of (48 + n)] else to_string (n div 10) @ [char_of (48 + n mod 10)])"

declare to_string.simps [simp del]

definition quoted :: "string \<Rightarrow> string" where
  "quoted s = CHR 0x27 # s @ [CHR 0x27]"

definition is_blank :: "char \<Rightarrow> bool" where
  "is_blank c = (c \<in> {CHR '' '', CHR 0x09, CHR 0x0D, CHR 0x0A})"

definition Trim :: "string \<Rightarrow> string" where
  "Trim s = rev (dropWhile is_blank (rev (dropWhile is_blank s)))"

text \<open>The parts before and after the first occurrence of \<open>..\<close>.\<close>

fun find_dots :: "string \<Rightarrow> (string \<times> string) option" where
  "find_dots (c # d # s) =
     (if c = CHR ''.'' \<and> d = CHR ''.'' then Some ([], s)
      else case find_dots (d # s) of None \<Rightarrow> None | Some (l, r) \<Rightarrow> Some (c # l, r))"
| "find_dots _ = None"

definition SplitRange :: "string \<Rightarrow> (string \<times> string) option" where
  "SplitRange s =
     (case find_dots s of
        None \<Rightarrow> None
      | Some (lo, hi) \<Rightarrow>
          let lo = Trim lo; hi = Trim hi in if lo \<noteq> [] \<and> hi \<noteq> [] then Some (lo, hi) else None)"

subsection \<open>The expression evaluator\<close>

type_synonym symbols = "(string, u64) umap"

datatype 'a parse = Parsed 'a string | Failed string | NoFuel

definition SkipWs :: "string \<Rightarrow> string" where
  "SkipWs s = dropWhile isspace s"

definition PeekWord :: "string \<Rightarrow> string \<Rightarrow> bool" where
  "PeekWord kw s =
     (take (length kw) s = kw
      \<and> (case drop (length kw) s of [] \<Rightarrow> True | after # _ \<Rightarrow> \<not> isalnum after \<and> after \<noteq> CHR ''_''))"

definition is_ident_char :: "char \<Rightarrow> bool" where
  "is_ident_char c = (isalnum c \<or> c = CHR ''_'')"

text \<open>A literal or a name; \<open>c\<close> is its first character.\<close>

definition ParseNumber :: "string \<Rightarrow> u64 parse" where
  "ParseNumber s =
     (let ds = takeWhile isdigit s
      in if digits_value ds < 2 ^ 64 then Parsed (of_nat (digits_value ds)) (dropWhile isdigit s) else Failed ''invalid number'')"

definition ParseName :: "symbols \<Rightarrow> string \<Rightarrow> u64 parse" where
  "ParseName vars s =
     (let name = takeWhile is_ident_char s
      in case umap_find vars name of
           None \<Rightarrow> Failed (''unknown symbol: '' @ quoted name)
         | Some v \<Rightarrow> Parsed v (dropWhile is_ident_char s))"

definition is_addop :: "char \<Rightarrow> bool" where
  "is_addop c = (c = CHR ''+'' \<or> c = CHR ''-'')"

definition is_mulop :: "char \<Rightarrow> bool" where
  "is_mulop c = (c = CHR ''*'' \<or> c = CHR ''/'')"

definition add_op :: "char \<Rightarrow> u64 \<Rightarrow> u64 \<Rightarrow> u64" where
  "add_op c out rhs = (if c = CHR ''+'' then out + rhs else if rhs > out then 0 else out - rhs)"

definition mul_op :: "char \<Rightarrow> u64 \<Rightarrow> u64 \<Rightarrow> string + u64" where
  "mul_op c out rhs =
     (if c = CHR ''*'' then Inr (out * rhs)
      else if rhs = 0 then Inl ''division by zero'' else Inr (out div rhs))"

definition mod_op :: "u64 \<Rightarrow> u64 \<Rightarrow> string + u64" where
  "mod_op out rhs = (if rhs = 0 then Inl ''modulo by zero'' else Inr (out mod rhs))"

text \<open>The closing parenthesis of a factor.\<close>

definition ParseClose :: "u64 parse \<Rightarrow> u64 parse" where
  "ParseClose p =
     (case p of
        Parsed out r \<Rightarrow>
          (case SkipWs r of
             [] \<Rightarrow> Failed (''missing '' @ quoted '')'')
           | d # r' \<Rightarrow> if d = CHR '')'' then Parsed out r' else Failed (''missing '' @ quoted '')''))
      | e \<Rightarrow> e)"

text \<open>A factor that does not open a parenthesis.\<close>

definition ParseAtom :: "symbols \<Rightarrow> char \<Rightarrow> string \<Rightarrow> u64 parse" where
  "ParseAtom vars c r =
     (if isdigit c then ParseNumber (c # r)
      else if isalpha c \<or> c = CHR ''_'' then ParseName vars (c # r)
      else Failed (''unexpected character '' @ quoted [c]))"

definition parsed_then :: "u64 parse \<Rightarrow> (u64 \<Rightarrow> string \<Rightarrow> u64 parse) \<Rightarrow> u64 parse" where
  "parsed_then p f = (case p of Parsed out r \<Rightarrow> f out r | e \<Rightarrow> e)"

definition or_failed :: "string + u64 \<Rightarrow> (u64 \<Rightarrow> u64 parse) \<Rightarrow> u64 parse" where
  "or_failed x f = (case x of Inl e \<Rightarrow> Failed e | Inr v \<Rightarrow> f v)"

function (sequential) ParseExpr :: "nat \<Rightarrow> symbols \<Rightarrow> string \<Rightarrow> u64 parse"
  and expr_loop :: "nat \<Rightarrow> symbols \<Rightarrow> u64 \<Rightarrow> string \<Rightarrow> u64 parse"
  and ParseTerm :: "nat \<Rightarrow> symbols \<Rightarrow> string \<Rightarrow> u64 parse"
  and term_loop :: "nat \<Rightarrow> symbols \<Rightarrow> u64 \<Rightarrow> string \<Rightarrow> u64 parse"
  and ParseFactor :: "nat \<Rightarrow> symbols \<Rightarrow> string \<Rightarrow> u64 parse" where
  "ParseExpr 0 vars s = NoFuel"
| "ParseExpr (Suc n) vars s = parsed_then (ParseTerm n vars s) (expr_loop n vars)"
| "expr_loop 0 vars out s = NoFuel"
| "expr_loop (Suc n) vars out s =
     (case SkipWs s of
        [] \<Rightarrow> Parsed out []
      | c # r \<Rightarrow>
          if is_addop c
          then parsed_then (ParseTerm n vars r) (\<lambda>rhs. expr_loop n vars (add_op c out rhs))
          else Parsed out (c # r))"
| "ParseTerm 0 vars s = NoFuel"
| "ParseTerm (Suc n) vars s = parsed_then (ParseFactor n vars s) (term_loop n vars)"
| "term_loop 0 vars out s = NoFuel"
| "term_loop (Suc n) vars out s =
     (case SkipWs s of
        [] \<Rightarrow> Parsed out []
      | c # r \<Rightarrow>
          if is_mulop c
          then parsed_then (ParseFactor n vars r)
                 (\<lambda>rhs r'. or_failed (mul_op c out rhs) (\<lambda>v. term_loop n vars v r'))
          else if PeekWord ''mod'' (c # r)
          then parsed_then (ParseFactor n vars (drop 3 (c # r)))
                 (\<lambda>rhs r'. or_failed (mod_op out rhs) (\<lambda>v. term_loop n vars v r'))
          else Parsed out (c # r))"
| "ParseFactor 0 vars s = NoFuel"
| "ParseFactor (Suc n) vars s =
     (case SkipWs s of
        [] \<Rightarrow> Failed ''unexpected end of expression''
      | c # r \<Rightarrow> if c = CHR ''('' then ParseClose (ParseExpr n vars r) else ParseAtom vars c r)"
  by pat_completeness auto
termination
  by (relation "measure (\<lambda>x. case x of Inl (Inl (n, _)) \<Rightarrow> n | Inl (Inr (n, _)) \<Rightarrow> n
        | Inr (Inl (n, _)) \<Rightarrow> n | Inr (Inr (Inl (n, _))) \<Rightarrow> n | Inr (Inr (Inr (n, _))) \<Rightarrow> n)") auto

text \<open>The fuel a call on an input of length \<open>n\<close> needs.\<close>

definition expr_fuel :: "nat \<Rightarrow> nat" where
  "expr_fuel n = 3 * n + 3"

definition Run :: "symbols \<Rightarrow> string \<Rightarrow> (string + u64) result" where
  "Run vars expr =
     (case ParseExpr (expr_fuel (length (SkipWs expr))) vars (SkipWs expr) of
        NoFuel \<Rightarrow> Inl Diverges
      | Failed e \<Rightarrow> Inr (Inl e)
      | Parsed out r \<Rightarrow>
          if SkipWs r \<noteq> [] then Inr (Inl (''trailing characters in expression: '' @ quoted expr)) else Inr (Inr out))"

subsection \<open>The file\<close>

record Dim =
  dim_var :: string
  loExpr :: string
  hiExpr :: string

record ProtocolConfig =
  m_profilePath :: string
  m_stack :: "(string, string) umap"
  m_param :: "(string \<times> string) list"
  m_dims :: "Dim list"
  m_transfer :: "(string, string) umap"
  m_startup :: string
  m_perStepDelay :: string
  cfg_complete :: string
  m_collective :: string
  m_algorithm :: string
  m_topology :: string
  m_currentSection :: string

definition ProtocolConfig_Clear :: ProtocolConfig where
  "ProtocolConfig_Clear =
     \<lparr>m_profilePath = '''', m_stack = [], m_param = [], m_dims = [], m_transfer = [], m_startup = ''auto'',
      m_perStepDelay = ''0'', cfg_complete = ''all'', m_collective = '''', m_algorithm = '''', m_topology = '''',
      m_currentSection = ''''\<rparr>"

definition starts_with :: "string \<Rightarrow> string \<Rightarrow> bool" where
  "starts_with p s = (take (length p) s = p)"

definition line_error :: "nat \<Rightarrow> string \<Rightarrow> string" where
  "line_error lineNo msg = ''line '' @ to_string lineNo @ '': '' @ msg"

text \<open>An entry \<open>key = val\<close> of the \<open>[op]\<close> section.\<close>

definition op_entry :: "nat \<Rightarrow> string \<Rightarrow> string \<Rightarrow> ProtocolConfig \<Rightarrow> string + ProtocolConfig" where
  "op_entry lineNo key val cfg =
     (if starts_with ''param.'' key then Inr (cfg\<lparr>m_param := m_param cfg @ [(drop 6 key, val)]\<rparr>)
      else if starts_with ''replicate.'' key then
        (case SplitRange val of
           None \<Rightarrow> Inl (line_error lineNo (''replicate.'' @ drop 10 key @ '' must be '' @ quoted ''lo .. hi''))
         | Some (lo, hi) \<Rightarrow> Inr (cfg\<lparr>m_dims := m_dims cfg @ [\<lparr>dim_var = drop 10 key, loExpr = lo, hiExpr = hi\<rparr>]\<rparr>))
      else if starts_with ''transfer.'' key then Inr (cfg\<lparr>m_transfer := umap_put key val (m_transfer cfg)\<rparr>)
      else if key = ''startup'' then Inr (cfg\<lparr>m_startup := val\<rparr>)
      else if key = ''per_step_delay'' then Inr (cfg\<lparr>m_perStepDelay := val\<rparr>)
      else if key = ''complete'' then Inr (cfg\<lparr>cfg_complete := val\<rparr>)
      else if key = ''collective'' then Inr (cfg\<lparr>m_collective := val\<rparr>)
      else if key = ''algorithm'' then Inr (cfg\<lparr>m_algorithm := val\<rparr>)
      else if key = ''topology'' then Inr (cfg\<lparr>m_topology := val\<rparr>)
      else Inl (line_error lineNo (''unknown op key '' @ quoted key)))"

definition load_line :: "nat \<Rightarrow> string \<Rightarrow> ProtocolConfig \<Rightarrow> string + ProtocolConfig" where
  "load_line lineNo line cfg =
     (let t = Trim line in
      if t = [] \<or> hd t = CHR ''#'' \<or> hd t = CHR '';'' then Inr cfg
      else if hd t = CHR ''['' \<and> last t = CHR '']''
      then Inr (cfg\<lparr>m_currentSection := Trim (take (length t - 2) (drop 1 t))\<rparr>)
      else if CHR ''='' \<notin> set t then Inl (line_error lineNo ''expected key = value'')
      else let key = Trim (takeWhile (\<lambda>c. c \<noteq> CHR ''='') t);
               val = Trim (takeWhile (\<lambda>c. c \<noteq> CHR ''#'') (drop 1 (dropWhile (\<lambda>c. c \<noteq> CHR ''='') t)))
           in if key = [] then Inr cfg
              else if m_currentSection cfg = ''stack'' then
                (if key = ''profile'' then Inr (cfg\<lparr>m_profilePath := val\<rparr>)
                 else Inr (cfg\<lparr>m_stack := umap_put key val (m_stack cfg)\<rparr>))
              else if m_currentSection cfg = ''op'' then op_entry lineNo key val cfg
              else Inr cfg)"

fun load_lines :: "nat \<Rightarrow> string list \<Rightarrow> ProtocolConfig \<Rightarrow> string + ProtocolConfig" where
  "load_lines lineNo [] cfg = Inr cfg"
| "load_lines lineNo (line # lines) cfg =
     (case load_line (Suc lineNo) line cfg of Inl e \<Rightarrow> Inl e | Inr cfg \<Rightarrow> load_lines (Suc lineNo) lines cfg)"

definition Load :: "string \<Rightarrow> string list option \<Rightarrow> string + ProtocolConfig" where
  "Load path file =
     (case file of
        None \<Rightarrow> Inl (''cannot open config: '' @ path)
      | Some lines \<Rightarrow>
          (case load_lines 0 lines ProtocolConfig_Clear of
             Inl e \<Rightarrow> Inl e
           | Inr cfg \<Rightarrow>
               let hasAxes = (m_collective cfg \<noteq> [] \<or> m_algorithm cfg \<noteq> [])
               in if hasAxes \<and> (m_collective cfg = [] \<or> m_algorithm cfg = [])
                  then Inl ''[op] collective= and algorithm= must both be set (or neither)''
                  else if \<not> hasAxes \<and> m_transfer cfg = []
                  then Inl ''config has no transfer.* entries in [op] and no collective=/algorithm=''
                  else Inr cfg))"

subsection \<open>The evaluator always returns\<close>

text \<open>The parse came to an end and left at most \<open>k\<close> characters.\<close>

definition fine :: "nat \<Rightarrow> u64 parse \<Rightarrow> bool" where
  "fine k p = (case p of NoFuel \<Rightarrow> False | Failed _ \<Rightarrow> True | Parsed _ r \<Rightarrow> length r \<le> k)"

lemma fine_simps [simp]: "fine k (Failed e)" "fine k (Parsed v r) = (length r \<le> k)" "\<not> fine k NoFuel"
  by (simp_all add: fine_def)

lemma fine_then: "fine k p \<Longrightarrow> (\<And>out r. length r \<le> k \<Longrightarrow> fine k' (f out r)) \<Longrightarrow> fine k' (parsed_then p f)"
  by (cases p) (simp_all add: parsed_then_def)

lemma fine_or_failed: "(\<And>v. fine k (f v)) \<Longrightarrow> fine k (or_failed x f)"
  by (cases x) (simp_all add: or_failed_def)

lemma length_SkipWs: "length (SkipWs s) \<le> length s"
  by (simp add: SkipWs_def length_dropWhile_le)

lemma fine_close: "fine (Suc k) p \<Longrightarrow> fine k (ParseClose p)"
proof (cases p)
  case (Parsed out r)
  assume "fine (Suc k) p"
  then have "length (SkipWs r) \<le> Suc k" using Parsed length_SkipWs [of r] by simp
  then show ?thesis using Parsed by (auto simp: ParseClose_def split: list.splits)
qed (simp_all add: ParseClose_def)

lemma dropWhile_head: "P c \<Longrightarrow> length (dropWhile P (c # r)) \<le> length r"
  by (simp add: length_dropWhile_le)

lemma fine_atom: "fine (length r) (ParseAtom vars c r)"
  using dropWhile_head [of isdigit c r] dropWhile_head [of is_ident_char c r]
  by (auto simp: ParseAtom_def ParseNumber_def ParseName_def Let_def is_ident_char_def isalnum_def split: option.splits)

lemma parse_fine:
  "(\<forall>s. 3 * length s + 3 \<le> n \<longrightarrow> fine (length s - 1) (ParseExpr n vars s))
   \<and> (\<forall>s. 3 * length s + 2 \<le> n \<longrightarrow> fine (length s - 1) (ParseTerm n vars s))
   \<and> (\<forall>s. 3 * length s + 1 \<le> n \<longrightarrow> fine (length s - 1) (ParseFactor n vars s))
   \<and> (\<forall>out s. 3 * length s + 1 \<le> n \<longrightarrow> fine (length s) (expr_loop n vars out s))
   \<and> (\<forall>out s. 3 * length s + 1 \<le> n \<longrightarrow> fine (length s) (term_loop n vars out s))"
proof (induction n)
  case (Suc n)
  have E: "3 * length s + 3 \<le> n \<Longrightarrow> fine (length s - 1) (ParseExpr n vars s)"
    and T: "3 * length s + 2 \<le> n \<Longrightarrow> fine (length s - 1) (ParseTerm n vars s)"
    and F: "3 * length s + 1 \<le> n \<Longrightarrow> fine (length s - 1) (ParseFactor n vars s)"
    and EL: "3 * length s + 1 \<le> n \<Longrightarrow> fine (length s) (expr_loop n vars out s)"
    and TL: "3 * length s + 1 \<le> n \<Longrightarrow> fine (length s) (term_loop n vars out s)" for s out
    using Suc.IH by blast+
  have mono: "fine k p \<Longrightarrow> k \<le> k' \<Longrightarrow> fine k' p" for k k' p by (cases p) simp_all
  have "fine (length s - 1) (ParseExpr (Suc n) vars s)" if "3 * length s + 3 \<le> Suc n" for s
    using that T [of s] by (auto intro!: fine_then [of "length s - 1"] intro: mono [OF EL])
  moreover have "fine (length s - 1) (ParseTerm (Suc n) vars s)" if "3 * length s + 2 \<le> Suc n" for s
    using that F [of s] by (auto intro!: fine_then [of "length s - 1"] intro: mono [OF TL])
  moreover have "fine (length s - 1) (ParseFactor (Suc n) vars s)" if "3 * length s + 1 \<le> Suc n" for s
  proof (cases "SkipWs s")
    case (Cons c r)
    then have len: "Suc (length r) \<le> length s" using length_SkipWs [of s] by simp
    have "fine (length r) (ParseClose (ParseExpr n vars r))"
      using E [of r] len that by (intro fine_close) (auto intro: mono)
    moreover have "fine (length r) (ParseAtom vars c r)" by (rule fine_atom)
    ultimately show ?thesis using Cons len by (auto intro: mono)
  qed simp
  moreover have "fine (length s) (expr_loop (Suc n) vars out s)" if "3 * length s + 1 \<le> Suc n" for out s
  proof (cases "SkipWs s")
    case (Cons c r)
    then have len: "Suc (length r) \<le> length s" using length_SkipWs [of s] by simp
    have "fine (length s) (parsed_then (ParseTerm n vars r) (\<lambda>rhs. expr_loop n vars (add_op c out rhs)))"
      using len that by (intro fine_then [OF T]) (auto intro!: mono [OF EL])
    then show ?thesis using Cons len by auto
  qed simp
  moreover have "fine (length s) (term_loop (Suc n) vars out s)" if "3 * length s + 1 \<le> Suc n" for out s
  proof (cases "SkipWs s")
    case (Cons c r)
    then have len: "Suc (length r) \<le> length s" using length_SkipWs [of s] by simp
    have step: "fine (length s) (parsed_then (ParseFactor n vars r') (\<lambda>rhs r''. or_failed (f rhs) (\<lambda>v. term_loop n vars v r'')))"
      if "length r' \<le> length r" for r' f
      using len that \<open>3 * length s + 1 \<le> Suc n\<close>
      by (intro fine_then [OF F] fine_or_failed) (auto intro!: mono [OF TL])
    from step [of r] step [of "drop 3 (c # r)"] Cons len show ?thesis by auto
  qed simp
  ultimately show ?case by blast
qed simp

lemma Run_returns: "\<exists>r. Run vars expr = Inr r"
  using parse_fine [of "expr_fuel (length (SkipWs expr))" vars]
  by (auto simp: Run_def expr_fuel_def split: parse.splits)

subsection \<open>The grammar\<close>

text \<open>
  The grammar in the comment above the evaluator, as syntax trees; literals and names are
  kept as they are spelled.
\<close>

datatype addop = Plus | Minus
datatype mulop = Times | Divide | Modulo

datatype factor_ast = Num string | Name string | Paren expr_ast
  and term_ast = Term factor_ast "(mulop \<times> factor_ast) list"
  and expr_ast = Expr term_ast "(addop \<times> term_ast) list"

text \<open>The characters by their codes, and the tokens of an expression.\<close>

definition letter_char :: "char \<Rightarrow> bool" where
  "letter_char c = (of_char c \<in> {65..90 :: nat} \<union> {97..122} \<or> c = CHR ''_'')"

definition numeral_char :: "char \<Rightarrow> bool" where
  "numeral_char c = (of_char c \<in> {48..57 :: nat})"

definition white_char :: "char \<Rightarrow> bool" where
  "white_char c = (of_char c = (32 :: nat) \<or> of_char c \<in> {9..13 :: nat})"

definition number_token :: "string \<Rightarrow> bool" where
  "number_token t = (t \<noteq> [] \<and> list_all numeral_char t)"

definition name_token :: "string \<Rightarrow> bool" where
  "name_token t = (t \<noteq> [] \<and> letter_char (hd t) \<and> list_all (\<lambda>c. letter_char c \<or> numeral_char c) t)"

definition lexeme :: "string \<Rightarrow> bool" where
  "lexeme t = (t \<in> {''+'', ''-'', ''*'', ''/'', ''('', '')''} \<or> number_token t \<or> name_token t)"

fun addop_token :: "addop \<Rightarrow> string" where
  "addop_token Plus = ''+''"
| "addop_token Minus = ''-''"

fun mulop_token :: "mulop \<Rightarrow> string" where
  "mulop_token Times = ''*''"
| "mulop_token Divide = ''/''"
| "mulop_token Modulo = ''mod''"

fun tokens_factor :: "factor_ast \<Rightarrow> string list"
  and tokens_term :: "term_ast \<Rightarrow> string list"
  and tokens_expr :: "expr_ast \<Rightarrow> string list" where
  "tokens_factor (Num ds) = [ds]"
| "tokens_factor (Name x) = [x]"
| "tokens_factor (Paren e) = ''('' # tokens_expr e @ ['')'']"
| "tokens_term (Term f fs) = tokens_factor f @ concat (map (\<lambda>(p, f). mulop_token p # tokens_factor f) fs)"
| "tokens_expr (Expr t ts) = tokens_term t @ concat (map (\<lambda>(p, t). addop_token p # tokens_term t) ts)"

text \<open>
  A text spells a list of tokens when it consists of them in order, with any white space
  before, between and after them, none included, as long as a word does not run into
  letters or digits that follow and a number not into digits.
\<close>

definition separated :: "string \<Rightarrow> string \<Rightarrow> bool" where
  "separated t s =
     (s = [] \<or> (letter_char (hd t) \<longrightarrow> \<not> letter_char (hd s) \<and> \<not> numeral_char (hd s)) \<and>
                (numeral_char (hd t) \<longrightarrow> \<not> numeral_char (hd s)))"

inductive spells :: "string list \<Rightarrow> string \<Rightarrow> bool" where
  spells_end: "list_all white_char b \<Longrightarrow> spells [] b"
| spells_token: "list_all white_char b \<Longrightarrow> lexeme t \<Longrightarrow> separated t s \<Longrightarrow> spells ts s \<Longrightarrow> spells (t # ts) (b @ t @ s)"

inductive_cases spells_NilE: "spells [] s"
inductive_cases spells_ConsE: "spells (t # ts) s"

text \<open>
  Left-associative arithmetic on natural numbers below \<open>2 ^ 64\<close>: sums and products are
  reduced, a difference stops at zero; the first error from the left is the result.
\<close>

fun addop_value :: "addop \<Rightarrow> nat \<Rightarrow> nat \<Rightarrow> string + nat" where
  "addop_value Plus x y = Inr ((x + y) mod 2 ^ 64)"
| "addop_value Minus x y = Inr (x - y)"

fun mulop_value :: "mulop \<Rightarrow> nat \<Rightarrow> nat \<Rightarrow> string + nat" where
  "mulop_value Times x y = Inr (x * y mod 2 ^ 64)"
| "mulop_value Divide x y = (if y = 0 then Inl ''division by zero'' else Inr (x div y))"
| "mulop_value Modulo x y = (if y = 0 then Inl ''modulo by zero'' else Inr (x mod y))"

fun or_else :: "string + 'a \<Rightarrow> ('a \<Rightarrow> string + 'b) \<Rightarrow> string + 'b" where
  "or_else (Inl e) f = Inl e"
| "or_else (Inr x) f = f x"

fun chain :: "('p \<Rightarrow> nat \<Rightarrow> nat \<Rightarrow> string + nat) \<Rightarrow> nat \<Rightarrow> ('p \<times> (string + nat)) list \<Rightarrow> string + nat" where
  "chain ap acc [] = Inr acc"
| "chain ap acc ((p, x) # xs) = or_else x (\<lambda>y. or_else (ap p acc y) (\<lambda>v. chain ap v xs))"

text \<open>A decimal number, digit by digit from the right.\<close>

fun decimal :: "string \<Rightarrow> nat" where
  "decimal [] = 0"
| "decimal (c # cs) = (of_char c - 48) * 10 ^ length cs + decimal cs"

fun value_factor :: "symbols \<Rightarrow> factor_ast \<Rightarrow> string + nat"
  and value_term :: "symbols \<Rightarrow> term_ast \<Rightarrow> string + nat"
  and value_expr :: "symbols \<Rightarrow> expr_ast \<Rightarrow> string + nat" where
  "value_factor vars (Num ds) = (if decimal ds < 2 ^ 64 then Inr (decimal ds) else Inl ''invalid number'')"
| "value_factor vars (Name x) =
     (case umap_find vars x of None \<Rightarrow> Inl (''unknown symbol: '' @ quoted x) | Some v \<Rightarrow> Inr (unat v))"
| "value_factor vars (Paren e) = value_expr vars e"
| "value_term vars (Term f fs) =
     or_else (value_factor vars f) (\<lambda>v. chain mulop_value v (map (\<lambda>(p, f). (p, value_factor vars f)) fs))"
| "value_expr vars (Expr t ts) =
     or_else (value_term vars t) (\<lambda>v. chain addop_value v (map (\<lambda>(p, t). (p, value_term vars t)) ts))"

fun wf_factor :: "factor_ast \<Rightarrow> bool"
  and wf_term :: "term_ast \<Rightarrow> bool"
  and wf_expr :: "expr_ast \<Rightarrow> bool" where
  "wf_factor (Num ds) = number_token ds"
| "wf_factor (Name x) = name_token x"
| "wf_factor (Paren e) = wf_expr e"
| "wf_term (Term f fs) = (wf_factor f \<and> (\<forall>(p, f) \<in> set fs. wf_factor f))"
| "wf_expr (Expr t ts) = (wf_term t \<and> (\<forall>(p, t) \<in> set ts. wf_term t))"

subsection \<open>The reader's character classes\<close>

lemma char_codes: "c \<in> set cs \<longleftrightarrow> (of_char c :: nat) \<in> set (map of_char cs)"
  by (auto simp: of_char_eq_iff)

lemma char_tables:
  "map of_char ''0123456789'' = [48..<58 :: nat]"
  "map of_char ''abcdefghijklmnopqrstuvwxyz'' = [97..<123 :: nat]"
  "map of_char ''ABCDEFGHIJKLMNOPQRSTUVWXYZ'' = [65..<91 :: nat]"
  by code_simp+

lemma char_classes:
  "isdigit c \<longleftrightarrow> numeral_char c" "isspace c \<longleftrightarrow> white_char c" "isalpha c \<or> c = CHR ''_'' \<longleftrightarrow> letter_char c"
proof -
  show "isdigit c \<longleftrightarrow> numeral_char c"
    by (simp only: isdigit_def numeral_char_def char_codes char_tables set_upt) auto
  show "isalpha c \<or> c = CHR ''_'' \<longleftrightarrow> letter_char c"
    by (simp only: isalpha_def letter_char_def char_codes char_tables set_upt) auto
  have "isspace c \<longleftrightarrow> (of_char c :: nat) \<in> set [32, 9, 10, 11, 12, 13]"
    using char_codes [of c "[CHR '' '', CHR 0x09, CHR 0x0A, CHR 0x0B, CHR 0x0C, CHR 0x0D]"]
    by (simp only: isspace_def) simp
  then show "isspace c \<longleftrightarrow> white_char c" by (auto simp: white_char_def)
qed

lemma ident_class: "is_ident_char c \<longleftrightarrow> letter_char c \<or> numeral_char c"
  using char_classes(1,3) [of c] by (auto simp: is_ident_char_def isalnum_def)

lemma token_chars: "lexeme t \<Longrightarrow> t \<noteq> [] \<and> \<not> white_char (hd t)"
  by (auto simp: lexeme_def number_token_def name_token_def letter_char_def numeral_char_def white_char_def neq_Nil_conv)

lemma white_skip: "list_all white_char b \<Longrightarrow> SkipWs (b @ s) = SkipWs s"
  by (simp add: SkipWs_def list_all_iff char_classes dropWhile_append2 [of b isspace])

lemma SkipWs_Nil [simp]: "SkipWs [] = []"
  by (simp add: SkipWs_def)

lemma SkipWs_idem [simp]: "SkipWs (SkipWs s) = SkipWs s"
  by (simp add: SkipWs_def)

lemma SkipWs_token: "lexeme t \<Longrightarrow> SkipWs (t @ s) = t @ s"
  using token_chars [of t] by (cases t) (auto simp: SkipWs_def char_classes)

lemma white_prefix: "\<exists>b. list_all white_char b \<and> s = b @ SkipWs s"
  by (rule exI [of _ "takeWhile isspace s"]) (auto simp: SkipWs_def list_all_iff char_classes dest: set_takeWhileD)

text \<open>Reading a text token by token.\<close>

lemma spells_Nil [simp]: "spells [] s \<longleftrightarrow> SkipWs s = []"
proof
  show "spells [] s \<Longrightarrow> SkipWs s = []" using white_skip [of s "[]"] by (auto elim: spells_NilE)
  show "SkipWs s = [] \<Longrightarrow> spells [] s" using white_prefix [of s] by (auto intro: spells_end)
qed

lemma spells_Cons [simp]:
  "spells (t # ts) s \<longleftrightarrow> (\<exists>k. SkipWs s = t @ k \<and> lexeme t \<and> separated t k \<and> spells ts k)"
proof
  show "spells (t # ts) s \<Longrightarrow> \<exists>k. SkipWs s = t @ k \<and> lexeme t \<and> separated t k \<and> spells ts k"
    by (erule spells_ConsE) (use white_skip SkipWs_token in auto)
  assume "\<exists>k. SkipWs s = t @ k \<and> lexeme t \<and> separated t k \<and> spells ts k"
  then obtain k where k: "SkipWs s = t @ k" "lexeme t" "separated t k" "spells ts k" by blast
  obtain b where "list_all white_char b" "s = b @ t @ k" using white_prefix [of s] k(1) by auto
  then show "spells (t # ts) s" using spells_token [OF _ k(2-4)] by simp
qed

lemma spells_skip [simp]: "spells ts (SkipWs s) \<longleftrightarrow> spells ts s"
  by (cases ts) simp_all

lemma separatedD:
  "separated t s \<Longrightarrow> letter_char (hd t) \<Longrightarrow> takeWhile is_ident_char s = [] \<and> dropWhile is_ident_char s = s"
  "separated t s \<Longrightarrow> numeral_char (hd t) \<Longrightarrow> takeWhile isdigit s = [] \<and> dropWhile isdigit s = s"
  by (cases s; simp add: separated_def ident_class char_classes)+

lemma PeekWord_iff: "list_all is_ident_char kw \<Longrightarrow> PeekWord kw s \<longleftrightarrow> takeWhile is_ident_char s = kw"
proof (induction kw arbitrary: s)
  case Nil
  then show ?case by (cases s) (auto simp: PeekWord_def is_ident_char_def)
next
  case (Cons c kw)
  then show ?case by (cases s) (auto simp: PeekWord_def)
qed

lemma mod_ident: "list_all is_ident_char ''mod''"
  by (simp add: ident_class letter_char_def)

lemma word_taken:
  "name_token t \<Longrightarrow> separated t k \<Longrightarrow> takeWhile is_ident_char (t @ k) = t \<and> dropWhile is_ident_char (t @ k) = k"
  using separatedD(1) [of t k] by (simp add: name_token_def list_all_iff ident_class)

lemma peek_mod:
  assumes "lexeme t" "separated t k"
  shows "PeekWord ''mod'' (t @ k) \<longleftrightarrow> t = ''mod''"
proof -
  have "takeWhile is_ident_char (t @ k) = ''mod'' \<longleftrightarrow> t = ''mod''"
  proof (cases "name_token t")
    case True
    then show ?thesis using word_taken [OF True assms(2)] by simp
  next
    case False
    then have t: "t \<noteq> []" "\<not> letter_char (hd t)"
      using assms(1) by (auto simp: lexeme_def number_token_def letter_char_def numeral_char_def neq_Nil_conv)
    moreover have "letter_char (CHR ''m'')" by (simp add: letter_char_def)
    ultimately have "takeWhile is_ident_char (t @ k) \<noteq> ''mod''" "t \<noteq> ''mod''"
      by (auto simp: neq_Nil_conv split: if_splits)
    then show ?thesis by simp
  qed
  then show ?thesis by (simp add: PeekWord_iff [OF mod_ident])
qed

text \<open>The two sides of a number: the library's digit loop and the positional value.\<close>

lemma digits_value_decimal: "digits_value ds = decimal ds"
proof -
  have "foldl (\<lambda>n c. 10 * n + digit_value c) n ds = n * 10 ^ length ds + decimal ds" for n
    by (induction ds arbitrary: n) (simp_all add: digit_value_def algebra_simps)
  from this [of 0] show ?thesis by (simp add: digits_value_def)
qed

definition answer :: "string + nat \<Rightarrow> string \<Rightarrow> u64 parse" where
  "answer v k = (case v of Inl e \<Rightarrow> Failed e | Inr x \<Rightarrow> Parsed (of_nat x) k)"

lemma answer_simps [simp]: "answer (Inl e) k = Failed e" "answer (Inr x) k = Parsed (of_nat x) k"
  by (simp_all add: answer_def)

lemma parsed_then_answer [simp]:
  "parsed_then (answer v k) f = (case v of Inl e \<Rightarrow> Failed e | Inr x \<Rightarrow> f (of_nat x) k)"
  by (cases v) (simp_all add: parsed_then_def)

lemma parsed_then_simps [simp]: "parsed_then (Failed e) f = Failed e" "parsed_then (Parsed x k) f = f x k"
  by (simp_all add: parsed_then_def)

lemma ParseAtom_number:
  assumes "number_token ds" "separated ds k"
  shows "ParseAtom vars (hd ds) (tl ds @ k) = answer (value_factor vars (Num ds)) k"
proof -
  have d: "ds \<noteq> []" "numeral_char (hd ds)" "\<And>c. c \<in> set ds \<Longrightarrow> isdigit c"
    using assms(1) by (auto simp: number_token_def list_all_iff char_classes)
  then have "takeWhile isdigit (ds @ k) = ds \<and> dropWhile isdigit (ds @ k) = k"
    using separatedD(2) [OF assms(2)] by simp
  then show ?thesis using d
    by (simp add: ParseAtom_def ParseNumber_def Let_def digits_value_decimal flip: append_Cons)
qed

lemma ParseAtom_name:
  assumes "name_token x" "separated x k"
  shows "ParseAtom vars (hd x) (tl x @ k) = answer (value_factor vars (Name x)) k"
proof -
  have "x \<noteq> []" "letter_char (hd x)" "\<not> isdigit (hd x)" "isalpha (hd x) \<or> hd x = CHR ''_''"
    using assms(1) by (auto simp: name_token_def char_classes letter_char_def numeral_char_def)
  then show ?thesis using word_taken [OF assms]
    by (simp add: ParseAtom_def ParseName_def Let_def split: option.splits flip: append_Cons)
qed

lemma chain_bound:
  assumes step: "\<And>p x y z. ap p x y = Inr z \<Longrightarrow> x < (m :: nat) \<Longrightarrow> z < m"
  shows "chain ap x xs = Inr z \<Longrightarrow> x < m \<Longrightarrow> z < m"
proof (induction xs arbitrary: x)
  case (Cons px xs)
  obtain p e where px: "px = (p, e)" by fastforce
  from Cons.prems(1) obtain y u where u: "ap p x y = Inr u" "chain ap u xs = Inr z"
    by (cases e; cases "ap p x (projr e)") (auto simp: px)
  show ?case by (rule Cons.IH [OF u(2) step [OF u(1) Cons.prems(2)]])
qed simp

lemma value_bound:
  "value_factor vars f = Inr v \<Longrightarrow> v < 2 ^ 64" "value_term vars t = Inr v \<Longrightarrow> v < 2 ^ 64" "value_expr vars e = Inr v \<Longrightarrow> v < 2 ^ 64"
proof -
  have unat: "unat (w :: u64) < 18446744073709551616" for w using unsigned_less [of w, where ?'a = nat] by simp
  have mul: "mulop_value p x y = Inr z \<Longrightarrow> x < 2 ^ 64 \<Longrightarrow> z < 2 ^ 64" for p x y z
    by (cases p) (auto simp: le_less_trans [OF div_le_dividend] le_less_trans [OF mod_less_eq_dividend] split: if_splits)
  have add: "addop_value q x y = Inr z \<Longrightarrow> x < 2 ^ 64 \<Longrightarrow> z < 2 ^ 64" for q x y z by (cases q) auto
  show "value_factor vars f = Inr v \<Longrightarrow> v < 2 ^ 64" "value_term vars t = Inr v \<Longrightarrow> v < 2 ^ 64" "value_expr vars e = Inr v \<Longrightarrow> v < 2 ^ 64"
  proof (induction f and t and e arbitrary: v and v and v)
    case (Term f fs)
    then obtain x where "value_factor vars f = Inr x" "chain mulop_value x (map (\<lambda>(p, f). (p, value_factor vars f)) fs) = Inr v"
      by (cases "value_factor vars f") auto
    then show ?case using chain_bound [of mulop_value "2 ^ 64" x _ v] mul Term.IH(1) by metis
  next
    case (Expr t ts)
    then obtain x where "value_term vars t = Inr x" "chain addop_value x (map (\<lambda>(p, t). (p, value_term vars t)) ts) = Inr v"
      by (cases "value_term vars t") auto
    then show ?case using chain_bound [of addop_value "2 ^ 64" x _ v] add Expr.IH(1) by metis
  qed (auto simp: unat split: if_splits option.splits)
qed

text \<open>The operators of the evaluator and those of the grammar.\<close>

lemma unat_u64: "x < 2 ^ 64 \<Longrightarrow> unat (of_nat x :: u64) = x"
  by (simp add: unat_of_nat)

lemma of_nat_u64: "(of_nat (x mod 2 ^ 64) :: u64) = of_nat x"
  by (simp add: word_unat_eq_iff unat_of_nat)

lemma div_mod_u64:
  assumes "x < 2 ^ 64" "y < 2 ^ 64"
  shows "(of_nat x div of_nat y :: u64) = of_nat (x div y)" "(of_nat x mod of_nat y :: u64) = of_nat (x mod y)"
proof -
  have le: "x div y < 2 ^ 64" "x mod y < 2 ^ 64"
    using assms(1) le_less_trans [OF div_le_dividend] le_less_trans [OF mod_less_eq_dividend] by blast+
  have "unat (of_nat x div of_nat y :: u64) = x div y" "unat (of_nat x mod of_nat y :: u64) = x mod y"
    by (simp_all only: unat_div unat_mod unat_u64 assms)
  then show "(of_nat x div of_nat y :: u64) = of_nat (x div y)" "(of_nat x mod of_nat y :: u64) = of_nat (x mod y)"
    unfolding word_unat_eq_iff by (simp_all only: unat_u64 le)
qed

lemma mul_op_value:
  assumes "x < 2 ^ 64" "y < 2 ^ 64"
  shows "mul_op CHR ''*'' (of_nat x) (of_nat y) = map_sum id of_nat (mulop_value Times x y)"
    "mul_op CHR ''/'' (of_nat x) (of_nat y) = map_sum id of_nat (mulop_value Divide x y)"
    "mod_op (of_nat x) (of_nat y) = map_sum id of_nat (mulop_value Modulo x y)"
proof -
  have z: "(of_nat y :: u64) = 0 \<longleftrightarrow> y = 0"
    by (subst word_unat_eq_iff) (simp only: unat_u64 assms unat_0)
  show "mul_op CHR ''*'' (of_nat x) (of_nat y) = map_sum id of_nat (mulop_value Times x y)"
    by (simp only: mul_op_def mulop_value.simps map_sum.simps of_nat_u64 of_nat_mult if_True simp_thms)
  show "mul_op CHR ''/'' (of_nat x) (of_nat y) = map_sum id of_nat (mulop_value Divide x y)"
    by (cases "y = 0") (simp_all add: mul_op_def z div_mod_u64(1) [OF assms])
  show "mod_op (of_nat x) (of_nat y) = map_sum id of_nat (mulop_value Modulo x y)"
    by (cases "y = 0") (simp_all add: mod_op_def z div_mod_u64(2) [OF assms])
qed

lemma add_op_value:
  assumes "x < 2 ^ 64" "y < 2 ^ 64"
  shows "addop_value p x y = Inr z \<Longrightarrow> add_op (hd (addop_token p)) (of_nat x) (of_nat y) = (of_nat z :: u64)"
proof -
  have "(of_nat x < (of_nat y :: u64)) \<longleftrightarrow> x < y" by (simp only: word_less_nat_alt unat_u64 assms)
  moreover have "y \<le> x \<Longrightarrow> (of_nat x - of_nat y :: u64) = of_nat (x - y)" by (simp add: of_nat_diff)
  moreover have "(of_nat x + of_nat y :: u64) = of_nat ((x + y) mod 2 ^ 64)" by (simp only: of_nat_u64 of_nat_add)
  ultimately show "addop_value p x y = Inr z \<Longrightarrow> add_op (hd (addop_token p)) (of_nat x) (of_nat y) = (of_nat z :: u64)"
    by (cases p) (auto simp: add_op_def)
qed

subsection \<open>A spelled expression is read as its tree\<close>

text \<open>The three claims of the induction; the tokens that follow do not continue the tree.\<close>

definition term_stop :: "string list \<Rightarrow> bool" where
  "term_stop ts = (ts = [] \<or> hd ts \<notin> {''*'', ''/'', ''mod''})"

definition expr_stop :: "string list \<Rightarrow> bool" where
  "expr_stop ts = (ts = [] \<or> hd ts = '')'')"

definition factor_ok :: "symbols \<Rightarrow> factor_ast \<Rightarrow> bool" where
  "factor_ok vars f = (\<forall>n ts s. wf_factor f \<longrightarrow> spells (tokens_factor f @ ts) s \<longrightarrow> 3 * length s + 1 \<le> n \<longrightarrow>
     (\<exists>k. spells ts k \<and> length k < length s \<and> ParseFactor n vars s = answer (value_factor vars f) k))"

definition term_ok :: "symbols \<Rightarrow> term_ast \<Rightarrow> bool" where
  "term_ok vars t = (\<forall>n ts s. wf_term t \<longrightarrow> spells (tokens_term t @ ts) s \<longrightarrow> term_stop ts \<longrightarrow> 3 * length s + 2 \<le> n \<longrightarrow>
     (\<exists>k. spells ts k \<and> length k < length s \<and> ParseTerm n vars s = answer (value_term vars t) k))"

definition expr_ok :: "symbols \<Rightarrow> expr_ast \<Rightarrow> bool" where
  "expr_ok vars e = (\<forall>n ts s. wf_expr e \<longrightarrow> spells (tokens_expr e @ ts) s \<longrightarrow> expr_stop ts \<longrightarrow> 3 * length s + 3 \<le> n \<longrightarrow>
     (\<exists>k. spells ts k \<and> length k < length s \<and> ParseExpr n vars s = answer (value_expr vars e) k))"

lemmas parser_okD = factor_ok_def [THEN iffD1, rule_format] term_ok_def [THEN iffD1, rule_format]
  expr_ok_def [THEN iffD1, rule_format]

lemma token_shorter: "SkipWs s = t @ k \<Longrightarrow> lexeme t \<Longrightarrow> length k < length s"
  using length_SkipWs [of s] token_chars [of t] by (cases t) auto

lemma ParseFactor_atom:
  assumes "SkipWs s = t @ k" "number_token t \<or> name_token t"
  shows "ParseFactor (Suc n) vars s = ParseAtom vars (hd t) (tl t @ k)"
proof -
  have "t \<noteq> []" "hd t \<noteq> CHR ''(''" using assms(2) by (auto simp: number_token_def name_token_def numeral_char_def letter_char_def neq_Nil_conv)
  then show ?thesis using assms(1) by (cases t) simp_all
qed

lemma atom_ok: "factor_ok vars (Num ds)" "factor_ok vars (Name x)"
proof -
  have "\<exists>k. spells ts k \<and> length k < length s \<and> ParseFactor n vars s = answer (value_factor vars f) k"
    if f: "f = Num t \<and> number_token t \<or> f = Name t \<and> name_token t" and s: "spells (t # ts) s" and n: "3 * length s + 1 \<le> n" for f t ts s n
  proof -
    obtain m where m: "n = Suc m" using n by (cases n) auto
    obtain k where k: "SkipWs s = t @ k" "lexeme t" "separated t k" "spells ts k" using s unfolding spells_Cons by blast
    have "ParseAtom vars (hd t) (tl t @ k) = answer (value_factor vars f) k"
      using f ParseAtom_number [OF _ k(3)] ParseAtom_name [OF _ k(3)] by (elim disjE conjE) simp_all
    moreover have "number_token t \<or> name_token t" using f by blast
    ultimately show ?thesis using ParseFactor_atom [OF k(1)] k(4) token_shorter [OF k(1,2)] m by auto
  qed
  then show "factor_ok vars (Num ds)" "factor_ok vars (Name x)"
    unfolding factor_ok_def tokens_factor.simps wf_factor.simps append_Cons append_Nil by blast+
qed

lemma paren_ok:
  assumes "expr_ok vars e"
  shows "factor_ok vars (Paren e)"
  unfolding factor_ok_def
proof (intro allI impI)
  fix n ts s
  assume a: "wf_factor (Paren e)" "spells (tokens_factor (Paren e) @ ts) s" "3 * length s + 1 \<le> n"
  obtain m where n: "n = Suc m" using a(3) by (cases n) auto
  obtain k where k: "SkipWs s = ''('' @ k" "spells (tokens_expr e @ '')'' # ts) k" using a(2) by auto
  have len: "length k < length s" using token_shorter [OF k(1)] by (simp add: lexeme_def)
  have "expr_stop ('')'' # ts)" by (simp add: expr_stop_def)
  then obtain r where r: "spells ('')'' # ts) r" "length r < length k" "ParseExpr m vars k = answer (value_expr vars e) r"
    using parser_okD(3) [OF assms _ k(2), of m] a(1,3) len n by auto
  then obtain q where q: "SkipWs r = '')'' @ q" "spells ts q" by auto
  have "length q < length s" using token_shorter [OF q(1)] r(2) len by (simp add: lexeme_def)
  moreover have "ParseFactor n vars s = answer (value_factor vars (Paren e)) q"
    using k(1) r(3) q(1) by (cases "value_expr vars e") (simp_all add: n ParseClose_def)
  ultimately show "\<exists>k. spells ts k \<and> length k < length s \<and> ParseFactor n vars s = answer (value_factor vars (Paren e)) k"
    using q(2) by blast
qed

lemma term_loop_stops:
  assumes "spells ts s" "term_stop ts"
  shows "term_loop (Suc n) vars acc s = Parsed acc (SkipWs s)"
proof (cases ts)
  case (Cons t us)
  then obtain k where k: "SkipWs s = t @ k" "lexeme t" "separated t k" using assms(1) by auto
  then have "\<not> PeekWord ''mod'' (t @ k)" using assms(2) peek_mod Cons by (simp add: term_stop_def)
  moreover obtain c r where t: "t = c # r" using token_chars [OF k(2)] by (cases t) auto
  moreover from this have "\<not> is_mulop c"
    using k(2) assms(2) Cons by (auto simp: lexeme_def term_stop_def is_mulop_def number_token_def name_token_def numeral_char_def letter_char_def)
  ultimately show ?thesis using k(1) by simp
qed (use assms in simp)

lemma expr_loop_stops:
  assumes "spells ts s" "expr_stop ts"
  shows "expr_loop (Suc n) vars acc s = Parsed acc (SkipWs s)"
proof (cases ts)
  case (Cons t us)
  then obtain k where "SkipWs s = t @ k" "t = '')''" using assms by (auto simp: expr_stop_def)
  then show ?thesis by (simp add: is_addop_def)
qed (use assms in simp)

lemma term_loop_ok:
  assumes "\<forall>(p, f) \<in> set fs. factor_ok vars f \<and> wf_factor f" "term_stop ts" "acc < 2 ^ 64"
    "spells (concat (map (\<lambda>(p, f). mulop_token p # tokens_factor f) fs) @ ts) s" "3 * length s + 1 \<le> n"
  shows "\<exists>k. spells ts k \<and> length k \<le> length s \<and> term_loop n vars (of_nat acc) s =
    answer (chain mulop_value acc (map (\<lambda>(p, f). (p, value_factor vars f)) fs)) k"
  using assms
proof (induction fs arbitrary: acc n s)
  case Nil
  then obtain m where "n = Suc m" by (cases n) auto
  then show ?case using term_loop_stops [of ts s m vars "of_nat acc"] Nil.prems length_SkipWs [of s]
    by (intro exI [of _ "SkipWs s"]) simp
next
  case (Cons pf fs)
  obtain p f where pf: "pf = (p, f)" by fastforce
  obtain m where n: "n = Suc m" using Cons.prems(5) by (cases n) auto
  let ?ts = "concat (map (\<lambda>(p, f). mulop_token p # tokens_factor f) fs) @ ts"
  obtain k where k: "SkipWs s = mulop_token p @ k" "lexeme (mulop_token p)" "separated (mulop_token p) k"
    "spells (tokens_factor f @ ?ts) k" using Cons.prems(4) by (auto simp: pf)
  have len: "length k < length s" by (rule token_shorter [OF k(1,2)])
  obtain r where r: "spells ?ts r" "length r < length k" "ParseFactor m vars k = answer (value_factor vars f) r"
    using parser_okD(1) [OF _ _ k(4), of vars m] Cons.prems(1,5) len by (auto simp: pf n)
  have loop: "\<exists>q. spells ts q \<and> length q \<le> length r \<and> term_loop m vars (of_nat v) r =
      answer (chain mulop_value v (map (\<lambda>(p, f). (p, value_factor vars f)) fs)) q" if "v < 2 ^ 64" for v
    using Cons.prems(1,2,5) r len that unfolding n by (intro Cons.IH) auto
  have step: "term_loop n vars (of_nat acc) s = parsed_then (ParseFactor m vars k)
      (\<lambda>rhs r'. or_failed (case p of Times \<Rightarrow> mul_op CHR ''*'' (of_nat acc) rhs | Divide \<Rightarrow> mul_op CHR ''/'' (of_nat acc) rhs
         | Modulo \<Rightarrow> mod_op (of_nat acc) rhs) (\<lambda>v. term_loop m vars v r'))"
    using k(1) peek_mod [OF k(2,3)] by (cases p) (simp_all add: n is_mulop_def)
  show ?case
  proof (cases "value_factor vars f")
    case (Inl e)
    then show ?thesis using step r(3) loop [of 0] r(2) len by (auto simp: pf)
  next
    case (Inr y)
    note y = value_bound(1) [OF Inr]
    have op: "(case p of Times \<Rightarrow> mul_op CHR ''*'' (of_nat acc) (of_nat y) | Divide \<Rightarrow> mul_op CHR ''/'' (of_nat acc) (of_nat y)
         | Modulo \<Rightarrow> mod_op (of_nat acc) (of_nat y)) = map_sum id of_nat (mulop_value p acc y)"
      using mul_op_value [OF Cons.prems(3) y] by (cases p) simp_all
    show ?thesis
    proof (cases "mulop_value p acc y")
      case (Inl e)
      then show ?thesis using step r(3) op loop [of 0] r(2) len Inr by (auto simp: pf or_failed_def)
    next
      case (Inr v)
      then have "v < 2 ^ 64" using Cons.prems(3)
        by (cases p) (auto simp: le_less_trans [OF div_le_dividend] le_less_trans [OF mod_less_eq_dividend] split: if_splits)
      from loop [OF this] obtain q where "spells ts q" "length q \<le> length r"
        "term_loop m vars (of_nat v) r = answer (chain mulop_value v (map (\<lambda>(p, f). (p, value_factor vars f)) fs)) q" by blast
      then show ?thesis using step r(2,3) op len Inr \<open>value_factor vars f = Inr y\<close>
        by (intro exI [of _ q]) (simp add: pf or_failed_def)
    qed
  qed
qed

lemma term_ast_ok:
  assumes "factor_ok vars f" "\<forall>(p, f) \<in> set fs. factor_ok vars f"
  shows "term_ok vars (Term f fs)"
  unfolding term_ok_def
proof (intro allI impI)
  fix n ts s
  assume a: "wf_term (Term f fs)" "spells (tokens_term (Term f fs) @ ts) s" "term_stop ts" "3 * length s + 2 \<le> n"
  obtain m where n: "n = Suc m" using a(4) by (cases n) auto
  let ?ts = "concat (map (\<lambda>(p, f). mulop_token p # tokens_factor f) fs) @ ts"
  obtain r where r: "spells ?ts r" "length r < length s" "ParseFactor m vars s = answer (value_factor vars f) r"
    using parser_okD(1) [OF assms(1), of ?ts s m] a by (auto simp: n)
  have loop: "\<exists>q. spells ts q \<and> length q \<le> length r \<and> term_loop m vars (of_nat v) r =
      answer (chain mulop_value v (map (\<lambda>(p, f). (p, value_factor vars f)) fs)) q" if "v < 2 ^ 64" for v
    using assms(2) a(1,3,4) r that unfolding n by (intro term_loop_ok) auto
  show "\<exists>k. spells ts k \<and> length k < length s \<and> ParseTerm n vars s = answer (value_term vars (Term f fs)) k"
  proof (cases "value_factor vars f")
    case (Inl e)
    then show ?thesis using loop [of 0] r by (auto simp: n)
  next
    case (Inr v)
    then show ?thesis using loop [OF value_bound(1) [OF Inr]] r by (auto simp: n)
  qed
qed

lemma expr_loop_ok:
  assumes "\<forall>(p, t) \<in> set us. term_ok vars t \<and> wf_term t" "expr_stop ts" "acc < 2 ^ 64"
    "spells (concat (map (\<lambda>(p, t). addop_token p # tokens_term t) us) @ ts) s" "3 * length s + 1 \<le> n"
  shows "\<exists>k. spells ts k \<and> length k \<le> length s \<and> expr_loop n vars (of_nat acc) s =
    answer (chain addop_value acc (map (\<lambda>(p, t). (p, value_term vars t)) us)) k"
  using assms
proof (induction us arbitrary: acc n s)
  case Nil
  then obtain m where "n = Suc m" by (cases n) auto
  then show ?case using expr_loop_stops [of ts s m vars "of_nat acc"] Nil.prems length_SkipWs [of s]
    by (intro exI [of _ "SkipWs s"]) simp
next
  case (Cons pt us)
  obtain p t where pt: "pt = (p, t)" by fastforce
  obtain m where n: "n = Suc m" using Cons.prems(5) by (cases n) auto
  let ?ts = "concat (map (\<lambda>(p, t). addop_token p # tokens_term t) us) @ ts"
  obtain k where k: "SkipWs s = addop_token p @ k" "lexeme (addop_token p)" "spells (tokens_term t @ ?ts) k"
    using Cons.prems(4) by (auto simp: pt)
  have len: "length k < length s" by (rule token_shorter [OF k(1,2)])
  have "addop_token q \<notin> {''*'', ''/'', ''mod''}" for q by (cases q) simp_all
  then have "term_stop ?ts" using Cons.prems(2) by (cases us) (auto simp: term_stop_def expr_stop_def)
  then obtain r where r: "spells ?ts r" "length r < length k" "ParseTerm m vars k = answer (value_term vars t) r"
    using parser_okD(2) [OF _ _ k(3), of vars m] Cons.prems(1,5) len by (auto simp: pt n)
  have loop: "\<exists>q. spells ts q \<and> length q \<le> length r \<and> expr_loop m vars (of_nat v) r =
      answer (chain addop_value v (map (\<lambda>(p, t). (p, value_term vars t)) us)) q" if "v < 2 ^ 64" for v
    using Cons.prems(1,2,5) r len that unfolding n by (intro Cons.IH) auto
  have step: "expr_loop n vars (of_nat acc) s = parsed_then (ParseTerm m vars k)
      (\<lambda>rhs. expr_loop m vars (add_op (hd (addop_token p)) (of_nat acc) rhs))"
    using k(1) by (cases p) (simp_all add: n is_addop_def)
  show ?case
  proof (cases "value_term vars t")
    case (Inl e)
    then show ?thesis using step r(3) loop [of 0] r(2) len by (auto simp: pt)
  next
    case (Inr y)
    obtain v where v: "addop_value p acc y = Inr v" by (cases p) simp_all
    then have "v < 2 ^ 64" using Cons.prems(3) by (cases p) auto
    from loop [OF this] obtain q where "spells ts q" "length q \<le> length r"
      "expr_loop m vars (of_nat v) r = answer (chain addop_value v (map (\<lambda>(p, t). (p, value_term vars t)) us)) q" by blast
    then show ?thesis using step r(2,3) len Inr v add_op_value [OF Cons.prems(3) value_bound(2) [OF Inr] v]
      by (intro exI [of _ q]) (simp add: pt)
  qed
qed

lemma expr_ast_ok:
  assumes "term_ok vars t" "\<forall>(p, t) \<in> set us. term_ok vars t"
  shows "expr_ok vars (Expr t us)"
  unfolding expr_ok_def
proof (intro allI impI)
  fix n ts s
  assume a: "wf_expr (Expr t us)" "spells (tokens_expr (Expr t us) @ ts) s" "expr_stop ts" "3 * length s + 3 \<le> n"
  obtain m where n: "n = Suc m" using a(4) by (cases n) auto
  let ?ts = "concat (map (\<lambda>(p, t). addop_token p # tokens_term t) us) @ ts"
  have "addop_token q \<notin> {''*'', ''/'', ''mod''}" for q by (cases q) simp_all
  then have "term_stop ?ts" using a(3) by (cases us) (auto simp: term_stop_def expr_stop_def)
  then obtain r where r: "spells ?ts r" "length r < length s" "ParseTerm m vars s = answer (value_term vars t) r"
    using parser_okD(2) [OF assms(1), of ?ts s m] a by (auto simp: n)
  have loop: "\<exists>q. spells ts q \<and> length q \<le> length r \<and> expr_loop m vars (of_nat v) r =
      answer (chain addop_value v (map (\<lambda>(p, t). (p, value_term vars t)) us)) q" if "v < 2 ^ 64" for v
    using assms(2) a(1,3,4) r that unfolding n by (intro expr_loop_ok) auto
  show "\<exists>k. spells ts k \<and> length k < length s \<and> ParseExpr n vars s = answer (value_expr vars (Expr t us)) k"
  proof (cases "value_term vars t")
    case (Inl e)
    then show ?thesis using loop [of 0] r by (auto simp: n)
  next
    case (Inr v)
    then show ?thesis using loop [OF value_bound(2) [OF Inr]] r by (auto simp: n)
  qed
qed

lemma parser_ok: "factor_ok vars f \<and> term_ok vars t \<and> expr_ok vars e"
proof -
  have "factor_ok vars f" "term_ok vars t" "expr_ok vars e"
  proof (induction f and t and e)
    case (Term f fs)
    then show ?case by (intro term_ast_ok) fastforce+
  next
    case (Expr t ts)
    then show ?case by (intro expr_ast_ok) fastforce+
  qed (auto simp: atom_ok intro: paren_ok)
  then show ?thesis by blast
qed

lemma Run_spelled:
  assumes "wf_expr e" "spells (tokens_expr e) s"
  shows "Run vars s = Inr (map_sum id of_nat (value_expr vars e))"
proof -
  have "expr_ok vars e" using parser_ok by blast
  then obtain k where "spells [] k" "ParseExpr (expr_fuel (length (SkipWs s))) vars (SkipWs s) = answer (value_expr vars e) k"
    using assms unfolding expr_ok_def expr_fuel_def by (metis append_Nil2 expr_stop_def order_refl spells_skip)
  then show ?thesis by (cases "value_expr vars e") (simp_all add: Run_def)
qed

subsection \<open>What is read is a spelled expression\<close>

text \<open>
  Conversely, a value is returned only for a text that spells a tree of that value: each
  part of the parser that succeeds has consumed the tokens of a tree.
\<close>

definition reads :: "string list \<Rightarrow> string \<Rightarrow> string \<Rightarrow> bool" where
  "reads us s k = (\<forall>ts. spells ts k \<longrightarrow> spells (us @ ts) s)"

lemma reads_trans: "reads us s r \<Longrightarrow> reads vs r k \<Longrightarrow> reads (us @ vs) s k"
  by (simp add: reads_def)

lemma reads_Nil: "reads [] s (SkipWs s)"
  by (simp add: reads_def)

lemma reads_token: "SkipWs s = t @ k \<Longrightarrow> lexeme t \<Longrightarrow> separated t k \<Longrightarrow> reads [t] s k"
  by (auto simp: reads_def)

lemma dropWhile_not_head: "dropWhile P s = [] \<or> \<not> P (hd (dropWhile P s))"
  by (induction s) auto

lemma separated_rest:
  "letter_char (hd t) \<Longrightarrow> separated t (dropWhile is_ident_char s)"
  "numeral_char (hd t) \<Longrightarrow> separated t (dropWhile isdigit s)"
proof -
  show "letter_char (hd t) \<Longrightarrow> separated t (dropWhile is_ident_char s)"
    using dropWhile_not_head [of is_ident_char s] by (auto simp: separated_def ident_class)
  assume n: "numeral_char (hd t)"
  then have "\<not> letter_char (hd t)" by (auto simp: numeral_char_def letter_char_def)
  then show "separated t (dropWhile isdigit s)"
    using n dropWhile_not_head [of isdigit s] by (auto simp: separated_def char_classes)
qed

lemma ParseAtom_reads:
  assumes run: "ParseAtom vars c r = Parsed v k" and s: "SkipWs s = c # r"
  shows "\<exists>f. wf_factor f \<and> value_factor vars f = Inr (unat v) \<and> reads (tokens_factor f) s k"
proof (cases "isdigit c")
  case True
  let ?ds = "takeWhile isdigit (c # r)"
  have k: "k = dropWhile isdigit (c # r)" "v = of_nat (decimal ?ds)" "decimal ?ds < 2 ^ 64"
    using run True by (simp_all add: ParseAtom_def ParseNumber_def Let_def digits_value_decimal split: if_splits)
  have num: "number_token ?ds" using True by (auto simp: number_token_def list_all_iff char_classes dest: set_takeWhileD)
  then have "reads [?ds] s k"
    using True by (intro reads_token) (simp_all add: s k lexeme_def separated_rest char_classes flip: takeWhile_dropWhile_id)
  moreover have "unat v = decimal ?ds" using k(2,3) by (simp only: unat_u64)
  ultimately show ?thesis using num k(3) by (intro exI [of _ "Num ?ds"]) simp
next
  case False
  let ?x = "takeWhile is_ident_char (c # r)"
  have c: "letter_char c" using run False char_classes(3) [of c] by (auto simp: ParseAtom_def split: if_splits)
  then have k: "k = dropWhile is_ident_char (c # r)" "umap_find vars ?x = Some v"
    using run False char_classes(3) [of c] by (auto simp: ParseAtom_def ParseName_def Let_def split: if_splits option.splits)
  have w: "name_token ?x" using c by (auto simp: name_token_def list_all_iff ident_class dest: set_takeWhileD)
  then have "reads [?x] s k"
    using c by (intro reads_token) (simp_all add: s k lexeme_def separated_rest ident_class flip: takeWhile_dropWhile_id)
  then show ?thesis using w k(2) by (intro exI [of _ "Name ?x"]) simp
qed

lemma parsed_thenE:
  assumes "parsed_then p f = Parsed v k"
  obtains x r where "p = Parsed x r" "f x r = Parsed v k"
  using assms by (cases p) (simp_all add: parsed_then_def)

lemma or_failedE:
  assumes "or_failed x f = Parsed v k"
  obtains y where "x = Inr y" "f y = Parsed v k"
  using assms by (cases x) (simp_all add: or_failed_def)

lemma ParseCloseE:
  assumes "ParseClose p = Parsed v k"
  obtains r where "p = Parsed v r" "SkipWs r = '')'' @ k"
  using assms by (cases p) (auto simp: ParseClose_def split: list.splits if_splits)

text \<open>One turn of the loops.\<close>

lemma mulop_read:
  assumes "is_mulop c" "mul_op c out rhs = Inr v"
  obtains p where "mulop_token p = [c]" "mulop_value p (unat out) (unat rhs) = Inr (unat v)"
proof -
  have b: "unat out < 2 ^ 64" "unat rhs < 2 ^ 64" using unsigned_less [of out, where ?'a = nat] unsigned_less [of rhs, where ?'a = nat] by simp_all
  have "map_sum id of_nat (mulop_value (if c = CHR ''*'' then Times else Divide) (unat out) (unat rhs)) = (Inr v :: string + u64)"
    using assms mul_op_value [OF b] by (auto simp: is_mulop_def)
  moreover have "z < 2 ^ 64" if "mulop_value p (unat out) (unat rhs) = Inr z" for p z
    using that b by (cases p) (auto simp: le_less_trans [OF div_le_dividend] le_less_trans [OF mod_less_eq_dividend] split: if_splits)
  ultimately obtain z where z: "mulop_value (if c = CHR ''*'' then Times else Divide) (unat out) (unat rhs) = Inr z" "v = of_nat z" "z < 2 ^ 64"
    by (cases "mulop_value (if c = CHR ''*'' then Times else Divide) (unat out) (unat rhs)") auto
  then have "unat v = z" by (simp only: unat_u64)
  then show thesis using that [of "if c = CHR ''*'' then Times else Divide"] z(1) assms(1) by (auto simp: is_mulop_def)
qed

lemma mod_read:
  assumes "mod_op out rhs = Inr v"
  shows "mulop_value Modulo (unat out) (unat rhs) = Inr (unat v)"
  using assms by (auto simp: mod_op_def unat_mod unat_eq_zero split: if_splits)

lemma addop_read:
  assumes "is_addop c"
  obtains p where "addop_token p = [c]" "addop_value p (unat out) (unat rhs) = Inr (unat (add_op c out rhs))"
proof -
  let ?p = "if c = CHR ''+'' then Plus else Minus"
  have b: "unat out < 2 ^ 64" "unat rhs < 2 ^ 64" using unsigned_less [of out, where ?'a = nat] unsigned_less [of rhs, where ?'a = nat] by simp_all
  have tok: "addop_token ?p = [c]" using assms by (auto simp: is_addop_def)
  obtain z where z: "addop_value ?p (unat out) (unat rhs) = Inr z" by (cases ?p) simp_all
  then have "z < 2 ^ 64" using b by (auto split: if_splits)
  then have "unat (of_nat z :: u64) = z" by (simp only: unat_u64)
  moreover have "add_op c out rhs = of_nat z" using add_op_value [OF b z] tok by simp
  ultimately show thesis using that [OF tok] z by simp
qed

text \<open>The five claims of the induction on the fuel.\<close>

definition reads_factor :: "symbols \<Rightarrow> string \<Rightarrow> u64 \<Rightarrow> string \<Rightarrow> bool" where
  "reads_factor vars s v k = (\<exists>f. wf_factor f \<and> value_factor vars f = Inr (unat v) \<and> reads (tokens_factor f) s k)"

definition reads_term :: "symbols \<Rightarrow> string \<Rightarrow> u64 \<Rightarrow> string \<Rightarrow> bool" where
  "reads_term vars s v k = (\<exists>t. wf_term t \<and> value_term vars t = Inr (unat v) \<and> reads (tokens_term t) s k)"

definition reads_expr :: "symbols \<Rightarrow> string \<Rightarrow> u64 \<Rightarrow> string \<Rightarrow> bool" where
  "reads_expr vars s v k = (\<exists>e. wf_expr e \<and> value_expr vars e = Inr (unat v) \<and> reads (tokens_expr e) s k)"

definition reads_factors :: "symbols \<Rightarrow> u64 \<Rightarrow> string \<Rightarrow> u64 \<Rightarrow> string \<Rightarrow> bool" where
  "reads_factors vars out s v k =
     (\<exists>fs. (\<forall>(p, f) \<in> set fs. wf_factor f)
        \<and> chain mulop_value (unat out) (map (\<lambda>(p, f). (p, value_factor vars f)) fs) = Inr (unat v)
        \<and> reads (concat (map (\<lambda>(p, f). mulop_token p # tokens_factor f) fs)) s k)"

definition reads_terms :: "symbols \<Rightarrow> u64 \<Rightarrow> string \<Rightarrow> u64 \<Rightarrow> string \<Rightarrow> bool" where
  "reads_terms vars out s v k =
     (\<exists>us. (\<forall>(p, t) \<in> set us. wf_term t)
        \<and> chain addop_value (unat out) (map (\<lambda>(p, t). (p, value_term vars t)) us) = Inr (unat v)
        \<and> reads (concat (map (\<lambda>(p, t). addop_token p # tokens_term t) us)) s k)"

lemma reads_term_join: "reads_factor vars s x r \<Longrightarrow> reads_factors vars x r v k \<Longrightarrow> reads_term vars s v k"
  unfolding reads_factor_def reads_factors_def reads_term_def
proof (elim exE conjE)
  fix f fs
  assume "wf_factor f" "value_factor vars f = Inr (unat x)" "reads (tokens_factor f) s r"
    "\<forall>(p, f) \<in> set fs. wf_factor f" "chain mulop_value (unat x) (map (\<lambda>(p, f). (p, value_factor vars f)) fs) = Inr (unat v)"
    "reads (concat (map (\<lambda>(p, f). mulop_token p # tokens_factor f) fs)) r k"
  then show "\<exists>t. wf_term t \<and> value_term vars t = Inr (unat v) \<and> reads (tokens_term t) s k"
    by (intro exI [of _ "Term f fs"]) (simp add: reads_trans)
qed

lemma reads_expr_join: "reads_term vars s x r \<Longrightarrow> reads_terms vars x r v k \<Longrightarrow> reads_expr vars s v k"
  unfolding reads_term_def reads_terms_def reads_expr_def
proof (elim exE conjE)
  fix t us
  assume "wf_term t" "value_term vars t = Inr (unat x)" "reads (tokens_term t) s r"
    "\<forall>(p, t) \<in> set us. wf_term t" "chain addop_value (unat x) (map (\<lambda>(p, t). (p, value_term vars t)) us) = Inr (unat v)"
    "reads (concat (map (\<lambda>(p, t). addop_token p # tokens_term t) us)) r k"
  then show "\<exists>e. wf_expr e \<and> value_expr vars e = Inr (unat v) \<and> reads (tokens_expr e) s k"
    by (intro exI [of _ "Expr t us"]) (simp add: reads_trans)
qed

lemma reads_factors_step:
  assumes "reads [mulop_token p] s r" "reads_factor vars r y q" "mulop_value p (unat out) (unat y) = Inr (unat w)"
    "reads_factors vars w q v k"
  shows "reads_factors vars out s v k"
proof -
  from assms(2,4) obtain f fs where f: "wf_factor f" "value_factor vars f = Inr (unat y)" "reads (tokens_factor f) r q"
    "\<forall>(p, f) \<in> set fs. wf_factor f" "chain mulop_value (unat w) (map (\<lambda>(p, f). (p, value_factor vars f)) fs) = Inr (unat v)"
    "reads (concat (map (\<lambda>(p, f). mulop_token p # tokens_factor f) fs)) q k"
    unfolding reads_factor_def reads_factors_def by blast
  have "reads ([mulop_token p] @ tokens_factor f @ concat (map (\<lambda>(p, f). mulop_token p # tokens_factor f) fs)) s k"
    using assms(1) f(3,6) by (intro reads_trans)
  then show ?thesis unfolding reads_factors_def using f(1,2,4,5) assms(3) by (intro exI [of _ "(p, f) # fs"]) simp
qed

lemma reads_terms_step:
  assumes "reads [addop_token p] s r" "reads_term vars r y q" "addop_value p (unat out) (unat y) = Inr (unat w)"
    "reads_terms vars w q v k"
  shows "reads_terms vars out s v k"
proof -
  from assms(2,4) obtain t us where t: "wf_term t" "value_term vars t = Inr (unat y)" "reads (tokens_term t) r q"
    "\<forall>(p, t) \<in> set us. wf_term t" "chain addop_value (unat w) (map (\<lambda>(p, t). (p, value_term vars t)) us) = Inr (unat v)"
    "reads (concat (map (\<lambda>(p, t). addop_token p # tokens_term t) us)) q k"
    unfolding reads_term_def reads_terms_def by blast
  have "reads ([addop_token p] @ tokens_term t @ concat (map (\<lambda>(p, t). addop_token p # tokens_term t) us)) s k"
    using assms(1) t(3,6) by (intro reads_trans)
  then show ?thesis unfolding reads_terms_def using t(1,2,4,5) assms(3) by (intro exI [of _ "(p, t) # us"]) simp
qed

lemma reads_none: "reads_factors vars out s out (SkipWs s)" "reads_terms vars out s out (SkipWs s)"
  unfolding reads_factors_def reads_terms_def using reads_Nil [of s] by (auto intro: exI [of _ "[]"])

lemma reads_sign:
  assumes "SkipWs s = c # r" "is_addop c \<or> is_mulop c \<or> c \<in> {CHR ''('', CHR '')''}"
  shows "reads [[c]] s r"
  using assms by (intro reads_token)
    (auto simp: is_addop_def is_mulop_def lexeme_def separated_def letter_char_def numeral_char_def)

lemma reads_mod:
  assumes "PeekWord ''mod'' (SkipWs s)"
  shows "reads [''mod''] s (drop 3 (SkipWs s))"
proof -
  have ident: "takeWhile is_ident_char (SkipWs s) = ''mod''" using assms by (simp add: PeekWord_iff [OF mod_ident])
  have split: "SkipWs s = ''mod'' @ dropWhile is_ident_char (SkipWs s)" unfolding ident [symmetric] by simp
  then have drop: "drop 3 (SkipWs s) = dropWhile is_ident_char (SkipWs s)"
    by (metis append_eq_conv_conj length_Cons list.size(3) numeral_3_eq_3)
  show ?thesis unfolding drop
    by (intro reads_token)
      (use split separated_rest(1) [of "''mod''" "SkipWs s"] in \<open>simp_all add: lexeme_def name_token_def letter_char_def\<close>)
qed

lemma factor_reads:
  assumes E: "\<And>s v k. ParseExpr n vars s = Parsed v k \<Longrightarrow> reads_expr vars s v k"
    and run: "ParseFactor (Suc n) vars s = Parsed v k"
  shows "reads_factor vars s v k"
proof (cases "SkipWs s")
  case (Cons c r)
  show ?thesis
  proof (cases "c = CHR ''(''")
    case True
    with run Cons obtain q where q: "ParseExpr n vars r = Parsed v q" "SkipWs q = '')'' @ k" by (auto elim: ParseCloseE)
    from E [OF q(1)] obtain e where e: "wf_expr e" "value_expr vars e = Inr (unat v)" "reads (tokens_expr e) r q"
      unfolding reads_expr_def by blast
    have "reads [''(''] s r" "reads ['')''] q k" using Cons True q(2) by (auto intro!: reads_sign)
    then have "reads ([''(''] @ tokens_expr e @ ['')'']) s k" using e(3) by (intro reads_trans)
    then show ?thesis using e(1,2) unfolding reads_factor_def by (intro exI [of _ "Paren e"]) simp
  qed (use run Cons ParseAtom_reads [OF _ Cons] in \<open>simp add: reads_factor_def\<close>)
qed (use run in simp)

lemma expr_loop_reads:
  assumes T: "\<And>s v k. ParseTerm n vars s = Parsed v k \<Longrightarrow> reads_term vars s v k"
    and L: "\<And>out s v k. expr_loop n vars out s = Parsed v k \<Longrightarrow> reads_terms vars out s v k"
    and run: "expr_loop (Suc n) vars out s = Parsed v k"
  shows "reads_terms vars out s v k"
proof (cases "SkipWs s \<noteq> [] \<and> is_addop (hd (SkipWs s))")
  case True
  then obtain c r where c: "SkipWs s = c # r" "is_addop c" by (cases "SkipWs s") auto
  obtain y q where q: "ParseTerm n vars r = Parsed y q" "expr_loop n vars (add_op c out y) q = Parsed v k"
    using run c by (auto elim: parsed_thenE)
  obtain p where p: "addop_token p = [c]" "addop_value p (unat out) (unat y) = Inr (unat (add_op c out y))"
    using addop_read [OF c(2)] .
  show ?thesis using reads_terms_step [OF _ T [OF q(1)] p(2) L [OF q(2)]] reads_sign [OF c(1)] c(2) p(1) by simp
next
  case False
  then have "v = out" "k = SkipWs s" using run by (cases "SkipWs s"; auto)+
  then show ?thesis using reads_none by simp
qed

lemma term_loop_reads:
  assumes F: "\<And>s v k. ParseFactor n vars s = Parsed v k \<Longrightarrow> reads_factor vars s v k"
    and L: "\<And>out s v k. term_loop n vars out s = Parsed v k \<Longrightarrow> reads_factors vars out s v k"
    and run: "term_loop (Suc n) vars out s = Parsed v k"
  shows "reads_factors vars out s v k"
proof -
  consider (sign) c r where "SkipWs s = c # r" "is_mulop c" | (keyword) "SkipWs s \<noteq> []" "\<not> is_mulop (hd (SkipWs s))" "PeekWord ''mod'' (SkipWs s)"
    | (none) "v = out" "k = SkipWs s"
    using run by (cases "SkipWs s") (auto split: if_splits)
  then show ?thesis
  proof cases
    case (sign c r)
    obtain y q w where q: "ParseFactor n vars r = Parsed y q" "mul_op c out y = Inr w" "term_loop n vars w q = Parsed v k"
      using run sign by (auto elim!: parsed_thenE or_failedE)
    obtain p where p: "mulop_token p = [c]" "mulop_value p (unat out) (unat y) = Inr (unat w)" using mulop_read [OF sign(2) q(2)] .
    show ?thesis using reads_factors_step [OF _ F [OF q(1)] p(2) L [OF q(3)]] reads_sign [OF sign(1)] sign(2) p(1) by simp
  next
    case keyword
    obtain y q w where q: "ParseFactor n vars (drop 3 (SkipWs s)) = Parsed y q" "mod_op out y = Inr w" "term_loop n vars w q = Parsed v k"
      using run keyword by (cases "SkipWs s") (auto elim!: parsed_thenE or_failedE)
    show ?thesis using reads_factors_step [OF _ F [OF q(1)] mod_read [OF q(2)] L [OF q(3)]] reads_mod [OF keyword(3)] by simp
  next
    case none
    then show ?thesis using reads_none by simp
  qed
qed

lemma parser_reads:
  "(\<forall>s v k. ParseExpr n vars s = Parsed v k \<longrightarrow> reads_expr vars s v k)
   \<and> (\<forall>s v k. ParseTerm n vars s = Parsed v k \<longrightarrow> reads_term vars s v k)
   \<and> (\<forall>s v k. ParseFactor n vars s = Parsed v k \<longrightarrow> reads_factor vars s v k)
   \<and> (\<forall>out s v k. expr_loop n vars out s = Parsed v k \<longrightarrow> reads_terms vars out s v k)
   \<and> (\<forall>out s v k. term_loop n vars out s = Parsed v k \<longrightarrow> reads_factors vars out s v k)"
proof (induction n)
  case (Suc n)
  then have E: "\<And>s v k. ParseExpr n vars s = Parsed v k \<Longrightarrow> reads_expr vars s v k"
    and T: "\<And>s v k. ParseTerm n vars s = Parsed v k \<Longrightarrow> reads_term vars s v k"
    and F: "\<And>s v k. ParseFactor n vars s = Parsed v k \<Longrightarrow> reads_factor vars s v k"
    and EL: "\<And>out s v k. expr_loop n vars out s = Parsed v k \<Longrightarrow> reads_terms vars out s v k"
    and TL: "\<And>out s v k. term_loop n vars out s = Parsed v k \<Longrightarrow> reads_factors vars out s v k"
    by blast+
  have "reads_expr vars s v k" if "ParseExpr (Suc n) vars s = Parsed v k" for s v k
    using that by (auto elim!: parsed_thenE intro: reads_expr_join [OF T EL])
  moreover have "reads_term vars s v k" if "ParseTerm (Suc n) vars s = Parsed v k" for s v k
    using that by (auto elim!: parsed_thenE intro: reads_term_join [OF F TL])
  ultimately show ?case using factor_reads [OF E] expr_loop_reads [OF T EL] term_loop_reads [OF F TL] by blast
qed simp

lemma Run_reads:
  assumes "Run vars s = Inr (Inr v)"
  shows "\<exists>e. wf_expr e \<and> spells (tokens_expr e) s \<and> value_expr vars e = Inr (unat v)"
proof -
  from assms obtain k where k: "ParseExpr (expr_fuel (length (SkipWs s))) vars (SkipWs s) = Parsed v k" "SkipWs k = []"
    by (auto simp: Run_def split: parse.splits if_splits)
  then obtain e where "wf_expr e" "value_expr vars e = Inr (unat v)" "reads (tokens_expr e) (SkipWs s) k"
    using conjunct1 [OF parser_reads [of "expr_fuel (length (SkipWs s))" vars]] unfolding reads_expr_def by blast
  moreover from this(3) k(2) have "spells (tokens_expr e @ []) s" unfolding reads_def by (metis spells_Nil spells_skip)
  ultimately show ?thesis by auto
qed

text \<open>
  C21: the expression evaluator returns on every input, and it is the evaluator of its
  grammar. It yields a value exactly for the texts that spell a syntax tree of that value,
  with any white space between the tokens, or none where they do not run together; and on a
  text that spells a tree without a value it yields the first error from the left. The value
  is computed with \<open>*\<close>, \<open>/\<close> and \<open>mod\<close> binding tighter than \<open>+\<close> and \<open>-\<close>, both
  left-associative, modulo \<open>2 ^ 64\<close>, with a subtraction that stops at zero.
\<close>

theorem expression_evaluator_is_the_grammar:
  "(\<exists>r. Run vars input = Inr r)
   \<and> (Run vars input = Inr (Inr v) \<longleftrightarrow> (\<exists>e. wf_expr e \<and> spells (tokens_expr e) input \<and> value_expr vars e = Inr (unat v)))
   \<and> (\<forall>e msg. wf_expr e \<and> spells (tokens_expr e) input \<and> value_expr vars e = Inl msg \<longrightarrow> Run vars input = Inr (Inl msg))"
proof (intro conjI allI impI)
  show "\<exists>r. Run vars input = Inr r" by (rule Run_returns)
  show "Run vars input = Inr (Inr v) \<longleftrightarrow> (\<exists>e. wf_expr e \<and> spells (tokens_expr e) input \<and> value_expr vars e = Inr (unat v))"
    using Run_reads [of vars input v] Run_spelled [of _ input vars] by auto
  show "Run vars input = Inr (Inl msg)" if "wf_expr e \<and> spells (tokens_expr e) input \<and> value_expr vars e = Inl msg" for e msg
    using that Run_spelled [of e input vars] by simp
qed

text \<open>The bound \<open>2*(N-1)\<close> of the documentation, for a ring with eight members, without blanks.\<close>

theorem expression_evaluator_is_the_grammar_witness:
  "Run [(''N'', 8)] ''2*(N-1)'' = Inr (Inr 14)"
proof -
  define e where "e = Expr (Term (Num ''2'') [(Times, Paren (Expr (Term (Name ''N'') []) [(Minus, Term (Num ''1'') [])]))]) []"
  have "wf_expr e" by (simp add: e_def number_token_def name_token_def letter_char_def numeral_char_def)
  moreover have "spells (tokens_expr e) ''2*(N-1)''"
    by (simp add: e_def SkipWs_def isspace_def lexeme_def number_token_def name_token_def letter_char_def numeral_char_def separated_def)
  moreover have "value_expr [(''N'', 8)] e = Inr (unat (14 :: u64))" by (simp add: e_def umap_find_def)
  ultimately show ?thesis using expression_evaluator_is_the_grammar [of "[(''N'', 8)]" "''2*(N-1)''" 14] by blast
qed

end
