(* ===== verification/ProtocolCompile.thy ===== *)
theory ProtocolCompile
  imports ProtocolConfig
begin

text \<open>
  The compiler of the \<open>[op]\<close> section (\<open>ProtocolConfig::Compile\<close>) and the runner's side of
  the contract (\<open>protocol-config-runner.cc\<close>): a stencil of transfers, replicated over
  loop variables, becomes a transaction graph. The stages follow the numbered comments of
  the function. \<open>NanoSeconds\<close> is taken at the default resolution, one tick per
  nanosecond. The enumeration loop counts a \<open>uint64_t\<close> up to and including its bound, so a
  bound of \<open>UINT64_MAX\<close> never ends it.
\<close>

subsection \<open>Stages 1 and 2: symbols and bounds\<close>

text \<open>Sequencing of stages that may stop the process or report an error.\<close>

definition stage :: "(string + 'a) result \<Rightarrow> ('a \<Rightarrow> (string + 'b) result) \<Rightarrow> (string + 'b) result" where
  "stage r f = and_then r (\<lambda>x. case x of Inl e \<Rightarrow> Inr (Inl e) | Inr y \<Rightarrow> f y)"

fun eval_params :: "(string \<times> string) list \<Rightarrow> symbols \<Rightarrow> (string + symbols) result" where
  "eval_params [] vars = Inr (Inr vars)"
| "eval_params ((x, e) # ps) vars =
     and_then (Run vars e) (\<lambda>r. case r of
       Inl msg \<Rightarrow> Inr (Inl (''param.'' @ x @ '' = '' @ quoted e @ '': '' @ msg))
     | Inr v \<Rightarrow> eval_params ps (umap_put x v vars))"

record ResolvedDim =
  rd_var :: string
  rd_lo :: u64
  rd_hi :: u64

fun resolve_dims :: "Dim list \<Rightarrow> symbols \<Rightarrow> (string + ResolvedDim list) result" where
  "resolve_dims [] vars = Inr (Inr [])"
| "resolve_dims (d # ds) vars =
     and_then (Run vars (loExpr d)) (\<lambda>lo. case lo of
       Inl msg \<Rightarrow> Inr (Inl (''replicate.'' @ dim_var d @ '' lo: '' @ msg))
     | Inr lo \<Rightarrow> and_then (Run vars (hiExpr d)) (\<lambda>hi. case hi of
         Inl msg \<Rightarrow> Inr (Inl (''replicate.'' @ dim_var d @ '' hi: '' @ msg))
       | Inr hi \<Rightarrow>
           if hi < lo then Inr (Inl (''replicate.'' @ dim_var d @ '' hi < lo''))
           else and_then (resolve_dims ds vars) (\<lambda>rs. Inr (or_else rs (\<lambda>rs.
                  Inr (\<lparr>rd_var = dim_var d, rd_lo = lo, rd_hi = hi\<rparr> # rs))))))"

subsection \<open>Stage 3: instances\<close>

type_synonym binding = "(string, u64) umap"

text \<open>
  The loop over the values of one variable; \<open>None\<close> means that it never ends. The recursion
  over the variables calls it with the rest of the enumeration as its body.
\<close>

partial_function (option) replicate_loop ::
  "(u64 \<Rightarrow> binding list option) \<Rightarrow> u64 \<Rightarrow> u64 \<Rightarrow> binding list \<Rightarrow> binding list option" where
  "replicate_loop body v hi out =
     (if v \<le> hi then Option.bind (body v) (\<lambda>xs. replicate_loop body (v + 1) hi (out @ xs)) else Some out)"

fun expand :: "ResolvedDim list \<Rightarrow> binding \<Rightarrow> binding list option" where
  "expand [] b = Some [b]"
| "expand (d # ds) b = replicate_loop (\<lambda>v. expand ds (umap_put (rd_var d) v b)) (rd_lo d) (rd_hi d) []"

definition enumerate_instances :: "ResolvedDim list \<Rightarrow> binding list result" where
  "enumerate_instances rdims = (case expand rdims [] of None \<Rightarrow> Inl Diverges | Some instances \<Rightarrow> Inr instances)"

subsection \<open>Stage 4: stencils\<close>

text \<open>\<open>std::stoul\<close> followed by the cast to \<open>uint32_t\<close>.\<close>

definition stoul :: "string \<Rightarrow> u32 result" where
  "stoul s =
     (let s = dropWhile isspace s;
          (neg, s) = (case s of [] \<Rightarrow> (False, s) | c # r \<Rightarrow>
             if c = CHR ''-'' then (True, r) else if c = CHR ''+'' then (False, r) else (False, s));
          ds = takeWhile isdigit s;
          n = digits_value ds
      in if ds = [] then Inl (Uncaught ''std::invalid_argument'')
         else if n \<ge> 2 ^ 64 then Inl (Uncaught ''std::out_of_range'')
         else Inr (of_nat (if neg then 2 ^ 64 - n else n)))"

type_synonym stencil = "(string, string) umap"

fun collect_transfers :: "(string, string) umap \<Rightarrow> (u32, stencil) omap \<Rightarrow> (u32, stencil) omap result" where
  "collect_transfers [] ts = Inr ts"
| "collect_transfers ((key, e) # kvs) ts =
     (let rest = drop 9 key
      in if CHR ''.'' \<notin> set rest then collect_transfers kvs ts
         else and_then (stoul (takeWhile (\<lambda>c. c \<noteq> CHR ''.'') rest)) (\<lambda>idx.
           let field = drop 1 (dropWhile (\<lambda>c. c \<noteq> CHR ''.'') rest);
               old = (case omap_find ts idx of None \<Rightarrow> [] | Some st \<Rightarrow> st)
           in collect_transfers kvs (omap_put idx (umap_put field e old) ts)))"

subsection \<open>Stage 5: delays\<close>

text \<open>The startup delay in nanoseconds; 0 stands for none.\<close>

definition resolve_startup ::
  "ProtocolConfig \<Rightarrow> ProtocolModel \<Rightarrow> u16 \<Rightarrow> u64 \<Rightarrow> symbols \<Rightarrow> bool \<Rightarrow> (string + u64) result" where
  "resolve_startup cfg pm numGpus dataSize vars includeStartup =
     (if \<not> includeStartup then Inr (Inr 0)
      else if m_startup cfg = ''auto''
      then Inr (Inr (pm_GetStartupDelayNs pm (pm_GetProtocolId pm dataSize) numGpus))
      else Run vars (m_startup cfg))"

definition NanoSeconds :: "u64 \<Rightarrow> Time" where
  "NanoSeconds v = i64_wrap (uint v)"

subsection \<open>Stage 6: the graph\<close>

definition ParseKind :: "string \<Rightarrow> (ProtocolTransactionKind \<times> FabricPacketType) option" where
  "ParseKind s =
     (if s = ''DATA'' \<or> s = ''SEND_DATA'' then Some (DATA_TRANSFER, PT_DATA)
      else if s = ''P2P'' then Some (P2P_TRANSFER, PT_DATA) else None)"

definition field_error :: "u32 \<Rightarrow> string \<Rightarrow> string \<Rightarrow> string" where
  "field_error tidx field msg = ''transfer.'' @ to_string (unat tidx) @ ''.'' @ field @ msg"

definition evalField :: "u32 \<Rightarrow> stencil \<Rightarrow> symbols \<Rightarrow> string \<Rightarrow> (string + u64) result" where
  "evalField tidx st vars field =
     (case umap_find st field of
        None \<Rightarrow> Inr (Inr 0)
      | Some e \<Rightarrow> and_then (Run vars e) (\<lambda>r. case r of
            Inl msg \<Rightarrow> Inr (Inl (field_error tidx field ('' = '' @ quoted e @ '': '' @ msg)))
          | Inr v \<Rightarrow> Inr (Inr v)))"

definition checkField :: "u32 \<Rightarrow> string \<Rightarrow> u64 \<Rightarrow> u64 \<Rightarrow> string \<Rightarrow> string + unit" where
  "checkField tidx field v most what =
     (if v > most then Inl (field_error tidx field ('' = '' @ to_string (unat v) @ '': '' @ what
        @ '' out of range (max '' @ to_string (unat most) @ '')'')) else Inr ())"

definition checkRank :: "u32 \<Rightarrow> string \<Rightarrow> u64 \<Rightarrow> u16 \<Rightarrow> string \<Rightarrow> string + unit" where
  "checkRank tidx field v numGpus what =
     (if v \<ge> ucast numGpus then Inl (field_error tidx field ('' = '' @ to_string (unat v) @ '': '' @ what
        @ '' rank exceeds numGpus ('' @ to_string (unat numGpus) @ '')'')) else Inr ())"

text \<open>The values of one transfer: source, destination, bytes, virtual channel, response.\<close>

definition transfer_fields ::
  "u16 \<Rightarrow> u32 \<Rightarrow> stencil \<Rightarrow> symbols \<Rightarrow> (string + u64 \<times> u64 \<times> u64 \<times> u64 \<times> u64) result" where
  "transfer_fields numGpus tidx st vars =
     stage (evalField tidx st vars ''src'') (\<lambda>src.
     stage (evalField tidx st vars ''dst'') (\<lambda>dst.
     stage (evalField tidx st vars ''bytes'') (\<lambda>bytes.
     stage (evalField tidx st vars ''vc'') (\<lambda>vc.
     stage (evalField tidx st vars ''response'') (\<lambda>response.
       Inr (or_else (checkField tidx ''src'' src 65535 ''source rank'') (\<lambda>_.
            or_else (checkField tidx ''dst'' dst 65535 ''destination rank'') (\<lambda>_.
            or_else (checkField tidx ''vc'' vc 255 ''virtual channel'') (\<lambda>_.
            or_else (checkRank tidx ''src'' src numGpus ''source'') (\<lambda>_.
            or_else (checkRank tidx ''dst'' dst numGpus ''destination'') (\<lambda>_.
              Inr (src, dst, bytes, vc, response))))))))))))"

record compile_state =
  cs_graph :: ProtocolTransactionGraph
  cs_groupDep :: "(u64, nat) omap"
  cs_groupSeeded :: "(u64, bool) omap"
  cs_groupPairCount :: "(u64, nat) omap"
  cs_stageCounter :: nat

definition compile_request ::
  "u32 \<Rightarrow> ProtocolTransactionKind \<times> FabricPacketType \<Rightarrow> u64 \<times> u64 \<times> u64 \<times> u64 \<times> u64 \<Rightarrow> u16 \<Rightarrow> nat \<Rightarrow> ProtocolTransactionRequest" where
  "compile_request tidx kp fvs base stageId =
     (case fvs of (src, dst, bytes, vc, response) \<Rightarrow>
        request_new\<lparr>rq_kind := fst kp, rq_packetType := snd kp, rq_sourceRank := ucast src, rq_destinationRank := ucast dst,
          rq_virtualChannel := ucast vc, rq_effectiveBytes := bytes, rq_responseBytes := response,
          rq_stageId := of_nat stageId, rq_flowId := base + of_nat stageId,
          rq_label := ''t'' @ to_string (unat tidx) @ ''-g'' @ to_string (unat src) @ ''-s'' @ to_string stageId\<rparr>)"

text \<open>The delay between two pairs of a chain.\<close>

definition step_delay :: "u64 \<Rightarrow> u64 \<Rightarrow> compile_state \<Rightarrow> compile_state" where
  "step_delay perStepNs gkey cs =
     (let count = (case omap_find (cs_groupPairCount cs) gkey of None \<Rightarrow> 0 | Some n \<Rightarrow> n);
          cs' = (if count > 0 \<and> perStepNs > 0
                 then let dep = (case omap_find (cs_groupDep cs) gkey of None \<Rightarrow> 0 | Some d \<Rightarrow> d);
                          (g, v) = AddDelay (cs_graph cs) (NanoSeconds perStepNs) [dep] ''step-delay''
                      in cs\<lparr>cs_graph := g, cs_groupDep := omap_put gkey v (cs_groupDep cs)\<rparr>
                 else cs)
      in cs'\<lparr>cs_groupPairCount := omap_put gkey (Suc count) (cs_groupPairCount cs)\<rparr>)"

definition add_transfer :: "ProtocolModel \<Rightarrow> ProtocolTransactionRequest \<Rightarrow> u64 \<Rightarrow> compile_state \<Rightarrow> compile_state" where
  "add_transfer pm req gkey cs =
     (let deps = (case omap_find (cs_groupDep cs) gkey of None \<Rightarrow> [] | Some d \<Rightarrow> if d \<noteq> INVALID_NODE then [d] else []);
          (g, wait) = AddTransaction pm (cs_graph cs) req deps
      in cs\<lparr>cs_graph := g, cs_groupDep := omap_put gkey wait (cs_groupDep cs), cs_stageCounter := Suc (cs_stageCounter cs)\<rparr>)"

definition emit_transfer ::
  "ProtocolModel \<Rightarrow> u16 \<Rightarrow> u16 \<Rightarrow> u64 \<Rightarrow> symbols \<Rightarrow> u64 \<Rightarrow> u32 \<times> stencil \<Rightarrow> compile_state \<Rightarrow> (string + compile_state) result" where
  "emit_transfer pm numGpus base perStepNs vars gkey ts cs =
     (case ts of (tidx, st) \<Rightarrow>
        let cs = step_delay perStepNs gkey cs;
            kindStr = (case umap_find st ''kind'' of None \<Rightarrow> ''DATA'' | Some s \<Rightarrow> s)
        in case ParseKind kindStr of
             None \<Rightarrow> Inr (Inl (field_error tidx ''kind'' ('' = '' @ quoted kindStr @ '': unknown kind'')))
           | Some kp \<Rightarrow>
               stage (transfer_fields numGpus tidx st vars) (\<lambda>fvs.
                   if unat base + cs_stageCounter cs > 65535
                   then Inr (Inl (''flow id overflow: baseFlowId '' @ to_string (unat base) @ '' + stage ''
                          @ to_string (cs_stageCounter cs) @ '' exceeds the 16-bit flow-id space; reduce the stage count''))
                   else Inr (Inr (add_transfer pm (compile_request tidx kp fvs base (cs_stageCounter cs)) gkey cs))))"

fun emit_transfers ::
  "ProtocolModel \<Rightarrow> u16 \<Rightarrow> u16 \<Rightarrow> u64 \<Rightarrow> symbols \<Rightarrow> u64 \<Rightarrow> (u32 \<times> stencil) list \<Rightarrow> compile_state \<Rightarrow> (string + compile_state) result" where
  "emit_transfers pm numGpus base perStepNs vars gkey [] cs = Inr (Inr cs)"
| "emit_transfers pm numGpus base perStepNs vars gkey (t # ts) cs =
     stage (emit_transfer pm numGpus base perStepNs vars gkey t cs) (\<lambda>cs.
       emit_transfers pm numGpus base perStepNs vars gkey ts cs)"

definition groupKeyOf :: "string \<Rightarrow> binding \<Rightarrow> u64" where
  "groupKeyOf firstDim b =
     (if firstDim \<noteq> '''' then (case umap_find b firstDim of None \<Rightarrow> 0 | Some v \<Rightarrow> v) else 0)"

text \<open>The first instance of a chain seeds it with the startup delay.\<close>

definition seed_group :: "u64 \<Rightarrow> u64 \<Rightarrow> compile_state \<Rightarrow> compile_state" where
  "seed_group startupNs gkey cs =
     (if omap_find (cs_groupSeeded cs) gkey = Some True then cs
      else let cs' = (if startupNs > 0
                      then let (g, v) = AddDelay (cs_graph cs) (NanoSeconds startupNs) [] ''startup''
                           in cs\<lparr>cs_graph := g, cs_groupDep := omap_put gkey v (cs_groupDep cs)\<rparr>
                      else cs)
           in cs'\<lparr>cs_groupSeeded := omap_put gkey True (cs_groupSeeded cs)\<rparr>)"

definition instance_symbols :: "symbols \<Rightarrow> binding \<Rightarrow> symbols" where
  "instance_symbols vars inst = foldl (\<lambda>vs (x, v). umap_put x v vs) vars inst"

fun emit_instances ::
  "ProtocolModel \<Rightarrow> u16 \<Rightarrow> u16 \<Rightarrow> u64 \<Rightarrow> u64 \<Rightarrow> symbols \<Rightarrow> string \<Rightarrow> (u32 \<times> stencil) list \<Rightarrow> binding list \<Rightarrow> compile_state \<Rightarrow>
     (string + compile_state) result" where
  "emit_instances pm numGpus base startupNs perStepNs vars firstDim ts [] cs = Inr (Inr cs)"
| "emit_instances pm numGpus base startupNs perStepNs vars firstDim ts (inst # insts) cs =
     (let gkey = groupKeyOf firstDim inst
      in stage (emit_transfers pm numGpus base perStepNs (instance_symbols vars inst) gkey ts (seed_group startupNs gkey cs))
           (\<lambda>cs. emit_instances pm numGpus base startupNs perStepNs vars firstDim ts insts cs))"

definition compile_new :: compile_state where
  "compile_new = \<lparr>cs_graph = [], cs_groupDep = [], cs_groupSeeded = [], cs_groupPairCount = [], cs_stageCounter = 0\<rparr>"

text \<open>The completion node and the final validation.\<close>

definition finish_graph :: "ProtocolConfig \<Rightarrow> compile_state \<Rightarrow> (string + ProtocolTransactionGraph \<times> nat) result" where
  "finish_graph cfg cs =
     (let finals = filter (\<lambda>v. v \<noteq> INVALID_NODE) (map snd (cs_groupDep cs))
      in if finals = [] then Inr (Inl ''compiled graph has no terminal nodes'')
         else let depKind = (if cfg_complete cfg = ''any'' then DEP_ANY else DEP_ALL);
                  (g, completeNode) = AddCompletion (cs_graph cs) finals depKind ''complete''
              in case Validate g of
                   None \<Rightarrow> Inl Diverges
                 | Some (Invalid e) \<Rightarrow> Inr (Inl (''compiled graph invalid: '' @ e))
                 | Some Valid \<Rightarrow> Inr (Inr (g, completeNode)))"

definition Compile ::
  "ProtocolConfig \<Rightarrow> ProtocolModel option \<Rightarrow> u16 \<Rightarrow> u64 \<Rightarrow> u16 \<Rightarrow> bool \<Rightarrow> (string + ProtocolTransactionGraph \<times> nat) result" where
  "Compile cfg proto numGpus dataSize baseFlowId includeStartup =
     (case proto of
        None \<Rightarrow> Inr (Inl ''null protocol model'')
      | Some pm \<Rightarrow>
          stage (eval_params (m_param cfg) (umap_put ''dataSize'' dataSize (umap_put ''numGpus'' (ucast numGpus) []))) (\<lambda>vars.
          stage (resolve_dims (m_dims cfg) vars) (\<lambda>rdims.
          and_then (enumerate_instances rdims) (\<lambda>instances.
          let instances = (if instances = [] then [[]] else instances) in
          and_then (collect_transfers (m_transfer cfg) []) (\<lambda>transfers.
          if transfers = [] then Inr (Inl ''no transfer stencils'')
          else stage (resolve_startup cfg pm numGpus dataSize vars includeStartup) (\<lambda>startupNs.
               stage (Run vars (m_perStepDelay cfg)) (\<lambda>perStepNs.
               let firstDim = (case rdims of [] \<Rightarrow> '''' | d # _ \<Rightarrow> rd_var d)
               in stage (emit_instances pm numGpus baseFlowId startupNs perStepNs vars firstDim transfers
                           (sort_key (groupKeyOf firstDim) instances) compile_new)
                    (finish_graph cfg))))))))"

subsection \<open>The runner\<close>

text \<open>
  \<open>OnPacketReceived\<close>: the event of a delivered packet, none for a loss notice; \<open>pktSize\<close> is
  the size of the packet.
\<close>

definition OnPacketReceived :: "u16 \<Rightarrow> FabricHeader \<Rightarrow> u32 \<Rightarrow> ProtocolTransactionEvent option" where
  "OnPacketReceived base h pktSize =
     (if GetPacketType h = PT_PERMANENT_LOSS then None
      else let effectiveSize = (if GetEffectiveDataSize h = 0 then pktSize else GetEffectiveDataSize h)
           in Some \<lparr>ev_type = PACKET_DELIVERED, ev_packetType = GetPacketType h, ev_sourceRank = GetSourceRank h,
                ev_destinationRank = GetDestRank h, ev_flowId = GetFlowId h, ev_bytes = ucast effectiveSize,
                ev_stageId = (if GetFlowId h \<ge> base then ucast (GetFlowId h - base) else 4294967295)\<rparr>)"

text \<open>
  \<open>OnAction\<close>: the arguments of the bulk transfer; \<open>endpoints\<close> says which ranks have one.
\<close>

definition OnAction :: "bool list \<Rightarrow> ProtocolTransactionAction \<Rightarrow> (u16 \<times> u16 \<times> u64 \<times> u8 \<times> u16 \<times> u8) result" where
  "OnAction endpoints a =
     (if act_type a \<noteq> SEND_DATA \<and> act_type a \<noteq> SEND_P2P
      then Inl (NsAbort ''ProtocolConfigRunner: unsupported action type'')
      else if unat (act_sourceRank a) \<ge> length endpoints \<or> \<not> endpoints ! unat (act_sourceRank a)
      then Inl (NsAbort ''ProtocolConfigRunner: action has invalid source rank'')
      else Inr (act_sourceRank a, act_destinationRank a, act_effectiveBytes a, act_protocolId a, act_flowId a, act_virtualChannel a))"

subsection \<open>Compiled graphs are chains\<close>

text \<open>
  A graph under construction: nodes are numbered by position, wait for at most one earlier
  node, and lead to one of the chain ends \<open>T\<close>.
\<close>

definition chain_node :: "nat \<Rightarrow> ProtocolTransactionNode \<Rightarrow> bool" where
  "chain_node v nd =
     (nd_id nd = v \<and> nd_type nd \<noteq> COMPLETE \<and> length (nd_dependencies nd) \<le> 1 \<and> (\<forall>d \<in> set (nd_dependencies nd). d < v))"

definition chain_graph :: "ProtocolTransactionGraph \<Rightarrow> nat set \<Rightarrow> bool" where
  "chain_graph g T =
     ((\<forall>v < length g. chain_node v (g ! v)) \<and> T \<subseteq> {..<length g} \<and> (\<forall>v < length g. \<exists>t \<in> T. (v, t) \<in> (dep_edges g)\<^sup>*))"

lemma dep_edges_snoc: "dep_edges (g @ [nd]) = dep_edges g \<union> set (nd_dependencies nd) \<times> {length g}"
  by (auto simp: dep_edges_def nth_append less_Suc_eq)

lemma chain_graph_snoc:
  assumes chain: "chain_graph g T" and nd: "chain_node (length g) nd"
    and T': "T - set (nd_dependencies nd) \<subseteq> T'" "length g \<in> T'" "T' \<subseteq> insert (length g) T"
  shows "chain_graph (g @ [nd]) T'"
  unfolding chain_graph_def
proof (intro conjI allI impI)
  fix v assume v: "v < length (g @ [nd])"
  then show "chain_node v ((g @ [nd]) ! v)"
    using chain nd by (auto simp: chain_graph_def nth_append less_Suc_eq)
  show "\<exists>t \<in> T'. (v, t) \<in> (dep_edges (g @ [nd]))\<^sup>*"
  proof (cases "v = length g")
    case False
    then obtain t where t: "t \<in> T" "(v, t) \<in> (dep_edges g)\<^sup>*"
      using chain v by (auto simp: chain_graph_def less_Suc_eq)
    then have path: "(v, t) \<in> (dep_edges (g @ [nd]))\<^sup>*"
      by (auto simp: dep_edges_snoc intro: in_rtrancl_UnI)
    show ?thesis
    proof (cases "t \<in> set (nd_dependencies nd)")
      case True
      then have "(t, length g) \<in> dep_edges (g @ [nd])" by (simp add: dep_edges_snoc)
      with path T'(2) show ?thesis by (meson rtrancl.rtrancl_into_rtrancl)
    qed (use t path T'(1) in auto)
  qed (use T'(2) in auto)
qed (use chain T'(3) in \<open>auto simp: chain_graph_def\<close>)

lemma chain_graph_deps:
  assumes "chain_graph g T" "(u, v) \<in> dep_edges g"
  shows "u < v" "v < length g"
  using assms by (auto simp: chain_graph_def dep_edges_def chain_node_def)

subsection \<open>Transfers come in pairs\<close>

text \<open>
  An action and the wait for its delivery: both are made from one request whose ranks are
  below \<open>numGpus\<close> and whose flow identifier is the base plus the stage, without wrapping.
\<close>

definition pair_ok :: "ProtocolModel \<Rightarrow> u16 \<Rightarrow> u16 \<Rightarrow> nat \<Rightarrow> ProtocolTransactionNode \<Rightarrow> ProtocolTransactionNode \<Rightarrow> bool" where
  "pair_ok pm numGpus base s a w =
     (\<exists>req k. k < s \<and> unat base + k \<le> 65535 \<and> (rq_kind req = DATA_TRANSFER \<or> rq_kind req = P2P_TRANSFER)
        \<and> rq_packetType req = PT_DATA \<and> rq_sourceRank req < numGpus \<and> rq_destinationRank req < numGpus
        \<and> rq_stageId req = of_nat k \<and> rq_flowId req = base + of_nat k
        \<and> nd_action a = transfer_action pm req \<and> nd_type w = WAIT \<and> nd_matcher w = transfer_matcher req
        \<and> nd_targetBytes w = rq_effectiveBytes req \<and> nd_targetEvents w = 0)"

lemma pair_ok_mono: "pair_ok pm n base s a w \<Longrightarrow> s \<le> s' \<Longrightarrow> pair_ok pm n base s' a w"
  unfolding pair_ok_def by (meson order_less_le_trans)

abbreviation stage_of :: "ProtocolTransactionNode \<Rightarrow> u32" where
  "stage_of a \<equiv> act_stageId (nd_action a)"

lemma transfer_action_fields [simp]:
  "act_stageId (transfer_action pm req) = rq_stageId req"
  "act_flowId (transfer_action pm req) = rq_flowId req"
  "act_sourceRank (transfer_action pm req) = rq_sourceRank req"
  "act_destinationRank (transfer_action pm req) = rq_destinationRank req"
  "act_effectiveBytes (transfer_action pm req) = rq_effectiveBytes req"
  "act_virtualChannel (transfer_action pm req) = rq_virtualChannel req"
  by (simp_all add: transfer_action_def Let_def split: ProtocolTransactionKind.splits)

lemma pair_ok_stage: "pair_ok pm n base s a w \<Longrightarrow> s \<le> 65536 \<Longrightarrow> unat (stage_of a) < s"
  by (auto simp: pair_ok_def unat_of_nat)

definition paired :: "ProtocolModel \<Rightarrow> u16 \<Rightarrow> u16 \<Rightarrow> nat \<Rightarrow> ProtocolTransactionGraph \<Rightarrow> bool" where
  "paired pm numGpus base s g =
     ((\<forall>v < length g. nd_type (g ! v) = ACTION \<longrightarrow> Suc v < length g \<and> pair_ok pm numGpus base s (g ! v) (g ! Suc v))
      \<and> (\<forall>v < length g. nd_type (g ! v) = WAIT \<longrightarrow> 0 < v \<and> nd_type (g ! (v - 1)) = ACTION)
      \<and> (\<forall>v < length g. \<forall>w < length g. nd_type (g ! v) = ACTION \<longrightarrow> nd_type (g ! w) = ACTION \<longrightarrow>
           stage_of (g ! v) = stage_of (g ! w) \<longrightarrow> v = w))"

lemma paired_delay:
  assumes "paired pm n base s g" "nd_type nd \<noteq> ACTION" "nd_type nd \<noteq> WAIT"
  shows "paired pm n base s (g @ [nd])"
  using assms unfolding paired_def by (auto simp: nth_append less_Suc_eq)

lemma paired_pair:
  assumes old: "paired pm n base s g" and s: "s < 65536"
    and new: "nd_type a = ACTION" "nd_type w = WAIT" "pair_ok pm n base (Suc s) a w" "stage_of a = of_nat s"
  shows "paired pm n base (Suc s) (g @ [a, w])"
proof -
  have stage: "stage_of (g ! v) \<noteq> of_nat s" if "v < length g" "nd_type (g ! v) = ACTION" for v
    using old that s pair_ok_stage [of pm n base s "g ! v" "g ! Suc v"] by (auto simp: paired_def unat_of_nat)
  have cases: "v < length g \<or> v = length g \<or> v = Suc (length g)" if "v < length (g @ [a, w])" for v
    using that by auto
  show ?thesis
    unfolding paired_def
  proof (intro conjI allI impI)
    fix v assume v: "v < length (g @ [a, w])"
    { assume "nd_type ((g @ [a, w]) ! v) = ACTION"
      then show "Suc v < length (g @ [a, w])" "pair_ok pm n base (Suc s) ((g @ [a, w]) ! v) ((g @ [a, w]) ! Suc v)"
        using old new cases [OF v] pair_ok_mono [of pm n base s _ _ "Suc s"] by (auto simp: paired_def nth_append) }
    { assume "nd_type ((g @ [a, w]) ! v) = WAIT"
      then show "0 < v" "nd_type ((g @ [a, w]) ! (v - 1)) = ACTION"
        using old new cases [OF v] by (auto simp: paired_def nth_append) }
    fix u assume u: "u < length (g @ [a, w])"
    assume "nd_type ((g @ [a, w]) ! v) = ACTION" "nd_type ((g @ [a, w]) ! u) = ACTION"
      "stage_of ((g @ [a, w]) ! v) = stage_of ((g @ [a, w]) ! u)"
    then show "v = u"
      using old new cases [OF v] cases [OF u] stage [of v] stage [of u] by (auto simp: paired_def nth_append)
  qed
qed

subsection \<open>What the emission loop keeps\<close>

text \<open>
  The keys of \<open>K\<close> may already be counted without having a chain end: this is the state
  between the step delay and the transfer it precedes.
\<close>

definition compile_inv :: "ProtocolModel \<Rightarrow> u16 \<Rightarrow> u16 \<Rightarrow> u64 set \<Rightarrow> compile_state \<Rightarrow> bool" where
  "compile_inv pm numGpus base K cs =
     (omap_wf (cs_groupDep cs) \<and> length (cs_groupDep cs) \<le> length (cs_graph cs) \<and> cs_stageCounter cs \<le> 65536
      \<and> chain_graph (cs_graph cs) (ran (omap_find (cs_groupDep cs)))
      \<and> paired pm numGpus base (cs_stageCounter cs) (cs_graph cs)
      \<and> (\<forall>k \<in> dom (omap_find (cs_groupDep cs)). omap_find (cs_groupSeeded cs) k = Some True)
      \<and> (\<forall>k c. k \<notin> K \<longrightarrow> omap_find (cs_groupPairCount cs) k = Some c \<longrightarrow> 0 < c \<longrightarrow> k \<in> dom (omap_find (cs_groupDep cs))))"

lemma compile_inv_new: "compile_inv pm n base {} compile_new"
  by (simp add: compile_inv_def compile_new_def chain_graph_def paired_def omap_wf_def omap_find_def ran_def)

lemma omap_put_length:
  assumes "length m \<le> l"
  shows "length (omap_put k v m) \<le> Suc l"
proof -
  have "length (omap_put k v m) \<le> Suc (length m)" by (induction k v m rule: omap_put.induct) auto
  with assms show ?thesis by simp
qed

text \<open>The chain ends after the end of one group has moved on to a new node.\<close>

lemma ran_move_end:
  assumes "\<And>d. m k = Some d \<Longrightarrow> d \<in> D"
  shows "ran m - D \<subseteq> ran (m(k \<mapsto> v))"
proof
  fix a assume a: "a \<in> ran m - D"
  then obtain x where "m x = Some a" by (auto simp: ran_def)
  with a assms have "(m(k \<mapsto> v)) x = Some a" by auto
  then show "a \<in> ran (m(k \<mapsto> v))" by (rule ranI)
qed

lemma chain_graph_end: "chain_graph g (ran m) \<Longrightarrow> m k = Some d \<Longrightarrow> d < length g"
  by (auto simp: chain_graph_def ran_def)

lemma chain_graph_move:
  assumes chain: "chain_graph g (ran m)" and nd: "nd_id nd = length g" "nd_type nd \<noteq> COMPLETE"
    and deps: "nd_dependencies nd = (case m k of None \<Rightarrow> [] | Some d \<Rightarrow> [d])"
  shows "chain_graph (g @ [nd]) (ran (m(k \<mapsto> length g)))"
proof (rule chain_graph_snoc [OF chain])
  show "chain_node (length g) nd"
    using nd deps chain_graph_end [OF chain] by (auto simp: chain_node_def split: option.splits)
  show "ran m - set (nd_dependencies nd) \<subseteq> ran (m(k \<mapsto> length g))"
    using deps by (intro ran_move_end) simp
  show "length g \<in> ran (m(k \<mapsto> length g))" "ran (m(k \<mapsto> length g)) \<subseteq> insert (length g) (ran m)"
    by (auto simp: ran_def)
qed

lemma seed_group_inv:
  assumes inv: "compile_inv pm n base {} cs" and len: "length (cs_graph cs) < 2 ^ 32"
  shows "compile_inv pm n base {} (seed_group startupNs gkey cs)"
    "omap_find (cs_groupSeeded (seed_group startupNs gkey cs)) gkey = Some True"
    "cs_stageCounter (seed_group startupNs gkey cs) = cs_stageCounter cs"
    "length (cs_graph (seed_group startupNs gkey cs)) \<le> Suc (length (cs_graph cs))"
proof -
  let ?m = "omap_find (cs_groupDep cs)"
  let ?nd = "node_new\<lparr>nd_type := DELAY, nd_delay := NanoSeconds startupNs, nd_dependencies := [], nd_label := ''startup'',
    nd_id := length (cs_graph cs)\<rparr>"
  show "compile_inv pm n base {} (seed_group startupNs gkey cs)"
  proof (cases "omap_find (cs_groupSeeded cs) gkey = Some True")
    case False
    then have none: "?m gkey = None" using inv by (auto simp: compile_inv_def)
    have "chain_graph (cs_graph cs @ [?nd]) (ran (?m(gkey \<mapsto> length (cs_graph cs))))"
      using inv none by (intro chain_graph_move) (auto simp: compile_inv_def)
    moreover have "paired pm n base (cs_stageCounter cs) (cs_graph cs @ [?nd])"
      using inv by (intro paired_delay) (auto simp: compile_inv_def)
    ultimately show ?thesis using inv False len
      by (auto simp: compile_inv_def seed_group_def AddDelay_def AddNode_def omap_find_put omap_wf_put node_new_def
          intro: omap_put_length)
  qed (use inv in \<open>simp add: seed_group_def\<close>)
qed (auto simp: seed_group_def AddDelay_def AddNode_def omap_find_put)

lemma step_delay_inv:
  assumes inv: "compile_inv pm n base {} cs" and len: "length (cs_graph cs) < 2 ^ 32"
  shows "compile_inv pm n base {gkey} (step_delay perStepNs gkey cs)"
    "cs_groupSeeded (step_delay perStepNs gkey cs) = cs_groupSeeded cs"
    "cs_stageCounter (step_delay perStepNs gkey cs) = cs_stageCounter cs"
    "length (cs_graph (step_delay perStepNs gkey cs)) \<le> Suc (length (cs_graph cs))"
proof -
  let ?m = "omap_find (cs_groupDep cs)"
  show "compile_inv pm n base {gkey} (step_delay perStepNs gkey cs)"
  proof (cases "(case omap_find (cs_groupPairCount cs) gkey of None \<Rightarrow> 0 | Some c \<Rightarrow> c) > 0 \<and> perStepNs > 0")
    case True
    then obtain c d where c: "omap_find (cs_groupPairCount cs) gkey = Some c" "0 < c" and d: "?m gkey = Some d"
      using inv by (fastforce simp: compile_inv_def split: option.splits)
    let ?nd = "node_new\<lparr>nd_type := DELAY, nd_delay := NanoSeconds perStepNs, nd_dependencies := [d], nd_label := ''step-delay'',
      nd_id := length (cs_graph cs)\<rparr>"
    have "chain_graph (cs_graph cs @ [?nd]) (ran (?m(gkey \<mapsto> length (cs_graph cs))))"
      using inv d by (intro chain_graph_move) (auto simp: compile_inv_def)
    moreover have "paired pm n base (cs_stageCounter cs) (cs_graph cs @ [?nd])"
      using inv by (intro paired_delay) (auto simp: compile_inv_def)
    ultimately show ?thesis using inv True len c d
      by (auto simp: compile_inv_def step_delay_def AddDelay_def AddNode_def omap_find_put omap_wf_put node_new_def
          intro: omap_put_length)
  next
    case False
    then show ?thesis using inv
      unfolding step_delay_def Let_def by (auto simp: compile_inv_def omap_find_put)
  qed
qed (auto simp: step_delay_def Let_def AddDelay_def AddNode_def)

lemma add_transfer_inv:
  assumes inv: "compile_inv pm n base {gkey} cs" and len: "Suc (length (cs_graph cs)) < 2 ^ 32"
    and seeded: "omap_find (cs_groupSeeded cs) gkey = Some True"
    and req: "rq_kind req = DATA_TRANSFER \<or> rq_kind req = P2P_TRANSFER" "rq_packetType req = PT_DATA"
      "rq_sourceRank req < n" "rq_destinationRank req < n" "rq_stageId req = of_nat (cs_stageCounter cs)"
      "rq_flowId req = base + of_nat (cs_stageCounter cs)" "unat base + cs_stageCounter cs \<le> 65535"
  shows "compile_inv pm n base {} (add_transfer pm req gkey cs)"
    "length (cs_graph (add_transfer pm req gkey cs)) = length (cs_graph cs) + 2"
proof -
  let ?g = "cs_graph cs" and ?s = "cs_stageCounter cs" and ?m = "omap_find (cs_groupDep cs)"
  let ?deps = "case ?m gkey of None \<Rightarrow> [] | Some d \<Rightarrow> [d]"
  let ?prefix = "if rq_label req = '''' then ''transfer'' else rq_label req"
  define a where "a = node_new\<lparr>nd_type := ACTION, nd_action := transfer_action pm req, nd_dependencies := ?deps,
    nd_label := ?prefix @ ''.send'', nd_id := length ?g\<rparr>"
  define w where "w = node_new\<lparr>nd_type := WAIT, nd_matcher := transfer_matcher req, nd_targetBytes := completion_bytes req,
    nd_targetEvents := 0, nd_dependencies := [length ?g], nd_label := ?prefix @ ''.delivery'', nd_id := Suc (length ?g)\<rparr>"
  have bound: "d \<noteq> INVALID_NODE" if "?m gkey = Some d" for d
    using inv that len chain_graph_end [of ?g ?m gkey d] by (auto simp: compile_inv_def INVALID_NODE_def)
  have deps: "(case ?m gkey of None \<Rightarrow> [] | Some d \<Rightarrow> if d \<noteq> INVALID_NODE then [d] else []) = ?deps"
    using bound by (simp split: option.splits)
  have eq: "add_transfer pm req gkey cs = cs\<lparr>cs_graph := ?g @ [a, w],
      cs_groupDep := omap_put gkey (Suc (length ?g)) (cs_groupDep cs), cs_stageCounter := Suc ?s\<rparr>"
    using len unfolding add_transfer_def AddTransaction_def AddAction_def AddWait_def AddNode_def Let_def deps
    by (simp add: a_def w_def node_new_def)
  have "chain_graph (?g @ [a]) (ran (?m(gkey \<mapsto> length ?g)))"
    using inv by (intro chain_graph_move) (auto simp: compile_inv_def a_def)
  then have "chain_graph ((?g @ [a]) @ [w]) (ran ((?m(gkey \<mapsto> length ?g))(gkey \<mapsto> length (?g @ [a]))))"
    by (rule chain_graph_move) (auto simp: w_def)
  then have chain: "chain_graph (?g @ [a, w]) (ran (?m(gkey \<mapsto> Suc (length ?g))))" by simp
  have "pair_ok pm n base (Suc ?s) a w"
    unfolding pair_ok_def using req by (intro exI [of _ req] exI [of _ ?s]) (auto simp: a_def w_def completion_bytes_def)
  then have "paired pm n base (Suc ?s) (?g @ [a, w])"
    using inv req by (intro paired_pair) (auto simp: compile_inv_def a_def w_def)
  with chain show "compile_inv pm n base {} (add_transfer pm req gkey cs)"
    using inv seeded req(7) by (auto simp: eq compile_inv_def omap_find_put omap_wf_put intro: omap_put_length le_SucI)
  show "length (cs_graph (add_transfer pm req gkey cs)) = length ?g + 2" by (simp add: eq)
qed

lemma stage_Inr [simp]: "stage r f = Inr (Inr y) \<longleftrightarrow> (\<exists>x. r = Inr (Inr x) \<and> f x = Inr (Inr y))"
  by (cases r; simp add: stage_def split: sum.splits; blast?)

lemma or_else_Inr [simp]: "or_else r f = Inr y \<longleftrightarrow> (\<exists>x. r = Inr x \<and> f x = Inr y)"
  by (cases r) simp_all

lemma ucast_rank: "(v :: u64) < ucast (n :: u16) \<Longrightarrow> (ucast v :: u16) < n"
  by (simp add: word_less_nat_alt unsigned_ucast_eq take_bit_eq_mod)

lemma transfer_fields_ranks:
  assumes "transfer_fields n tidx st vars = Inr (Inr (src, dst, bytes, vc, response))"
  shows "(ucast src :: u16) < n" "(ucast dst :: u16) < n"
  using assms by (auto simp: transfer_fields_def checkRank_def split: if_splits intro!: ucast_rank)

lemma emit_transfer_inv:
  assumes inv: "compile_inv pm n base {} cs" and len: "length (cs_graph cs) \<le> 4 * cs_stageCounter cs + 1"
    and seeded: "omap_find (cs_groupSeeded cs) gkey = Some True"
    and ok: "emit_transfer pm n base perStepNs vars gkey t cs = Inr (Inr cs')"
  shows "compile_inv pm n base {} cs'" "length (cs_graph cs') \<le> 4 * cs_stageCounter cs'"
    "omap_find (cs_groupSeeded cs') gkey = Some True"
    "cs_stageCounter cs' = Suc (cs_stageCounter cs)" "omap_find (cs_groupDep cs') gkey \<noteq> None"
proof -
  let ?cs = "step_delay perStepNs gkey cs"
  obtain tidx st where t: "t = (tidx, st)" by (cases t)
  have small: "length (cs_graph cs) < 2 ^ 32" using inv len by (simp add: compile_inv_def)
  note delay = step_delay_inv [OF inv small, where gkey = gkey and perStepNs = perStepNs]
  obtain kp src dst bytes vc response where kp: "ParseKind (case umap_find st ''kind'' of None \<Rightarrow> ''DATA'' | Some s \<Rightarrow> s) = Some kp"
    and fvs: "transfer_fields n tidx st vars = Inr (Inr (src, dst, bytes, vc, response))"
    and flow: "unat base + cs_stageCounter cs \<le> 65535"
    and cs': "cs' = add_transfer pm (compile_request tidx kp (src, dst, bytes, vc, response) base (cs_stageCounter cs)) gkey ?cs"
    using ok unfolding emit_transfer_def t Let_def by (auto simp: delay(3) split: option.splits if_splits)
  have kind: "(fst kp = DATA_TRANSFER \<or> fst kp = P2P_TRANSFER) \<and> snd kp = PT_DATA"
    using kp by (auto simp: ParseKind_def split: if_splits)
  have "Suc (length (cs_graph ?cs)) < 2 ^ 32"
    using inv len delay(4) by (simp add: compile_inv_def)
  note add = add_transfer_inv [OF delay(1) this, of "compile_request tidx kp (src, dst, bytes, vc, response) base (cs_stageCounter cs)",
      folded cs']
  have pre: "rq_kind r = fst kp" "rq_packetType r = snd kp" "rq_sourceRank r = ucast src" "rq_destinationRank r = ucast dst"
      "rq_stageId r = of_nat (cs_stageCounter cs)" "rq_flowId r = base + of_nat (cs_stageCounter cs)"
    if "r = compile_request tidx kp (src, dst, bytes, vc, response) base (cs_stageCounter cs)" for r
    using that by (simp_all add: compile_request_def)
  show "compile_inv pm n base {} cs'"
    using add(1) seeded kind flow transfer_fields_ranks [OF fvs] by (simp add: delay(2,3) pre)
  have same: "cs_groupSeeded cs' = cs_groupSeeded cs" "cs_stageCounter cs' = Suc (cs_stageCounter cs)"
    "omap_find (cs_groupDep cs') gkey \<noteq> None"
    by (auto simp: cs' add_transfer_def omap_find_put delay(2,3) split: prod.splits)
  then show "omap_find (cs_groupSeeded cs') gkey = Some True" "cs_stageCounter cs' = Suc (cs_stageCounter cs)"
    "omap_find (cs_groupDep cs') gkey \<noteq> None" using seeded by simp_all
  show "length (cs_graph cs') \<le> 4 * cs_stageCounter cs'"
    using add(2) seeded kind flow transfer_fields_ranks [OF fvs] len delay(4) same(2) by (simp add: delay(2,3) pre)
qed

lemma emit_transfers_inv:
  assumes "emit_transfers pm n base perStepNs vars gkey ts cs = Inr (Inr cs')" "compile_inv pm n base {} cs"
    "omap_find (cs_groupSeeded cs) gkey = Some True" "ts \<noteq> []" "length (cs_graph cs) \<le> 4 * cs_stageCounter cs + 1"
  shows "compile_inv pm n base {} cs' \<and> length (cs_graph cs') \<le> 4 * cs_stageCounter cs' \<and> cs_groupDep cs' \<noteq> []"
  using assms
proof (induction ts arbitrary: cs)
  case (Cons t ts)
  then obtain cs1 where t: "emit_transfer pm n base perStepNs vars gkey t cs = Inr (Inr cs1)"
    and ts: "emit_transfers pm n base perStepNs vars gkey ts cs1 = Inr (Inr cs')" by auto
  note step = emit_transfer_inv [OF Cons.prems(2,5,3) t]
  show ?case
  proof (cases "ts = []")
    case True
    then show ?thesis using ts step(1,2,5) by (auto simp: omap_find_def)
  next
    case False
    then show ?thesis using Cons.IH [OF ts step(1,3) False] step(2) by simp
  qed
qed simp

lemma emit_instances_inv:
  assumes "emit_instances pm n base startupNs perStepNs vars firstDim ts insts cs = Inr (Inr cs')"
    "compile_inv pm n base {} cs" "ts \<noteq> []" "length (cs_graph cs) \<le> 4 * cs_stageCounter cs"
    "insts \<noteq> [] \<or> cs_groupDep cs \<noteq> []"
  shows "compile_inv pm n base {} cs' \<and> length (cs_graph cs') \<le> 4 * cs_stageCounter cs' \<and> cs_groupDep cs' \<noteq> []"
  using assms
proof (induction insts arbitrary: cs)
  case (Cons inst insts)
  let ?gkey = "groupKeyOf firstDim inst"
  have small: "length (cs_graph cs) < 2 ^ 32" using Cons.prems(2,4) by (simp add: compile_inv_def)
  note seed = seed_group_inv [OF Cons.prems(2) small, where startupNs = startupNs and gkey = ?gkey]
  from Cons.prems(1) obtain cs1 where
    t: "emit_transfers pm n base perStepNs (instance_symbols vars inst) ?gkey ts (seed_group startupNs ?gkey cs) = Inr (Inr cs1)"
    and rest: "emit_instances pm n base startupNs perStepNs vars firstDim ts insts cs1 = Inr (Inr cs')"
    by (auto simp: Let_def)
  have "length (cs_graph (seed_group startupNs ?gkey cs)) \<le> 4 * cs_stageCounter (seed_group startupNs ?gkey cs) + 1"
    using seed(3,4) Cons.prems(4) by simp
  from emit_transfers_inv [OF t seed(1,2) Cons.prems(3) this] Cons.IH [OF rest] Cons.prems(3) show ?case by blast
qed simp

subsection \<open>The completion node makes the graph valid\<close>

text \<open>What only the values of the configuration can spoil: empty transfers and overlong delays.\<close>

definition sound_values :: "ProtocolTransactionGraph \<Rightarrow> bool" where
  "sound_values g = list_all (\<lambda>nd. (nd_type nd = WAIT \<longrightarrow> nd_targetBytes nd \<noteq> 0) \<and> (nd_type nd = DELAY \<longrightarrow> 0 \<le> nd_delay nd)) g"

lemma completed_chain:
  assumes chain: "chain_graph g T" and T: "set ends = T" "length ends < 2 ^ 32" and len: "Suc (length g) < 2 ^ 32"
    and nd: "nd_id nd = length g" "nd_type nd = COMPLETE" "nd_dependencies nd = ends"
  shows "well_numbered (g @ [nd])" "completions (g @ [nd]) = [length g]" "acyclic (dep_edges (g @ [nd]))"
    "v \<le> length g \<Longrightarrow> (v, length g) \<in> (dep_edges (g @ [nd]))\<^sup>*"
    "d \<in> set (deps_of (g @ [nd]) v) \<Longrightarrow> v \<le> length g \<Longrightarrow> d < v"
proof -
  have ends: "t < length g" if "t \<in> set ends" for t using that chain T by (auto simp: chain_graph_def)
  have node: "chain_node v (g ! v)" if "v < length g" for v using chain that by (simp add: chain_graph_def)
  show "well_numbered (g @ [nd])"
    using node nd T len by (force simp: well_numbered_def chain_node_def nth_append less_Suc_eq)
  show "completions (g @ [nd]) = [length g]"
    using node nd by (auto simp: completions_def chain_node_def nth_append filter_empty_conv)
  have lt: "u < v" if "(u, v) \<in> dep_edges (g @ [nd])" for u v
    using that ends nd chain_graph_deps(1) [OF chain] by (auto simp: dep_edges_snoc)
  then have "dep_edges (g @ [nd]) \<subseteq> less_than" by auto
  then show "acyclic (dep_edges (g @ [nd]))"
    using wf_acyclic [OF wf_less_than] acyclic_subset by blast
  show "(v, length g) \<in> (dep_edges (g @ [nd]))\<^sup>*" if v: "v \<le> length g"
  proof (cases "v = length g")
    case False
    with v have "v < length g" by simp
    then obtain t where t: "t \<in> set ends" "(v, t) \<in> (dep_edges g)\<^sup>*"
      using chain T by (auto simp: chain_graph_def)
    then have "(v, t) \<in> (dep_edges (g @ [nd]))\<^sup>*" "(t, length g) \<in> dep_edges (g @ [nd])"
      using nd by (auto simp: dep_edges_snoc intro: in_rtrancl_UnI)
    then show ?thesis by (rule rtrancl.rtrancl_into_rtrancl)
  qed simp
  show "d < v" if "d \<in> set (deps_of (g @ [nd]) v)" "v \<le> length g"
    using that lt [of d v] by (simp add: dep_edges_def)
qed

lemma valid_completed_chain:
  assumes "chain_graph g T" "set ends = T" "length ends < 2 ^ 32" "Suc (length g) < 2 ^ 32"
    "nd_id nd = length g" "nd_type nd = COMPLETE" "nd_dependencies nd = ends"
    and waits: "\<forall>v < length g. nd_type (g ! v) = WAIT \<longrightarrow> nd_targetEvents (g ! v) = 0"
  shows "valid_graph (g @ [nd]) \<longleftrightarrow> sound_values g"
proof -
  note cc = completed_chain [OF assms(1-7)]
  have "local_ok (g @ [nd]) v \<longleftrightarrow>
      (nd_type (g ! v) = WAIT \<longrightarrow> nd_targetBytes (g ! v) \<noteq> 0) \<and> (nd_type (g ! v) = DELAY \<longrightarrow> 0 \<le> nd_delay (g ! v))"
    if v: "v < length g" for v
    using v waits cc(5) [where v = v] by (fastforce simp: local_ok_def nth_append)
  moreover have "local_ok (g @ [nd]) (length g)"
    using assms(6) cc(5) [where v = "length g"] by (fastforce simp: local_ok_def)
  ultimately have "(\<forall>v < length (g @ [nd]). local_ok (g @ [nd]) v) \<longleftrightarrow> sound_values g"
    by (auto simp: sound_values_def list_all_length less_Suc_eq)
  then show ?thesis using cc(2-4) by (auto simp: valid_graph_def less_Suc_eq_le)
qed

lemma finish_graph_spec:
  assumes inv: "compile_inv pm n base {} cs" and len: "length (cs_graph cs) \<le> 4 * cs_stageCounter cs" and ne: "cs_groupDep cs \<noteq> []"
  shows "\<exists>nd. nd_type nd = COMPLETE \<and> well_numbered (cs_graph cs @ [nd])
    \<and> completions (cs_graph cs @ [nd]) = [length (cs_graph cs)]
    \<and> (valid_graph (cs_graph cs @ [nd]) \<longleftrightarrow> sound_values (cs_graph cs))
    \<and> (if sound_values (cs_graph cs) then finish_graph cfg cs = Inr (Inr (cs_graph cs @ [nd], length (cs_graph cs)))
       else \<exists>e. finish_graph cfg cs = Inr (Inl (''compiled graph invalid: '' @ e)))"
proof -
  let ?g = "cs_graph cs" and ?m = "cs_groupDep cs" and ?dep = "if cfg_complete cfg = ''any'' then DEP_ANY else DEP_ALL"
  define nd where "nd = node_new\<lparr>nd_type := COMPLETE, nd_dependencies := map snd ?m, nd_dependency := ?dep,
    nd_label := ''complete'', nd_id := length ?g\<rparr>"
  have chain: "chain_graph ?g (ran (omap_find ?m))" and dist: "distinct (map fst ?m)" and small: "Suc (length ?g) < 2 ^ 32"
    using inv len by (auto simp: compile_inv_def omap_wf_distinct)
  have ends: "set (map snd ?m) = ran (omap_find ?m)" using dist by (simp add: ran_distinct omap_find_def)
  then have lt: "v < length ?g" if "v \<in> set (map snd ?m)" for v using that chain by (auto simp: chain_graph_def)
  have finals: "filter (\<lambda>v. v \<noteq> INVALID_NODE) (map snd ?m) = map snd ?m"
    using lt small by (force simp: filter_id_conv INVALID_NODE_def)
  have few: "length (map snd ?m) < 2 ^ 32" using inv small by (simp add: compile_inv_def)
  have waits: "\<forall>v < length ?g. nd_type (?g ! v) = WAIT \<longrightarrow> nd_targetEvents (?g ! v) = 0"
  proof (intro allI impI)
    fix v assume v: "v < length ?g" "nd_type (?g ! v) = WAIT"
    then have "0 < v" "nd_type (?g ! (v - 1)) = ACTION" using inv by (auto simp: compile_inv_def paired_def)
    then have "pair_ok pm n base (cs_stageCounter cs) (?g ! (v - 1)) (?g ! Suc (v - 1))"
      using inv v unfolding compile_inv_def paired_def by (metis less_imp_diff_less)
    then show "nd_targetEvents (?g ! v) = 0" using \<open>0 < v\<close> by (auto simp: pair_ok_def)
  qed
  have nd: "nd_id nd = length ?g" "nd_type nd = COMPLETE" "nd_dependencies nd = map snd ?m" by (simp_all add: nd_def)
  note cc = completed_chain [OF chain ends few small nd] and valid = valid_completed_chain [OF chain ends few small nd waits]
  have add: "AddCompletion ?g (map snd ?m) ?dep ''complete'' = (?g @ [nd], length ?g)"
    using small by (simp add: AddCompletion_def AddNode_def nd_def node_new_def)
  have "finish_graph cfg cs = (case Validate (?g @ [nd]) of None \<Rightarrow> Inl Diverges
      | Some (Invalid e) \<Rightarrow> Inr (Inl (''compiled graph invalid: '' @ e)) | Some Valid \<Rightarrow> Inr (Inr (?g @ [nd], length ?g)))"
    using ne by (simp add: finish_graph_def finals Let_def add)
  with validate_decides [OF cc(1)] cc(1,2) valid nd(2) show ?thesis
    by (intro exI [of _ nd]) (auto split: verdict.splits)
qed

lemma Compile_emits:
  assumes "Compile cfg (Some pm) n dataSize base includeStartup = Inr (Inr (g, c))"
  shows "\<exists>cs. compile_inv pm n base {} cs \<and> length (cs_graph cs) \<le> 4 * cs_stageCounter cs \<and> cs_groupDep cs \<noteq> []
    \<and> finish_graph cfg cs = Inr (Inr (g, c))"
proof -
  have no_stencils: "(if b then Inr (Inl e) else r) = Inr (Inr y) \<longleftrightarrow> \<not> b \<and> r = Inr (Inr y)" for b e r y by simp
  from assms obtain startupNs perStepNs vars firstDim ts instances cs where ts: "ts \<noteq> []"
    and emit: "emit_instances pm n base startupNs perStepNs vars firstDim ts
      (sort_key (groupKeyOf firstDim) (if instances = [] then [[]] else instances)) compile_new = Inr (Inr cs)"
    and fin: "finish_graph cfg cs = Inr (Inr (g, c))"
    unfolding Compile_def Let_def by (auto simp: no_stencils split del: if_split)
  have ne: "sort_key (groupKeyOf firstDim) (if instances = [] then [[]] else instances) \<noteq> []"
    by (simp flip: length_greater_0_conv)
  have "length (cs_graph compile_new) \<le> 4 * cs_stageCounter compile_new" by (simp add: compile_new_def)
  with emit_instances_inv [OF emit compile_inv_new ts] ne fin show ?thesis by blast
qed

lemma Compile_result:
  assumes "Compile cfg (Some pm) n dataSize base includeStartup = Inr (Inr (g, c))"
  shows "\<exists>body nd s. g = body @ [nd] \<and> c = length body \<and> nd_type nd = COMPLETE \<and> s \<le> 65536
    \<and> paired pm n base s body \<and> well_numbered g \<and> valid_graph g \<and> completions g = [c]"
proof -
  from Compile_emits [OF assms] obtain cs where inv: "compile_inv pm n base {} cs"
    and cs: "length (cs_graph cs) \<le> 4 * cs_stageCounter cs" "cs_groupDep cs \<noteq> []"
    and fin: "finish_graph cfg cs = Inr (Inr (g, c))" by blast
  from finish_graph_spec [OF inv cs, of cfg] fin obtain nd where
    "nd_type nd = COMPLETE" "well_numbered (cs_graph cs @ [nd])" "completions (cs_graph cs @ [nd]) = [length (cs_graph cs)]"
    "valid_graph (cs_graph cs @ [nd])" "g = cs_graph cs @ [nd]" "c = length (cs_graph cs)"
    by (auto split: if_splits)
  with inv show ?thesis
    by (intro exI [of _ "cs_graph cs"] exI [of _ nd] exI [of _ "cs_stageCounter cs"]) (auto simp: compile_inv_def)
qed

subsection \<open>The runner's events\<close>

lemma transfer_matcher_data:
  "rq_kind req = DATA_TRANSFER \<or> rq_kind req = P2P_TRANSFER \<Longrightarrow> transfer_matcher req =
     \<lparr>mt_type = PACKET_DELIVERED, mt_sourceRank = rq_sourceRank req, mt_destinationRank = rq_destinationRank req,
      mt_flowId = rq_flowId req, mt_stageId = rq_stageId req, mt_matchPacketType = True, mt_packetType = rq_packetType req\<rparr>"
  by (auto simp: transfer_matcher_def matcher_new_def Let_def)

text \<open>The header of a packet that carries data of an action.\<close>

definition carries :: "FabricHeader \<Rightarrow> ProtocolTransactionAction \<Rightarrow> bool" where
  "carries h a =
     (GetPacketType h = act_packetType a \<and> GetSourceRank h = act_sourceRank a
      \<and> GetDestRank h = act_destinationRank a \<and> GetFlowId h = act_flowId a)"

lemma flow_to_stage:
  assumes "unat base + k \<le> 65535"
  shows "base \<le> (base + of_nat k :: u16)" "(ucast (base + of_nat k - base :: u16) :: u32) = of_nat k"
proof -
  have k: "unat (of_nat k :: u16) = k" using assms by (simp add: unat_of_nat)
  then have "unat (base + of_nat k :: u16) = unat base + k" using assms by (simp add: unat_word_ariths)
  then show "base \<le> (base + of_nat k :: u16)" by (simp add: word_le_nat_alt)
  show "(ucast (base + of_nat k - base :: u16) :: u32) = of_nat k"
    using k by (simp add: word_unat_eq_iff unsigned_ucast_eq take_bit_eq_mod unat_of_nat)
qed

lemma carried_event:
  assumes "pair_ok pm n base s (a :: ProtocolTransactionNode) w" "carries h (nd_action a)" "OnPacketReceived base h sz = Some ev"
  shows "ev_stageId ev = stage_of a" "Matches (nd_matcher w) ev"
proof -
  obtain req k where k: "unat base + k \<le> 65535" and kind: "rq_kind req = DATA_TRANSFER \<or> rq_kind req = P2P_TRANSFER"
    and pt: "rq_packetType req = PT_DATA"
    and ids: "rq_stageId req = of_nat k" "rq_flowId req = base + of_nat k" and a: "nd_action a = transfer_action pm req"
    and w: "nd_matcher w = transfer_matcher req"
    using assms(1) by (auto simp: pair_ok_def)
  have type: "act_packetType (transfer_action pm req) = PT_DATA"
    using kind pt by (auto simp: transfer_action_def Let_def)
  have h: "GetPacketType h = PT_DATA" "GetSourceRank h = rq_sourceRank req" "GetDestRank h = rq_destinationRank req"
    "GetFlowId h = base + of_nat k"
    using assms(2) type ids(2) by (simp_all add: carries_def a)
  have ev: "ev_type ev = PACKET_DELIVERED" "ev_packetType ev = PT_DATA" "ev_sourceRank ev = rq_sourceRank req"
    "ev_destinationRank ev = rq_destinationRank req" "ev_flowId ev = rq_flowId req" "ev_stageId ev = rq_stageId req"
    using assms(3) flow_to_stage [OF k] ids unfolding OnPacketReceived_def h Let_def by auto
  show "ev_stageId ev = stage_of a" by (simp add: a ev)
  show "Matches (nd_matcher w) ev" by (simp add: w transfer_matcher_data [OF kind] Matches_def ev pt)
qed

lemma other_stage:
  assumes "pair_ok pm n base s a w" "s \<le> 65536" "ev_stageId ev \<noteq> stage_of a"
  shows "\<not> Matches (nd_matcher w) ev"
proof -
  obtain req k where k: "k < s" and kind: "rq_kind req = DATA_TRANSFER \<or> rq_kind req = P2P_TRANSFER"
    and ids: "rq_stageId req = of_nat k" and a: "nd_action a = transfer_action pm req" and w: "nd_matcher w = transfer_matcher req"
    using assms(1) by (auto simp: pair_ok_def)
  have "(of_nat k :: u32) \<noteq> ANY_STAGE" using k assms(2) by (auto simp: ANY_STAGE_def word_unat_eq_iff unat_of_nat)
  then show ?thesis using assms(3) ids kind by (auto simp: a w transfer_matcher_data Matches_def)
qed

lemma paired_delivery:
  assumes paired: "paired pm n base s g" "s \<le> 65536" and v: "v < length g" "nd_type (g ! v) = ACTION"
    and ev: "carries h (nd_action (g ! v))" "OnPacketReceived base h sz = Some ev"
    and w: "w < length g" "nd_type (g ! w) = WAIT"
  shows "Matches (nd_matcher (g ! w)) ev \<longleftrightarrow> w = Suc v"
proof -
  have pair: "pair_ok pm n base s (g ! v) (g ! Suc v)" using paired(1) v by (simp add: paired_def)
  obtain u where u: "w = Suc u" "nd_type (g ! u) = ACTION" "u < length g"
    using paired(1) w by (cases w) (auto simp: paired_def)
  have pu: "pair_ok pm n base s (g ! u) (g ! Suc u)" using paired(1) u by (simp add: paired_def)
  have "stage_of (g ! u) \<noteq> stage_of (g ! v)" if "u \<noteq> v" using that paired(1) u v by (auto simp: paired_def)
  with carried_event [OF pair ev] other_stage [OF pu paired(2), of ev] u(1) show ?thesis by (cases "u = v") auto
qed

lemma paired_runnable:
  assumes "paired pm n base s g" "v < length g" "nd_type (g ! v) = ACTION" "list_all id endpoints" "unat n \<le> length endpoints"
  shows "\<exists>args. OnAction endpoints (nd_action (g ! v)) = Inr args"
proof -
  have "pair_ok pm n base s (g ! v) (g ! Suc v)" using assms(1-3) by (simp add: paired_def)
  then obtain req where req: "rq_kind req = DATA_TRANSFER \<or> rq_kind req = P2P_TRANSFER" "rq_sourceRank req < n"
    and a: "nd_action (g ! v) = transfer_action pm req"
    unfolding pair_ok_def by blast
  have "unat (rq_sourceRank req) < length endpoints" using req(2) assms(5) by (simp add: word_less_nat_alt)
  moreover have "act_type (transfer_action pm req) = SEND_DATA \<or> act_type (transfer_action pm req) = SEND_P2P"
    using req(1) by (auto simp: transfer_action_def Let_def)
  ultimately show ?thesis using assms(4) by (auto simp: OnAction_def a list_all_length)
qed

subsection \<open>When compilation returns\<close>

definition returns :: "'a result \<Rightarrow> bool" where
  "returns r = (case r of Inl _ \<Rightarrow> False | Inr _ \<Rightarrow> True)"

lemma returns_Inr [simp]: "returns (Inr x)" "\<not> returns (Inl e)"
  by (simp_all add: returns_def)

lemma returns_and_then: "returns (and_then r f) \<longleftrightarrow> (\<exists>x. r = Inr x \<and> returns (f x))"
  by (cases r) simp_all

lemma returns_both:
  "(\<And>x y. returns (f x y)) \<Longrightarrow> returns (and_then r (\<lambda>x. and_then s (f x))) \<longleftrightarrow> returns r \<and> returns s"
  by (cases r; cases s) simp_all

lemma returns_stage: "returns r \<Longrightarrow> (\<And>x. r = Inr (Inr x) \<Longrightarrow> returns (f x)) \<Longrightarrow> returns (stage r f)"
  by (auto simp: stage_def returns_and_then returns_def split: sum.splits)

lemma returns_Run [simp]: "returns (Run vars e)"
  using Run_returns [of vars e] by auto


lemma returns_resolve_dims [simp]: "returns (resolve_dims ds vars)"
proof (induction ds)
  case (Cons d ds)
  obtain lo hi where "Run vars (loExpr d) = Inr lo" "Run vars (hiExpr d) = Inr hi" using Run_returns by meson
  moreover obtain rs where "resolve_dims ds vars = Inr rs" using Cons by (auto simp: returns_def split: sum.splits)
  ultimately show ?case by (auto split: sum.splits)
qed simp


lemma returns_evalField [simp]: "returns (evalField tidx st vars field)"
  using Run_returns [of vars "the (umap_find st field)"] by (auto simp: evalField_def split: option.splits sum.splits)

lemma returns_emit_transfer [simp]: "returns (emit_transfer pm n base perStepNs vars gkey t cs)"
  by (auto simp: emit_transfer_def transfer_fields_def Let_def split: option.splits prod.splits intro!: returns_stage)

lemma returns_emit_transfers [simp]: "returns (emit_transfers pm n base perStepNs vars gkey ts cs)"
  by (induction ts arbitrary: cs) (auto intro!: returns_stage)

lemma returns_emit_instances [simp]: "returns (emit_instances pm n base startupNs perStepNs vars firstDim ts insts cs)"
  by (induction insts arbitrary: cs) (auto simp: Let_def intro!: returns_stage)


















lemma sort_key_Nil [simp]: "sort_key f xs = [] \<longleftrightarrow> xs = []"
  by (metis length_0_conv length_sort)








subsection \<open>Properties\<close>

text \<open>A configuration of two chains: each of the two ranks sends 64 bytes to rank 1.\<close>

definition two_chains :: ProtocolConfig where
  "two_chains = ProtocolConfig_Clear\<lparr>
     m_dims := [\<lparr>dim_var = ''gpu'', loExpr = ''0'', hiExpr = ''1''\<rparr>],
     m_transfer := [(''transfer.0.src'', ''gpu''), (''transfer.0.dst'', ''1''), (''transfer.0.bytes'', ''64'')],
     m_startup := ''0''\<rparr>"

lemma spells_one: "lexeme t \<Longrightarrow> spells [t] t"
  using SkipWs_token [of t "[]"] by (simp add: separated_def)

lemma Run_literal:
  "number_token ds \<Longrightarrow> decimal ds < 2 ^ 64 \<Longrightarrow> Run vars ds = Inr (Inr (of_nat (decimal ds)))"
  using Run_spelled [of "Expr (Term (Num ds) []) []" ds vars] spells_one [of ds] by (simp add: lexeme_def)

lemma Run_symbol: "Run vars ''gpu'' = Inr (case umap_find vars ''gpu'' of None \<Rightarrow> Inl (''unknown symbol: '' @ quoted ''gpu'') | Some v \<Rightarrow> Inr v)"
proof -
  have "name_token ''gpu''" by (simp add: name_token_def letter_char_def)
  then show ?thesis using Run_spelled [of "Expr (Term (Name ''gpu'') []) []" "''gpu''" vars] spells_one [of "''gpu''"]
    by (simp add: lexeme_def split: option.splits)
qed

lemma literals:
  "Run vars ''0'' = Inr (Inr 0)" "Run vars ''1'' = Inr (Inr 1)" "Run vars ''64'' = Inr (Inr 64)"
  by (subst Run_literal; simp add: number_token_def numeral_char_def)+

definition chain_pair :: "nat \<Rightarrow> u16 \<Rightarrow> string \<Rightarrow> ProtocolTransactionGraph" where
  "chain_pair i rank name =
     (let req = request_new\<lparr>rq_sourceRank := rank, rq_destinationRank := 1, rq_effectiveBytes := 64,
            rq_stageId := ucast rank, rq_flowId := 7 + rank, rq_label := name\<rparr>
      in [node_new\<lparr>nd_id := i, nd_type := ACTION, nd_action := transfer_action (ethernet_model EthernetProtocolModel_new) req,
            nd_label := name @ ''.send''\<rparr>,
          node_new\<lparr>nd_id := Suc i, nd_type := WAIT, nd_matcher := transfer_matcher req, nd_targetBytes := 64,
            nd_dependencies := [i], nd_label := name @ ''.delivery''\<rparr>])"

lemma two_chains_stages:
  "resolve_dims (m_dims two_chains) vars = Inr (Inr [\<lparr>rd_var = ''gpu'', rd_lo = 0, rd_hi = 1\<rparr>])"
  "enumerate_instances [\<lparr>rd_var = ''gpu'', rd_lo = 0, rd_hi = 1\<rparr>] = Inr [[(''gpu'', 0)], [(''gpu'', 1)]]"
  "collect_transfers (m_transfer two_chains) [] = Inr [(0, [(''src'', ''gpu''), (''dst'', ''1''), (''bytes'', ''64'')])]"
  by (simp_all add: two_chains_def literals umap_put_def stoul_def isspace_def isdigit_def digits_value_def digit_value_def
    omap_find_def enumerate_instances_def replicate_loop.simps word_le_nat_alt)

lemma stage_simps [simp]: "stage (Inr (Inr x)) f = f x" "stage (Inr (Inl e)) f = Inr (Inl e)"
  by (simp_all add: stage_def)

lemma two_chains_transfer:
  assumes "v = 0 \<or> v = 1" "cs_stageCounter cs \<le> 1"
  shows "emit_transfer pm 2 7 0 (umap_put ''gpu'' v vars) gkey (0, [(''src'', ''gpu''), (''dst'', ''1''), (''bytes'', ''64'')]) cs =
    Inr (Inr (add_transfer pm (compile_request 0 (DATA_TRANSFER, PT_DATA) (v, 1, 64, 0, 0) 7 (cs_stageCounter cs)) gkey (step_delay 0 gkey cs)))"
proof -
  have "transfer_fields 2 0 [(''src'', ''gpu''), (''dst'', ''1''), (''bytes'', ''64'')] (umap_put ''gpu'' v vars) =
      Inr (Inr (v, 1, 64, 0, 0))"
    using assms(1) by (auto simp: transfer_fields_def evalField_def checkField_def checkRank_def literals Run_symbol
      umap_find_def [of "_ # _"] word_le_nat_alt word_less_nat_alt)
  then show ?thesis
    using assms(2) by (simp add: emit_transfer_def Let_def umap_find_def [of "_ # _"] ParseKind_def step_delay_def)
qed

lemma two_chains_emitted:
  "\<exists>cs. emit_instances (ethernet_model EthernetProtocolModel_new) 2 7 0 0 vars ''gpu''
      [(0, [(''src'', ''gpu''), (''dst'', ''1''), (''bytes'', ''64'')])] [[(''gpu'', 0)], [(''gpu'', 1)]] compile_new = Inr (Inr cs)
    \<and> cs_graph cs = chain_pair 0 0 ''t0-g0-s0'' @ chain_pair 2 1 ''t0-g1-s1'' \<and> cs_groupDep cs = [(0, 1), (1, 3)]"
  by (simp add: Let_def groupKeyOf_def umap_find_def seed_group_def compile_new_def omap_find_def instance_symbols_def
    two_chains_transfer step_delay_def add_transfer_def AddTransaction_def AddAction_def AddWait_def AddNode_def compile_request_def
    chain_pair_def node_new_def INVALID_NODE_def completion_bytes_def request_new_def to_string.simps char_of_def bit_0)

definition two_chains_graph :: ProtocolTransactionGraph where
  "two_chains_graph = chain_pair 0 0 ''t0-g0-s0'' @ chain_pair 2 1 ''t0-g1-s1'' @
     [node_new\<lparr>nd_id := 4, nd_type := COMPLETE, nd_dependencies := [1, 3], nd_label := ''complete''\<rparr>]"

lemma two_chains_compiled:
  "Compile two_chains (Some (ethernet_model EthernetProtocolModel_new)) 2 128 7 True = Inr (Inr (two_chains_graph, 4))"
proof -
  let ?vars = "umap_put ''dataSize'' 128 (umap_put ''numGpus'' 2 [])" and ?pm = "ethernet_model EthernetProtocolModel_new"
  let ?insts = "[[(''gpu'', 0 :: u64)], [(''gpu'', 1)]]" and ?ts = "[(0 :: u32, [(''src'', ''gpu''), (''dst'', ''1''), (''bytes'', ''64'')])]"
  obtain cs where emit: "emit_instances ?pm 2 7 0 0 ?vars ''gpu'' ?ts ?insts compile_new = Inr (Inr cs)"
    and cs: "cs_graph cs = chain_pair 0 0 ''t0-g0-s0'' @ chain_pair 2 1 ''t0-g1-s1''" "cs_groupDep cs = [(0, 1), (1, 3)]"
    using two_chains_emitted by blast
  have inv: "compile_inv ?pm 2 7 {} cs" "length (cs_graph cs) \<le> 4 * cs_stageCounter cs"
    using emit_instances_inv [OF emit compile_inv_new] by (simp_all add: compile_new_def)
  have sound: "sound_values (cs_graph cs)" by (simp add: cs(1) sound_values_def chain_pair_def Let_def)
  have cfg: "m_param two_chains = []" "m_perStepDelay two_chains = ''0''" "m_startup two_chains = ''0''" "cfg_complete two_chains = ''all''"
    by (simp_all add: two_chains_def ProtocolConfig_Clear_def)
  have add: "AddCompletion (cs_graph cs) [1, 3] DEP_ALL ''complete'' = (two_chains_graph, 4)"
    by (simp add: cs(1) AddCompletion_def AddNode_def two_chains_graph_def chain_pair_def Let_def node_new_def)
  obtain r where r: "finish_graph two_chains cs = Inr (Inr r)"
    using finish_graph_spec [OF inv, of two_chains] cs(2) sound by auto
  then have "r = (two_chains_graph, 4)"
    using add by (auto simp: finish_graph_def cs(2) INVALID_NODE_def cfg split: option.splits verdict.splits)
  with r have fin: "finish_graph two_chains cs = Inr (Inr (two_chains_graph, 4))" by simp
  have sorted: "sort_key (groupKeyOf ''gpu'') ?insts = ?insts" by (simp add: groupKeyOf_def umap_find_def)
  have "Compile two_chains (Some ?pm) 2 128 7 True =
      stage (emit_instances ?pm 2 7 0 0 ?vars ''gpu'' ?ts (sort_key (groupKeyOf ''gpu'') ?insts) compile_new) (finish_graph two_chains)"
    using two_chains_stages(1) [of ?vars] two_chains_stages(2,3)
    by (simp add: Compile_def Let_def resolve_startup_def literals cfg del: emit_instances.simps sort_key_simps)
  then show ?thesis unfolding sorted emit by (simp add: fin)
qed

text \<open>
  C8: what the compiler returns is a graph the executor accepts. Whatever the configuration
  and whatever the protocol model, the graph of a successful compilation is numbered by
  position, has exactly one completion node, which is the node returned, has no dependency
  cycle and no node that does not lead to the completion; its waits have thresholds and its
  delays are not negative.
\<close>

theorem compiled_graph_is_valid:
  assumes "Compile cfg (Some pm) numGpus dataSize base includeStartup = Inr (Inr (g, c))"
  shows "well_numbered g \<and> valid_graph g \<and> completions g = [c]"
  using Compile_result [OF assms] by blast

theorem compiled_graph_is_valid_witness:
  "Compile two_chains (Some (ethernet_model EthernetProtocolModel_new)) 2 128 7 True = Inr (Inr (two_chains_graph, 4))
   \<and> valid_graph two_chains_graph \<and> completions two_chains_graph = [4]"
  using compiled_graph_is_valid [OF two_chains_compiled] two_chains_compiled by blast

text \<open>
  The emission loop builds valid graphs by construction: the final validation rejects
  its result only because of the values in the configuration, that is when some transfer
  has no bytes or some delay does not fit a signed 64-bit time; every other graph is
  accepted, with the new completion node appended.
\<close>

lemma emitted_graph_is_rejected_only_for_its_values:
  assumes "emit_instances pm numGpus base startupNs perStepNs vars firstDim ts insts compile_new = Inr (Inr cs)"
    "ts \<noteq> []" "insts \<noteq> []"
  shows "if sound_values (cs_graph cs)
    then \<exists>nd. finish_graph cfg cs = Inr (Inr (cs_graph cs @ [nd], length (cs_graph cs))) \<and> valid_graph (cs_graph cs @ [nd])
    else \<exists>e. finish_graph cfg cs = Inr (Inl (''compiled graph invalid: '' @ e))"
proof -
  have "compile_inv pm numGpus base {} cs \<and> length (cs_graph cs) \<le> 4 * cs_stageCounter cs \<and> cs_groupDep cs \<noteq> []"
    using emit_instances_inv [OF assms(1) compile_inv_new assms(2)] assms(3) by (simp add: compile_new_def)
  with finish_graph_spec [of pm numGpus base cs cfg] show ?thesis by auto
qed

text \<open>
  C11: the runner and the compiled graph fit together. Every action of the graph is one the
  runner can send, given an endpoint per rank; and the event the runner derives from a
  received packet of that action satisfies the matcher of exactly one wait of the graph,
  the one created for the action, although the event carries only a 16-bit flow identifier.
\<close>

theorem delivery_satisfies_only_its_own_wait:
  assumes "Compile cfg (Some pm) numGpus dataSize base includeStartup = Inr (Inr (g, c))"
    "v < length g" "nd_type (g ! v) = ACTION"
    "list_all id endpoints" "unat numGpus \<le> length endpoints"
    "carries h (nd_action (g ! v))" "OnPacketReceived base h pktSize = Some ev"
  shows "(\<exists>args. OnAction endpoints (nd_action (g ! v)) = Inr args) \<and> Suc v < length g
    \<and> (\<forall>w < length g. nd_type (g ! w) = WAIT \<longrightarrow> (Matches (nd_matcher (g ! w)) ev \<longleftrightarrow> w = Suc v))"
proof -
  from Compile_result [OF assms(1)] obtain body nd s where g: "g = body @ [nd]" "nd_type nd = COMPLETE" and s: "s \<le> 65536"
    and paired: "paired pm numGpus base s body" by blast
  have v: "v < length body" "nd_type (body ! v) = ACTION" and vg: "g ! v = body ! v"
    using assms(2,3) g by (auto simp: nth_append less_Suc_eq split: if_splits)
  have "Matches (nd_matcher (g ! w)) ev \<longleftrightarrow> w = Suc v" if "w < length g" "nd_type (g ! w) = WAIT" for w
    using that paired_delivery [OF paired s v assms(6,7) [unfolded vg], of w] g by (auto simp: nth_append split: if_splits)
  moreover have "Suc v < length g" using paired v by (auto simp: paired_def g(1))
  ultimately show ?thesis using paired_runnable [OF paired v assms(4,5)] by (simp add: vg)
qed


text \<open>A packet of the second chain: from rank 1 to rank 1 on flow 8.\<close>

theorem delivery_satisfies_only_its_own_wait_witness:
  "let h = SetFlowId (SetDestRank (SetSourceRank FabricHeader_new 1) 1) 8; ev = the (OnPacketReceived 7 h 64)
   in carries h (nd_action (two_chains_graph ! 2)) \<and> Matches (nd_matcher (two_chains_graph ! 3)) ev
      \<and> \<not> Matches (nd_matcher (two_chains_graph ! 1)) ev"
proof -
  let ?h = "SetFlowId (SetDestRank (SetSourceRank FabricHeader_new 1) 1) 8"
  let ?req = "request_new\<lparr>rq_sourceRank := 1, rq_destinationRank := 1, rq_effectiveBytes := 64, rq_stageId := 1, rq_flowId := 8,
    rq_label := ''t0-g1-s1''\<rparr>"
  have act: "nd_action (two_chains_graph ! 2) = transfer_action (ethernet_model EthernetProtocolModel_new) ?req"
    and types: "nd_type (two_chains_graph ! 2) = ACTION" "nd_type (two_chains_graph ! 1) = WAIT" "nd_type (two_chains_graph ! 3) = WAIT"
    and len: "length two_chains_graph = 5"
    by (simp_all add: two_chains_graph_def chain_pair_def Let_def numeral_eq_Suc)
  have h: "carries ?h (nd_action (two_chains_graph ! 2))"
    by (simp add: act carries_def transfer_action_def request_new_def FabricHeader_new_def SetFlowId_def SetDestRank_def SetSourceRank_def
      GetFlowId_def GetDestRank_def GetSourceRank_def GetPacketType_def packet_type_of_def
      Let_def named_packet_types_def)
  obtain ev where ev: "OnPacketReceived 7 ?h 64 = Some ev"
    using h by (simp add: OnPacketReceived_def carries_def act transfer_action_def request_new_def Let_def)
  have "v < length two_chains_graph" if "v \<in> {1, 2, 3}" for v using that len by auto
  with delivery_satisfies_only_its_own_wait [OF two_chains_compiled _ types(1) _ _ h ev, of "[True, True]"] types h ev
  show ?thesis by (simp add: Let_def)
qed

text \<open>
  The example in the documentation of the class, whose transfer keys carry no index, is
  accepted by the parser, but no configuration of that form compiles.
\<close>

lemma unindexed_stencils_do_not_compile:
  assumes "list_all (\<lambda>(key, e). CHR ''.'' \<notin> set (drop 9 key)) (m_transfer cfg)"
  shows "Compile cfg (Some pm) numGpus dataSize base includeStartup \<noteq> Inr (Inr (g, c))"
proof -
  have "collect_transfers kvs ts = Inr ts" if "list_all (\<lambda>(key, e). CHR ''.'' \<notin> set (drop 9 key)) kvs" for kvs ts
    using that by (induction kvs) auto
  with assms show ?thesis by (auto simp: Compile_def Let_def)
qed

end
