(* ===== verification/ProtocolRunner.thy ===== *)
theory ProtocolRunner
  imports ProtocolCompile ProtocolExecutor
begin

text \<open>
  The object that binds a compiled graph to the endpoints and to an executor
  (\<open>protocol-config-runner.cc\<close>): it compiles and loads the graph, turns the executor's
  actions into bulk transfers and received packets into events, and reports the end of the
  operation once the submission queues of the endpoints are quiet. An endpoint is a null
  pointer or known to have a submission model or not; the calls to an endpoint and the
  completion callback are events of the runner. The clock counts nanoseconds.
\<close>

subsection \<open>State and operations\<close>

record ProtocolConfigRunner =
  pr_endpoints :: "bool option list"
  pr_executor :: ProtocolTransactionExecutor
  pr_baseFlowId :: u16
  pr_complete :: bool
  pr_drainingIbgda :: bool
  pr_deliveryDurationNs :: u64
  pr_alive :: bool
  pr_startNs :: int
  pr_completionCallback :: bool
  pr_remaining :: u64

datatype runner_event = SendBulkWireTransferSize "u16 \<times> u16 \<times> u64 \<times> u8 \<times> u16 \<times> u8" | CompletionCallback u64

definition Runner_new :: ProtocolConfigRunner where
  "Runner_new =
     \<lparr>pr_endpoints = [], pr_executor = Executor_new, pr_baseFlowId = 1, pr_complete = False, pr_drainingIbgda = False,
      pr_deliveryDurationNs = 0, pr_alive = True, pr_startNs = 0, pr_completionCallback = False, pr_remaining = 0\<rparr>"

definition Initialize ::
  "ProtocolConfigRunner \<Rightarrow> bool option list \<Rightarrow> ProtocolModel option \<Rightarrow> ProtocolConfig \<Rightarrow> u16 \<Rightarrow> u64 \<Rightarrow> bool \<Rightarrow>
     (ProtocolConfigRunner \<times> (string + unit)) result" where
  "Initialize r endpoints proto cfg numGpus dataSize includeStartup =
     (let r = r\<lparr>pr_endpoints := endpoints, pr_executor := Executor_new\<rparr>
      in and_then (Compile cfg proto numGpus dataSize (pr_baseFlowId r) includeStartup) (\<lambda>c. case c of
           Inl e \<Rightarrow> Inr (r, Inl e)
         | Inr (g, _) \<Rightarrow>
             (case SetGraph (SetCompletionCallback (SetActionCallback Executor_new True) True) g of
                None \<Rightarrow> Inl Diverges
              | Some (ex, accepted, e) \<Rightarrow> Inr (r\<lparr>pr_executor := ex\<rparr>, if accepted then Inr () else Inl e))))"

definition Runner_SetCompletionCallback :: "ProtocolConfigRunner \<Rightarrow> bool \<Rightarrow> ProtocolConfigRunner" where
  "Runner_SetCompletionCallback r cb = r\<lparr>pr_completionCallback := cb\<rparr>"

definition elapsed :: "Time \<Rightarrow> ProtocolConfigRunner \<Rightarrow> u64" where
  "elapsed now r = of_int (now - pr_startNs r)"

text \<open>The closure \<open>finish\<close> of \<open>OnComplete\<close>.\<close>

definition finish :: "Time \<Rightarrow> ProtocolConfigRunner \<Rightarrow> ProtocolConfigRunner \<times> runner_event list" where
  "finish now r =
     (if \<not> pr_alive r then (r, [])
      else (r\<lparr>pr_complete := True\<rparr>, if pr_completionCallback r then [CompletionCallback (elapsed now r)] else []))"

definition OnComplete :: "Time \<Rightarrow> ProtocolConfigRunner \<Rightarrow> ProtocolConfigRunner \<times> runner_event list" where
  "OnComplete now r =
     (if pr_drainingIbgda r \<or> pr_complete r then (r, [])
      else let r = r\<lparr>pr_deliveryDurationNs := elapsed now r\<rparr>;
               models = filter (\<lambda>ep. ep = Some True) (pr_endpoints r)
           in if models = [] then finish now r
              else (r\<lparr>pr_drainingIbgda := True, pr_remaining := of_nat (length models)\<rparr>, []))"

text \<open>The callback that one submission model calls when it is quiet.\<close>

definition quiet_callback :: "Time \<Rightarrow> bool \<Rightarrow> ProtocolConfigRunner \<Rightarrow> ProtocolConfigRunner \<times> runner_event list" where
  "quiet_callback now good r =
     (if good
      then let r = r\<lparr>pr_remaining := pr_remaining r - 1\<rparr> in if pr_remaining r = 0 then finish now r else (r, [])
      else (r, []))"

text \<open>What the executor's callbacks do, in the order of its trace.\<close>

fun runner_callbacks :: "Time \<Rightarrow> ProtocolConfigRunner \<Rightarrow> tx_event list \<Rightarrow> (ProtocolConfigRunner \<times> runner_event list) result" where
  "runner_callbacks now r [] = Inr (r, [])"
| "runner_callbacks now r (ActionOut a # out) =
     and_then (OnAction (map (\<lambda>ep. ep \<noteq> None) (pr_endpoints r)) a) (\<lambda>args.
       and_then (runner_callbacks now r out) (\<lambda>(r, evs). Inr (r, SendBulkWireTransferSize args # evs)))"
| "runner_callbacks now r (TransactionComplete # out) =
     (let (r, evs) = OnComplete now r
      in and_then (runner_callbacks now r out) (\<lambda>(r, evs'). Inr (r, evs @ evs')))"
| "runner_callbacks now r (NodeCompleted _ # out) = runner_callbacks now r out"

definition after_executor ::
  "Time \<Rightarrow> ProtocolConfigRunner \<Rightarrow> (ProtocolTransactionExecutor \<times> tx_event list) result \<Rightarrow>
     (ProtocolConfigRunner \<times> tx_event list \<times> runner_event list) result" where
  "after_executor now r x =
     and_then x (\<lambda>(ex, out).
       and_then (runner_callbacks now (r\<lparr>pr_executor := ex\<rparr>) out) (\<lambda>(r, evs). Inr (r, out, evs)))"

type_synonym reaction = "ProtocolTransactionAction \<Rightarrow> ProtocolTransactionEvent list"

definition Runner_Start ::
  "reaction \<Rightarrow> Time \<Rightarrow> ProtocolConfigRunner \<Rightarrow> (ProtocolConfigRunner \<times> tx_event list \<times> runner_event list) result" where
  "Runner_Start react now r =
     (let r = r\<lparr>pr_startNs := now\<rparr> in after_executor now r (Start react now (pr_executor r)))"

definition Runner_Packet ::
  "reaction \<Rightarrow> Time \<Rightarrow> FabricHeader \<Rightarrow> u32 \<Rightarrow> ProtocolConfigRunner \<Rightarrow>
     (ProtocolConfigRunner \<times> tx_event list \<times> runner_event list) result" where
  "Runner_Packet react now h pktSize r =
     (case OnPacketReceived (pr_baseFlowId r) h pktSize of
        None \<Rightarrow> Inr (r, [], [])
      | Some ev \<Rightarrow> after_executor now r (NotifyEvent react now (pr_executor r) ev))"

definition Runner_Timer ::
  "reaction \<Rightarrow> Time \<Rightarrow> nat \<Rightarrow> ProtocolConfigRunner \<Rightarrow> (ProtocolConfigRunner \<times> tx_event list \<times> runner_event list) result" where
  "Runner_Timer react now v r = after_executor now r (OnDelayExpired react now (pr_executor r) v)"

text \<open>The destructor detaches the receive callbacks and invalidates \<open>finish\<close>.\<close>

definition Runner_Destroy :: "ProtocolConfigRunner \<Rightarrow> ProtocolConfigRunner" where
  "Runner_Destroy r = r\<lparr>pr_alive := False\<rparr>"

subsection \<open>Runs\<close>

datatype runner_op =
    RStart reaction Time
  | RPacket reaction Time FabricHeader u32
  | RTimer reaction Time nat
  | RQuiet Time bool
  | RDestroy

text \<open>A run carries the executor's trace and the runner's events.\<close>

type_synonym runner_state = "ProtocolConfigRunner \<times> tx_event list \<times> runner_event list"

definition extend :: "runner_state \<Rightarrow> (ProtocolConfigRunner \<times> tx_event list \<times> runner_event list) result \<Rightarrow> runner_state result" where
  "extend s x = (case s of (_, tr, log) \<Rightarrow> and_then x (\<lambda>(r, out, evs). Inr (r, tr @ out, log @ evs)))"

fun runner_step :: "runner_state \<Rightarrow> runner_op \<Rightarrow> runner_state result" where
  "runner_step (r, s) (RStart react now) = extend (r, s) (Runner_Start react now r)"
| "runner_step (r, s) (RPacket react now h n) = extend (r, s) (Runner_Packet react now h n r)"
| "runner_step (r, s) (RTimer react now v) = extend (r, s) (Runner_Timer react now v r)"
| "runner_step (r, s) (RQuiet now good) = extend (r, s) (case quiet_callback now good r of (r, evs) \<Rightarrow> Inr (r, [], evs))"
| "runner_step (r, s) RDestroy = Inr (Runner_Destroy r, s)"

text \<open>
  What the environment promises: one start; packets and timers only reach a live runner;
  a submission model answers a request to become quiet at most once.
\<close>

fun runner_pre :: "runner_state \<Rightarrow> runner_op \<Rightarrow> bool" where
  "runner_pre (r, s) (RStart react now) = (pr_alive r \<and> \<not> m_started (pr_executor r))"
| "runner_pre (r, s) (RQuiet now good) = (pr_drainingIbgda r \<and> 0 < pr_remaining r)"
| "runner_pre (r, s) RDestroy = True"
| "runner_pre (r, s) _ = pr_alive r"

subsection \<open>What a run keeps\<close>

fun is_callback :: "runner_event \<Rightarrow> bool" where
  "is_callback (CompletionCallback _) = True"
| "is_callback _ = False"

abbreviation sendable :: "ProtocolConfigRunner \<Rightarrow> ProtocolTransactionAction \<Rightarrow> bool" where
  "sendable r a \<equiv> returns (OnAction (map (\<lambda>ep. ep \<noteq> None) (pr_endpoints r)) a)"

text \<open>
  The executor is loaded or running, its graph holds only actions that can be sent, and
  the completion callback has been called once exactly when the operation is complete.
\<close>

definition runner_ok :: "ProtocolTransactionGraph \<Rightarrow> runner_state \<Rightarrow> bool" where
  "runner_ok g s =
     (case s of (r, tr, log) \<Rightarrow>
        let ex = pr_executor r in
        (if m_started ex then settled ex tr else loaded ex \<and> m_graphSet ex \<and> tr = [])
        \<and> m_graph ex = g \<and> m_completionCallback ex \<and> (\<forall>a \<in> node_actions (m_graph ex). sendable r a)
        \<and> m_completionNotified ex = (pr_complete r \<or> pr_drainingIbgda r)
        \<and> (pr_drainingIbgda r \<and> pr_complete r \<longrightarrow> pr_remaining r = 0)
        \<and> length (filter is_callback log) = (if pr_complete r \<and> pr_completionCallback r then 1 else 0))"

lemma OnComplete_keeps [simp]:
  "pr_endpoints (fst (OnComplete now r)) = pr_endpoints r" "pr_executor (fst (OnComplete now r)) = pr_executor r"
  "pr_completionCallback (fst (OnComplete now r)) = pr_completionCallback r"
  by (simp_all add: OnComplete_def finish_def Let_def)

lemma runner_callbacks_ok:
  assumes "\<forall>a \<in> set (actions_of out). sendable r a" "count_list out TransactionComplete \<le> 1"
  shows "\<exists>evs. runner_callbacks now r out = Inr (if TransactionComplete \<in> set out then fst (OnComplete now r) else r, evs)
    \<and> filter is_callback evs = (if TransactionComplete \<in> set out then filter is_callback (snd (OnComplete now r)) else [])"
  using assms
proof (induction out arbitrary: r)
  case (Cons x out)
  show ?case
  proof (cases x)
    case (ActionOut a)
    then obtain args where "OnAction (map (\<lambda>ep. ep \<noteq> None) (pr_endpoints r)) a = Inr args"
      using Cons.prems by (auto simp: returns_def split: sum.splits)
    with Cons ActionOut show ?thesis by fastforce
  next
    case TransactionComplete
    then have "TransactionComplete \<notin> set out" using Cons.prems(2) count_list_0_iff [of out TransactionComplete] by simp
    with Cons.IH [of "fst (OnComplete now r)"] Cons.prems TransactionComplete show ?thesis
      by (fastforce simp: case_prod_beta)
  qed (use Cons in auto)
qed simp

lemma after_executor_ok:
  assumes ok: "runner_ok g (r, tr, log)" and alive: "pr_alive r"
    and x: "x = Inr (ex', out)" "settled ex' (tr @ out)" "keeps (pr_executor r) ex'"
    and tr: "count_list tr TransactionComplete = (if m_completionNotified (pr_executor r) then 1 else 0)"
  shows "\<exists>r' evs. after_executor now r x = Inr (r', out, evs) \<and> runner_ok g (r', tr @ out, log @ evs)"
proof -
  let ?r = "r\<lparr>pr_executor := ex'\<rparr>" and ?done = "TransactionComplete \<in> set out"
  have log: "logged ex' (tr @ out) []" and started: "m_started ex'" and cb: "m_completionCallback ex'"
    using x ok by (auto simp: settled_def tx_inv_def keeps_def runner_ok_def Let_def)
  then have "set (actions_of out) \<subseteq> node_actions (m_graph (pr_executor r))"
    using x(3) by (auto simp: logged_def keeps_def)
  then have act: "\<forall>a \<in> set (actions_of out). sendable ?r a" using ok by (auto simp: runner_ok_def Let_def)
  have cnt: "count_list tr TransactionComplete + count_list out TransactionComplete = (if m_completionNotified ex' then 1 else 0)"
    using log cb by (simp add: logged_def)
  then have "count_list out TransactionComplete \<le> 1" by (simp split: if_splits)
  from runner_callbacks_ok [OF act this, of now] obtain evs where
    run: "runner_callbacks now ?r out = Inr (if ?done then fst (OnComplete now ?r) else ?r, evs)"
    and evs: "filter is_callback evs = (if ?done then filter is_callback (snd (OnComplete now ?r)) else [])" by blast
  have fresh: "?done \<longleftrightarrow> \<not> m_completionNotified (pr_executor r) \<and> m_completionNotified ex'"
    using cnt tr count_list_0_iff [of out TransactionComplete] by (auto split: if_splits)
  have late: "m_completionNotified (pr_executor r) \<Longrightarrow> m_completionNotified ex'"
    using cnt tr by (auto split: if_splits)
  have "runner_ok g (if ?done then fst (OnComplete now ?r) else ?r, tr @ out, log @ evs)"
    using ok alive x(2,3) started cb evs fresh late
    by (auto simp: runner_ok_def Let_def OnComplete_def finish_def keeps_def)
  with x(1) run show ?thesis by (simp add: after_executor_def)
qed

lemma runner_ok_count:
  "runner_ok g (r, tr, log) \<Longrightarrow> count_list tr TransactionComplete = (if m_completionNotified (pr_executor r) then 1 else 0)"
  by (auto simp: runner_ok_def Let_def settled_def tx_inv_def logged_def loaded_def idle_flags_def split: if_splits)

lemma extend_executor:
  assumes ok: "runner_ok g (r, tr, log)" and alive: "pr_alive r"
    and x: "\<exists>ex' out. x = Inr (ex', out) \<and> settled ex' (tr @ out) \<and> keeps (pr_executor r) ex'"
  shows "\<exists>s'. extend (r, tr, log) (after_executor now r x) = Inr s' \<and> runner_ok g s'"
proof -
  obtain ex' out where x': "x = Inr (ex', out)" "settled ex' (tr @ out)" "keeps (pr_executor r) ex'" using x by blast
  from after_executor_ok [OF ok alive x' runner_ok_count [OF ok], of now] show ?thesis by (auto simp: extend_def)
qed

lemma extend_idle:
  assumes "runner_ok g s" "s = (r, tr, log)" "x = Inr (pr_executor r, [])"
  shows "\<exists>s'. extend s (after_executor now r x) = Inr s' \<and> runner_ok g s'"
  using assms by (simp add: extend_def after_executor_def)

lemma start_ok:
  assumes "runner_ok g (r, tr, log)" "pr_alive r" "\<not> m_started (pr_executor r)"
  shows "\<exists>s'. extend (r, tr, log) (Runner_Start react now r) = Inr s' \<and> runner_ok g s'"
proof -
  let ?r = "r\<lparr>pr_startNs := now\<rparr>"
  have ld: "loaded (pr_executor r)" "m_graphSet (pr_executor r)" and tr: "tr = []"
    using assms by (simp_all add: runner_ok_def Let_def)
  have ok: "runner_ok g (?r, tr, log)" "pr_alive ?r" using assms by (simp_all add: runner_ok_def Let_def)
  from extend_executor [OF ok, of "Start react now (pr_executor ?r)" now] Start_settled [OF ld, of react now] tr
  show ?thesis by (simp add: Runner_Start_def Let_def extend_def)
qed

interpretation rn: guarded_machine runner_step "runner_ok g" runner_pre for g
proof
  fix s :: runner_state and x :: runner_op
  assume ok: "runner_ok g s" and pre: "runner_pre s x"
  obtain r tr log where s: "s = (r, tr, log)" by (cases s)
  have idle: "idle_flags (pr_executor r)" if "\<not> m_started (pr_executor r)"
    using that ok s by (simp add: runner_ok_def Let_def loaded_def)
  have run: "settled (pr_executor r) tr" if "m_started (pr_executor r)"
    using that ok s by (simp add: runner_ok_def Let_def)
  show "\<exists>s'. runner_step s x = Inr s' \<and> runner_ok g s'"
  proof (cases x)
    case (RStart react now)
    then show ?thesis using start_ok [of g r tr log react now] ok pre s by simp
  next
    case (RPacket react now h n)
    show ?thesis
    proof (cases "OnPacketReceived (pr_baseFlowId r) h n")
      case None
      then show ?thesis using RPacket s ok by (simp add: Runner_Packet_def extend_def)
    next
      case (Some ev)
      show ?thesis
      proof (cases "m_started (pr_executor r)")
        case True
        with NotifyEvent_settled [OF run] extend_executor [of g r tr log "NotifyEvent react now (pr_executor r) ev" now] ok pre
        show ?thesis using RPacket Some s by (simp add: Runner_Packet_def)
      next
        case False
        then show ?thesis using extend_idle [OF ok s idle_noop(1) [OF idle]] RPacket Some s by (simp add: Runner_Packet_def)
      qed
    qed
  next
    case (RTimer react now v)
    show ?thesis
    proof (cases "m_started (pr_executor r)")
      case True
      with OnDelayExpired_settled [OF run] extend_executor [of g r tr log "OnDelayExpired react now (pr_executor r) v" now] ok pre
      show ?thesis using RTimer s by (simp add: Runner_Timer_def)
    next
      case False
      then show ?thesis using extend_idle [OF ok s idle_noop(2) [OF idle]] RTimer s by (simp add: Runner_Timer_def)
    qed
  next
    case (RQuiet now good)
    with ok pre s have "runner_ok g (fst (quiet_callback now good r), tr, log @ snd (quiet_callback now good r))"
      by (auto simp: runner_ok_def Let_def quiet_callback_def finish_def)
    then show ?thesis using RQuiet s by (cases "quiet_callback now good r") (simp add: extend_def)
  next
    case RDestroy
    then show ?thesis using ok s by (simp add: runner_ok_def Runner_Destroy_def Let_def)
  qed
qed

subsection \<open>A compiled operation\<close>

lemma Compile_sendable:
  assumes "Compile cfg (Some pm) n dataSize base st = Inr (Inr (g, c))" "list_all (\<lambda>ep. ep \<noteq> None) eps" "unat n \<le> length eps"
    "a \<in> node_actions g"
  shows "returns (OnAction (map (\<lambda>ep. ep \<noteq> None) eps) a)"
proof -
  from Compile_result [OF assms(1)] obtain body nd s where g: "g = body @ [nd]" "nd_type nd = COMPLETE"
    and paired: "paired pm n base s body" by blast
  from assms(4) obtain v where v: "v < length g" "nd_type (g ! v) = ACTION" "a = nd_action (g ! v)"
    by (auto simp: node_actions_def)
  then have "v < length body" "nd_type (body ! v) = ACTION" "a = nd_action (body ! v)"
    using g by (auto simp: nth_append less_Suc_eq split: if_splits)
  with paired_runnable [OF paired, of v "map (\<lambda>ep. ep \<noteq> None) eps"] assms(2,3) show ?thesis
    by (auto simp: list_all_iff)
qed

lemma Initialize_loads:
  assumes comp: "Compile cfg (Some pm) n dataSize (pr_baseFlowId r) st = Inr (Inr (g, c))"
    and eps: "list_all (\<lambda>ep. ep \<noteq> None) eps" "unat n \<le> length eps"
    and fresh: "\<not> pr_complete r" "\<not> pr_drainingIbgda r"
  shows "\<exists>r'. Initialize r eps (Some pm) cfg n dataSize st = Inr (r', Inr ()) \<and> runner_ok g (r', [], [])
    \<and> pr_alive r' = pr_alive r \<and> \<not> m_started (pr_executor r')"
proof -
  let ?ex = "SetCompletionCallback (SetActionCallback Executor_new True) True"
  have wn: "well_numbered g" and valid: "valid_graph g" using Compile_result [OF comp] by auto
  have idle: "idle_flags ?ex"
    by (simp add: SetCompletionCallback_def SetActionCallback_def Executor_new_def idle_flags_def)
  from SetGraph_loads [OF idle wn] valid obtain ex' e where set: "SetGraph ?ex g = Some (ex', True, e)"
    and ex': "loaded ex'" "m_graph ex' = g" "m_graphSet ex'" by auto
  have "m_completionCallback ex'"
    using set by (auto simp: SetGraph_def InitializeRuntime_def SetCompletionCallback_def split: option.splits verdict.splits if_splits)
  with ex' Compile_sendable [OF comp eps] fresh
  have "runner_ok g (r\<lparr>pr_endpoints := eps, pr_executor := ex'\<rparr>, [], [])"
    by (auto simp: runner_ok_def Let_def loaded_def idle_flags_def)
  with ex' show ?thesis by (simp add: Initialize_def comp set loaded_def idle_flags_def)
qed

lemma completion_node_state:
  assumes "settled ex tr" "completions (m_graph ex) = [c]"
  shows "GetNodeState ex c = Inr COMPLETED \<longleftrightarrow> m_complete ex"
proof -
  have inv: "tx_inv ex tr []" using assms(1) by (simp add: settled_def)
  have set: "{v. v < length (m_graph ex) \<and> nd_type (m_graph ex ! v) = COMPLETE} = {c}"
    using arg_cong [OF assms(2), of set] by (simp add: completions_def)
  then have c: "c < length (m_graph ex)" "nd_type (m_graph ex ! c) = COMPLETE" by auto
  have "m_complete ex \<longleftrightarrow> (\<exists>v \<in> completed_set (m_runtime ex). nd_type (m_graph ex ! v) = COMPLETE)"
    using inv by (simp add: tx_inv_def completion_reached_def)
  also have "\<dots> \<longleftrightarrow> c \<in> completed_set (m_runtime ex)"
  proof
    assume "\<exists>v \<in> completed_set (m_runtime ex). nd_type (m_graph ex ! v) = COMPLETE"
    then obtain v where v: "v \<in> completed_set (m_runtime ex)" "nd_type (m_graph ex ! v) = COMPLETE" by blast
    then have "v \<in> {v. v < length (m_graph ex) \<and> nd_type (m_graph ex ! v) = COMPLETE}"
      using tx_inv_facts(1) [OF inv] by (simp add: completed_set_def)
    with set v show "c \<in> completed_set (m_runtime ex)" by simp
  qed (use c in blast)
  also have "\<dots> \<longleftrightarrow> GetNodeState ex c = Inr COMPLETED"
    using c(1) tx_inv_facts(1) [OF inv] by (simp add: completed_set_def GetNodeState_def ns_assert_def)
  finally show ?thesis by simp
qed

lemma runner_ok_facts:
  assumes ok: "runner_ok g (r, tr, log)" and c: "completions g = [c]"
  shows "length (filter is_callback log) = (if pr_complete r \<and> pr_completionCallback r then 1 else 0)"
    and "pr_complete r \<longrightarrow> GetNodeState (pr_executor r) c = Inr COMPLETED"
    and "m_started (pr_executor r) \<and> GetNodeState (pr_executor r) c \<noteq> Inr COMPLETED \<longrightarrow>
      (\<exists>v < length g. GetNodeState (pr_executor r) v = Inr ACTIVE \<and> nd_type (g ! v) \<in> {WAIT, DELAY})"
proof -
  let ?ex = "pr_executor r"
  show "length (filter is_callback log) = (if pr_complete r \<and> pr_completionCallback r then 1 else 0)"
    using ok by (simp add: runner_ok_def Let_def)
  have g: "m_graph ?ex = g" using ok by (simp add: runner_ok_def Let_def)
  have run: "settled ?ex tr" if "m_started ?ex" using that ok by (simp add: runner_ok_def Let_def)
  have notified: "m_started ?ex \<and> m_complete ?ex" if "pr_complete r"
  proof -
    have n: "m_completionNotified ?ex" using that ok by (simp add: runner_ok_def Let_def)
    then have "m_started ?ex" using ok by (auto simp: runner_ok_def Let_def loaded_def idle_flags_def split: if_splits)
    with n run show ?thesis by (simp add: settled_def)
  qed
  then show "pr_complete r \<longrightarrow> GetNodeState ?ex c = Inr COMPLETED"
    using completion_node_state [OF run] g c by simp
  show "m_started ?ex \<and> GetNodeState ?ex c \<noteq> Inr COMPLETED \<longrightarrow>
      (\<exists>v < length g. GetNodeState ?ex v = Inr ACTIVE \<and> nd_type (g ! v) \<in> {WAIT, DELAY})"
  proof
    assume a: "m_started ?ex \<and> GetNodeState ?ex c \<noteq> Inr COMPLETED"
    then have s: "settled ?ex tr" and inc: "\<not> m_complete ?ex" using run completion_node_state [OF run] g c by auto
    have inv: "tx_inv ?ex tr []" using s by (simp add: settled_def)
    obtain v where v: "v < length (m_graph ?ex)" "node_state (m_runtime ?ex) v = ACTIVE" using blocked_only_by_active [OF s inc] by blast
    with tx_inv_facts(1) [OF inv] tx_inv_facts(4) [OF inv v] show "\<exists>v < length g. GetNodeState ?ex v = Inr ACTIVE \<and> nd_type (g ! v) \<in> {WAIT, DELAY}"
      by (auto simp: g GetNodeState_def ns_assert_def)
  qed
qed

subsection \<open>Properties\<close>

text \<open>
  C1: a compiled operation runs. Whatever the configuration that compiled, the runner loads
  its graph; after that no interleaving of packets, timers and quiet notices makes the
  runner or its executor stop the process or loop, provided every rank has an endpoint. The
  completion callback is called at most once, and only after the completion node of the
  graph; and while that node is not complete some wait or delay of the graph is active, so
  the operation is waiting for a packet or a timer and not for itself.
\<close>

theorem compiled_operation_runs:
  assumes "Compile cfg (Some pm) numGpus dataSize (pr_baseFlowId r) includeStartup = Inr (Inr (g, c))"
    "list_all (\<lambda>ep. ep \<noteq> None) eps" "unat numGpus \<le> length eps" "\<not> pr_complete r" "\<not> pr_drainingIbgda r"
  shows "\<exists>r0. Initialize r eps (Some pm) cfg numGpus dataSize includeStartup = Inr (r0, Inr ())
    \<and> (\<forall>ops. admissible runner_step runner_pre (r0, [], []) ops \<longrightarrow>
        (\<exists>r' tr log. run_ops runner_step (r0, [], []) ops = Inr (r', tr, log)
          \<and> length (filter is_callback log) = (if pr_complete r' \<and> pr_completionCallback r' then 1 else 0)
          \<and> (pr_complete r' \<longrightarrow> GetNodeState (pr_executor r') c = Inr COMPLETED)
          \<and> (m_started (pr_executor r') \<and> GetNodeState (pr_executor r') c \<noteq> Inr COMPLETED \<longrightarrow>
              (\<exists>v < length g. GetNodeState (pr_executor r') v = Inr ACTIVE \<and> nd_type (g ! v) \<in> {WAIT, DELAY}))))"
proof -
  obtain r0 where init: "Initialize r eps (Some pm) cfg numGpus dataSize includeStartup = Inr (r0, Inr ())"
    and ok: "runner_ok g (r0, [], [])" using Initialize_loads [OF assms] by blast
  have cc: "completions g = [c]" using Compile_result [OF assms(1)] by blast
  have "\<exists>r' tr log. run_ops runner_step (r0, [], []) ops = Inr (r', tr, log)
      \<and> length (filter is_callback log) = (if pr_complete r' \<and> pr_completionCallback r' then 1 else 0)
      \<and> (pr_complete r' \<longrightarrow> GetNodeState (pr_executor r') c = Inr COMPLETED)
      \<and> (m_started (pr_executor r') \<and> GetNodeState (pr_executor r') c \<noteq> Inr COMPLETED \<longrightarrow>
          (\<exists>v < length g. GetNodeState (pr_executor r') v = Inr ACTIVE \<and> nd_type (g ! v) \<in> {WAIT, DELAY}))"
    if "admissible runner_step runner_pre (r0, [], []) ops" for ops
  proof -
    from rn.run_progress [OF ok that] obtain r' tr log where run: "run_ops runner_step (r0, [], []) ops = Inr (r', tr, log)"
      and ok': "runner_ok g (r', tr, log)" by auto
    from runner_ok_facts [OF ok' cc] run show ?thesis by blast
  qed
  with init show ?thesis by blast
qed

theorem compiled_operation_runs_witness:
  "\<exists>r0 r' tr log. Initialize (Runner_new\<lparr>pr_baseFlowId := 7\<rparr>) [Some False, Some False]
        (Some (ethernet_model EthernetProtocolModel_new)) two_chains 2 128 True = Inr (r0, Inr ())
     \<and> run_ops runner_step (r0, [], []) [RStart (\<lambda>_. []) 0] = Inr (r', tr, log)
     \<and> length (filter is_callback log) = (if pr_complete r' \<and> pr_completionCallback r' then 1 else 0)"
proof -
  let ?r = "Runner_new\<lparr>pr_baseFlowId := 7\<rparr>" and ?eps = "[Some False, Some False]"
  have comp: "Compile two_chains (Some (ethernet_model EthernetProtocolModel_new)) 2 128 (pr_baseFlowId ?r) True
      = Inr (Inr (two_chains_graph, 4))" using two_chains_compiled by simp
  have eps: "list_all (\<lambda>ep. ep \<noteq> None) ?eps" "unat (2 :: u16) \<le> length ?eps" by (auto intro: exI [of _ False])
  have fresh: "\<not> pr_complete ?r" "\<not> pr_drainingIbgda ?r" "pr_alive ?r" by (simp_all add: Runner_new_def)
  from Initialize_loads [OF comp eps fresh(1,2)] compiled_operation_runs [OF comp eps fresh(1,2)] fresh(3)
  obtain r0 where "Initialize ?r ?eps (Some (ethernet_model EthernetProtocolModel_new)) two_chains 2 128 True = Inr (r0, Inr ())"
    and "pr_alive r0" "\<not> m_started (pr_executor r0)"
    and all: "\<And>ops. admissible runner_step runner_pre (r0, [], []) ops \<Longrightarrow>
      \<exists>r' tr log. run_ops runner_step (r0, [], []) ops = Inr (r', tr, log)
        \<and> length (filter is_callback log) = (if pr_complete r' \<and> pr_completionCallback r' then 1 else 0)"
    by fastforce
  moreover have "admissible runner_step runner_pre (r0, [], []) [RStart (\<lambda>_. []) 0]"
    using \<open>pr_alive r0\<close> \<open>\<not> m_started (pr_executor r0)\<close> by (simp split: sum.splits)
  ultimately show ?thesis by blast
qed

end
