(* ===== verification/RdmaOperation.thy ===== *)
theory RdmaOperation
  imports FabricHeader
begin

text \<open>
  The vocabulary of RDMA operations (\<open>rdma-operation.h\<close>, \<open>rdma-operation.cc\<close>): the
  opcodes with their names and classification, the request a caller submits, and the two
  packet tags that carry a work request through the network model,
  \<open>RdmaOperationTag\<close> and \<open>RdmaPacketTag\<close> (the latter of
  \<open>rdma-submission-model.cc\<close>), written through the little-endian \<open>TagBuffer\<close>
  (\<open>network/model/tag-buffer.cc\<close>). The lemmas show that both tags come back from their
  buffer as they went in, that they fill exactly the size they announce, and that opcode
  names parse back. Little-endian byte strings are related to words once, here, for the tag
  buffer and for the engine's memory words.
\<close>

subsection \<open>Little-endian words\<close>

definition le_bytes :: "nat \<Rightarrow> 'a::len word \<Rightarrow> u8 list" where
  "le_bytes n w = map (\<lambda>i. ucast (drop_bit (8 * i) w AND 0xff)) [0..<n]"

fun le_word :: "u8 list \<Rightarrow> 'a::len word" where
  "le_word [] = 0"
| "le_word (b # bs) = push_bit 8 (le_word bs) OR ucast b"

lemma length_le_bytes [simp]: "length (le_bytes n w) = n"
  by (simp add: le_bytes_def)

lemma bit_le_bytes:
  "i < n \<Longrightarrow> bit (le_bytes n (w :: 'a::len word) ! i) k \<longleftrightarrow> k < 8 \<and> bit w (8 * i + k)"
  unfolding le_bytes_def and_0xff
  by (auto simp: bit_simps ac_simps dest: bit_imp_le_length)

lemma bit_le_word:
  "bit (le_word bs :: 'a::len word) k
     \<longleftrightarrow> k < LENGTH('a) \<and> k div 8 < length bs \<and> bit (bs ! (k div 8)) (k mod 8)"
proof (induction bs arbitrary: k)
  case (Cons b bs)
  show ?case
  proof (cases "k < 8")
    case True
    then show ?thesis by (auto simp: bit_simps dest: bit_imp_le_length)
  next
    case False
    then have "k = (k - 8) + 8" by simp
    then have "k div 8 = Suc ((k - 8) div 8)" "k mod 8 = (k - 8) mod 8"
      by (metis div_add_self2 Suc_eq_plus1 zero_neq_numeral, metis mod_add_self2)
    with False Cons.IH [of "k - 8"] show ?thesis
      by (auto simp: bit_simps dest: bit_imp_le_length)
  qed
qed simp

lemma le_word_le_bytes:
  "8 * n = LENGTH('a) \<Longrightarrow> le_word (le_bytes n w) = (w :: 'a::len word)"
proof (rule bit_eqI)
  fix k assume n: "8 * n = LENGTH('a)" and "possible_bit TYPE('a word) k"
  then have k: "k < LENGTH('a)" by simp
  with n have "k div 8 < n" by linarith
  with n k show "bit (le_word (le_bytes n w) :: 'a word) k \<longleftrightarrow> bit w k"
    by (simp only: bit_le_word bit_le_bytes length_le_bytes simp_thms mult_div_mod_eq mod_less_divisor)
qed

lemma le_bytes_le_word:
  assumes "length bs = n" "8 * n \<le> LENGTH('a)"
  shows "le_bytes n (le_word bs :: 'a::len word) = bs"
proof (rule nth_equalityI)
  fix i assume "i < length (le_bytes n (le_word bs :: 'a word))"
  then have i: "i < n" by simp
  show "le_bytes n (le_word bs :: 'a word) ! i = bs ! i"
  proof (rule bit_eqI)
    fix k assume "possible_bit TYPE(8 word) k"
    then have k: "k < 8" by simp
    then have "8 * i + k < LENGTH('a)" using i assms(2) by linarith
    then show "bit (le_bytes n (le_word bs :: 'a word) ! i) k \<longleftrightarrow> bit (bs ! i) k"
      using i k assms(1) by (simp add: bit_le_bytes bit_le_word)
  qed
qed (simp add: assms)

subsection \<open>\<open>TagBuffer\<close>\<close>

text \<open>
  The bytes between the buffer's cursor and its end; a read past the end fails its
  assertion, here \<open>None\<close>. \<open>WriteU8\<close> and \<open>ReadU8\<close> are those of the packet buffer.
\<close>

definition TagBuffer_WriteU16 :: "u16 \<Rightarrow> u8 list" where
  "TagBuffer_WriteU16 data = [ucast (drop_bit 0 data AND 0xff), ucast (drop_bit 8 data AND 0xff)]"

definition TagBuffer_WriteU32 :: "u32 \<Rightarrow> u8 list" where
  "TagBuffer_WriteU32 data =
     [ucast (drop_bit 0 data AND 0xff), ucast (drop_bit 8 data AND 0xff),
      ucast (drop_bit 16 data AND 0xff), ucast (drop_bit 24 data AND 0xff)]"

definition TagBuffer_WriteU64 :: "u64 \<Rightarrow> u8 list" where
  "TagBuffer_WriteU64 data =
     [ucast (drop_bit 0 data AND 0xff), ucast (drop_bit 8 data AND 0xff),
      ucast (drop_bit 16 data AND 0xff), ucast (drop_bit 24 data AND 0xff),
      ucast (drop_bit 32 data AND 0xff), ucast (drop_bit 40 data AND 0xff),
      ucast (drop_bit 48 data AND 0xff), ucast (drop_bit 56 data AND 0xff)]"

fun TagBuffer_ReadU16 :: "u8 list \<Rightarrow> (u16 \<times> u8 list) option" where
  "TagBuffer_ReadU16 (b0 # b1 # i) = Some (push_bit 8 (ucast b1) OR ucast b0, i)"
| "TagBuffer_ReadU16 _ = None"

fun TagBuffer_ReadU32 :: "u8 list \<Rightarrow> (u32 \<times> u8 list) option" where
  "TagBuffer_ReadU32 (b0 # b1 # b2 # b3 # i) =
     Some (push_bit 8 (push_bit 8 (push_bit 8 (ucast b3) OR ucast b2) OR ucast b1) OR ucast b0, i)"
| "TagBuffer_ReadU32 _ = None"

fun TagBuffer_ReadU64 :: "u8 list \<Rightarrow> (u64 \<times> u8 list) option" where
  "TagBuffer_ReadU64 (b0 # b1 # b2 # b3 # b4 # b5 # b6 # b7 # i) =
     Some (push_bit 8 (push_bit 8 (push_bit 8 (push_bit 8 (push_bit 8 (push_bit 8 (push_bit 8
       (ucast b7) OR ucast b6) OR ucast b5) OR ucast b4) OR ucast b3) OR ucast b2) OR ucast b1)
       OR ucast b0, i)"
| "TagBuffer_ReadU64 _ = None"

lemma TagBuffer_writes_le:
  "TagBuffer_WriteU16 x = le_bytes 2 x"
  "TagBuffer_WriteU32 y = le_bytes 4 y"
  "TagBuffer_WriteU64 z = le_bytes 8 z"
  by (simp_all add: TagBuffer_WriteU16_def TagBuffer_WriteU32_def TagBuffer_WriteU64_def
      le_bytes_def upt_rec)

lemma TagBuffer_reads_le:
  "TagBuffer_ReadU16 i = (if 2 \<le> length i then Some (le_word (take 2 i), drop 2 i) else None)"
  "TagBuffer_ReadU32 i = (if 4 \<le> length i then Some (le_word (take 4 i), drop 4 i) else None)"
  "TagBuffer_ReadU64 i = (if 8 \<le> length i then Some (le_word (take 8 i), drop 8 i) else None)"
proof -
  show "TagBuffer_ReadU16 i = (if 2 \<le> length i then Some (le_word (take 2 i), drop 2 i) else None)"
    by (cases i rule: TagBuffer_ReadU16.cases) simp_all
  show "TagBuffer_ReadU32 i = (if 4 \<le> length i then Some (le_word (take 4 i), drop 4 i) else None)"
    by (cases i rule: TagBuffer_ReadU32.cases) simp_all
  show "TagBuffer_ReadU64 i = (if 8 \<le> length i then Some (le_word (take 8 i), drop 8 i) else None)"
    by (cases i rule: TagBuffer_ReadU64.cases) simp_all
qed

lemma ReadU8_le: "ReadU8 i = (if 1 \<le> length i then Some (hd i, drop 1 i) else None)"
  by (cases i) simp_all

text \<open>
  The contract of a tag: what is written is read back, the announced size is the size
  written, and a read fails exactly on fewer bytes. Unlike a wire header a tag need not be
  recoverable byte for byte: a flag byte other than 0 and 1 reads as true.
\<close>

locale tag_codec =
  fixes put :: "'a \<Rightarrow> u8 list"
    and get :: "u8 list \<Rightarrow> ('a \<times> u8 list) option"
    and wid :: nat
    and valid :: "'a \<Rightarrow> bool"
  assumes put_width: "length (put x) = wid"
    and get_put: "valid x \<Longrightarrow> get (put x @ r) = Some (x, r)"
    and get_valid: "get bs = Some (x, r) \<Longrightarrow> valid x \<and> r = drop wid bs"
    and get_None: "get bs = None \<longleftrightarrow> length bs < wid"
begin

lemma put_inj: "valid x \<Longrightarrow> valid y \<Longrightarrow> put x = put y \<Longrightarrow> x = y"
  using get_put [of x "[]"] get_put [of y "[]"] by simp

text \<open>Reading a tag, writing it and reading again changes nothing.\<close>

lemma reread: "get bs = Some (x, r) \<Longrightarrow> get (put x @ r) = Some (x, r)"
  using get_put get_valid by blast

lemma get_consumes: "get bs = Some (x, r) \<Longrightarrow> length bs = wid + length r"
  using get_valid [of bs x r] get_None [of bs] by auto

lemma peek: "valid x \<Longrightarrow> get (put x) = Some (x, [])"
  using get_put [of x "[]"] by simp

end

interpretation tb16: tag_codec TagBuffer_WriteU16 TagBuffer_ReadU16 2 "\<lambda>_. True"
  by unfold_locales (auto simp: TagBuffer_writes_le TagBuffer_reads_le le_word_le_bytes split: if_splits)

interpretation tb32: tag_codec TagBuffer_WriteU32 TagBuffer_ReadU32 4 "\<lambda>_. True"
  by unfold_locales (auto simp: TagBuffer_writes_le TagBuffer_reads_le le_word_le_bytes split: if_splits)

interpretation tb64: tag_codec TagBuffer_WriteU64 TagBuffer_ReadU64 8 "\<lambda>_. True"
  by unfold_locales (auto simp: TagBuffer_writes_le TagBuffer_reads_le le_word_le_bytes split: if_splits)

subsection \<open>Opcodes, phases and comparisons\<close>

text \<open>The enums have a fixed underlying byte; a cast from another byte has no name.\<close>

datatype RdmaOpcode =
    OP_WRITE | OP_READ | OP_SEND | OP_WRITE_IMM | OP_SEND_IMM | OP_FETCH_ADD | OP_COMPARE_SWAP
  | OP_PUT_SIGNAL | OP_SIGNAL | OP_unnamed u8

datatype RdmaSignalOp = SIG_SET | SIG_ADD | SIG_unnamed u8

datatype RdmaComparison = CMP_EQ | CMP_NE | CMP_GT | CMP_GE | CMP_LT | CMP_LE | CMP_unnamed u8

datatype RdmaPhase =
    PH_DATA | PH_REQUEST | PH_READ_RESPONSE | PH_ATOMIC_RESPONSE | PH_RNR | PH_COMPLETE
  | PH_unnamed u8

definition named_opcodes :: "RdmaOpcode list" where
  "named_opcodes =
     [OP_WRITE, OP_READ, OP_SEND, OP_WRITE_IMM, OP_SEND_IMM, OP_FETCH_ADD, OP_COMPARE_SWAP,
      OP_PUT_SIGNAL, OP_SIGNAL]"

definition named_phases :: "RdmaPhase list" where
  "named_phases =
     [PH_DATA, PH_REQUEST, PH_READ_RESPONSE, PH_ATOMIC_RESPONSE, PH_RNR, PH_COMPLETE]"

definition opcode_of :: "u8 \<Rightarrow> RdmaOpcode" where
  "opcode_of b = (if unat b < length named_opcodes then named_opcodes ! unat b else OP_unnamed b)"

definition phase_of :: "u8 \<Rightarrow> RdmaPhase" where
  "phase_of b = (if unat b < length named_phases then named_phases ! unat b else PH_unnamed b)"

definition signal_op_of :: "u8 \<Rightarrow> RdmaSignalOp" where
  "signal_op_of b = (if b = 0 then SIG_SET else if b = 1 then SIG_ADD else SIG_unnamed b)"

fun opcode_code :: "RdmaOpcode \<Rightarrow> u8" where
  "opcode_code OP_WRITE = 0"
| "opcode_code OP_READ = 1"
| "opcode_code OP_SEND = 2"
| "opcode_code OP_WRITE_IMM = 3"
| "opcode_code OP_SEND_IMM = 4"
| "opcode_code OP_FETCH_ADD = 5"
| "opcode_code OP_COMPARE_SWAP = 6"
| "opcode_code OP_PUT_SIGNAL = 7"
| "opcode_code OP_SIGNAL = 8"
| "opcode_code (OP_unnamed b) = b"

fun phase_code :: "RdmaPhase \<Rightarrow> u8" where
  "phase_code PH_DATA = 0"
| "phase_code PH_REQUEST = 1"
| "phase_code PH_READ_RESPONSE = 2"
| "phase_code PH_ATOMIC_RESPONSE = 3"
| "phase_code PH_RNR = 4"
| "phase_code PH_COMPLETE = 5"
| "phase_code (PH_unnamed b) = b"

fun signal_op_code :: "RdmaSignalOp \<Rightarrow> u8" where
  "signal_op_code SIG_SET = 0"
| "signal_op_code SIG_ADD = 1"
| "signal_op_code (SIG_unnamed b) = b"

fun RdmaOpcodeName :: "RdmaOpcode \<Rightarrow> string result" where
  "RdmaOpcodeName OP_WRITE = Inr ''write''"
| "RdmaOpcodeName OP_READ = Inr ''read''"
| "RdmaOpcodeName OP_SEND = Inr ''send''"
| "RdmaOpcodeName OP_WRITE_IMM = Inr ''write_imm''"
| "RdmaOpcodeName OP_SEND_IMM = Inr ''send_imm''"
| "RdmaOpcodeName OP_FETCH_ADD = Inr ''fetch_add''"
| "RdmaOpcodeName OP_COMPARE_SWAP = Inr ''compare_swap''"
| "RdmaOpcodeName OP_PUT_SIGNAL = Inr ''put_signal''"
| "RdmaOpcodeName OP_SIGNAL = Inr ''signal''"
| "RdmaOpcodeName (OP_unnamed _) = Inl (NsAbort ''Unknown RDMA opcode'')"

fun parse_opcode :: "string \<Rightarrow> RdmaOpcode list \<Rightarrow> RdmaOpcode result" where
  "parse_opcode name [] = Inl (NsAbort ''Unknown rdmaOperation'')"
| "parse_opcode name (opcode # rest) =
     and_then (RdmaOpcodeName opcode)
       (\<lambda>n. if name = n then Inr opcode else parse_opcode name rest)"

definition ParseRdmaOpcode :: "string \<Rightarrow> RdmaOpcode result" where
  "ParseRdmaOpcode name =
     parse_opcode name
       [OP_WRITE, OP_READ, OP_SEND, OP_WRITE_IMM, OP_SEND_IMM, OP_FETCH_ADD, OP_COMPARE_SWAP,
        OP_PUT_SIGNAL, OP_SIGNAL]"

definition RdmaHasSourcePayload :: "RdmaOpcode \<Rightarrow> bool" where
  "RdmaHasSourcePayload opcode =
     (opcode = OP_WRITE \<or> opcode = OP_SEND \<or> opcode = OP_WRITE_IMM \<or> opcode = OP_SEND_IMM \<or>
      opcode = OP_PUT_SIGNAL)"

definition RdmaUsesReadAtomicCredit :: "RdmaOpcode \<Rightarrow> bool" where
  "RdmaUsesReadAtomicCredit opcode =
     (opcode = OP_READ \<or> opcode = OP_FETCH_ADD \<or> opcode = OP_COMPARE_SWAP \<or> opcode = OP_SIGNAL)"

definition RdmaNeedsReceive :: "RdmaOpcode \<Rightarrow> bool" where
  "RdmaNeedsReceive opcode = (opcode = OP_SEND \<or> opcode = OP_SEND_IMM \<or> opcode = OP_WRITE_IMM)"

subsection \<open>Requests and tags\<close>

record RdmaRequest =
  req_opcode :: RdmaOpcode
  req_peer :: u16
  req_bytes :: u64
  req_localAddress :: u64
  req_remoteAddress :: u64
  req_localKey :: u32
  req_remoteKey :: u32
  req_operand :: u64
  req_compare :: u64
  req_immediate :: u32
  req_signalAddress :: u64
  req_signalValue :: u64
  req_signalOp :: RdmaSignalOp
  req_flowId :: u16
  req_vc :: u8
  req_producer :: u32

definition RdmaRequest_new :: RdmaRequest where
  "RdmaRequest_new =
     \<lparr>req_opcode = OP_WRITE, req_peer = 0, req_bytes = 0, req_localAddress = 0,
      req_remoteAddress = 0, req_localKey = 1, req_remoteKey = 1, req_operand = 1,
      req_compare = 0, req_immediate = 0, req_signalAddress = 0, req_signalValue = 1,
      req_signalOp = SIG_SET, req_flowId = 1, req_vc = 0, req_producer = - 1\<rparr>"

record RdmaOperationTag =
  tag_opcode :: RdmaOpcode
  tag_phase :: RdmaPhase
  tag_owner :: u16
  tag_workId :: u64
  tag_requestId :: u64
  tag_bytes :: u64
  tag_offset :: u64
  tag_fragmentOffset :: u64
  tag_localAddress :: u64
  tag_remoteAddress :: u64
  tag_signalAddress :: u64
  tag_signalValue :: u64
  tag_operand :: u64
  tag_compare :: u64
  tag_localKey :: u32
  tag_remoteKey :: u32
  tag_immediate :: u32
  tag_attempt :: u32
  tag_signalOp :: RdmaSignalOp
  tag_zeroPayload :: bool
  tag_success :: bool

definition RdmaOperationTag_new :: RdmaOperationTag where
  "RdmaOperationTag_new =
     \<lparr>tag_opcode = OP_WRITE, tag_phase = PH_DATA, tag_owner = 0, tag_workId = 0,
      tag_requestId = 0, tag_bytes = 0, tag_offset = 0, tag_fragmentOffset = 0,
      tag_localAddress = 0, tag_remoteAddress = 0, tag_signalAddress = 0, tag_signalValue = 1,
      tag_operand = 0, tag_compare = 0, tag_localKey = 1, tag_remoteKey = 1, tag_immediate = 0,
      tag_attempt = 0, tag_signalOp = SIG_SET, tag_zeroPayload = True, tag_success = True\<rparr>"

text \<open>A \<open>bool\<close> is written as one byte and read back as \<open>true\<close> from any other than 0.\<close>

definition bool_code :: "bool \<Rightarrow> u8" where
  "bool_code b = (if b then 1 else 0)"

definition Tag_GetSerializedSize :: "RdmaOperationTag \<Rightarrow> nat" where
  "Tag_GetSerializedSize t = 111"

definition Tag_Serialize :: "RdmaOperationTag \<Rightarrow> u8 list" where
  "Tag_Serialize t =
     WriteU8 (opcode_code (tag_opcode t)) @ WriteU8 (phase_code (tag_phase t)) @
     TagBuffer_WriteU16 (tag_owner t) @
     concat (map TagBuffer_WriteU64
       [tag_workId t, tag_requestId t, tag_bytes t, tag_offset t, tag_fragmentOffset t,
        tag_localAddress t, tag_remoteAddress t, tag_signalAddress t, tag_signalValue t,
        tag_operand t, tag_compare t]) @
     concat (map TagBuffer_WriteU32
       [tag_localKey t, tag_remoteKey t, tag_immediate t, tag_attempt t]) @
     WriteU8 (signal_op_code (tag_signalOp t)) @ WriteU8 (bool_code (tag_zeroPayload t)) @
     WriteU8 (bool_code (tag_success t))"

definition Tag_Deserialize :: "u8 list \<Rightarrow> (RdmaOperationTag \<times> u8 list) option" where
  "Tag_Deserialize b = do {
     (opcode, b) \<leftarrow> ReadU8 b;
     (phase, b) \<leftarrow> ReadU8 b;
     (owner, b) \<leftarrow> TagBuffer_ReadU16 b;
     (workId, b) \<leftarrow> TagBuffer_ReadU64 b;
     (requestId, b) \<leftarrow> TagBuffer_ReadU64 b;
     (bytes, b) \<leftarrow> TagBuffer_ReadU64 b;
     (offset, b) \<leftarrow> TagBuffer_ReadU64 b;
     (fragmentOffset, b) \<leftarrow> TagBuffer_ReadU64 b;
     (localAddress, b) \<leftarrow> TagBuffer_ReadU64 b;
     (remoteAddress, b) \<leftarrow> TagBuffer_ReadU64 b;
     (signalAddress, b) \<leftarrow> TagBuffer_ReadU64 b;
     (signalValue, b) \<leftarrow> TagBuffer_ReadU64 b;
     (operand, b) \<leftarrow> TagBuffer_ReadU64 b;
     (compare, b) \<leftarrow> TagBuffer_ReadU64 b;
     (localKey, b) \<leftarrow> TagBuffer_ReadU32 b;
     (remoteKey, b) \<leftarrow> TagBuffer_ReadU32 b;
     (immediate, b) \<leftarrow> TagBuffer_ReadU32 b;
     (attempt, b) \<leftarrow> TagBuffer_ReadU32 b;
     (signalOp, b) \<leftarrow> ReadU8 b;
     (zeroPayload, b) \<leftarrow> ReadU8 b;
     (success, b) \<leftarrow> ReadU8 b;
     Some (\<lparr>tag_opcode = opcode_of opcode, tag_phase = phase_of phase, tag_owner = owner,
            tag_workId = workId, tag_requestId = requestId, tag_bytes = bytes,
            tag_offset = offset, tag_fragmentOffset = fragmentOffset,
            tag_localAddress = localAddress, tag_remoteAddress = remoteAddress,
            tag_signalAddress = signalAddress, tag_signalValue = signalValue,
            tag_operand = operand, tag_compare = compare, tag_localKey = localKey,
            tag_remoteKey = remoteKey, tag_immediate = immediate, tag_attempt = attempt,
            tag_signalOp = signal_op_of signalOp, tag_zeroPayload = (zeroPayload \<noteq> 0),
            tag_success = (success \<noteq> 0)\<rparr>, b)
   }"

record RdmaPacketTag =
  pt_workId :: u64
  pt_workBytes :: u64
  pt_dmaOffset :: u64
  pt_qp :: u32
  pt_sourceReady :: bool
  pt_destinationReady :: bool
  pt_ackIssued :: bool

definition PacketTag_GetSerializedSize :: "RdmaPacketTag \<Rightarrow> nat" where
  "PacketTag_GetSerializedSize t = 31"

definition PacketTag_Serialize :: "RdmaPacketTag \<Rightarrow> u8 list" where
  "PacketTag_Serialize t =
     TagBuffer_WriteU64 (pt_workId t) @ TagBuffer_WriteU64 (pt_workBytes t) @
     TagBuffer_WriteU64 (pt_dmaOffset t) @ TagBuffer_WriteU32 (pt_qp t) @
     WriteU8 (bool_code (pt_sourceReady t)) @ WriteU8 (bool_code (pt_destinationReady t)) @
     WriteU8 (bool_code (pt_ackIssued t))"

definition PacketTag_Deserialize :: "u8 list \<Rightarrow> (RdmaPacketTag \<times> u8 list) option" where
  "PacketTag_Deserialize b = do {
     (workId, b) \<leftarrow> TagBuffer_ReadU64 b;
     (workBytes, b) \<leftarrow> TagBuffer_ReadU64 b;
     (dmaOffset, b) \<leftarrow> TagBuffer_ReadU64 b;
     (qp, b) \<leftarrow> TagBuffer_ReadU32 b;
     (sourceReady, b) \<leftarrow> ReadU8 b;
     (destinationReady, b) \<leftarrow> ReadU8 b;
     (ackIssued, b) \<leftarrow> ReadU8 b;
     Some (\<lparr>pt_workId = workId, pt_workBytes = workBytes, pt_dmaOffset = dmaOffset, pt_qp = qp,
            pt_sourceReady = (sourceReady \<noteq> 0), pt_destinationReady = (destinationReady \<noteq> 0),
            pt_ackIssued = (ackIssued \<noteq> 0)\<rparr>, b)
   }"

subsection \<open>Both tags survive their buffer\<close>

text \<open>A tag whose enums hold a value a cast from a byte can give.\<close>

definition tag_wf :: "RdmaOperationTag \<Rightarrow> bool" where
  "tag_wf t = (opcode_of (opcode_code (tag_opcode t)) = tag_opcode t \<and>
               phase_of (phase_code (tag_phase t)) = tag_phase t \<and>
               signal_op_of (signal_op_code (tag_signalOp t)) = tag_signalOp t)"

lemma opcode_code_of [simp]: "opcode_code (opcode_of b) = b"
proof (cases "unat b < 9")
  case True
  define n where "n = unat b"
  with True have n: "n \<in> set [0..<9]" "b = of_nat n" "unat b = n" by simp_all
  then show ?thesis
    unfolding opcode_of_def named_opcodes_def n(3) using n(2) by (auto simp: upt_rec)
qed (simp add: opcode_of_def named_opcodes_def)

lemma phase_code_of [simp]: "phase_code (phase_of b) = b"
proof (cases "unat b < 6")
  case True
  define n where "n = unat b"
  with True have n: "n \<in> set [0..<6]" "b = of_nat n" "unat b = n" by simp_all
  then show ?thesis
    unfolding phase_of_def named_phases_def n(3) using n(2) by (auto simp: upt_rec)
qed (simp add: phase_of_def named_phases_def)

lemma signal_op_code_of [simp]: "signal_op_code (signal_op_of b) = b"
  by (simp add: signal_op_of_def)

lemma bool_code_True [simp]: "bool_code b \<noteq> 0 \<longleftrightarrow> b"
  by (simp add: bool_code_def)

lemmas tag_reads = u8c.dec_enc [OF TrueI] tb16.get_put [OF TrueI] tb32.get_put [OF TrueI]
  tb64.get_put [OF TrueI]
lemmas tag_rests = u8c.dec_drop tb16.get_valid tb32.get_valid tb64.get_valid
lemmas tag_consumes = u8c.dec_consumes tb16.get_consumes tb32.get_consumes tb64.get_consumes
lemmas tag_widths = u8c.enc_width [OF TrueI] tb16.put_width tb32.put_width tb64.put_width
lemmas tag_None_iff = u8c.dec_None_iff tb16.get_None tb32.get_None tb64.get_None

lemma Tag_Deserialize_Serialize:
  "tag_wf t \<Longrightarrow> Tag_Deserialize (Tag_Serialize t @ r) = Some (t, r)"
  unfolding Tag_Deserialize_def Tag_Serialize_def
  by (simp add: tag_reads tag_wf_def)

lemma Tag_Deserialize_wf:
  "Tag_Deserialize bs = Some (t, r) \<Longrightarrow> tag_wf t \<and> r = drop 111 bs"
  unfolding Tag_Deserialize_def
  by (elim read_SomeE) (auto simp: tag_wf_def dest!: tag_rests)

text \<open>Reading fails exactly on a short buffer.\<close>

lemma None_iff_short:
  assumes "\<And>x r. get bs = Some (x, r) \<Longrightarrow> n \<le> length bs" "n \<le> length bs \<Longrightarrow> get bs \<noteq> None"
  shows "get bs = None \<longleftrightarrow> length bs < n"
  using assms by (cases "get bs") fastforce+

lemma Tag_Deserialize_None: "Tag_Deserialize bs = None \<longleftrightarrow> length bs < 111"
proof (rule None_iff_short)
  show "111 \<le> length bs" if "Tag_Deserialize bs = Some (x, r)" for x r
    using that unfolding Tag_Deserialize_def
    by (elim read_SomeE) (drule tag_consumes; simp)+
  show "Tag_Deserialize bs \<noteq> None" if "111 \<le> length bs"
    unfolding Tag_Deserialize_def
    by (intro read_not_None) (use that in \<open>auto simp: tag_None_iff dest!: tag_consumes\<close>)
qed

interpretation ot: tag_codec Tag_Serialize Tag_Deserialize 111 tag_wf
proof
  show "length (Tag_Serialize x) = 111" for x by (simp add: Tag_Serialize_def tag_widths)
qed (simp_all add: Tag_Deserialize_Serialize Tag_Deserialize_wf Tag_Deserialize_None)

lemma PacketTag_Deserialize_None: "PacketTag_Deserialize bs = None \<longleftrightarrow> length bs < 31"
proof (rule None_iff_short)
  show "31 \<le> length bs" if "PacketTag_Deserialize bs = Some (x, r)" for x r
    using that unfolding PacketTag_Deserialize_def
    by (elim read_SomeE) (drule tag_consumes; simp)+
  show "PacketTag_Deserialize bs \<noteq> None" if "31 \<le> length bs"
    unfolding PacketTag_Deserialize_def
    by (intro read_not_None) (use that in \<open>auto simp: tag_None_iff dest!: tag_consumes\<close>)
qed

lemma PacketTag_Deserialize_rest: "PacketTag_Deserialize bs = Some (t, r) \<Longrightarrow> r = drop 31 bs"
  unfolding PacketTag_Deserialize_def
  by (elim read_SomeE) (auto dest!: tag_rests)

lemma PacketTag_Deserialize_Serialize:
  "PacketTag_Deserialize (PacketTag_Serialize t @ r) = Some (t, r)"
  unfolding PacketTag_Deserialize_def PacketTag_Serialize_def by (simp add: tag_reads)

interpretation wt: tag_codec PacketTag_Serialize PacketTag_Deserialize 31 "\<lambda>_. True"
proof
  show "length (PacketTag_Serialize x) = 31" for x by (simp add: PacketTag_Serialize_def tag_widths)
qed (simp_all add: PacketTag_Deserialize_Serialize PacketTag_Deserialize_rest PacketTag_Deserialize_None)

subsection \<open>Names\<close>

lemma parse_opcode_name:
  "ParseRdmaOpcode n = Inr x \<longleftrightarrow> x \<in> set named_opcodes \<and> RdmaOpcodeName x = Inr n"
  by (cases x) (auto simp: ParseRdmaOpcode_def named_opcodes_def)

text \<open>
  C39: the two RDMA tags survive their buffers. The bytes written are as many as the tag
  announces to the packet, a read fails exactly on a shorter buffer, the operation tag is
  read back, and the following bytes left alone, exactly when its enums hold values of
  their underlying byte, and the work tag always is.
\<close>

theorem rdma_tags_survive_their_buffers:
  "length (Tag_Serialize t) = Tag_GetSerializedSize t
   \<and> (Tag_Deserialize (Tag_Serialize t @ r) = Some (t, r) \<longleftrightarrow> tag_wf t)
   \<and> (Tag_Deserialize bs = None \<longleftrightarrow> length bs < Tag_GetSerializedSize t)
   \<and> length (PacketTag_Serialize w) = PacketTag_GetSerializedSize w
   \<and> PacketTag_Deserialize (PacketTag_Serialize w @ r) = Some (w, r)
   \<and> (PacketTag_Deserialize bs = None \<longleftrightarrow> length bs < PacketTag_GetSerializedSize w)"
  using ot.get_put [of t r] ot.get_valid [of "Tag_Serialize t @ r" t r]
  by (auto simp: Tag_GetSerializedSize_def PacketTag_GetSerializedSize_def ot.put_width ot.get_None
      wt.put_width wt.get_put wt.get_None)

end
