(* ===== verification/RdmaMemory.thy ===== *)
theory RdmaMemory
  imports RdmaOperation TimeBounds
begin

text \<open>
  The registered memory of the RDMA operation engine (\<open>rdma-operation-engine.cc\<close>): the
  regions, the sparse byte store that keeps only the bytes that are not zero, the
  little-endian words atomics and signals work on, and the waits on those words. The
  theorems show that the sparse store refines a flat byte memory, that words round-trip,
  and that a wait fires exactly when the store that satisfies it is made.
\<close>

subsection \<open>State\<close>

record Region =
  region_base :: u64
  region_bytes :: u64

record Wait =
  wait_id :: u64
  wait_address :: u64
  wait_value :: u64
  wait_comparison :: RdmaComparison
  wait_complete :: callback

text \<open>
  \<open>m_polls\<close> are the wait callbacks handed to the simulator and not yet run, each with the
  word it will report.
\<close>

record rdma_memory =
  m_regions :: "(u32, Region) omap"
  m_memory :: "(u64, u8) omap"
  m_waits :: "Wait list"
  m_nextWait :: u64
  m_polls :: "(callback \<times> u64) list"

definition memory_new :: rdma_memory where
  "memory_new = \<lparr>m_regions = [], m_memory = [], m_waits = [], m_nextWait = 1, m_polls = []\<rparr>"

subsection \<open>Regions\<close>

definition InRegion :: "rdma_memory \<Rightarrow> u32 \<Rightarrow> u64 \<Rightarrow> u64 \<Rightarrow> bool" where
  "InRegion m key address bytes =
     (case omap_find (m_regions m) key of
        None \<Rightarrow> False
      | Some r \<Rightarrow> address \<ge> region_base r \<and> address - region_base r \<le> region_bytes r \<and>
                  bytes \<le> region_bytes r - (address - region_base r))"

definition InAnyRegion :: "rdma_memory \<Rightarrow> u64 \<Rightarrow> u64 \<Rightarrow> bool" where
  "InAnyRegion m address bytes =
     list_ex (\<lambda>(key, region). InRegion m key address bytes) (m_regions m)"

definition RegisterMemory :: "u64 \<Rightarrow> u64 \<Rightarrow> u32 \<Rightarrow> rdma_memory \<Rightarrow> rdma_memory result" where
  "RegisterMemory address bytes key m =
     (if key = 0 \<or> bytes = 0 \<or> bytes > - 1 - address \<or> omap_find (m_regions m) key \<noteq> None
      then Inl (NsAbort ''RDMA registration needs a new nonzero key and a non-wrapping region'')
      else Inr (m\<lparr>m_regions :=
                    omap_put key \<lparr>region_base = address, region_bytes = bytes\<rparr> (m_regions m)\<rparr>))"

subsection \<open>Bytes\<close>

text \<open>
  An iterator of \<open>m_memory\<close> is a position in the ascending list; erasing a range whose end
  lies before its beginning is undefined.
\<close>

definition lower_bound :: "(u64, u8) omap \<Rightarrow> u64 \<Rightarrow> nat" where
  "lower_bound mm address = length (takeWhile (\<lambda>e. fst e < address) mm)"

definition erase_range :: "nat \<Rightarrow> nat \<Rightarrow> (u64, u8) omap \<Rightarrow> (u64, u8) omap result" where
  "erase_range b e mm =
     (if b \<le> e then Inr (take b mm @ drop e mm) else Inl (Uncaught ''erase of an inverted range''))"

text \<open>The loop that puts the bytes that are not zero back, from index \<open>i\<close>.\<close>

fun put_bytes :: "u64 \<Rightarrow> nat \<Rightarrow> u8 list \<Rightarrow> (u64, u8) omap \<Rightarrow> (u64, u8) omap" where
  "put_bytes address i [] mm = mm"
| "put_bytes address i (b # bytes) mm =
     put_bytes address (Suc i) bytes
       (if b \<noteq> 0 then omap_put (address + of_nat i) b mm else mm)"

definition ReadMemory :: "rdma_memory \<Rightarrow> u64 \<Rightarrow> u32 \<Rightarrow> u8 list result" where
  "ReadMemory m address bytes =
     (if \<not> InAnyRegion m address (ucast bytes)
      then Inl (NsAbort ''Local RDMA memory access outside registration'')
      else Inr (foldl (\<lambda>result (k, v). result[unat (k - address) := v])
                  (replicate (unat bytes) 0)
                  (takeWhile (\<lambda>e. fst e - address < ucast bytes)
                     (drop (lower_bound (m_memory m) address) (m_memory m)))))"

subsection \<open>Words and waits\<close>

definition WordBytes :: "u64 \<Rightarrow> u8 list" where
  "WordBytes value = map (\<lambda>i. ucast (drop_bit (8 * i) value AND 255)) [0..<8]"

definition ReadWord :: "rdma_memory \<Rightarrow> u64 \<Rightarrow> u64 result" where
  "ReadWord m address =
     (if address mod 8 \<noteq> 0
      then Inl (NsAbort ''RDMA atomic/signal address must be 8-byte aligned'')
      else and_then (ReadMemory m address 8)
        (\<lambda>bytes. Inr (foldl (\<lambda>value i. value OR push_bit (8 * i) (ucast (bytes ! i))) 0 [0..<8])))"

fun Compare :: "u64 \<Rightarrow> RdmaComparison \<Rightarrow> u64 \<Rightarrow> bool" where
  "Compare actual CMP_EQ expected = (actual = expected)"
| "Compare actual CMP_NE expected = (actual \<noteq> expected)"
| "Compare actual CMP_GT expected = (actual > expected)"
| "Compare actual CMP_GE expected = (actual \<ge> expected)"
| "Compare actual CMP_LT expected = (actual < expected)"
| "Compare actual CMP_LE expected = (actual \<le> expected)"
| "Compare actual (CMP_unnamed _) expected = False"

text \<open>
  The scan of \<open>CheckWaits\<close>: the waits that stay, and the callbacks that are ready with the
  word each saw. \<open>poll\<close> is \<open>TimeBounds::CanSchedule(signalPoll)\<close>: beyond the
  horizon the callbacks are dropped, as \<open>Schedule\<close> does.
\<close>

fun scan_waits :: "rdma_memory \<Rightarrow> Wait list \<Rightarrow> (Wait list \<times> (callback \<times> u64) list) result" where
  "scan_waits m [] = Inr ([], [])"
| "scan_waits m (w # ws) =
     and_then (ReadWord m (wait_address w)) (\<lambda>actual.
     and_then (scan_waits m ws) (\<lambda>(kept, ready).
       Inr (if Compare actual (wait_comparison w) (wait_value w)
            then (kept, (wait_complete w, actual) # ready) else (w # kept, ready))))"

definition CheckWaits :: "bool \<Rightarrow> rdma_memory \<Rightarrow> rdma_memory result" where
  "CheckWaits poll m =
     and_then (scan_waits m (m_waits m)) (\<lambda>(kept, ready).
       Inr (m\<lparr>m_waits := kept, m_polls := m_polls m @ (if poll then ready else [])\<rparr>))"

definition WriteMemory :: "bool \<Rightarrow> u64 \<Rightarrow> u8 list \<Rightarrow> rdma_memory \<Rightarrow> rdma_memory result" where
  "WriteMemory poll address bytes m =
     (if \<not> InAnyRegion m address (of_nat (length bytes))
      then Inl (NsAbort ''Local RDMA memory access outside registration'')
      else and_then
        (erase_range (lower_bound (m_memory m) address)
           (lower_bound (m_memory m) (address + of_nat (length bytes))) (m_memory m))
        (\<lambda>mm. CheckWaits poll (m\<lparr>m_memory := put_bytes address 0 bytes mm\<rparr>)))"

definition WriteWord :: "bool \<Rightarrow> u64 \<Rightarrow> u64 \<Rightarrow> rdma_memory \<Rightarrow> rdma_memory result" where
  "WriteWord poll address value m =
     (if address mod 8 \<noteq> 0
      then Inl (NsAbort ''RDMA atomic/signal address must be 8-byte aligned'')
      else WriteMemory poll address (WordBytes value) m)"

text \<open>
  The payload of a fragment: a packet is its bytes, and a range without a stored byte is
  sent as a zero-filled packet without reading it (so without the registration check).
\<close>

definition Payload :: "rdma_memory \<Rightarrow> u64 \<Rightarrow> u32 \<Rightarrow> (u8 list \<times> bool) result" where
  "Payload m address bytes =
     (let rest = drop (lower_bound (m_memory m) address) (m_memory m);
          zero = (rest = [] \<or> fst (hd rest) - address \<ge> ucast bytes)
      in if zero then Inr (replicate (unat bytes) 0, True)
         else and_then (ReadMemory m address bytes) (\<lambda>data. Inr (data, False)))"

text \<open>\<open>CopyData\<close> copies at most the packet's bytes into the zero-initialised vector.\<close>

definition Store :: "bool \<Rightarrow> u64 \<Rightarrow> u8 list \<Rightarrow> u32 \<Rightarrow> bool \<Rightarrow> rdma_memory \<Rightarrow> rdma_memory result" where
  "Store poll address packet bytes zero m =
     (if zero then
        and_then
          (erase_range (lower_bound (m_memory m) address)
             (lower_bound (m_memory m) (address + ucast bytes)) (m_memory m))
          (\<lambda>mm. CheckWaits poll (m\<lparr>m_memory := mm\<rparr>))
      else
        WriteMemory poll address
          (take (unat bytes) packet @ replicate (unat bytes - length packet) 0) m)"

definition TestSignal :: "rdma_memory \<Rightarrow> u64 \<Rightarrow> RdmaComparison \<Rightarrow> u64 \<Rightarrow> bool result" where
  "TestSignal m address comparison value =
     and_then (ReadWord m address) (\<lambda>actual. Inr (Compare actual comparison value))"

text \<open>The callback of a wait must not be empty; \<open>None\<close> is the empty one.\<close>

definition WaitSignal ::
    "bool \<Rightarrow> u64 \<Rightarrow> RdmaComparison \<Rightarrow> u64 \<Rightarrow> callback option \<Rightarrow> rdma_memory \<Rightarrow> (rdma_memory \<times> u64) result" where
  "WaitSignal poll address comparison value complete m =
     (case complete of
        None \<Rightarrow> Inl (NsAbort ''RDMA wait needs a callback'')
      | Some cb \<Rightarrow>
          and_then (ReadWord m address) (\<lambda>_.
          let wid = m_nextWait m;
              w = \<lparr>wait_id = wid, wait_address = address, wait_value = value,
                   wait_comparison = comparison, wait_complete = cb\<rparr>
          in and_then (CheckWaits poll (m\<lparr>m_nextWait := wid + 1, m_waits := m_waits m @ [w]\<rparr>))
               (\<lambda>m'. Inr (m', wid))))"

definition CancelSignalWait :: "u64 \<Rightarrow> rdma_memory \<Rightarrow> rdma_memory" where
  "CancelSignalWait wid m = m\<lparr>m_waits := filter (\<lambda>w. wait_id w \<noteq> wid) (m_waits m)\<rparr>"

text \<open>
  \<open>UnregisterMemory\<close>; \<open>busy\<close> is \<open>HasPending() || m_receiveReserved\<close> of the engine.
\<close>

definition UnregisterMemory :: "bool \<Rightarrow> u32 \<Rightarrow> rdma_memory \<Rightarrow> rdma_memory result" where
  "UnregisterMemory busy key m =
     (if busy \<or> m_waits m \<noteq> []
      then Inl (NsAbort ''Drain RDMA operations, receives and waits before unregistering memory'')
      else Inr (m\<lparr>m_regions := omap_erase key (m_regions m)\<rparr>))"

subsection \<open>The flat memory it stands for\<close>

definition byte_at :: "rdma_memory \<Rightarrow> u64 \<Rightarrow> u8" where
  "byte_at m a = (case omap_find (m_memory m) a of None \<Rightarrow> 0 | Some b \<Rightarrow> b)"

definition bytes_at :: "rdma_memory \<Rightarrow> u64 \<Rightarrow> nat \<Rightarrow> u8 list" where
  "bytes_at m a n = map (\<lambda>i. byte_at m (a + of_nat i)) [0..<n]"

definition word_at :: "rdma_memory \<Rightarrow> u64 \<Rightarrow> u64" where
  "word_at m a = le_word (bytes_at m a 8)"

definition region_ok :: "Region \<Rightarrow> bool" where
  "region_ok r = (region_bytes r \<noteq> 0 \<and> region_bytes r \<le> - 1 - region_base r)"

definition aligned_word :: "rdma_memory \<Rightarrow> u64 \<Rightarrow> bool" where
  "aligned_word m a = (a mod 8 = 0 \<and> InAnyRegion m a 8)"

text \<open>
  The state invariant: both maps are ordered maps, no stored byte is zero, every region is
  registered under a nonzero key and does not wrap, and every wait watches an aligned
  registered word.
\<close>

definition memory_ok :: "rdma_memory \<Rightarrow> bool" where
  "memory_ok m =
     (omap_wf (m_memory m) \<and> (\<forall>e \<in> set (m_memory m). snd e \<noteq> 0) \<and>
      omap_wf (m_regions m) \<and> (\<forall>e \<in> set (m_regions m). fst e \<noteq> 0 \<and> region_ok (snd e)) \<and>
      (\<forall>w \<in> set (m_waits m). aligned_word m (wait_address w)))"

subsection \<open>Ranges that do not wrap\<close>

lemma word_range:
  fixes a n x :: u64
  assumes "unat a + unat n < 2 ^ 64"
  shows "x - a < n \<longleftrightarrow> a \<le> x \<and> x < a + n"
  using assms by (simp add: word_less_nat_alt word_le_nat_alt unat_plus_if' unat_sub_if' not_le)
     linarith

lemma address_offset_eq:
  fixes a x :: u64
  assumes "i < 2 ^ 64"
  shows "x = a + of_nat i \<longleftrightarrow> unat (x - a) = i"
proof -
  have "x = a + of_nat i \<longleftrightarrow> x - a = of_nat i" by (auto simp: algebra_simps)
  also have "\<dots> \<longleftrightarrow> unat (x - a) = i"
    using assms by (simp add: word_unat_eq_iff unat_of_nat)
  finally show ?thesis .
qed

lemma InAnyRegion_key: "InAnyRegion m a n \<longleftrightarrow> (\<exists>key. InRegion m key a n)"
proof -
  have "key \<in> fst ` set (m_regions m)" if "InRegion m key a n" for key
    using that omap_find_in_keys [of "m_regions m" key] by (auto simp: InRegion_def split: option.splits)
  then show ?thesis by (force simp: InAnyRegion_def list_ex_iff)
qed

lemma region_no_wrap:
  assumes "region_ok r" "a \<ge> region_base r"
    "a - region_base r \<le> region_bytes r" "n \<le> region_bytes r - (a - region_base r)"
  shows "unat a + unat n < 2 ^ 64"
proof -
  have lt: "unat (region_base r) < 2 ^ 64"
    using unsigned_less [of "region_base r", where ?'a = nat] by simp
  moreover from lt have "unat (- 1 - region_base r) = 2 ^ 64 - 1 - unat (region_base r)"
    by (subst unat_sub) (simp_all add: word_le_nat_alt unsigned_minus_1_eq_mask mask_eq_exp_minus_1)
  ultimately show ?thesis using assms
    by (simp add: region_ok_def word_le_nat_alt unat_sub) linarith
qed

lemma InRegion_region:
  assumes "memory_ok m" "InRegion m key a n"
  obtains r where "omap_find (m_regions m) key = Some r" "region_ok r" "a \<ge> region_base r"
    "unat (a - region_base r) + unat n \<le> unat (region_bytes r)" "unat a + unat n < 2 ^ 64"
proof -
  from assms(2) obtain r where r: "omap_find (m_regions m) key = Some r" "a \<ge> region_base r"
    "a - region_base r \<le> region_bytes r" "n \<le> region_bytes r - (a - region_base r)"
    by (auto simp: InRegion_def split: option.splits)
  moreover from r(1) assms(1) have ok: "region_ok r"
    by (force simp: memory_ok_def omap_mem_iff [symmetric])
  moreover have "unat (a - region_base r) + unat n \<le> unat (region_bytes r)"
    using r(3,4) by (simp add: word_le_nat_alt unat_sub)
  ultimately show thesis using that region_no_wrap by blast
qed

lemma InAnyRegion_no_wrap:
  "memory_ok m \<Longrightarrow> InAnyRegion m a n \<Longrightarrow> unat a + unat n < 2 ^ 64"
  by (metis InAnyRegion_key InRegion_region)

text \<open>A part of a registered range is registered.\<close>

lemma InRegion_sub:
  assumes "memory_ok m" "InRegion m key a n" "unat i + unat k \<le> unat n"
  shows "InRegion m key (a + i) k"
proof -
  obtain r where r: "omap_find (m_regions m) key = Some r" "a \<ge> region_base r"
    "unat (a - region_base r) + unat n \<le> unat (region_bytes r)" "unat a + unat n < 2 ^ 64"
    by (rule InRegion_region [OF assms(1,2)])
  let ?d = "a - region_base r"
  have e: "a + i - region_base r = ?d + i" by (simp add: algebra_simps)
  have "unat (region_bytes r) < 2 ^ 64"
    using unsigned_less [of "region_bytes r", where ?'a = nat] by simp
  with r assms(3) have i: "unat (?d + i) = unat ?d + unat i" "unat (a + i) = unat a + unat i"
    by (simp_all add: unat_plus_if')
  then have le: "?d + i \<le> region_bytes r"
    using r assms(3) by (simp add: word_le_nat_alt)
  then have "k \<le> region_bytes r - (?d + i)"
    using i r assms(3) by (simp add: word_le_nat_alt unat_sub)
  moreover have "region_base r \<le> a + i" using i r by (simp add: word_le_nat_alt)
  ultimately show ?thesis using r(1) le by (simp add: InRegion_def e)
qed

subsection \<open>Erasing, putting and reading ranges\<close>

lemma erase_range_filter:
  assumes "omap_wf mm" "a \<le> b"
  shows "erase_range (lower_bound mm a) (lower_bound mm b) mm
           = Inr (filter (\<lambda>e. fst e < a \<or> \<not> fst e < b) mm)"
proof -
  have le: "lower_bound mm a \<le> lower_bound mm b"
    using assms(2) by (induction mm) (auto simp: lower_bound_def)
  have "takeWhile (\<lambda>e. fst e < a) mm @ dropWhile (\<lambda>e. fst e < b) mm
          = filter (\<lambda>e. fst e < a \<or> \<not> fst e < b) mm"
    using assms(1)
  proof (induction mm)
    case (Cons e mm)
    show ?case
    proof (cases "fst e < a")
      case True
      with Cons assms(2) show ?thesis by (cases e) auto
    next
      case False
      then have "dropWhile (\<lambda>e. fst e < b) (e # mm) = filter (\<lambda>e. \<not> fst e < b) (e # mm)"
        using Cons.prems by (rule_tac dropWhile_below_omap)
      moreover have "filter (\<lambda>e. fst e < a \<or> \<not> fst e < b) (e # mm) = filter (\<lambda>e. \<not> fst e < b) (e # mm)"
        using False Cons.prems by (intro filter_cong) (cases e, force)+
      ultimately show ?thesis using False by simp
    qed
  qed simp
  with le show ?thesis
    by (simp add: erase_range_def lower_bound_def takeWhile_eq_take [symmetric] dropWhile_eq_drop [symmetric])
qed

lemma omap_find_filter_keys:
  "omap_find (filter (\<lambda>e. P (fst e)) mm) k = (if P k then omap_find mm k else None)"
  by (induction mm) (auto simp: omap_find_def)

lemma put_bytes_find:
  assumes "i + length bs \<le> 2 ^ 64"
  shows "omap_find (put_bytes a i bs mm) x =
     (let d = unat (x - a) in
      if i \<le> d \<and> d < i + length bs \<and> bs ! (d - i) \<noteq> 0 then Some (bs ! (d - i)) else omap_find mm x)"
  using assms
proof (induction a i bs mm rule: put_bytes.induct)
  case (2 a i b bs mm)
  let ?mm = "if b \<noteq> 0 then omap_put (a + of_nat i) b mm else mm"
  have i: "x = a + of_nat i \<longleftrightarrow> unat (x - a) = i"
    using "2.prems" by (intro address_offset_eq) simp
  consider "unat (x - a) < i" | "unat (x - a) = i" | j where "unat (x - a) = Suc (i + j)"
    by (metis less_imp_Suc_add linorder_neqE_nat)
  then show ?case
  proof cases
    case 3
    with i "2.IH" "2.prems" show ?thesis by (simp add: Let_def omap_find_put)
  qed (use i "2.IH" "2.prems" in \<open>simp_all add: Let_def omap_find_put\<close>)
qed (auto simp: Let_def)

lemma put_bytes_wf: "omap_wf mm \<Longrightarrow> omap_wf (put_bytes a i bs mm)"
  by (induction a i bs mm rule: put_bytes.induct) (simp_all add: omap_wf_put)

lemma nonzero_find:
  "omap_wf mm \<Longrightarrow> (\<forall>e \<in> set mm. snd e \<noteq> 0) \<longleftrightarrow> (\<forall>k v. omap_find mm k = Some v \<longrightarrow> v \<noteq> 0)"
  by (force simp: omap_mem_iff [symmetric])

text \<open>The effect of a write on the flat memory: the range holds the bytes, the rest is kept.\<close>

definition overlay :: "(u64 \<Rightarrow> u8) \<Rightarrow> u64 \<Rightarrow> u8 list \<Rightarrow> u64 \<Rightarrow> u8" where
  "overlay f a bs x = (if unat (x - a) < length bs then bs ! unat (x - a) else f x)"

lemma rewrite_range:
  assumes ok: "memory_ok m" and n: "unat a + length bs < 2 ^ 64"
  defines "mm \<equiv> put_bytes a 0 bs (filter (\<lambda>e. fst e < a \<or> \<not> fst e < a + of_nat (length bs)) (m_memory m))"
  shows "memory_ok (m\<lparr>m_memory := mm\<rparr>)" and "byte_at (m\<lparr>m_memory := mm\<rparr>) = overlay (byte_at m) a bs"
proof -
  let ?n = "of_nat (length bs) :: u64"
  have un: "unat ?n = length bs" using n by (simp add: unat_of_nat)
  have wf: "omap_wf (m_memory m)" and nz: "\<forall>e \<in> set (m_memory m). snd e \<noteq> 0"
    using ok by (simp_all add: memory_ok_def)
  have range: "a \<le> x \<and> x < a + ?n \<longleftrightarrow> unat (x - a) < length bs" for x
    using word_range [of a ?n x] n un by (simp add: word_less_nat_alt)
  have find: "omap_find mm x = (if unat (x - a) < length bs
      then if bs ! unat (x - a) = 0 then None else Some (bs ! unat (x - a))
      else omap_find (m_memory m) x)" for x
    using n range [of x] unfolding mm_def
    by (simp add: put_bytes_find Let_def omap_find_filter_keys [where P = "\<lambda>k. k < a \<or> \<not> k < a + ?n"])
      (auto simp: not_less not_le)
  have wf': "omap_wf mm" unfolding mm_def by (intro put_bytes_wf omap_wf_filter wf)
  have "\<forall>e \<in> set mm. snd e \<noteq> 0"
    using nz by (auto simp: nonzero_find [OF wf'] nonzero_find [OF wf] find split: if_splits)
  with wf' ok show "memory_ok (m\<lparr>m_memory := mm\<rparr>)"
    by (simp add: memory_ok_def aligned_word_def InAnyRegion_def InRegion_def)
  show "byte_at (m\<lparr>m_memory := mm\<rparr>) = overlay (byte_at m) a bs"
    by (auto simp: byte_at_def overlay_def find fun_eq_iff)
qed

lemma fold_updates:
  fixes a :: u64
  assumes "distinct (map fst es)" "\<forall>e \<in> set es. unat (fst e - a) < length r" "length r \<le> 2 ^ 64"
    "j < length r"
  shows "foldl (\<lambda>r (k, v). r[unat (k - a) := v]) r es ! j
           = (case map_of es (a + of_nat j) of None \<Rightarrow> r ! j | Some v \<Rightarrow> v)"
  using assms
proof (induction es arbitrary: r)
  case (Cons e es)
  obtain k v where e: "e = (k, v)" by (cases e)
  have j: "a + of_nat j = k \<longleftrightarrow> unat (k - a) = j"
    using Cons.prems address_offset_eq [of j k a] by auto
  have "map_of es k = None" using Cons.prems(1) e by (simp add: map_of_eq_None_iff)
  with Cons j e show ?case by (auto split: option.splits)
qed simp

lemma stored_range:
  assumes "omap_wf mm" "unat a + unat n < 2 ^ 64"
  shows "takeWhile (\<lambda>e. fst e - a < n) (drop (lower_bound mm a) mm) = filter (\<lambda>e. fst e - a < n) mm"
  using assms(1)
proof (induction mm)
  case (Cons e mm)
  show ?case
  proof (cases "fst e < a")
    case True
    with Cons word_range [OF assms(2), of "fst e"] show ?thesis
      by (cases e) (auto simp: lower_bound_def)
  next
    case False
    have "takeWhile (\<lambda>e. fst e - a < n) es = filter (\<lambda>e. fst e - a < n) es"
      if "omap_wf es" "\<forall>e \<in> set es. a \<le> fst e" for es :: "(u64, u8) omap"
      using that
    proof (induction es)
      case (Cons e es)
      have "\<forall>e' \<in> set es. \<not> fst e' - a < n" if "\<not> fst e - a < n"
        using that Cons.prems word_range [OF assms(2)] by (cases e) fastforce
      with Cons show ?case by (cases e) (auto simp: filter_empty_conv)
    qed simp
    moreover have "\<forall>e' \<in> set (e # mm). a \<le> fst e'"
      using False Cons.prems by (cases e) force
    moreover have "lower_bound (e # mm) a = 0" using False by (simp add: lower_bound_def)
    ultimately show ?thesis using Cons.prems by (simp only: drop0)
  qed
qed (simp add: lower_bound_def)

lemma foldl_updates_length: "length (foldl (\<lambda>r (k, v). r[f k := v]) r es) = length r"
  by (induction es arbitrary: r) auto

lemma ReadMemory_flat:
  assumes "memory_ok m" "InAnyRegion m a (ucast n)"
  shows "ReadMemory m a n = Inr (bytes_at m a (unat n))"
proof -
  let ?mm = "m_memory m" and ?n = "ucast n :: u64"
  have wf: "omap_wf ?mm" using assms(1) by (simp add: memory_ok_def)
  have un: "unat ?n = unat n" by (simp add: unsigned_ucast_eq take_bit_nat_eq_self_iff less_trans [OF unsigned_less])
  have "unat n < 2 ^ 32" using unsigned_less [of n, where ?'a = nat] by simp
  have no_wrap: "unat a + unat ?n < 2 ^ 64" by (rule InAnyRegion_no_wrap [OF assms])
  let ?es = "filter (\<lambda>e. fst e - a < ?n) ?mm"
  have "foldl (\<lambda>r (k, v). r[unat (k - a) := v]) (replicate (unat n) 0) ?es = bytes_at m a (unat n)"
  proof (rule nth_equalityI)
    fix j assume "j < length (foldl (\<lambda>r (k, v). r[unat (k - a) := v]) (replicate (unat n) 0) ?es)"
    then have j: "j < unat n" by (simp add: foldl_updates_length)
    then have uj: "unat (of_nat j :: u64) = j" using \<open>unat n < 2 ^ 32\<close> by (simp add: unat_of_nat)
    have "omap_find ?es (a + of_nat j) = omap_find ?mm (a + of_nat j)"
      using j uj un omap_find_filter_keys [where P = "\<lambda>k. k - a < ?n" and mm = ?mm and k = "a + of_nat j"]
      by (simp add: word_less_nat_alt)
    moreover have "distinct (map fst ?es)" "\<forall>e \<in> set ?es. unat (fst e - a) < unat n"
      using wf un by (auto simp: omap_wf_distinct omap_wf_filter word_less_nat_alt)
    ultimately show "foldl (\<lambda>r (k, v). r[unat (k - a) := v]) (replicate (unat n) 0) ?es ! j
        = bytes_at m a (unat n) ! j"
      using j \<open>unat n < 2 ^ 32\<close>
      by (simp add: fold_updates bytes_at_def byte_at_def omap_find_def split: option.splits)
  qed (simp add: foldl_updates_length bytes_at_def)
  then show ?thesis
    using assms(2) stored_range [OF wf no_wrap] by (simp add: ReadMemory_def)
qed

subsection \<open>Words\<close>

lemma WordBytes_le: "WordBytes v = le_bytes 8 v"
  by (simp add: WordBytes_def le_bytes_def)

lemma bit_or_bytes:
  "bit (foldl (\<lambda>v i. v OR push_bit (8 * i) (ucast (bs ! i))) (0 :: u64) [0..<n]) k
     \<longleftrightarrow> k < 64 \<and> k div 8 < n \<and> bit (bs ! (k div 8) :: u8) (k mod 8)"
proof (induction n)
  case (Suc n)
  have "8 * n \<le> k \<and> bit (bs ! n) (k - 8 * n) \<longleftrightarrow> k div 8 = n \<and> bit (bs ! n) (k mod 8)"
  proof (cases "k div 8 = n")
    case True
    then show ?thesis by (auto simp: minus_mult_div_eq_mod)
  next
    case False
    then have "k < 8 * n \<or> 8 * n + 8 \<le> k" by linarith
    then show ?thesis using False bit_imp_le_length [of "bs ! n" "k - 8 * n"] by auto
  qed
  with Suc.IH show ?case by (auto simp: bit_simps less_Suc_eq)
qed simp

lemma or_bytes_le_word:
  "length bs = 8 \<Longrightarrow> foldl (\<lambda>v i. v OR push_bit (8 * i) (ucast (bs ! i))) (0 :: u64) [0..<8] = le_word bs"
  by (rule bit_eqI) (auto simp: bit_or_bytes bit_le_word)

lemma ReadWord_flat: "memory_ok m \<Longrightarrow> aligned_word m a \<Longrightarrow> ReadWord m a = Inr (word_at m a)"
  using ReadMemory_flat [of m a 8]
  by (simp add: ReadWord_def aligned_word_def word_at_def or_bytes_le_word bytes_at_def)


text \<open>Two aligned words are the same word or do not share a byte.\<close>

lemma aligned_disjoint:
  fixes a b :: u64
  assumes "a mod 8 = 0" "b mod 8 = 0" "a \<noteq> b" "i < 8"
  shows "8 \<le> unat (b + of_nat i - a)"
proof -
  have "unat (a mod 8) = unat a mod 8" "unat (b mod 8) = unat b mod 8"
    by (simp_all only: unat_mod unat_numeral) simp_all
  with assms(1,2) have m: "8 dvd unat a" "8 dvd unat b" by (auto simp: dvd_eq_mod_eq_0)
  define d where "d = b - a"
  have "8 dvd unat d"
    using m unfolding d_def by (auto simp: unat_sub_if' intro: dvd_diff_nat dvd_add)
  moreover have "unat d \<noteq> 0" "unat d < 2 ^ 64"
    using assms(3) unsigned_less [of d, where ?'a = nat] by (auto simp: d_def unsigned_eq_0_iff)
  ultimately have d: "8 \<le> unat d" "unat d + 8 \<le> 2 ^ 64" by (auto elim!: dvdE)
  have e: "b + of_nat i - a = d + of_nat i" by (simp add: d_def algebra_simps)
  have "unat (d + of_nat i) = unat d + i"
    using d assms(4) by (simp add: unat_plus_if' unat_of_nat)
  with d show ?thesis unfolding e by simp
qed

subsection \<open>Waits\<close>

definition satisfied :: "rdma_memory \<Rightarrow> Wait \<Rightarrow> bool" where
  "satisfied m w = Compare (word_at m (wait_address w)) (wait_comparison w) (wait_value w)"

definition fired :: "rdma_memory \<Rightarrow> Wait list \<Rightarrow> (callback \<times> u64) list" where
  "fired m ws = map (\<lambda>w. (wait_complete w, word_at m (wait_address w))) (filter (satisfied m) ws)"

lemma scan_waits_flat:
  "memory_ok m \<Longrightarrow> \<forall>w \<in> set ws. aligned_word m (wait_address w) \<Longrightarrow>
   scan_waits m ws = Inr (filter (\<lambda>w. \<not> satisfied m w) ws, fired m ws)"
  by (induction ws) (simp_all add: ReadWord_flat satisfied_def fired_def)

lemma byte_at_cong: "m_memory m' = m_memory m \<Longrightarrow> byte_at m' = byte_at m"
  by (simp add: byte_at_def fun_eq_iff)

lemma word_at_cong: "byte_at m' = byte_at m \<Longrightarrow> word_at m' = word_at m"
  by (simp add: word_at_def bytes_at_def fun_eq_iff)

lemma satisfied_cong: "byte_at m' = byte_at m \<Longrightarrow> satisfied m' = satisfied m"
  using word_at_cong [of m' m] by (intro ext) (simp add: satisfied_def)

lemma InRegion_cong: "m_regions m' = m_regions m \<Longrightarrow> InRegion m' = InRegion m"
  by (simp add: InRegion_def fun_eq_iff)

lemma InAnyRegion_cong: "m_regions m' = m_regions m \<Longrightarrow> InAnyRegion m' = InAnyRegion m"
  by (intro ext) (simp add: InAnyRegion_def InRegion_def)

lemma aligned_word_cong: "m_regions m' = m_regions m \<Longrightarrow> aligned_word m' = aligned_word m"
  using InAnyRegion_cong [of m' m] by (intro ext) (simp add: aligned_word_def)

text \<open>
  What a store into the flat memory promises: the bytes of the range are the new ones and
  all others are kept, the waits the new memory satisfies are gone and their callbacks
  queued in order with the word they saw, and the other waits stay.
\<close>

definition stored :: "bool \<Rightarrow> u64 \<Rightarrow> u8 list \<Rightarrow> rdma_memory \<Rightarrow> rdma_memory \<Rightarrow> bool" where
  "stored poll a bs m m' =
     (memory_ok m' \<and> byte_at m' = overlay (byte_at m) a bs \<and> m_regions m' = m_regions m \<and>
      m_nextWait m' = m_nextWait m \<and>
      m_waits m' = filter (\<lambda>w. \<not> satisfied m' w) (m_waits m) \<and>
      m_polls m' = m_polls m @ (if poll then fired m' (m_waits m) else []))"

lemma CheckWaits_flat:
  assumes "memory_ok m"
  shows "\<exists>m'. CheckWaits poll m = Inr m' \<and> stored poll a [] m m' \<and> m_memory m' = m_memory m"
proof -
  let ?m = "m\<lparr>m_waits := filter (\<lambda>w. \<not> satisfied m w) (m_waits m),
              m_polls := m_polls m @ (if poll then fired m (m_waits m) else [])\<rparr>"
  have b: "byte_at ?m = byte_at m" by (rule byte_at_cong) simp
  have "scan_waits m (m_waits m) = Inr (filter (\<lambda>w. \<not> satisfied m w) (m_waits m), fired m (m_waits m))"
    using assms by (intro scan_waits_flat) (simp_all add: memory_ok_def)
  then have "CheckWaits poll m = Inr ?m" by (simp add: CheckWaits_def)
  moreover have "memory_ok ?m"
    using assms aligned_word_cong [of ?m m] by (auto simp: memory_ok_def)
  moreover have "overlay f a [] = f" for f by (simp add: overlay_def fun_eq_iff)
  ultimately show ?thesis
    using b satisfied_cong [OF b] word_at_cong [OF b] by (auto simp: stored_def fired_def)
qed

lemma stored_after:
  assumes "memory_ok m" "unat a + length bs < 2 ^ 64"
    "mm = put_bytes a 0 bs (filter (\<lambda>e. fst e < a \<or> \<not> fst e < a + of_nat (length bs)) (m_memory m))"
  shows "\<exists>m'. CheckWaits poll (m\<lparr>m_memory := mm\<rparr>) = Inr m' \<and> stored poll a bs m m'"
proof -
  note rw = rewrite_range [OF assms(1,2), folded assms(3)]
  obtain m' where m': "CheckWaits poll (m\<lparr>m_memory := mm\<rparr>) = Inr m'"
    "stored poll a [] (m\<lparr>m_memory := mm\<rparr>) m'"
    using CheckWaits_flat [OF rw(1)] by blast
  have "overlay f a [] = f" for f by (simp add: overlay_def fun_eq_iff)
  with m' rw(2) show ?thesis by (auto simp: stored_def)
qed

lemma WriteMemory_flat:
  assumes "memory_ok m" "InAnyRegion m a (of_nat (length bs))" "length bs < 2 ^ 64"
  shows "\<exists>m'. WriteMemory poll a bs m = Inr m' \<and> stored poll a bs m m'"
proof -
  have n: "unat a + length bs < 2 ^ 64"
    using InAnyRegion_no_wrap [OF assms(1,2)] assms(3) by (simp add: unat_of_nat)
  then have "a \<le> a + of_nat (length bs)"
    by (simp add: word_le_nat_alt unat_plus_if' unat_of_nat)
  moreover have "omap_wf (m_memory m)" using assms(1) by (simp add: memory_ok_def)
  ultimately show ?thesis
    using stored_after [OF assms(1) n refl, of poll] assms(2)
    by (simp add: WriteMemory_def erase_range_filter)
qed

lemma WriteWord_flat:
  assumes "memory_ok m" "aligned_word m a"
  shows "\<exists>m'. WriteWord poll a v m = Inr m' \<and> stored poll a (le_bytes 8 v) m m'"
  using WriteMemory_flat [of m a "WordBytes v" poll] assms
  by (simp add: WriteWord_def aligned_word_def WordBytes_le)

lemma put_zero_bytes: "put_bytes a i (replicate n 0) mm = mm"
  by (induction n arbitrary: i) simp_all

lemma Store_flat:
  assumes "memory_ok m" "InAnyRegion m a (ucast n)" "length packet = unat n"
    "zero \<longrightarrow> packet = replicate (unat n) 0"
  shows "\<exists>m'. Store poll a packet n zero m = Inr m' \<and> stored poll a packet m m'"
proof -
  have un: "unat (ucast n :: u64) = unat n"
    by (simp add: unsigned_ucast_eq take_bit_nat_eq_self_iff less_trans [OF unsigned_less])
  have nn: "of_nat (unat n) = (ucast n :: u64)" by simp
  show ?thesis
  proof (cases zero)
    case True
    have n: "unat a + length packet < 2 ^ 64"
      using InAnyRegion_no_wrap [OF assms(1,2)] assms(3) un by simp
    then have "a \<le> a + ucast n" using un assms(3) by (simp add: word_le_nat_alt unat_plus_if')
    moreover have "omap_wf (m_memory m)" using assms(1) by (simp add: memory_ok_def)
    ultimately show ?thesis
      using stored_after [OF assms(1) n refl, of poll] assms(4) True
      by (simp add: Store_def erase_range_filter put_zero_bytes nn)
  next
    case False
    have "length packet < 2 ^ 64"
      using assms(3) un unsigned_less [of "ucast n :: u64", where ?'a = nat] by simp
    with False show ?thesis
      using WriteMemory_flat [OF assms(1), of a packet poll] assms(2,3) nn by (simp add: Store_def)
  qed
qed

lemma Payload_flat:
  assumes "memory_ok m" "InAnyRegion m a (ucast n)"
  shows "\<exists>zero. Payload m a n = Inr (bytes_at m a (unat n), zero)
           \<and> (zero \<longrightarrow> bytes_at m a (unat n) = replicate (unat n) 0)"
proof -
  let ?rest = "drop (lower_bound (m_memory m) a) (m_memory m)"
  let ?zero = "?rest = [] \<or> fst (hd ?rest) - a \<ge> ucast n"
  have wf: "omap_wf (m_memory m)" using assms(1) by (simp add: memory_ok_def)
  have "bytes_at m a (unat n) = replicate (unat n) 0" if ?zero
  proof -
    from that have "takeWhile (\<lambda>e. fst e - a < ucast n) ?rest = []"
      by (cases ?rest) (auto simp: not_less)
    then have "ReadMemory m a n = Inr (replicate (unat n) 0)"
      using assms(2) by (simp add: ReadMemory_def)
    with ReadMemory_flat [OF assms] show ?thesis by simp
  qed
  then show ?thesis
    using ReadMemory_flat [OF assms] by (auto simp: Payload_def Let_def)
qed

subsection \<open>Properties\<close>

lemma register_ok:
  assumes "memory_ok m" "RegisterMemory a n key m = Inr m'"
  shows "memory_ok m' \<and> InRegion m' key a n \<and> byte_at m' = byte_at m
         \<and> (\<forall>k b l. InRegion m k b l \<longrightarrow> InRegion m' k b l)"
proof -
  let ?r = "\<lparr>region_base = a, region_bytes = n\<rparr>"
  from assms(2) have new: "key \<noteq> 0" "n \<noteq> 0" "n \<le> - 1 - a" "omap_find (m_regions m) key = None"
    and m': "m' = m\<lparr>m_regions := omap_put key ?r (m_regions m)\<rparr>"
    by (auto simp: RegisterMemory_def not_less split: if_splits)
  have keep: "InRegion m k b l \<Longrightarrow> InRegion m' k b l" for k b l
    using new(4) by (auto simp: m' InRegion_def omap_find_put split: option.splits)
  have "set (m_regions m') \<subseteq> insert (key, ?r) (set (m_regions m))"
    using assms(1) by (auto simp: m' memory_ok_def omap_mem_iff omap_wf_put omap_find_put split: if_splits)
  moreover have "aligned_word m b \<Longrightarrow> aligned_word m' b" for b
    using keep by (auto simp: aligned_word_def InAnyRegion_key)
  then have "\<forall>w \<in> set (m_waits m'). aligned_word m' (wait_address w)"
    using assms(1) by (simp add: memory_ok_def m')
  ultimately have "memory_ok m'"
    using assms(1) new by (auto simp: memory_ok_def m' omap_wf_put region_ok_def)
  moreover have "InRegion m' key a n" by (simp add: m' InRegion_def omap_find_put)
  ultimately show ?thesis using keep byte_at_cong [of m' m] by (simp add: m')
qed

lemma bytes_at_stored:
  assumes "stored poll a bs m m'" "length bs < 2 ^ 64"
  shows "bytes_at m' a (length bs) = bs"
proof (rule nth_equalityI)
  fix i assume "i < length (bytes_at m' a (length bs))"
  then have i: "i < length bs" by (simp add: bytes_at_def)
  then have "unat (of_nat i :: u64) = i" using assms(2) by (simp add: unat_of_nat)
  with i assms(1) show "bytes_at m' a (length bs) ! i = bs ! i"
    by (simp add: bytes_at_def stored_def overlay_def)
qed (simp add: bytes_at_def)

lemma word_at_stored: "stored poll a (le_bytes 8 v) m m' \<Longrightarrow> word_at m' a = v"
  using bytes_at_stored [of poll a "le_bytes 8 v" m m'] le_word_le_bytes [of 8 v]
  by (simp add: word_at_def)

lemma word_at_kept:
  assumes "stored poll a (le_bytes 8 v) m m'" "a mod 8 = 0" "b mod 8 = 0" "a \<noteq> b"
  shows "word_at m' b = word_at m b"
proof -
  have "byte_at m' (b + of_nat i) = byte_at m (b + of_nat i)" if "i < 8" for i
    using assms aligned_disjoint [OF assms(2-4) that] by (simp add: stored_def overlay_def)
  then show ?thesis
    unfolding word_at_def bytes_at_def by (intro arg_cong [where f = le_word] map_cong) auto
qed

text \<open>
  C10: the sparse byte store refines a flat byte memory. In a registered range a write
  succeeds, changes exactly the bytes of the range, keeps the invariant and leaves the
  registrations alone, whatever was stored before, zero bytes included; and a read returns
  the bytes of the flat memory, the ones just written in particular.
\<close>

theorem sparse_store_refines_flat_memory:
  assumes "memory_ok m" "InAnyRegion m a (of_nat (length bs))" "length bs < 2 ^ 32"
  shows "\<exists>m'. WriteMemory poll a bs m = Inr m' \<and> memory_ok m' \<and> m_regions m' = m_regions m
     \<and> (\<forall>x. byte_at m' x = (if unat (x - a) < length bs then bs ! unat (x - a) else byte_at m x))
     \<and> ReadMemory m' a (of_nat (length bs)) = Inr bs
     \<and> (\<forall>b n. InAnyRegion m b (ucast n) \<longrightarrow> ReadMemory m' b n = Inr (bytes_at m' b (unat n)))"
proof -
  have len: "length bs < 2 ^ 64" using assms(3) by simp
  obtain m' where m': "WriteMemory poll a bs m = Inr m'" "stored poll a bs m m'"
    using WriteMemory_flat [OF assms(1,2) len] by blast
  then have ok: "memory_ok m'" and reg: "InAnyRegion m' = InAnyRegion m"
    using InAnyRegion_cong [of m' m] by (simp_all add: stored_def)
  have n: "unat (of_nat (length bs) :: u32) = length bs" "ucast (of_nat (length bs) :: u32) = (of_nat (length bs) :: u64)"
    using assms(3) by (simp_all add: unat_of_nat unsigned_of_nat take_bit_nat_eq_self)
  have "ReadMemory m' a (of_nat (length bs)) = Inr bs"
    using ReadMemory_flat [OF ok, of a "of_nat (length bs)"] assms(2) n reg bytes_at_stored [OF m'(2) len]
    by simp
  with m' ok reg ReadMemory_flat [OF ok] show ?thesis by (auto simp: stored_def overlay_def)
qed

text \<open>
  C22: a word store is seen by exactly the right readers and waiters. On an aligned
  registered word \<open>WriteWord\<close> succeeds, \<open>ReadWord\<close> then returns the value, every other
  aligned word is unchanged, the waits that remain are those the new memory does not
  satisfy, and the callbacks that become ready are those of the satisfied waits, in order,
  each with the value its word now has.
\<close>

theorem word_store_wakes_the_satisfied_waits:
  assumes "memory_ok m" "aligned_word m a"
  shows "\<exists>m'. WriteWord True a v m = Inr m' \<and> memory_ok m' \<and> ReadWord m' a = Inr v
     \<and> (\<forall>b. aligned_word m b \<and> b \<noteq> a \<longrightarrow> ReadWord m' b = ReadWord m b)
     \<and> m_waits m' = filter (\<lambda>w. TestSignal m' (wait_address w) (wait_comparison w) (wait_value w) = Inr False) (m_waits m)
     \<and> m_polls m' = m_polls m
         @ map (\<lambda>w. (wait_complete w, projr (ReadWord m' (wait_address w))))
             (filter (\<lambda>w. TestSignal m' (wait_address w) (wait_comparison w) (wait_value w) = Inr True) (m_waits m))"
proof -
  obtain m' where m': "WriteWord True a v m = Inr m'" "stored True a (le_bytes 8 v) m m'"
    using WriteWord_flat [OF assms] by blast
  then have ok: "memory_ok m'" and al: "aligned_word m' = aligned_word m"
    using aligned_word_cong [of m' m] by (simp_all add: stored_def)
  have test: "TestSignal m' (wait_address w) (wait_comparison w) (wait_value w) = Inr (satisfied m' w)"
    if "w \<in> set (m_waits m)" for w
    using that assms(1) ok al by (simp add: TestSignal_def ReadWord_flat memory_ok_def satisfied_def)
  have "ReadWord m' b = ReadWord m b" if "aligned_word m b" "b \<noteq> a" for b
    using that assms ok al word_at_kept [OF m'(2)] by (auto simp: ReadWord_flat aligned_word_def)
  moreover have "ReadWord m' a = Inr v"
    using ok al assms(2) word_at_stored [OF m'(2)] by (simp add: ReadWord_flat)
  moreover have "ReadWord m' (wait_address w) = Inr (word_at m' (wait_address w))"
    if "w \<in> set (m_waits m)" for w
    using that assms(1) ok al by (simp add: ReadWord_flat memory_ok_def)
  ultimately show ?thesis
    using m' ok test by (auto simp: stored_def fired_def cong: filter_cong)
qed


text \<open>
  A small memory: eight registered bytes at 8 and at 16, the first word holding 7, and one
  wait for the second word to reach 3.
\<close>

definition sample_memory :: rdma_memory where
  "sample_memory =
     \<lparr>m_regions = [(1, \<lparr>region_base = 8, region_bytes = 16\<rparr>)], m_memory = [(8, 7)],
      m_waits = [\<lparr>wait_id = 1, wait_address = 16, wait_value = 3, wait_comparison = CMP_GE,
                 wait_complete = 5\<rparr>],
      m_nextWait = 2, m_polls = []\<rparr>"

lemma sample_memory_ok: "memory_ok sample_memory" "aligned_word sample_memory 16"
  "InAnyRegion sample_memory 8 3"
  by (simp_all add: memory_ok_def sample_memory_def region_ok_def aligned_word_def InAnyRegion_def
      InRegion_def)

theorem sparse_store_refines_flat_memory_witness:
  "\<exists>m'. WriteMemory True 8 [0, 9, 1] sample_memory = Inr m' \<and> ReadMemory m' 8 3 = Inr [0, 9, 1]
      \<and> byte_at m' 8 = 0"
proof -
  have "InAnyRegion sample_memory 8 (of_nat (length [0, 9, 1 :: u8]))" using sample_memory_ok(3) by simp
  from sparse_store_refines_flat_memory [OF sample_memory_ok(1) this, of True]
  obtain m' where m': "WriteMemory True 8 [0, 9, 1] sample_memory = Inr m'"
    "ReadMemory m' 8 3 = Inr [0, 9, 1]"
    "\<forall>x. byte_at m' x = (if unat (x - 8) < 3 then [0, 9, 1] ! unat (x - 8) else byte_at sample_memory x)"
    by auto
  from m'(3) have "byte_at m' 8 = 0" by simp
  with m' show ?thesis by blast
qed

theorem word_store_wakes_the_satisfied_waits_witness:
  "\<exists>m'. WriteWord True 16 4 sample_memory = Inr m' \<and> ReadWord m' 16 = Inr 4
      \<and> m_waits m' = [] \<and> m_polls m' = [(5, 4)]"
proof -
  from word_store_wakes_the_satisfied_waits [OF sample_memory_ok(1,2), of 4]
  obtain m' where m': "WriteWord True 16 4 sample_memory = Inr m'" "memory_ok m'" "ReadWord m' 16 = Inr 4"
    "m_waits m' = filter (\<lambda>w. TestSignal m' (wait_address w) (wait_comparison w) (wait_value w) = Inr False) (m_waits sample_memory)"
    "m_polls m' = m_polls sample_memory @ map (\<lambda>w. (wait_complete w, projr (ReadWord m' (wait_address w))))
       (filter (\<lambda>w. TestSignal m' (wait_address w) (wait_comparison w) (wait_value w) = Inr True) (m_waits sample_memory))"
    by blast
  then show ?thesis
    by (simp add: sample_memory_def TestSignal_def)
qed

end
