(* ===== verification/RdmaEngine.thy ===== *)
theory RdmaEngine
  imports RdmaMemory "HOL-Library.Product_Lexorder"
begin

text \<open>
  The RDMA operation engine (\<open>rdma-operation-engine.h\<close>,
  \<open>rdma-operation-engine.cc\<close>): posting and matching receives, sending work requests,
  accepting data, answering reads and atomics, and the receiver-not-ready retry. Objects
  held through \<open>std::shared_ptr\<close> live in heaps and are named by their address. A closure
  handed to the simulator or to the submission model is a \<open>task\<close>; the surroundings
  run pending tasks in any order. A call of the endpoint (transmit, acknowledge, hold), of
  the submission model or of the user's callbacks is an \<open>event\<close>. The submission model
  itself and the clock are arguments: what they return is in \<open>environment\<close>.
\<close>

subsection \<open>Data\<close>

type_synonym Key = "u16 \<times> u64"
type_synonym PacketKey = "u16 \<times> u8 \<times> u16 \<times> u32"

record PostedReceive =
  pr_id :: u64
  pr_address :: u64
  pr_bytes :: u64
  pr_key :: u32
  pr_qp :: u32
  pr_peer :: u16
  pr_complete :: callback

record Source =
  src_tag :: RdmaOperationTag
  src_qp :: u32
  src_flow :: u16
  src_vc :: u8
  src_retryPending :: bool
  src_done :: bool
  src_result :: nat

record Piece =
  pc_packet :: "u8 list"
  pc_header :: FabricHeader
  pc_tag :: RdmaOperationTag

record Incoming =
  in_tag :: RdmaOperationTag
  in_qp :: u32
  in_received :: u64
  in_address :: u64
  in_allocated :: bool
  in_response :: bool
  in_receive :: "PostedReceive option"
  in_waiting :: "Piece list"
  in_staged :: "Piece list"

record Responder =
  rs_tag :: RdmaOperationTag
  rs_qp :: u32
  rs_flow :: u16
  rs_vc :: u8
  rs_acknowledged :: u64
  rs_staged :: bool
  rs_header :: FabricHeader

record Sent =
  sent_tag :: RdmaOperationTag
  sent_bytes :: u64

record RdmaCompletion =
  comp_requestId :: u64
  comp_opcode :: RdmaOpcode
  comp_success :: bool
  comp_bytes :: u64
  comp_value :: u64

record RdmaReceiveCompletion =
  rc_receiveId :: u64
  rc_requestId :: u64
  rc_offset :: u64
  rc_peer :: u16
  rc_qp :: u32
  rc_opcode :: RdmaOpcode
  rc_bytes :: u64
  rc_success :: bool
  rc_hasImmediate :: bool
  rc_immediate :: u32
  rc_observed :: Time

definition RdmaReceiveCompletion_new :: RdmaReceiveCompletion where
  "RdmaReceiveCompletion_new =
     \<lparr>rc_receiveId = 0, rc_requestId = 0, rc_offset = 0, rc_peer = 0, rc_qp = 0,
      rc_opcode = OP_SEND, rc_bytes = 0, rc_success = True, rc_hasImmediate = False,
      rc_immediate = 0, rc_observed = 0\<rparr>"

record RdmaOperationStats =
  st_readRequests :: u64
  st_readResponseBytes :: u64
  st_atomicExecutions :: u64
  st_rnrRetries :: u64
  st_rnrExhausted :: u64
  st_receiveCompletions :: u64
  st_signalUpdates :: u64
  st_responsePeak :: u64
  st_activeResponses :: u64
  st_postedReceives :: u64
  st_wireDataBytes :: u64
  st_wireControlBytes :: u64

text \<open>The part of \<open>RdmaConfig\<close> the engine reads.\<close>

record RdmaConfig =
  pcieModel :: string
  dataPath :: string
  mtuBytes :: u32
  qpsPerPeer :: u32
  responderDepth :: u32
  receiveQueueDepth :: u32
  rnrRetryLimit :: u32
  readService :: Time
  atomicService :: Time
  rnrRetry :: Time
  receivePost :: Time
  signalPoll :: Time

record RdmaWorkTiming =
  wt_requestId :: u64
  wt_offset :: u64
  wt_bytes :: u64
  wt_peer :: u16
  wt_qp :: u32
  wt_opcode :: RdmaOpcode

text \<open>
  What the surroundings answer during one operation: the clock, the configuration, the work
  requests the submission model knows (\<open>m_work.at\<close> throws on others) and whether their
  request has succeeded so far, the delays \<open>ReserveSourceRead\<close> and
  \<open>ReserveDestinationWrite\<close> return to the atomic of a responder, and the identifier
  \<open>SubmitOperation\<close> gives the next request.
\<close>

record environment =
  env_now :: Time
  env_config :: RdmaConfig
  env_work :: "u64 \<Rightarrow> RdmaWorkTiming option"
  env_succeeded :: "u64 \<Rightarrow> bool"
  env_reserve :: "nat \<Rightarrow> Time \<times> Time"
  env_submitted :: u64

datatype event =
    E_transmit u16 "u8 list" RdmaOperationTag u32 u16 u8 u32
  | E_ack FabricHeader
  | E_hold FabricHeader bool
  | E_submit RdmaRequest nat
  | E_complete u64 bool
  | E_failure u64
  | E_dataReady
  | E_sourceRead u64 u64
  | E_destinationWrite u64 u64
  | E_destinationH2d u64
  | E_acquireReceive u64
  | E_releaseReceive u64
  | E_stageSource u64
  | E_releaseSource u64
  | E_writeCompletion
  | E_completed callback RdmaCompletion
  | E_received callback RdmaReceiveCompletion
  | E_signalled callback u64

text \<open>The closures, each with what it captures.\<close>

datatype task =
    T_postReceive PostedReceive
  | T_transmit u16 "u8 list" RdmaOperationTag u32 u16 u8 u32
  | T_retry nat
  | T_receiveFailed callback RdmaReceiveCompletion
  | T_receiveCompleted callback RdmaReceiveCompletion
  | T_allocated Key nat
  | T_written Key nat Piece u32
  | T_copied Key nat Piece
  | T_readStaged nat
  | T_readService nat RdmaOperationTag
  | T_atomicRun nat
  | T_atomicFetched nat u64
  | T_atomicService nat u64
  | T_atomicExecute nat
  | T_atomicStaging nat u64 u64 u64
  | T_atomicCommit nat u64 u64 u64

record engine =
  m_rank :: u16
  m_configured :: bool
  m_disposed :: bool
  m_payloadLimit :: "(u16 \<Rightarrow> u32) option"
  m_stats :: RdmaOperationStats
  m_store :: rdma_memory
  m_sources :: "(u64, nat) omap"
  m_incoming :: "(Key, nat) omap"
  m_rejectedAttempts :: "(Key, u32) omap"
  m_failedIncoming :: "Key list"
  m_responders :: "(Key, nat) omap"
  m_responderWaiting :: "nat list"
  m_atomics :: "(u64, nat list) omap"
  m_receives :: "PostedReceive list"
  m_receiveReserved :: u64
  m_receivePostFree :: Time
  m_ackMetadata :: "(PacketKey, RdmaOperationTag) omap"
  m_sent :: "(PacketKey, Sent) omap"
  h_sources :: "Source list"
  h_incoming :: "Incoming list"
  h_responders :: "Responder list"
  h_results :: "u64 list"
  tasks :: "task list"
  events :: "event list"

definition stats_new :: RdmaOperationStats where
  "stats_new =
     \<lparr>st_readRequests = 0, st_readResponseBytes = 0, st_atomicExecutions = 0, st_rnrRetries = 0,
      st_rnrExhausted = 0, st_receiveCompletions = 0, st_signalUpdates = 0, st_responsePeak = 0,
      st_activeResponses = 0, st_postedReceives = 0, st_wireDataBytes = 0, st_wireControlBytes = 0\<rparr>"

definition engine_new :: engine where
  "engine_new =
     \<lparr>m_rank = 0, m_configured = False, m_disposed = False, m_payloadLimit = None,
      m_stats = stats_new, m_store = memory_new, m_sources = [], m_incoming = [],
      m_rejectedAttempts = [], m_failedIncoming = [], m_responders = [], m_responderWaiting = [],
      m_atomics = [], m_receives = [], m_receiveReserved = 0, m_receivePostFree = 0,
      m_ackMetadata = [], m_sent = [], h_sources = [], h_incoming = [], h_responders = [],
      h_results = [], tasks = [], events = []\<rparr>"

subsection \<open>Tasks, events and heaps\<close>

definition say :: "event \<Rightarrow> engine \<Rightarrow> engine" where
  "say e s = s\<lparr>events := events s @ [e]\<rparr>"

text \<open>A closure kept by the submission model until the transfer it stands for is done.\<close>

definition later :: "task \<Rightarrow> engine \<Rightarrow> engine" where
  "later t s = s\<lparr>tasks := tasks s @ [t]\<rparr>"

text \<open>The engine's \<open>Schedule\<close>: an action beyond the horizon is dropped.\<close>

definition ScheduleAction :: "environment \<Rightarrow> Time \<Rightarrow> task \<Rightarrow> engine \<Rightarrow> engine \<times> bool" where
  "ScheduleAction env delay action s =
     (if \<not> CanSchedule (env_now env) delay then (s, False) else (later action s, True))"

definition upd_stats :: "(RdmaOperationStats \<Rightarrow> RdmaOperationStats) \<Rightarrow> engine \<Rightarrow> engine" where
  "upd_stats f s = s\<lparr>m_stats := f (m_stats s)\<rparr>"

definition upd_source :: "nat \<Rightarrow> (Source \<Rightarrow> Source) \<Rightarrow> engine \<Rightarrow> engine" where
  "upd_source p f s = s\<lparr>h_sources := (h_sources s)[p := f (h_sources s ! p)]\<rparr>"

definition upd_incoming :: "nat \<Rightarrow> (Incoming \<Rightarrow> Incoming) \<Rightarrow> engine \<Rightarrow> engine" where
  "upd_incoming p f s = s\<lparr>h_incoming := (h_incoming s)[p := f (h_incoming s ! p)]\<rparr>"

definition upd_responder :: "nat \<Rightarrow> (Responder \<Rightarrow> Responder) \<Rightarrow> engine \<Rightarrow> engine" where
  "upd_responder p f s = s\<lparr>h_responders := (h_responders s)[p := f (h_responders s ! p)]\<rparr>"

text \<open>A memory operation; its waits are polled after \<open>signalPoll\<close>.\<close>

definition polls :: "environment \<Rightarrow> bool" where
  "polls env = CanSchedule (env_now env) (signalPoll (env_config env))"

definition on_store :: "(rdma_memory \<Rightarrow> rdma_memory result) \<Rightarrow> engine \<Rightarrow> engine result" where
  "on_store f s = and_then (f (m_store s)) (\<lambda>m. Inr (s\<lparr>m_store := m\<rparr>))"

definition GetWorkTiming :: "environment \<Rightarrow> u64 \<Rightarrow> RdmaWorkTiming result" where
  "GetWorkTiming env w =
     (case env_work env w of None \<Rightarrow> Inl (Uncaught ''std::out_of_range'') | Some t \<Rightarrow> Inr t)"

definition AckKey :: "FabricHeader \<Rightarrow> PacketKey" where
  "AckKey h = (GetSourceRank h, GetVirtualChannel h, GetFlowId h, GetSequenceNumber h)"

definition TxKey :: "FabricHeader \<Rightarrow> PacketKey" where
  "TxKey h = (GetDestRank h, GetVirtualChannel h, GetFlowId h, GetSequenceNumber h)"

definition tag_key :: "RdmaOperationTag \<Rightarrow> Key" where
  "tag_key t = (tag_owner t, tag_workId t)"

definition HasPending :: "engine \<Rightarrow> bool" where
  "HasPending s = (m_sources s \<noteq> [] \<or> m_incoming s \<noteq> [] \<or> m_responders s \<noteq> [] \<or>
                   m_responderWaiting s \<noteq> [])"

definition Configure :: "u16 \<Rightarrow> bool \<Rightarrow> engine \<Rightarrow> engine result" where
  "Configure rank given s =
     (if \<not> given \<or> HasPending s then Inl (NsAbort ''Configure idle RDMA engine'')
      else Inr (s\<lparr>m_rank := rank, m_configured := True\<rparr>))"

definition SetPayloadLimit :: "(u16 \<Rightarrow> u32) option \<Rightarrow> engine \<Rightarrow> engine" where
  "SetPayloadLimit limit s = s\<lparr>m_payloadLimit := limit\<rparr>"

subsection \<open>Receives\<close>

definition PostReceive ::
    "environment \<Rightarrow> u64 \<Rightarrow> u64 \<Rightarrow> u64 \<Rightarrow> callback option \<Rightarrow> u16 \<Rightarrow> u32 \<Rightarrow> u32 \<Rightarrow> engine \<Rightarrow> engine result" where
  "PostReceive env rid address bytes complete peer qp key s =
     (if \<not> m_configured s \<or> complete = None \<or> \<not> InRegion (m_store s) key address bytes
      then Inl (NsAbort ''Invalid RDMA receive buffer'')
      else if m_receiveReserved s \<ge> ucast (receiveQueueDepth (env_config env))
      then Inl (NsAbort ''RDMA receive queue is full'')
      else if qp \<noteq> - 1 \<and> qp \<ge> qpsPerPeer (env_config env)
      then Inl (NsAbort ''Receive QP out of range'')
      else
        let s = upd_stats (\<lambda>st. st\<lparr>st_postedReceives := st_postedReceives st + 1\<rparr>) s;
            receive = \<lparr>pr_id = rid, pr_address = address, pr_bytes = bytes, pr_key = key,
                       pr_qp = qp, pr_peer = peer, pr_complete = the complete\<rparr>;
            ready = SaturatingAdd (max (env_now env) (m_receivePostFree s))
                      (receivePost (env_config env));
            (s, armed) = ScheduleAction env (ready - env_now env) (T_postReceive receive) s
        in if \<not> armed then
             let failed = RdmaReceiveCompletion_new
                   \<lparr>rc_receiveId := rid, rc_peer := peer, rc_qp := qp, rc_success := False,
                    rc_observed := env_now env\<rparr>;
                 s = upd_stats (\<lambda>st. st\<lparr>st_receiveCompletions := st_receiveCompletions st + 1\<rparr>) s
             in Inr (say (E_received (pr_complete receive) failed) s)
           else Inr (s\<lparr>m_receivePostFree := ready,
                       m_receiveReserved := m_receiveReserved s + 1\<rparr>))"

definition receive_matches :: "u16 \<Rightarrow> u32 \<Rightarrow> PostedReceive \<Rightarrow> bool" where
  "receive_matches peer qp r =
     ((pr_peer r = - 1 \<or> pr_peer r = peer) \<and> (pr_qp r = - 1 \<or> pr_qp r = qp))"

text \<open>The first posted receive that fits leaves the queue and gives its reservation back.\<close>

fun take_receive :: "u16 \<Rightarrow> u32 \<Rightarrow> PostedReceive list \<Rightarrow> (PostedReceive \<times> PostedReceive list) option" where
  "take_receive peer qp [] = None"
| "take_receive peer qp (r # rs) =
     (if receive_matches peer qp r then Some (r, rs)
      else map_option (\<lambda>(r', rs'). (r', r # rs')) (take_receive peer qp rs))"

definition MatchReceive :: "u16 \<Rightarrow> u32 \<Rightarrow> engine \<Rightarrow> engine \<times> PostedReceive option" where
  "MatchReceive peer qp s =
     (case take_receive peer qp (m_receives s) of
        None \<Rightarrow> (s, None)
      | Some (r, rs) \<Rightarrow>
          (s\<lparr>m_receives := rs, m_receiveReserved := m_receiveReserved s - 1\<rparr>, Some r))"
subsection \<open>Sending\<close>

text \<open>One fragment of \<open>SendPayload\<close>: it is read from memory and transmitted then.\<close>

definition send_piece ::
    "environment \<Rightarrow> u16 \<Rightarrow> RdmaOperationTag \<Rightarrow> u32 \<Rightarrow> u16 \<Rightarrow> u8 \<Rightarrow> u64 \<Rightarrow> u64 \<Rightarrow> u64 \<Rightarrow> u8 list \<Rightarrow> bool \<Rightarrow> engine \<Rightarrow> engine" where
  "send_piece env peer tag qp flow vc address offset count packet zero s =
     (let piece = tag\<lparr>tag_fragmentOffset := offset, tag_zeroPayload := zero\<rparr>;
          immediate = (if offset = 0 \<and> (tag_opcode tag = OP_SEND_IMM \<or> tag_opcode tag = OP_WRITE_IMM)
                       then 4 else 0);
          s = upd_stats (\<lambda>st. st\<lparr>st_wireDataBytes := st_wireDataBytes st + count,
                                 st_wireControlBytes := st_wireControlBytes st + ucast immediate\<rparr>) s;
          s = say (E_sourceRead count
                (if dataPath (env_config env) = ''staged'' then offset else address + offset)) s
      in later (T_transmit peer packet piece qp flow vc immediate) s)"

text \<open>
  The fragments from \<open>offset\<close> on. \<open>cap\<close> is not zero here: the caller has checked it.
\<close>

function send_pieces ::
    "environment \<Rightarrow> u32 \<Rightarrow> u16 \<Rightarrow> RdmaOperationTag \<Rightarrow> u32 \<Rightarrow> u16 \<Rightarrow> u8 \<Rightarrow> u64 \<Rightarrow> u64 \<Rightarrow> u64 \<Rightarrow> engine \<Rightarrow> engine result" where
  "send_pieces env cap peer tag qp flow vc address bytes offset s =
     (if offset < bytes then
        if cap = 0 then Inl Diverges
        else
          let count = min (ucast cap) (bytes - offset)
          in and_then (Payload (m_store s) (address + offset) (ucast count)) (\<lambda>(packet, zero).
             send_pieces env cap peer tag qp flow vc address bytes (offset + count)
               (send_piece env peer tag qp flow vc address offset count packet zero s))
      else Inr s)"
  by pat_completeness auto

lemma piece_advances:
  fixes bytes offset :: u64 and cap :: u32
  assumes "offset < bytes" "cap \<noteq> 0"
  defines "count \<equiv> min (ucast cap) (bytes - offset)"
  shows "unat (offset + count) = unat offset + unat count" "0 < unat count"
    "unat offset + unat count \<le> unat bytes" "unat count \<le> unat cap"
proof -
  have cap: "unat (ucast cap :: u64) = unat cap"
    by (simp add: unsigned_ucast_eq take_bit_nat_eq_self_iff less_trans [OF unsigned_less])
  have d: "unat (bytes - offset) = unat bytes - unat offset"
    using assms(1) by (simp add: unat_sub less_imp_le)
  have c: "unat count = min (unat cap) (unat bytes - unat offset)"
    by (auto simp: count_def min_def word_le_nat_alt cap d)
  have lt: "unat offset < unat bytes" "unat bytes < 2 ^ 64" "0 < unat cap"
    using assms unsigned_less [of bytes, where ?'a = nat] by (auto simp: word_less_nat_alt unat_gt_0)
  show "0 < unat count" using c lt by simp
  show le: "unat offset + unat count \<le> unat bytes" using c lt by simp
  show "unat count \<le> unat cap" using c by simp
  show "unat (offset + count) = unat offset + unat count"
    using le lt by (simp add: unat_plus_if')
qed

termination send_pieces
proof (relation "measure (\<lambda>(_, _, _, _, _, _, _, _, bytes, offset, _). unat bytes - unat offset)", goal_cases)
  case (2 env cap peer tag qp flow vc address bytes offset s)
  then show ?case using piece_advances [of offset bytes cap] by simp
qed simp

declare send_pieces.simps [simp del]

definition SendPayload ::
    "environment \<Rightarrow> u16 \<Rightarrow> RdmaOperationTag \<Rightarrow> u32 \<Rightarrow> u16 \<Rightarrow> u8 \<Rightarrow> u64 \<Rightarrow> u64 \<Rightarrow> engine \<Rightarrow> engine result" where
  "SendPayload env peer tag qp flow vc address bytes s =
     (let cap = (case m_payloadLimit s of
                   Some limit \<Rightarrow> limit peer
                 | None \<Rightarrow> max 1 (if mtuBytes (env_config env) > 14
                                  then mtuBytes (env_config env) - 14 else 1))
      in if cap = 0 \<and> bytes > 0
         then Inl (NsAbort ''RdmaOperationEngine::SendPayload zero payload-limit cap'')
         else send_pieces env cap peer tag qp flow vc address bytes 0 s)"

definition SendSource :: "environment \<Rightarrow> nat \<Rightarrow> engine \<Rightarrow> engine result" where
  "SendSource env p s =
     (let source = h_sources s ! p; tag = src_tag source
      in and_then (GetWorkTiming env (tag_workId tag)) (\<lambda>timing.
         if RdmaHasSourcePayload (tag_opcode tag)
         then SendPayload env (wt_peer timing) tag (src_qp source) (src_flow source)
                (src_vc source) (tag_localAddress tag + tag_offset tag) (tag_bytes tag) s
         else
           let tag = tag\<lparr>tag_phase := PH_REQUEST\<rparr>;
               bytes = (if tag_opcode tag = OP_READ then 16
                        else if tag_opcode tag = OP_SIGNAL then 20 else 28) :: nat;
               s = upd_stats (\<lambda>st. st\<lparr>st_wireControlBytes := st_wireControlBytes st + of_nat bytes\<rparr>) s
           in Inr (say (E_transmit (wt_peer timing) (replicate bytes 0) tag (src_qp source)
                          (src_flow source) (src_vc source) 0) s)))"

definition Execute :: "environment \<Rightarrow> RdmaRequest \<Rightarrow> u64 \<Rightarrow> nat \<Rightarrow> engine \<Rightarrow> engine result" where
  "Execute env request wid result s =
     and_then (GetWorkTiming env wid) (\<lambda>timing.
       if wt_opcode timing = OP_SIGNAL \<and> \<not> env_succeeded env wid
       then Inr (say (E_complete wid False) s)
       else
         let tag = RdmaOperationTag_new
               \<lparr>tag_opcode := wt_opcode timing, tag_owner := m_rank s, tag_workId := wid,
                tag_requestId := wt_requestId timing, tag_bytes := wt_bytes timing,
                tag_offset := (if wt_opcode timing = OP_SIGNAL then 0 else wt_offset timing),
                tag_localAddress := req_localAddress request,
                tag_remoteAddress := req_remoteAddress request,
                tag_localKey := req_localKey request, tag_remoteKey := req_remoteKey request,
                tag_operand := req_operand request, tag_compare := req_compare request,
                tag_immediate := req_immediate request,
                tag_signalAddress := req_signalAddress request,
                tag_signalValue := req_signalValue request,
                tag_signalOp := req_signalOp request\<rparr>;
             source = \<lparr>src_tag = tag, src_qp = wt_qp timing, src_flow = req_flowId request,
                       src_vc = req_vc request, src_retryPending = False, src_done = False,
                       src_result = result\<rparr>;
             p = length (h_sources s);
             s = s\<lparr>h_sources := h_sources s @ [source], m_sources := omap_put wid p (m_sources s)\<rparr>
         in SendSource env p s)"

definition is_atomic :: "RdmaOpcode \<Rightarrow> bool" where
  "is_atomic opcode = (opcode = OP_FETCH_ADD \<or> opcode = OP_COMPARE_SWAP)"

text \<open>
  The checks of \<open>Submit\<close>, then the hand-over to the submission model with a cell for the
  result. The model calls \<open>Execute\<close> for each work request and
  \<open>SubmitCompleted\<close> when the request is done.
\<close>

definition Submit :: "environment \<Rightarrow> RdmaRequest \<Rightarrow> engine \<Rightarrow> (engine \<times> u64) result" where
  "Submit env input s =
     (if \<not> m_configured s \<or> m_disposed s \<or> req_peer input = m_rank s
      then Inl (NsAbort ''RDMA needs configured remote endpoints'')
      else
        let opcode = req_opcode input;
            request = (if RdmaUsesReadAtomicCredit opcode \<and> opcode \<noteq> OP_READ
                       then input\<lparr>req_bytes := 8\<rparr> else input)
        in if req_bytes request = 0 \<or>
              (opcode \<noteq> OP_SIGNAL \<and>
               \<not> InRegion (m_store s) (req_localKey request) (req_localAddress request) (req_bytes request))
           then Inl (NsAbort ''RDMA local buffer is unregistered or too small'')
           else if (is_atomic opcode \<or> opcode = OP_SIGNAL \<or> opcode = OP_PUT_SIGNAL) \<and>
                   (if opcode = OP_SIGNAL \<or> opcode = OP_PUT_SIGNAL then req_signalAddress request
                    else req_remoteAddress request) mod 8 \<noteq> 0
           then Inl (NsAbort ''RDMA atomic/signal address must be aligned'')
           else if is_atomic opcode \<and> req_localAddress request mod 8 \<noteq> 0
           then Inl (NsAbort ''RDMA atomic result address must be aligned'')
           else if opcode = OP_PUT_SIGNAL \<and>
                   (req_bytes request > - 1 - req_remoteAddress request \<or>
                    req_signalAddress request > - 1 - 8)
           then Inl (NsAbort ''RDMA put/signal address range wraps'')
           else if opcode = OP_PUT_SIGNAL \<and>
                   req_signalAddress request < req_remoteAddress request + req_bytes request \<and>
                   req_remoteAddress request < req_signalAddress request + 8
           then Inl (NsAbort ''RDMA put payload and signal must not overlap'')
           else
             let p = length (h_results s)
             in Inr (say (E_submit request p) (s\<lparr>h_results := h_results s @ [0]\<rparr>), env_submitted env))"

definition SubmitCompleted ::
    "RdmaRequest \<Rightarrow> nat \<Rightarrow> u64 \<Rightarrow> callback option \<Rightarrow> bool \<Rightarrow> engine \<Rightarrow> engine" where
  "SubmitCompleted request result identity complete success s =
     (let s = s\<lparr>m_sources :=
                  filter (\<lambda>e. tag_requestId (src_tag (h_sources s ! snd e)) \<noteq> identity) (m_sources s)\<rparr>
      in case complete of
           None \<Rightarrow> s
         | Some cb \<Rightarrow>
             say (E_completed cb \<lparr>comp_requestId = identity, comp_opcode = req_opcode request,
                                  comp_success = success, comp_bytes = req_bytes request,
                                  comp_value = h_results s ! result\<rparr>) s)"

subsection \<open>Acknowledgements at the receiver\<close>

definition Acknowledge :: "FabricHeader \<Rightarrow> RdmaOperationTag option \<Rightarrow> engine \<Rightarrow> engine" where
  "Acknowledge header completion s =
     (let s = (case completion of
                 None \<Rightarrow> s
               | Some tag \<Rightarrow> s\<lparr>m_ackMetadata := omap_put (AckKey header) tag (m_ackMetadata s)\<rparr>)
      in say (E_ack header) (say (E_hold header False) s))"

definition DecorateAck :: "engine \<Rightarrow> FabricHeader \<Rightarrow> RdmaOperationTag option" where
  "DecorateAck s received = omap_find (m_ackMetadata s) (AckKey received)"

definition PacketSent :: "FabricHeader \<Rightarrow> RdmaOperationTag option \<Rightarrow> engine \<Rightarrow> engine" where
  "PacketSent header tag s =
     (case tag of
        None \<Rightarrow> s
      | Some t \<Rightarrow>
          if GetPacketType header \<noteq> PT_DATA then s
          else s\<lparr>m_sent := omap_put (TxKey header)
                   \<lparr>sent_tag = t, sent_bytes = ucast (GetEffectiveDataSize header)\<rparr> (m_sent s)\<rparr>)"

subsection \<open>Answering reads and atomics\<close>

definition atomic_address :: "RdmaOperationTag \<Rightarrow> u64" where
  "atomic_address tag = (if tag_opcode tag = OP_SIGNAL then tag_signalAddress tag else tag_remoteAddress tag)"

definition staged :: "environment \<Rightarrow> bool" where
  "staged env = (dataPath (env_config env) = ''staged'')"

definition tlp :: "environment \<Rightarrow> bool" where
  "tlp env = (pcieModel (env_config env) = ''tlp'')"

text \<open>The body of \<open>run\<close>: fetch and service times, then \<open>execute\<close>.\<close>

definition atomic_run :: "environment \<Rightarrow> nat \<Rightarrow> engine \<Rightarrow> engine" where
  "atomic_run env p s =
     (if tlp env then
        let address = (if staged env then 0 else atomic_address (rs_tag (h_responders s ! p)))
        in later (T_atomicFetched p address) (say (E_sourceRead 8 address) s)
      else
        let service = SaturatingAdd (SaturatingAdd (fst (env_reserve env p)) (snd (env_reserve env p)))
                        (atomicService (env_config env))
        in fst (ScheduleAction env service (T_atomicExecute p) s))"

definition RunAtomic :: "environment \<Rightarrow> nat \<Rightarrow> engine \<Rightarrow> engine" where
  "RunAtomic env p s =
     (if staged env
      then later (T_atomicRun p) (say (E_stageSource 8) (upd_responder p (\<lambda>r. r\<lparr>rs_staged := True\<rparr>) s))
      else atomic_run env p s)"

text \<open>The closure \<open>send\<close> of a read: the reply is served after \<open>readService\<close>.\<close>

definition read_send :: "environment \<Rightarrow> nat \<Rightarrow> engine \<Rightarrow> engine" where
  "read_send env p s =
     (let reply = (rs_tag (h_responders s ! p))\<lparr>tag_phase := PH_READ_RESPONSE\<rparr>
      in fst (ScheduleAction env (readService (env_config env)) (T_readService p reply) s))"

definition atomic_queue :: "engine \<Rightarrow> u64 \<Rightarrow> nat list" where
  "atomic_queue s a = (case omap_find (m_atomics s) a of None \<Rightarrow> [] | Some q \<Rightarrow> q)"

definition StartResponder :: "environment \<Rightarrow> nat \<Rightarrow> engine \<Rightarrow> engine" where
  "StartResponder env p s =
     (let tag = rs_tag (h_responders s ! p)
      in if tag_opcode tag = OP_READ then
           let s = upd_stats (\<lambda>st. st\<lparr>st_readRequests := st_readRequests st + 1\<rparr>) s
           in if staged env
              then later (T_readStaged p)
                     (say (E_stageSource (tag_bytes tag)) (upd_responder p (\<lambda>r. r\<lparr>rs_staged := True\<rparr>) s))
              else read_send env p s
         else
           let address = atomic_address tag;
               queue = atomic_queue s address @ [p];
               s = s\<lparr>m_atomics := omap_put address queue (m_atomics s)\<rparr>
           in if length queue = 1 then RunAtomic env p s else s)"

text \<open>The loop of \<open>PumpResponders\<close> over the waiting responders.\<close>

fun pump_responders :: "environment \<Rightarrow> nat list \<Rightarrow> engine \<Rightarrow> engine" where
  "pump_responders env [] s = s"
| "pump_responders env (p # ps) s =
     (if st_activeResponses (m_stats s) < ucast (responderDepth (env_config env)) then
        let s = s\<lparr>m_responderWaiting := ps,
                  m_responders := omap_put (tag_key (rs_tag (h_responders s ! p))) p (m_responders s)\<rparr>;
            s = upd_stats (\<lambda>st. st\<lparr>st_activeResponses := st_activeResponses st + 1,
                                   st_responsePeak := max (st_responsePeak st) (st_activeResponses st + 1)\<rparr>) s
        in pump_responders env ps (StartResponder env p s)
      else s)"

definition PumpResponders :: "environment \<Rightarrow> engine \<Rightarrow> engine" where
  "PumpResponders env s = pump_responders env (m_responderWaiting s) s"

definition QueueResponder :: "environment \<Rightarrow> RdmaOperationTag \<Rightarrow> u32 \<Rightarrow> FabricHeader \<Rightarrow> engine \<Rightarrow> engine" where
  "QueueResponder env tag qp header s =
     (let responder = \<lparr>rs_tag = tag, rs_qp = qp, rs_flow = GetFlowId header,
                       rs_vc = GetVirtualChannel header, rs_acknowledged = 0, rs_staged = False,
                       rs_header = header\<rparr>;
          p = length (h_responders s)
      in PumpResponders env
           (s\<lparr>h_responders := h_responders s @ [responder],
              m_responderWaiting := m_responderWaiting s @ [p]\<rparr>))"

definition FinishResponder :: "environment \<Rightarrow> Key \<Rightarrow> engine \<Rightarrow> engine" where
  "FinishResponder env key s =
     (case omap_find (m_responders s) key of
        None \<Rightarrow> s
      | Some p \<Rightarrow>
          let responder = h_responders s ! p;
              s = (if rs_staged responder then say (E_releaseSource (tag_bytes (rs_tag responder))) s else s);
              s = s\<lparr>m_responders := omap_erase key (m_responders s)\<rparr>;
              s = upd_stats (\<lambda>st. st\<lparr>st_activeResponses := st_activeResponses st - 1\<rparr>) s
          in PumpResponders env s)"

text \<open>The value an atomic or signal stores, from the old one.\<close>

definition atomic_next :: "RdmaOperationTag \<Rightarrow> u64 \<Rightarrow> u64" where
  "atomic_next tag old =
     (if tag_opcode tag = OP_FETCH_ADD then old + tag_operand tag
      else if tag_opcode tag = OP_COMPARE_SWAP then
        (if old = tag_compare tag then tag_operand tag else old)
      else if tag_signalOp tag = SIG_SET then tag_signalValue tag else old + tag_signalValue tag)"

text \<open>The end of \<open>commit\<close>: the next atomic of the address runs.\<close>

definition next_atomic :: "environment \<Rightarrow> u64 \<Rightarrow> engine \<Rightarrow> engine result" where
  "next_atomic env address s =
     (case omap_find (m_atomics s) address of
        None \<Rightarrow> Inl (Uncaught ''no queue for the atomic address'')
      | Some [] \<Rightarrow> Inl (Uncaught ''pop_front of an empty queue'')
      | Some [p] \<Rightarrow> Inr (s\<lparr>m_atomics := omap_erase address (m_atomics s)\<rparr>)
      | Some (p # q # queue) \<Rightarrow>
          Inr (RunAtomic env q (s\<lparr>m_atomics := omap_put address (q # queue) (m_atomics s)\<rparr>)))"

text \<open>The reply of \<open>commit\<close>: a signal is acknowledged, an atomic answers with the old value.\<close>

definition atomic_reply :: "environment \<Rightarrow> nat \<Rightarrow> u64 \<Rightarrow> engine \<Rightarrow> engine" where
  "atomic_reply env p old s =
     (let responder = h_responders s ! p; reply = rs_tag responder
      in if tag_opcode reply = OP_SIGNAL then
           let s = upd_stats (\<lambda>st. st\<lparr>st_signalUpdates := st_signalUpdates st + 1\<rparr>) s;
               reply = reply\<lparr>tag_phase := PH_COMPLETE\<rparr>
           in FinishResponder env (tag_key reply) (Acknowledge (rs_header responder) (Some reply) s)
         else
           let s = upd_stats (\<lambda>st. st\<lparr>st_atomicExecutions := st_atomicExecutions st + 1,
                                      st_wireDataBytes := st_wireDataBytes st + 8\<rparr>) s;
               reply = reply\<lparr>tag_phase := PH_ATOMIC_RESPONSE, tag_bytes := 8, tag_offset := 0,
                             tag_zeroPayload := (old = 0)\<rparr>;
               send = T_transmit (tag_owner reply) (WordBytes old) reply (rs_qp responder)
                        (rs_flow responder) (rs_vc responder) 0
           in if tlp env then fst (ScheduleAction env 0 send s)
              else later send (say (E_sourceRead 8 0) s))"

definition atomic_commit :: "environment \<Rightarrow> nat \<Rightarrow> u64 \<Rightarrow> u64 \<Rightarrow> u64 \<Rightarrow> engine \<Rightarrow> engine result" where
  "atomic_commit env p address old new s =
     and_then (on_store (WriteWord (polls env) address new) s) (\<lambda>s.
       next_atomic env address (atomic_reply env p old (say E_dataReady s)))"

definition atomic_execute :: "environment \<Rightarrow> nat \<Rightarrow> engine \<Rightarrow> engine result" where
  "atomic_execute env p s =
     (let tag = rs_tag (h_responders s ! p); address = atomic_address tag
      in and_then (ReadWord (m_store s) address) (\<lambda>old.
         let new = atomic_next tag old
         in if staged env
            then Inr (later (T_atomicStaging p address old new) (say (E_acquireReceive 8) s))
            else atomic_commit env p address old new s))"

subsection \<open>Accepting data\<close>

definition StartPiece :: "environment \<Rightarrow> Key \<Rightarrow> nat \<Rightarrow> Piece \<Rightarrow> engine \<Rightarrow> engine result" where
  "StartPiece env key p piece s =
     (let incoming = h_incoming s ! p;
          bytes = GetEffectiveDataSize (pc_header piece);
          fragment = tag_fragmentOffset (pc_tag piece)
      in if fragment > tag_bytes (in_tag incoming) \<or> ucast bytes > tag_bytes (in_tag incoming) - fragment
         then Inl (NsAbort ''RDMA payload exceeds its work request'')
         else Inr (later (T_written key p piece bytes)
                (say (E_destinationWrite (ucast bytes)
                   (if staged env then fragment else in_address incoming + fragment)) s)))"

fun start_pieces :: "environment \<Rightarrow> Key \<Rightarrow> nat \<Rightarrow> Piece list \<Rightarrow> engine \<Rightarrow> engine result" where
  "start_pieces env key p [] s = Inr s"
| "start_pieces env key p (piece # pieces) s =
     and_then (StartPiece env key p piece s) (start_pieces env key p pieces)"

text \<open>The callback of \<open>AcquireReceiveStaging\<close>: the pieces that waited are started.\<close>

definition allocated :: "environment \<Rightarrow> Key \<Rightarrow> nat \<Rightarrow> engine \<Rightarrow> engine result" where
  "allocated env key p s =
     (let waiting = in_waiting (h_incoming s ! p)
      in start_pieces env key p waiting
           (upd_incoming p (\<lambda>i. i\<lparr>in_allocated := True, in_waiting := []\<rparr>) s))"

definition CompleteIncoming :: "environment \<Rightarrow> Key \<Rightarrow> nat \<Rightarrow> Piece \<Rightarrow> engine \<Rightarrow> engine result" where
  "CompleteIncoming env key p final s =
     (let s = say E_dataReady s;
          s = s\<lparr>m_incoming := omap_erase key (m_incoming s)\<rparr>;
          incoming = h_incoming s ! p; tag = in_tag incoming
      in if in_response incoming then
           and_then
             (case omap_find (m_sources s) (tag_workId tag) of
                None \<Rightarrow> Inr s
              | Some src \<Rightarrow>
                  if src_done (h_sources s ! src) then Inr s
                  else and_then
                    (if tag_phase tag = PH_ATOMIC_RESPONSE
                     then and_then (ReadWord (m_store s) (in_address incoming)) (\<lambda>value.
                            Inr (s\<lparr>h_results := (h_results s)[src_result (h_sources s ! src) := value]\<rparr>))
                     else Inr (upd_stats (\<lambda>st. st\<lparr>st_readResponseBytes := st_readResponseBytes st + tag_bytes tag\<rparr>) s))
                    (\<lambda>s. Inr (say (E_complete (tag_workId tag) (tag_success tag))
                            (upd_source src (\<lambda>x. x\<lparr>src_done := True\<rparr>) s))))
             (\<lambda>s. Inr (Acknowledge (pc_header final) None s))
         else
           let tag = tag\<lparr>tag_phase := PH_COMPLETE\<rparr>;
               s = Acknowledge (pc_header final) (Some tag) s
           in case in_receive incoming of
                None \<Rightarrow> Inr s
              | Some receive \<Rightarrow>
                  let result = RdmaReceiveCompletion_new
                        \<lparr>rc_receiveId := pr_id receive, rc_requestId := tag_requestId tag,
                         rc_offset := tag_offset tag, rc_peer := tag_owner tag,
                         rc_qp := in_qp incoming, rc_opcode := tag_opcode tag,
                         rc_bytes := tag_bytes tag,
                         rc_hasImmediate := (tag_opcode tag = OP_SEND_IMM \<or> tag_opcode tag = OP_WRITE_IMM),
                         rc_immediate := tag_immediate tag\<rparr>
                  in Inr (later (T_receiveCompleted (pr_complete receive) result) (say E_writeCompletion s)))"

text \<open>
  The callback of \<open>DestinationWrite\<close>: the fragment is stored, or kept for the copy of the
  whole request in a staged transfer, and counted.
\<close>

definition piece_counted :: "environment \<Rightarrow> Key \<Rightarrow> nat \<Rightarrow> Piece \<Rightarrow> u32 \<Rightarrow> engine \<Rightarrow> engine result" where
  "piece_counted env key p piece bytes s =
     (let s = upd_incoming p (\<lambda>i. i\<lparr>in_received := in_received i + ucast bytes\<rparr>) s;
          incoming = h_incoming s ! p
      in if in_received incoming > tag_bytes (in_tag incoming)
         then Inl (NsAbort ''RDMA receive byte ledger overflow'')
         else if in_received incoming < tag_bytes (in_tag incoming)
         then Inr (Acknowledge (pc_header piece) None s)
         else if staged env
         then Inr (later (T_copied key p piece) (say (E_destinationH2d (tag_bytes (in_tag incoming))) s))
         else CompleteIncoming env key p piece s)"

definition piece_written :: "environment \<Rightarrow> Key \<Rightarrow> nat \<Rightarrow> Piece \<Rightarrow> u32 \<Rightarrow> engine \<Rightarrow> engine result" where
  "piece_written env key p piece bytes s =
     and_then
       (if staged env
        then Inr (upd_incoming p (\<lambda>i. i\<lparr>in_staged := in_staged i @ [piece]\<rparr>) s)
        else on_store (Store (polls env) (in_address (h_incoming s ! p) + tag_fragmentOffset (pc_tag piece))
                         (pc_packet piece) bytes (tag_zeroPayload (pc_tag piece))) s)
       (piece_counted env key p piece bytes)"

fun store_pieces :: "environment \<Rightarrow> u64 \<Rightarrow> Piece list \<Rightarrow> engine \<Rightarrow> engine result" where
  "store_pieces env address [] s = Inr s"
| "store_pieces env address (saved # pieces) s =
     and_then (on_store (Store (polls env) (address + tag_fragmentOffset (pc_tag saved)) (pc_packet saved)
                           (GetEffectiveDataSize (pc_header saved)) (tag_zeroPayload (pc_tag saved))) s)
       (store_pieces env address pieces)"

text \<open>The callback of \<open>DestinationH2d\<close>.\<close>

definition pieces_copied :: "environment \<Rightarrow> Key \<Rightarrow> nat \<Rightarrow> Piece \<Rightarrow> engine \<Rightarrow> engine result" where
  "pieces_copied env key p piece s =
     (let incoming = h_incoming s ! p
      in and_then (store_pieces env (in_address incoming) (in_staged incoming) s) (\<lambda>s.
           CompleteIncoming env key p piece (say (E_releaseReceive (tag_bytes (in_tag incoming))) s)))"

definition fail_tag :: "RdmaOperationTag \<Rightarrow> RdmaOperationTag" where
  "fail_tag tag = tag\<lparr>tag_phase := PH_COMPLETE, tag_success := False\<rparr>"

text \<open>
  The first fragment of a work request: the matching receive, the destination and its
  check. \<open>Inr None\<close> stands for the early returns, which have acknowledged the packet.
\<close>

definition accept_first ::
    "environment \<Rightarrow> FabricHeader \<Rightarrow> RdmaOperationTag \<Rightarrow> u32 \<Rightarrow> bool \<Rightarrow> engine \<Rightarrow> engine \<times> nat option" where
  "accept_first env header tag qp response s =
     (let key = tag_key tag;
          needs = (\<not> response \<and> RdmaNeedsReceive (tag_opcode tag));
          send = (\<not> response \<and> (tag_opcode tag = OP_SEND \<or> tag_opcode tag = OP_SEND_IMM));
          (s, receive) = (if needs then MatchReceive (GetSourceRank header) qp s else (s, None))
      in if needs \<and> receive = None then
           (Acknowledge header (Some (tag\<lparr>tag_phase := PH_RNR\<rparr>))
              (s\<lparr>m_rejectedAttempts := omap_put key (tag_attempt tag) (m_rejectedAttempts s)\<rparr>), None)
         else
           let base = (if response then tag_localAddress tag else tag_remoteAddress tag)
           in if \<not> send \<and> tag_offset tag > - 1 - base then
                (Acknowledge header (Some (fail_tag tag)) s, None)
              else
                let address = (if send then pr_address (the receive) else base + tag_offset tag);
                    keyToCheck = (if send then pr_key (the receive)
                                  else if response then tag_localKey tag else tag_remoteKey tag);
                    valid = ((receive = None \<or> tag_opcode tag = OP_WRITE_IMM \<or>
                              tag_bytes tag \<le> pr_bytes (the receive)) \<and>
                             InRegion (m_store s) keyToCheck address (tag_bytes tag))
                in if \<not> valid then
                     let s = s\<lparr>m_failedIncoming := oset_insert key (m_failedIncoming s)\<rparr>;
                         s = Acknowledge header (Some (fail_tag tag)) s
                     in (case receive of
                           None \<Rightarrow> s
                         | Some r \<Rightarrow>
                             fst (ScheduleAction env 0
                               (T_receiveFailed (pr_complete r)
                                  (RdmaReceiveCompletion_new
                                     \<lparr>rc_receiveId := pr_id r, rc_peer := GetSourceRank header,
                                      rc_opcode := tag_opcode tag, rc_success := False\<rparr>)) s), None)
                   else
                     let p = length (h_incoming s);
                         incoming = \<lparr>in_tag = tag, in_qp = qp, in_received = 0, in_address = address,
                                     in_allocated = \<not> staged env, in_response = response,
                                     in_receive = receive, in_waiting = [], in_staged = []\<rparr>;
                         s = s\<lparr>h_incoming := h_incoming s @ [incoming],
                               m_incoming := omap_put key p (m_incoming s)\<rparr>;
                         s = (if staged env
                              then later (T_allocated key p) (say (E_acquireReceive (tag_bytes tag)) s) else s)
                     in (s, Some p))"

definition AcceptData ::
    "environment \<Rightarrow> u8 list \<Rightarrow> FabricHeader \<Rightarrow> RdmaOperationTag \<Rightarrow> u32 \<Rightarrow> engine \<Rightarrow> engine result" where
  "AcceptData env packet header tag qp s =
     (let response = (tag_phase tag = PH_READ_RESPONSE \<or> tag_phase tag = PH_ATOMIC_RESPONSE);
          key = tag_key tag;
          found = omap_find (m_incoming s) key;
          rejected = omap_find (m_rejectedAttempts s) key
      in if response \<and> omap_find (m_sources s) (tag_workId tag) = None then Inr (Acknowledge header None s)
         else if key \<in> set (m_failedIncoming s) then Inr (Acknowledge header (Some (fail_tag tag)) s)
         else if \<not> response \<and> rejected \<noteq> None \<and> tag_attempt tag \<le> the rejected
         then Inr (Acknowledge header (Some (tag\<lparr>tag_phase := PH_RNR\<rparr>)) s)
         else if found \<noteq> None \<and> tag_attempt tag < tag_attempt (in_tag (h_incoming s ! the found))
         then Inr (Acknowledge header None s)
         else
           let (s, ptr) = (if found = None then accept_first env header tag qp response s else (s, found))
           in case ptr of
                None \<Rightarrow> Inr s
              | Some p \<Rightarrow>
                  let s = say (E_hold header True) s;
                      piece = \<lparr>pc_packet = packet, pc_header = header, pc_tag = tag\<rparr>
                  in if in_allocated (h_incoming s ! p) then StartPiece env key p piece s
                     else Inr (upd_incoming p (\<lambda>i. i\<lparr>in_waiting := in_waiting i @ [piece]\<rparr>) s))"

text \<open>
  \<open>Receive\<close>: the packet's payload, its operation tag if it has one, and the queue pair of
  its work tag if it has one.
\<close>

definition Receive ::
    "environment \<Rightarrow> u8 list \<Rightarrow> RdmaOperationTag option \<Rightarrow> u32 option \<Rightarrow> FabricHeader \<Rightarrow> engine \<Rightarrow> (engine \<times> bool) result" where
  "Receive env packet tag work header s =
     (case tag of
        None \<Rightarrow> Inr (s, False)
      | Some tag \<Rightarrow>
          (case work of
             None \<Rightarrow> Inl (NsAbort ''Missing RDMA work metadata'')
           | Some qp \<Rightarrow>
               if tag_phase tag = PH_REQUEST then
                 let address = atomic_address tag;
                     valid = (tag_offset tag \<le> - 1 - address \<and>
                              InRegion (m_store s) (tag_remoteKey tag) (address + tag_offset tag) (tag_bytes tag))
                 in if \<not> valid then Inr (Acknowledge header (Some (fail_tag tag)) s, True)
                    else if tag_opcode tag \<noteq> OP_READ \<and> address mod 8 \<noteq> 0
                    then Inr (Acknowledge header (Some (fail_tag tag)) s, True)
                    else
                      let s = (if tag_opcode tag \<noteq> OP_SIGNAL then Acknowledge header None s
                               else say (E_hold header True) s)
                      in Inr (QueueResponder env tag qp header s, True)
               else and_then (AcceptData env packet header tag qp s) (\<lambda>s. Inr (s, True))))"

subsection \<open>Acknowledgements at the sender\<close>

definition FailSource :: "u64 \<Rightarrow> engine \<Rightarrow> engine" where
  "FailSource wid s =
     (case omap_find (m_sources s) wid of
        None \<Rightarrow> s
      | Some p \<Rightarrow>
          if src_done (h_sources s ! p) then s
          else say (E_complete wid False) (upd_source p (\<lambda>x. x\<lparr>src_done := True\<rparr>) s))"

definition responder_acknowledged :: "environment \<Rightarrow> FabricHeader \<Rightarrow> engine \<Rightarrow> engine" where
  "responder_acknowledged env header s =
     (case omap_find (m_sent s) (AckKey header) of
        None \<Rightarrow> s
      | Some saved \<Rightarrow>
          let s = s\<lparr>m_sent := omap_erase (AckKey header) (m_sent s)\<rparr>; tag = sent_tag saved
          in if tag_phase tag = PH_READ_RESPONSE \<or> tag_phase tag = PH_ATOMIC_RESPONSE then
               (case omap_find (m_responders s) (tag_key tag) of
                  None \<Rightarrow> s
                | Some p \<Rightarrow>
                    let s = upd_responder p (\<lambda>r. r\<lparr>rs_acknowledged := rs_acknowledged r + sent_bytes saved\<rparr>) s
                    in if rs_acknowledged (h_responders s ! p) \<ge> tag_bytes tag
                       then FinishResponder env (tag_key tag) s else s)
             else s)"

definition PacketAcknowledged ::
    "environment \<Rightarrow> FabricHeader \<Rightarrow> RdmaOperationTag option \<Rightarrow> engine \<Rightarrow> engine" where
  "PacketAcknowledged env header packet_tag s =
     (let s = responder_acknowledged env header s
      in case packet_tag of
           None \<Rightarrow> s
         | Some tag \<Rightarrow>
             if tag_owner tag \<noteq> m_rank s then s
             else (case omap_find (m_sources s) (tag_workId tag) of
                     None \<Rightarrow> s
                   | Some p \<Rightarrow>
                       let state = h_sources s ! p
                       in if src_done state then s
                          else if tag_phase tag = PH_COMPLETE then
                            say (E_complete (tag_workId tag) (tag_success tag))
                              (upd_source p (\<lambda>x. x\<lparr>src_done := True\<rparr>) s)
                          else if tag_phase tag = PH_RNR \<and> tag_attempt tag = tag_attempt (src_tag state) \<and>
                                  \<not> src_retryPending state then
                            if tag_attempt (src_tag state) \<ge> rnrRetryLimit (env_config env) then
                              FailSource (tag_workId tag)
                                (upd_stats (\<lambda>st. st\<lparr>st_rnrExhausted := st_rnrExhausted st + 1\<rparr>) s)
                            else
                              fst (ScheduleAction env (rnrRetry (env_config env)) (T_retry p)
                                (upd_stats (\<lambda>st. st\<lparr>st_rnrRetries := st_rnrRetries st + 1\<rparr>)
                                  (upd_source p (\<lambda>x. x\<lparr>src_retryPending := True\<rparr>) s)))
                          else s))"

definition PermanentLoss :: "FabricHeader \<Rightarrow> engine \<Rightarrow> engine" where
  "PermanentLoss header s =
     (case omap_find (m_sent s) (TxKey header) of
        None \<Rightarrow> s
      | Some saved \<Rightarrow>
          if tag_owner (sent_tag saved) = m_rank s then say (E_failure (tag_workId (sent_tag saved))) s else s)"

definition retry :: "environment \<Rightarrow> nat \<Rightarrow> engine \<Rightarrow> engine result" where
  "retry env p s =
     (if src_done (h_sources s ! p) then Inr s
      else SendSource env p
        (upd_source p (\<lambda>x. x\<lparr>src_tag := (src_tag x)\<lparr>tag_attempt := tag_attempt (src_tag x) + 1\<rparr>,
                             src_retryPending := False\<rparr>) s))"

subsection \<open>Running a task\<close>

text \<open>
  A closure that was scheduled or guarded does nothing once the engine is disposed; the four
  handed to the staging queues as they are would use the submission model that is gone.
\<close>

fun needs_model :: "engine \<Rightarrow> task \<Rightarrow> bool" where
  "needs_model s (T_allocated _ p) = (in_waiting (h_incoming s ! p) \<noteq> [])"
| "needs_model s (T_readStaged _) = True"
| "needs_model s (T_atomicRun _) = True"
| "needs_model s (T_atomicStaging _ _ _ _) = True"
| "needs_model s _ = False"

fun run_task :: "environment \<Rightarrow> task \<Rightarrow> engine \<Rightarrow> engine result" where
  "run_task env (T_postReceive r) s = Inr (s\<lparr>m_receives := m_receives s @ [r]\<rparr>)"
| "run_task env (T_transmit peer packet tag qp flow vc imm) s =
     Inr (say (E_transmit peer packet tag qp flow vc imm) s)"
| "run_task env (T_retry p) s = retry env p s"
| "run_task env (T_receiveFailed cb result) s =
     Inr (say (E_received cb result)
       (upd_stats (\<lambda>st. st\<lparr>st_receiveCompletions := st_receiveCompletions st + 1\<rparr>) s))"
| "run_task env (T_receiveCompleted cb result) s =
     Inr (say (E_received cb (result\<lparr>rc_observed := env_now env\<rparr>))
       (upd_stats (\<lambda>st. st\<lparr>st_receiveCompletions := st_receiveCompletions st + 1\<rparr>) s))"
| "run_task env (T_allocated key p) s = allocated env key p s"
| "run_task env (T_written key p piece bytes) s = piece_written env key p piece bytes s"
| "run_task env (T_copied key p piece) s = pieces_copied env key p piece s"
| "run_task env (T_readStaged p) s = Inr (read_send env p s)"
| "run_task env (T_readService p reply) s =
     (let r = h_responders s ! p
      in SendPayload env (tag_owner reply) reply (rs_qp r) (rs_flow r) (rs_vc r)
           (tag_remoteAddress reply + tag_offset reply) (tag_bytes reply) s)"
| "run_task env (T_atomicRun p) s = Inr (atomic_run env p s)"
| "run_task env (T_atomicFetched p address) s =
     Inr (fst (ScheduleAction env (atomicService (env_config env)) (T_atomicService p address) s))"
| "run_task env (T_atomicService p address) s =
     Inr (later (T_atomicExecute p) (say (E_destinationWrite 8 address) s))"
| "run_task env (T_atomicExecute p) s = atomic_execute env p s"
| "run_task env (T_atomicStaging p address old new) s =
     Inr (later (T_atomicCommit p address old new) (say (E_destinationH2d 8) s))"
| "run_task env (T_atomicCommit p address old new) s =
     atomic_commit env p address old new (say (E_releaseReceive 8) s)"

definition Fire :: "environment \<Rightarrow> nat \<Rightarrow> engine \<Rightarrow> engine result" where
  "Fire env i s =
     (if i < length (tasks s) then
        let t = tasks s ! i; s = s\<lparr>tasks := take i (tasks s) @ drop (Suc i) (tasks s)\<rparr>
        in if m_disposed s then
             (if needs_model s t then Inl (Uncaught ''submission model of a disposed engine'') else Inr s)
           else run_task env t s
      else Inr s)"

definition DoDispose :: "engine \<Rightarrow> engine" where
  "DoDispose s =
     s\<lparr>m_disposed := True, m_configured := False, m_sources := [], m_incoming := [],
       m_rejectedAttempts := [], m_failedIncoming := [], m_responders := [], m_responderWaiting := [],
       m_atomics := [], m_receives := [], m_store := (m_store s)\<lparr>m_waits := [], m_polls := []\<rparr>,
       m_sent := [], m_ackMetadata := []\<rparr>"

subsection \<open>The engine as a state machine\<close>

text \<open>
  Everything the surroundings can do to an engine: the cluster configures it with a rank and
  a submission model, limits the payload of its packets and at the end disposes of it; the
  endpoint delivers a packet, reports one sent, acknowledged or lost; the user posts
  receives, submits requests, registers, writes and watches memory; the submission model
  executes and completes a request; a pending task or a ready wait callback runs. The readers (\<open>ReadMemory\<close>,
  \<open>ReadWord\<close>, \<open>TestSignal\<close>, \<open>DecorateAck\<close>) change nothing.
\<close>

datatype operation =
    O_Configure u16 bool
  | O_SetPayloadLimit "(u16 \<Rightarrow> u32) option"
  | O_Receive "u8 list" "RdmaOperationTag option" "u32 option" FabricHeader
  | O_PacketSent FabricHeader "RdmaOperationTag option"
  | O_PacketAcknowledged FabricHeader "RdmaOperationTag option"
  | O_PermanentLoss FabricHeader
  | O_PostReceive u64 u64 u64 "callback option" u16 u32 u32
  | O_Submit RdmaRequest
  | O_Execute RdmaRequest u64 nat
  | O_SubmitCompleted RdmaRequest nat u64 "callback option" bool
  | O_RegisterMemory u64 u64 u32
  | O_UnregisterMemory u32
  | O_WriteMemory u64 "u8 list"
  | O_WriteWord u64 u64
  | O_WaitSignal u64 RdmaComparison u64 "callback option"
  | O_CancelSignalWait u64
  | O_Fire nat
  | O_Poll nat
  | O_DoDispose

definition Poll :: "nat \<Rightarrow> engine \<Rightarrow> engine" where
  "Poll i s =
     (let ready = m_polls (m_store s)
      in if i < length ready then
           let (cb, value) = ready ! i;
               s = s\<lparr>m_store := (m_store s)\<lparr>m_polls := take i ready @ drop (Suc i) ready\<rparr>\<rparr>
           in if m_disposed s then s else say (E_signalled cb value) s
         else s)"

fun engine_step :: "engine \<Rightarrow> environment \<times> operation \<Rightarrow> engine result" where
  "engine_step s (env, O_Configure rank given) = Configure rank given s"
| "engine_step s (env, O_SetPayloadLimit limit) = Inr (SetPayloadLimit limit s)"
| "engine_step s (env, O_Receive packet tag work header) =
     and_then (Receive env packet tag work header s) (\<lambda>(s, handled). Inr s)"
| "engine_step s (env, O_PacketSent header tag) = Inr (PacketSent header tag s)"
| "engine_step s (env, O_PacketAcknowledged header tag) = Inr (PacketAcknowledged env header tag s)"
| "engine_step s (env, O_PermanentLoss header) = Inr (PermanentLoss header s)"
| "engine_step s (env, O_PostReceive rid address bytes complete peer qp key) =
     PostReceive env rid address bytes complete peer qp key s"
| "engine_step s (env, O_Submit request) = and_then (Submit env request s) (\<lambda>(s, rid). Inr s)"
| "engine_step s (env, O_Execute request wid result) = Execute env request wid result s"
| "engine_step s (env, O_SubmitCompleted request result identity complete success) =
     Inr (SubmitCompleted request result identity complete success s)"
| "engine_step s (env, O_RegisterMemory address bytes key) = on_store (RegisterMemory address bytes key) s"
| "engine_step s (env, O_UnregisterMemory key) =
     on_store (UnregisterMemory (HasPending s \<or> m_receiveReserved s \<noteq> 0) key) s"
| "engine_step s (env, O_WriteMemory address bytes) = on_store (WriteMemory (polls env) address bytes) s"
| "engine_step s (env, O_WriteWord address value) = on_store (WriteWord (polls env) address value) s"
| "engine_step s (env, O_WaitSignal address comparison value complete) =
     and_then (WaitSignal (polls env) address comparison value complete (m_store s))
       (\<lambda>(m, wid). Inr (s\<lparr>m_store := m\<rparr>))"
| "engine_step s (env, O_CancelSignalWait wid) = Inr (s\<lparr>m_store := CancelSignalWait wid (m_store s)\<rparr>)"
| "engine_step s (env, O_Fire i) = Fire env i s"
| "engine_step s (env, O_Poll i) = Inr (Poll i s)"
| "engine_step s (env, O_DoDispose) = Inr (DoDispose s)"

end
