(* ===== verification/RdmaAtomics.thy ===== *)
theory RdmaAtomics
  imports RdmaEngine
begin

text \<open>
  The responder side of the RDMA operation engine as its clients see it. Whatever the
  interleaving of arrivals, acknowledgements, memory traffic and pending tasks, the atomics
  and signals on one address take effect one at a time and in the order their requests
  arrived, each on the value its predecessor left and answered with it; and the number of requests being answered
  never passes the configured depth while none waits in vain.
\<close>

subsection \<open>What the other operations leave alone\<close>

fun atomic_task :: "task \<Rightarrow> bool" where
  "atomic_task (T_atomicRun _) = True"
| "atomic_task (T_atomicFetched _ _) = True"
| "atomic_task (T_atomicService _ _) = True"
| "atomic_task (T_atomicExecute _) = True"
| "atomic_task (T_atomicStaging _ _ _ _) = True"
| "atomic_task (T_atomicCommit _ _ _ _) = True"
| "atomic_task _ = False"

definition rtags :: "engine \<Rightarrow> RdmaOperationTag list" where
  "rtags s = map rs_tag (h_responders s)"

definition atomic_tasks :: "engine \<Rightarrow> task list" where
  "atomic_tasks s = filter atomic_task (tasks s)"

text \<open>Two states agree on the responders: their requests, queues and atomics in flight.\<close>

definition same_atomics :: "engine \<Rightarrow> engine \<Rightarrow> bool" where
  "same_atomics s s' =
     (m_atomics s' = m_atomics s \<and> rtags s' = rtags s \<and>
      m_responderWaiting s' = m_responderWaiting s \<and> atomic_tasks s' = atomic_tasks s \<and>
      m_responders s' = m_responders s \<and>
      st_activeResponses (m_stats s') = st_activeResponses (m_stats s))"

named_theorems frame \<open>operations that leave the responders alone\<close>

lemma same_atomics_refl [simp, frame]: "same_atomics s s"
  by (simp add: same_atomics_def)

lemma same_atomics_trans: "same_atomics s s' \<Longrightarrow> same_atomics s' s'' \<Longrightarrow> same_atomics s s''"
  by (simp add: same_atomics_def)

lemmas same_atomics_defs = same_atomics_def rtags_def atomic_tasks_def

lemma same_atomics_simple [simp, frame]:
  "same_atomics s (say e s') = same_atomics s s'"
  "\<not> atomic_task t \<Longrightarrow> same_atomics s (later t s') = same_atomics s s'"
  "\<not> atomic_task t \<Longrightarrow> same_atomics s (fst (ScheduleAction env d t s')) = same_atomics s s'"
  "same_atomics s (upd_source p f s') = same_atomics s s'"
  "same_atomics s (upd_incoming p g s') = same_atomics s s'"
  "same_atomics s (Acknowledge h c s') = same_atomics s s'"
  "same_atomics s (s'\<lparr>m_store := m\<rparr>) = same_atomics s s'"
  "same_atomics s (s'\<lparr>m_sources := ms\<rparr>) = same_atomics s s'"
  "same_atomics s (s'\<lparr>m_incoming := mi\<rparr>) = same_atomics s s'"
  "same_atomics s (s'\<lparr>m_sent := mt\<rparr>) = same_atomics s s'"
  "same_atomics s (s'\<lparr>m_receives := rs\<rparr>) = same_atomics s s'"
  "same_atomics s (s'\<lparr>h_results := hr\<rparr>) = same_atomics s s'"
  "same_atomics s (s'\<lparr>m_receiveReserved := n\<rparr>) = same_atomics s s'"
  "same_atomics s (s'\<lparr>m_receivePostFree := pf\<rparr>) = same_atomics s s'"
  "same_atomics s (s'\<lparr>m_rejectedAttempts := ra\<rparr>) = same_atomics s s'"
  "same_atomics s (s'\<lparr>m_failedIncoming := fi\<rparr>) = same_atomics s s'"
  "same_atomics s (s'\<lparr>h_incoming := hi\<rparr>) = same_atomics s s'"
  "same_atomics s (s'\<lparr>h_sources := hs\<rparr>) = same_atomics s s'"
  by (auto simp: same_atomics_defs say_def later_def ScheduleAction_def upd_source_def
      upd_incoming_def Acknowledge_def Let_def split: option.splits)

lemma same_atomics_stats [simp, frame]:
  "(\<And>st. st_activeResponses (f st) = st_activeResponses st) \<Longrightarrow>
   same_atomics s (upd_stats f s') = same_atomics s s'"
  by (simp add: same_atomics_defs upd_stats_def)

lemma same_atomics_responder [simp, frame]:
  assumes "\<And>r. rs_tag (f r) = rs_tag r"
  shows "same_atomics s (upd_responder p f s') = same_atomics s s'"
proof -
  have "map rs_tag ((h_responders s')[p := f (h_responders s' ! p)]) = map rs_tag (h_responders s')"
    by (metis assms list_update_id list_update_beyond map_update nth_map linorder_not_less)
  then show ?thesis by (simp add: same_atomics_defs upd_responder_def)
qed

lemma same_atomics_sym: "same_atomics s s' \<longleftrightarrow> same_atomics s' s"
  by (auto simp: same_atomics_def)

text \<open>An update of the first state that changes nothing can be dropped as well.\<close>

lemma same_atomics_left: "same_atomics s u \<Longrightarrow> same_atomics u s' \<longleftrightarrow> same_atomics s s'"
  by (auto simp: same_atomics_def)

lemma on_store_frame: "on_store f s = Inr s' \<Longrightarrow> same_atomics s s'"
  by (auto simp: on_store_def)

lemma send_piece_frame [simp, frame]:
  "same_atomics s (send_piece env peer tag qp flow vc a off n packet zero s') = same_atomics s s'"
  by (simp add: send_piece_def Let_def)

lemma send_pieces_frame:
  "send_pieces env cap peer tag qp flow vc a n off s = Inr s' \<Longrightarrow> same_atomics s s'"
proof (induction env cap peer tag qp flow vc a n off s rule: send_pieces.induct)
  case (1 env cap peer tag qp flow vc a n off s)
  show ?case
  proof (cases "off < n \<and> cap \<noteq> 0")
    case True
    let ?n = "min (ucast cap) (n - off)"
    from True "1.prems" obtain packet zero where
      "send_pieces env cap peer tag qp flow vc a n (off + ?n)
         (send_piece env peer tag qp flow vc a off ?n packet zero s) = Inr s'"
      by (subst (asm) send_pieces.simps) (auto simp: Let_def)
    with True have "same_atomics (send_piece env peer tag qp flow vc a off ?n packet zero s) s'"
      by (intro "1.IH") auto
    then show ?thesis by (rule same_atomics_trans [rotated]) simp
  next
    case False
    with "1.prems" show ?thesis by (subst (asm) send_pieces.simps) (auto split: if_splits)
  qed
qed

lemma SendPayload_frame: "SendPayload env peer tag qp flow vc a n s = Inr s' \<Longrightarrow> same_atomics s s'"
  by (auto simp: SendPayload_def Let_def dest: send_pieces_frame split: if_splits)

lemma SendSource_frame: "SendSource env p s = Inr s' \<Longrightarrow> same_atomics s s'"
  by (auto simp: SendSource_def Let_def dest: SendPayload_frame split: if_splits)

lemma Execute_frame: "Execute env r w p s = Inr s' \<Longrightarrow> same_atomics s s'"
  by (auto simp: Execute_def Let_def dest!: SendSource_frame split: if_splits)
    (rule same_atomics_trans [rotated], assumption, simp)+

lemma retry_frame: "retry env p s = Inr s' \<Longrightarrow> same_atomics s s'"
  by (auto simp: retry_def dest!: SendSource_frame split: if_splits)
    (rule same_atomics_trans [rotated], assumption, simp)

lemma Configure_frame: "Configure rank given s = Inr s' \<Longrightarrow> same_atomics s s' \<and> m_store s' = m_store s"
  by (auto simp: Configure_def same_atomics_defs split: if_splits)

lemma SetPayloadLimit_frame: "same_atomics s (SetPayloadLimit limit s) \<and> m_store (SetPayloadLimit limit s) = m_store s"
  by (simp add: SetPayloadLimit_def same_atomics_defs)

lemma PostReceive_frame: "PostReceive env i a n c peer qp k s = Inr s' \<Longrightarrow> same_atomics s s'"
  by (auto simp: PostReceive_def ScheduleAction_def Let_def split: if_splits)

lemma StartPiece_frame: "StartPiece env k p pc s = Inr s' \<Longrightarrow> same_atomics s s'"
  by (auto simp: StartPiece_def Let_def split: if_splits)

lemma start_pieces_frame: "start_pieces env k p pcs s = Inr s' \<Longrightarrow> same_atomics s s'"
  by (induction pcs arbitrary: s) (auto dest!: StartPiece_frame intro: same_atomics_trans)

lemma allocated_frame: "allocated env k p s = Inr s' \<Longrightarrow> same_atomics s s'"
  by (auto simp: allocated_def Let_def dest!: start_pieces_frame)
    (rule same_atomics_trans [rotated], assumption, simp)

lemma store_pieces_frame: "store_pieces env a pcs s = Inr s' \<Longrightarrow> same_atomics s s'"
  by (induction pcs arbitrary: s) (auto dest!: on_store_frame intro: same_atomics_trans)

lemma CompleteIncoming_frame: "CompleteIncoming env k p pc s = Inr s' \<Longrightarrow> same_atomics s s'"
  by (auto simp: CompleteIncoming_def Let_def split: if_splits option.splits)

lemma MatchReceive_frame: "same_atomics s (fst (MatchReceive peer qp s))"
  by (auto simp: MatchReceive_def split: option.splits)

lemma piece_counted_frame: "piece_counted env k p pc n s = Inr s' \<Longrightarrow> same_atomics s s'"
proof -
  let ?u = "upd_incoming p (\<lambda>i. i\<lparr>in_received := in_received i + ucast n\<rparr>) s"
  assume "piece_counted env k p pc n s = Inr s'"
  then have "same_atomics ?u s'"
    by (auto simp: piece_counted_def Let_def dest: CompleteIncoming_frame split: if_splits)
  then show ?thesis by (rule same_atomics_trans [rotated]) simp
qed

lemma piece_written_frame: "piece_written env k p pc n s = Inr s' \<Longrightarrow> same_atomics s s'"
  by (auto simp: piece_written_def dest!: on_store_frame piece_counted_frame split: if_splits
      intro: same_atomics_trans)
    (rule same_atomics_trans [rotated], assumption, simp)

lemma pieces_copied_frame: "pieces_copied env k p pc s = Inr s' \<Longrightarrow> same_atomics s s'"
  by (auto simp: pieces_copied_def Let_def dest!: store_pieces_frame CompleteIncoming_frame)
    (erule same_atomics_trans [rotated], simp)

lemma accept_first_frame: "same_atomics s (fst (accept_first env h t qp r s))"
proof -
  obtain s1 receive where s1: "(if \<not> r \<and> RdmaNeedsReceive (tag_opcode t)
      then MatchReceive (GetSourceRank h) qp s else (s, None)) = (s1, receive)" by fastforce
  then have "same_atomics s s1"
    using MatchReceive_frame [of s "GetSourceRank h" qp] by (auto split: if_splits dest: arg_cong [where f = fst])
  then show ?thesis
    unfolding accept_first_def Let_def s1 by (simp split: option.splits)
qed

lemma AcceptData_frame: "AcceptData env pk h t qp s = Inr s' \<Longrightarrow> same_atomics s s'"
proof -
  assume run: "AcceptData env pk h t qp s = Inr s'"
  let ?r = "tag_phase t = PH_READ_RESPONSE \<or> tag_phase t = PH_ATOMIC_RESPONSE"
  obtain s1 ptr where s1: "(if omap_find (m_incoming s) (tag_key t) = None then accept_first env h t qp ?r s
      else (s, omap_find (m_incoming s) (tag_key t))) = (s1, ptr)" by fastforce
  then have "same_atomics s s1"
    using accept_first_frame [of s env h t qp ?r] by (auto split: if_splits dest: arg_cong [where f = fst])
  moreover have "same_atomics s s' \<or> same_atomics s1 s'"
    using run unfolding AcceptData_def Let_def s1
    by (auto dest!: StartPiece_frame intro: same_atomics_trans [rotated] split: if_splits option.splits)
  ultimately show ?thesis by (auto intro: same_atomics_trans)
qed

lemma PacketSent_frame: "same_atomics s (PacketSent h t s)"
  by (simp add: PacketSent_def split: option.splits)

lemma PermanentLoss_frame: "same_atomics s (PermanentLoss h s)"
  by (simp add: PermanentLoss_def split: option.splits)

lemma FailSource_frame [simp]: "same_atomics s (FailSource w s') = same_atomics s s'"
  by (simp add: FailSource_def split: option.splits)

lemma Poll_frame: "same_atomics s (Poll i s)"
  by (simp add: Poll_def Let_def split: prod.splits)

lemma Submit_frame: "Submit env r s = Inr (s', n) \<Longrightarrow> same_atomics s s'"
  by (auto simp: Submit_def Let_def split: if_splits)

lemma SubmitCompleted_frame: "same_atomics s (SubmitCompleted r p i c b s)"
  by (simp add: SubmitCompleted_def Let_def split: option.splits)

text \<open>Tasks that are not part of an atomic leave the responders alone as well.\<close>

lemma read_send_frame [simp]: "same_atomics s (read_send env p s') = same_atomics s s'"
  by (simp add: read_send_def Let_def)

lemma run_task_frame: "\<not> atomic_task t \<Longrightarrow> run_task env t s = Inr s' \<Longrightarrow> same_atomics s s'"
  by (cases t)
    (auto simp: Let_def dest: retry_frame allocated_frame piece_written_frame pieces_copied_frame SendPayload_frame)

subsection \<open>The memory invariant\<close>







subsection \<open>Queues and atomics in flight\<close>

fun task_ptr :: "task \<Rightarrow> nat" where
  "task_ptr (T_atomicRun p) = p"
| "task_ptr (T_atomicFetched p _) = p"
| "task_ptr (T_atomicService p _) = p"
| "task_ptr (T_atomicExecute p) = p"
| "task_ptr (T_atomicStaging p _ _ _) = p"
| "task_ptr (T_atomicCommit p _ _ _) = p"
| "task_ptr _ = 0"

text \<open>A task that has read the old value and carries the new one.\<close>

fun decided :: "task \<Rightarrow> (nat \<times> u64 \<times> u64 \<times> u64) option" where
  "decided (T_atomicStaging p a old new) = Some (p, a, old, new)"
| "decided (T_atomicCommit p a old new) = Some (p, a, old, new)"
| "decided _ = None"

type_synonym atomics = "(u64, nat list) omap"

definition queue_of :: "atomics \<Rightarrow> u64 \<Rightarrow> nat list" where
  "queue_of at a = (case omap_find at a of None \<Rightarrow> [] | Some q \<Rightarrow> q)"

text \<open>An atomic in flight is at the head of the queue of its address.\<close>

definition in_flight :: "atomics \<Rightarrow> RdmaOperationTag list \<Rightarrow> task \<Rightarrow> bool" where
  "in_flight at rt t =
     (let p = task_ptr t
      in p < length rt \<and>
         (case queue_of at (atomic_address (rt ! p)) of [] \<Rightarrow> False | q # _ \<Rightarrow> q = p) \<and>
         (case decided t of
            None \<Rightarrow> True
          | Some (p', a, old, new) \<Rightarrow> a = atomic_address (rt ! p) \<and> new = atomic_next (rt ! p) old))"

definition queue_ok :: "RdmaOperationTag list \<Rightarrow> u64 \<Rightarrow> nat list \<Rightarrow> bool" where
  "queue_ok rt a q = (q \<noteq> [] \<and> (\<forall>p \<in> set q. p < length rt \<and> atomic_address (rt ! p) = a))"

definition atoms_ok :: "atomics \<Rightarrow> RdmaOperationTag list \<Rightarrow> nat list \<Rightarrow> task list \<Rightarrow> bool" where
  "atoms_ok at rt wt ts =
     (omap_wf at \<and> (\<forall>p \<in> set wt. p < length rt) \<and> (\<forall>(a, q) \<in> set at. queue_ok rt a q) \<and>
      distinct (map task_ptr ts) \<and> (\<forall>t \<in> set ts. in_flight at rt t))"

definition atomics_ok :: "engine \<Rightarrow> bool" where
  "atomics_ok s = atoms_ok (m_atomics s) (rtags s) (m_responderWaiting s) (atomic_tasks s)"

text \<open>The atomics and signals on an address that have not taken effect, oldest first.\<close>

definition on_address :: "u64 \<Rightarrow> RdmaOperationTag \<Rightarrow> bool" where
  "on_address a t = (tag_opcode t \<noteq> OP_READ \<and> atomic_address t = a)"

definition pend :: "atomics \<Rightarrow> RdmaOperationTag list \<Rightarrow> nat list \<Rightarrow> u64 \<Rightarrow> RdmaOperationTag list" where
  "pend at rt wt a =
     map ((!) rt) (queue_of at a) @ filter (on_address a) (map ((!) rt) wt)"

definition pending :: "engine \<Rightarrow> u64 \<Rightarrow> RdmaOperationTag list" where
  "pending s a = pend (m_atomics s) (rtags s) (m_responderWaiting s) a"













subsection \<open>Starting and finishing responders\<close>

definition decided_tasks :: "engine \<Rightarrow> task list" where
  "decided_tasks s = filter (\<lambda>t. decided t \<noteq> None) (atomic_tasks s)"

text \<open>
  From one state to another the responders move on without an atomic taking effect: the
  invariant is kept, what is pending on every address is the same, and no atomic has read a
  value.
\<close>

definition advances :: "engine \<Rightarrow> engine \<Rightarrow> bool" where
  "advances s s' =
     (atomics_ok s \<longrightarrow> atomics_ok s' \<and> rtags s' = rtags s \<and> pending s' = pending s \<and>
                        decided_tasks s' = decided_tasks s)"



lemma advances_refl [simp]: "advances s s"
  by (simp add: advances_def)

lemma RunAtomic_effect:
  obtains ts where "m_atomics (RunAtomic env p s) = m_atomics s" "rtags (RunAtomic env p s) = rtags s"
    "m_responderWaiting (RunAtomic env p s) = m_responderWaiting s" "m_store (RunAtomic env p s) = m_store s"
    "m_responders (RunAtomic env p s) = m_responders s"
    "st_activeResponses (m_stats (RunAtomic env p s)) = st_activeResponses (m_stats s)"
    "atomic_tasks (RunAtomic env p s) = atomic_tasks s @ ts"
    "ts = [] \<or> (\<exists>t. ts = [t] \<and> task_ptr t = p \<and> decided t = None)"
proof -
  have tags: "map rs_tag ((h_responders s)[p := (h_responders s ! p)\<lparr>rs_staged := True\<rparr>]) = map rs_tag (h_responders s)"
    by (metis Responder.select_convs(1) Responder.surjective Responder.update_convs(6) list_update_id
        list_update_beyond map_update nth_map linorder_not_less)
  show thesis
    by (rule that [of "if staged env then [T_atomicRun p] else if tlp env
          then [T_atomicFetched p (atomic_address (rs_tag (h_responders s ! p)))]
          else filter (\<lambda>t. CanSchedule (env_now env) (SaturatingAdd (SaturatingAdd (fst (env_reserve env p)) (snd (env_reserve env p)))
                        (atomicService (env_config env)))) [T_atomicExecute p]"])
      (simp_all add: RunAtomic_def atomic_run_def rtags_def atomic_tasks_def later_def say_def
        upd_responder_def ScheduleAction_def Let_def tags)
qed


lemma RunAtomic_keeps [simp]:
  "m_store (RunAtomic env p s) = m_store s"
  "rtags (RunAtomic env p s) = rtags s"
  "m_responderWaiting (RunAtomic env p s) = m_responderWaiting s"
  "m_responders (RunAtomic env p s) = m_responders s"
  "m_atomics (RunAtomic env p s) = m_atomics s"
  "st_activeResponses (m_stats (RunAtomic env p s)) = st_activeResponses (m_stats s)"
  by (rule RunAtomic_effect; assumption)+

text \<open>Starting the responder at the head of the waiting line keeps what is pending.\<close>

lemma StartResponder_keeps [simp]:
  "m_store (StartResponder env p s) = m_store s"
  "rtags (StartResponder env p s) = rtags s"
  "m_responderWaiting (StartResponder env p s) = m_responderWaiting s"
  "m_responders (StartResponder env p s) = m_responders s"
  "st_activeResponses (m_stats (StartResponder env p s)) = st_activeResponses (m_stats s)"
proof -
  let ?f = "\<lambda>s. (rtags s, m_responderWaiting s, m_responders s, st_activeResponses (m_stats s))"
  show "m_store (StartResponder env p s) = m_store s"
    by (simp add: StartResponder_def Let_def read_send_def ScheduleAction_def later_def say_def
        upd_stats_def upd_responder_def)
  have "?f (StartResponder env p s) = ?f s"
  proof (cases "tag_opcode (rs_tag (h_responders s ! p)) = OP_READ")
    case True
    then have "same_atomics s (StartResponder env p s)" by (simp add: StartResponder_def Let_def)
    then show ?thesis by (simp add: same_atomics_def)
  qed (simp add: StartResponder_def Let_def rtags_def [of "s\<lparr>m_atomics := _\<rparr>"], simp add: rtags_def)
  then show "rtags (StartResponder env p s) = rtags s"
    "m_responderWaiting (StartResponder env p s) = m_responderWaiting s"
    "m_responders (StartResponder env p s) = m_responders s"
    "st_activeResponses (m_stats (StartResponder env p s)) = st_activeResponses (m_stats s)"
    by simp_all
qed


lemma pump_store [simp]: "m_store (pump_responders env ps s) = m_store s"
  by (induction env ps s rule: pump_responders.induct) (simp_all add: Let_def upd_stats_def)

text \<open>One turn of the pump: the responder is entered and counted, then started.\<close>

definition enter_responder :: "nat \<Rightarrow> nat list \<Rightarrow> engine \<Rightarrow> engine" where
  "enter_responder p ps s =
     upd_stats (\<lambda>st. st\<lparr>st_activeResponses := st_activeResponses st + 1,
                         st_responsePeak := max (st_responsePeak st) (st_activeResponses st + 1)\<rparr>)
       (s\<lparr>m_responderWaiting := ps,
          m_responders := omap_put (tag_key (rs_tag (h_responders s ! p))) p (m_responders s)\<rparr>)"

lemma enter_responder_keeps [simp]:
  "rtags (enter_responder p ps s) = rtags s" "m_responderWaiting (enter_responder p ps s) = ps"
  "m_atomics (enter_responder p ps s) = m_atomics s" "atomic_tasks (enter_responder p ps s) = atomic_tasks s"
  "decided_tasks (enter_responder p ps s) = decided_tasks s" "m_store (enter_responder p ps s) = m_store s"
  by (simp_all add: enter_responder_def upd_stats_def rtags_def atomic_tasks_def decided_tasks_def)

lemma pump_step:
  "st_activeResponses (m_stats s) < ucast (responderDepth (env_config env)) \<Longrightarrow>
   pump_responders env (p # ps) s = pump_responders env ps (StartResponder env p (enter_responder p ps s))"
  by (simp add: enter_responder_def Let_def)


lemma PumpResponders_keeps [simp]: "m_store (PumpResponders env s) = m_store s"
  by (simp add: PumpResponders_def)


lemma FinishResponder_store [simp]: "m_store (FinishResponder env k s) = m_store s"
  by (simp add: FinishResponder_def Let_def upd_stats_def say_def split: option.splits)


lemma responder_acknowledged_store [simp]: "m_store (responder_acknowledged env h s) = m_store s"
  by (simp add: responder_acknowledged_def Let_def upd_responder_def split: option.splits)




subsection \<open>An atomic takes effect\<close>








subsection \<open>The register an atomic works on\<close>


type_synonym answer = "u16 \<times> u8 list \<times> RdmaOperationTag"


text \<open>The answers to atomics among the packets an engine is about to transmit.\<close>

fun answer_of :: "task \<Rightarrow> answer list" where
  "answer_of (T_transmit peer packet tag qp flow vc imm) =
     (if tag_phase tag = PH_ATOMIC_RESPONSE then [(peer, packet, tag)] else [])"
| "answer_of _ = []"

definition answers :: "engine \<Rightarrow> answer list" where
  "answers s = concat (map answer_of (tasks s))"



lemma answers_simps [simp]:
  "answers (say e s) = answers s"
  "answers (later t s) = answers s @ answer_of t"
  "answers (upd_stats f s) = answers s"
  "answers (upd_responder p g s) = answers s"
  "answers (Acknowledge h c s) = answers s"
  "answers (s\<lparr>m_store := m\<rparr>) = answers s"
  "answers (s\<lparr>m_atomics := at\<rparr>) = answers s"
  "answers (s\<lparr>m_responders := rs\<rparr>) = answers s"
  "answer_of t = [] \<Longrightarrow> answers (fst (ScheduleAction env d t s)) = answers s"
  by (simp_all add: answers_def say_def later_def upd_stats_def upd_responder_def Acknowledge_def ScheduleAction_def Let_def
      split: option.splits)

lemma RunAtomic_answers [simp]: "answers (RunAtomic env p s) = answers s"
  by (simp add: RunAtomic_def atomic_run_def Let_def)

lemma StartResponder_answers [simp]: "answers (StartResponder env p s) = answers s"
  by (simp add: StartResponder_def read_send_def Let_def)

lemma pump_answers [simp]: "answers (pump_responders env ps s) = answers s"
proof (induction ps arbitrary: s)
  case (Cons p ps)
  have "answers (s\<lparr>m_responderWaiting := ps, m_responders := rs\<rparr>) = answers s" for rs
    by (simp add: answers_def)
  then show ?case using Cons.IH by (simp add: Let_def)
qed simp

lemma FinishResponder_answers [simp]: "answers (FinishResponder env k s) = answers s"
  by (simp add: FinishResponder_def PumpResponders_def Let_def split: option.splits)







subsection \<open>One step of the engine\<close>

text \<open>The atomic that takes effect in a step: its address and its request.\<close>

definition commit_of :: "engine \<Rightarrow> environment \<times> operation \<Rightarrow> (u64 \<times> RdmaOperationTag) option" where
  "commit_of s x =
     (case snd x of
        O_Fire i \<Rightarrow>
          if i < length (tasks s) \<and> \<not> m_disposed s then
            (case tasks s ! i of
               T_atomicExecute p \<Rightarrow>
                 if staged (fst x) then None else Some (atomic_address (rtags s ! p), rtags s ! p)
             | T_atomicCommit p a old new \<Rightarrow> Some (a, rtags s ! p)
             | _ \<Rightarrow> None)
          else None
      | _ \<Rightarrow> None)"










text \<open>Every operation keeps the memory invariant.\<close>

lemma m_store_simps [simp]:
  "m_store (say e s) = m_store s"
  "m_store (later t s) = m_store s"
  "m_store (fst (ScheduleAction env d t s)) = m_store s"
  "m_store (upd_stats f s) = m_store s"
  "m_store (upd_source p g s) = m_store s"
  "m_store (upd_incoming p h s) = m_store s"
  "m_store (upd_responder p k s) = m_store s"
  "m_store (Acknowledge hdr c s) = m_store s"
  "m_store (read_send env p s) = m_store s"
  "m_store (send_piece env peer tag qp flow vc a off n packet zero s) = m_store s"
  by (simp_all add: say_def later_def ScheduleAction_def upd_stats_def upd_source_def
      upd_incoming_def upd_responder_def Acknowledge_def read_send_def send_piece_def Let_def
      split: option.splits)



































text \<open>
  The whole step: the invariant is kept; if an atomic takes effect it is the oldest pending
  one of its address, it has seen the current value and stores the value it computes from
  it; otherwise new requests join the line.
\<close>









lemma other_stores [simp]:
  "m_store (PacketSent h t s) = m_store s"
  "m_store (PermanentLoss h s) = m_store s"
  "m_store (SubmitCompleted r p i c b s) = m_store s"
  by (simp_all add: PacketSent_def PermanentLoss_def SubmitCompleted_def Let_def split: option.splits)





subsection \<open>The slots of the responders\<close>

text \<open>Two states agree on which requests are answered and which wait.\<close>

definition same_slots :: "engine \<Rightarrow> engine \<Rightarrow> bool" where
  "same_slots s s' =
     (rtags s' = rtags s \<and> m_responderWaiting s' = m_responderWaiting s \<and>
      m_responders s' = m_responders s \<and>
      st_activeResponses (m_stats s') = st_activeResponses (m_stats s))"

lemma same_atomics_slots: "same_atomics s s' \<Longrightarrow> same_slots s s'"
  by (simp add: same_atomics_def same_slots_def)

text \<open>
  The requests that are answered are counted exactly and fill at most \<open>depth\<close> slots; a
  request waits only while all slots are taken; no two requests have the same key.
\<close>

definition slots_ok :: "u32 \<Rightarrow> engine \<Rightarrow> bool" where
  "slots_ok depth s =
     (omap_wf (m_responders s) \<and>
      (\<forall>(k, p) \<in> set (m_responders s). p < length (rtags s) \<and> tag_key (rtags s ! p) = k) \<and>
      unat (st_activeResponses (m_stats s)) = length (m_responders s) \<and>
      length (m_responders s) \<le> unat depth \<and>
      (m_responderWaiting s \<noteq> [] \<longrightarrow> length (m_responders s) = unat depth) \<and>
      distinct (map tag_key (rtags s)) \<and> distinct (m_responderWaiting s) \<and>
      (\<forall>p \<in> set (m_responderWaiting s). p < length (rtags s) \<and>
         omap_find (m_responders s) (tag_key (rtags s ! p)) = None))"

lemma same_slots_ok: "same_slots s s' \<Longrightarrow> slots_ok d s' = slots_ok d s"
  by (simp add: same_slots_def slots_ok_def)

text \<open>The same without the claim that nobody waits in vain: what the pump starts from.\<close>

definition slots_free :: "u32 \<Rightarrow> engine \<Rightarrow> bool" where
  "slots_free depth s =
     (omap_wf (m_responders s) \<and>
      (\<forall>(k, p) \<in> set (m_responders s). p < length (rtags s) \<and> tag_key (rtags s ! p) = k) \<and>
      unat (st_activeResponses (m_stats s)) = length (m_responders s) \<and>
      length (m_responders s) \<le> unat depth \<and>
      distinct (map tag_key (rtags s)) \<and> distinct (m_responderWaiting s) \<and>
      (\<forall>p \<in> set (m_responderWaiting s). p < length (rtags s) \<and>
         omap_find (m_responders s) (tag_key (rtags s ! p)) = None))"

lemma slots_ok_free:
  "slots_ok d s \<longleftrightarrow> slots_free d s \<and> (m_responderWaiting s \<noteq> [] \<longrightarrow> length (m_responders s) = unat d)"
  by (auto simp: slots_ok_def slots_free_def)

lemma unat_ucast_u32: "unat (ucast (d :: u32) :: u64) = unat d"
  by (simp add: unsigned_ucast_eq take_bit_nat_eq_self_iff less_trans [OF unsigned_less])

lemma unat_u32_less: "unat (d :: u32) < 2 ^ 32"
  using unsigned_less [of d, where ?'a = nat] by simp

lemma distinct_key_index:
  "distinct (map tag_key rt) \<Longrightarrow> p < length rt \<Longrightarrow> q < length rt \<Longrightarrow>
   tag_key (rt ! p) = tag_key (rt ! q) \<longleftrightarrow> p = q"
  using nth_eq_iff_index_eq [of "map tag_key rt" p q] by simp

lemma enter_slots:
  assumes free: "slots_free d s" and w: "m_responderWaiting s = p # ps"
    and room: "st_activeResponses (m_stats s) < ucast d"
  shows "slots_free d (enter_responder p ps s)"
proof -
  let ?u = "enter_responder p ps s" and ?k = "tag_key (rtags s ! p)" and ?act = "st_activeResponses (m_stats s)"
  have p: "p < length (rtags s)" "omap_find (m_responders s) ?k = None" "p \<notin> set ps"
    using free w by (simp_all add: slots_free_def)
  have wf: "omap_wf (m_responders s)" using free by (simp add: slots_free_def)
  have r: "m_responders ?u = omap_put ?k p (m_responders s)"
    using p(1) by (simp add: enter_responder_def upd_stats_def rtags_def)
  have len: "length (omap_put ?k p (m_responders s)) = Suc (length (m_responders s))"
    using ost.size_put [OF wf, of ?k p] p(2) by simp
  have act: "unat ?act = length (m_responders s)" using free by (simp add: slots_free_def)
  have "unat ?act < unat d" using room by (simp add: word_less_nat_alt unat_ucast_u32)
  then have "unat (?act + 1) = Suc (unat ?act)" "Suc (unat ?act) \<le> unat d"
    using unat_u32_less [of d] by (simp_all add: unat_plus_if')
  moreover have "st_activeResponses (m_stats ?u) = ?act + 1" by (simp add: enter_responder_def upd_stats_def)
  moreover have "set (omap_put ?k p (m_responders s)) \<subseteq> insert (?k, p) (set (m_responders s))"
    using wf by (auto simp: omap_mem_iff omap_wf_put omap_find_put split: if_splits)
  moreover have "tag_key (rtags s ! q) \<noteq> ?k" if "q \<in> set ps" for q
    using that free w p by (auto simp: slots_free_def distinct_key_index)
  ultimately show ?thesis
    using free w p wf act len by (auto simp: slots_free_def r omap_wf_put omap_find_put)
qed

lemma same_slots_free: "same_slots s s' \<Longrightarrow> slots_free d s' = slots_free d s"
  by (simp add: same_slots_def slots_free_def)

lemma pump_slots:
  "slots_free d s \<Longrightarrow> m_responderWaiting s = ps \<Longrightarrow> responderDepth (env_config env) = d \<Longrightarrow>
   slots_ok d (pump_responders env ps s)"
proof (induction ps arbitrary: s)
  case Nil
  then show ?case by (simp add: slots_ok_free)
next
  case (Cons p ps)
  show ?case
  proof (cases "st_activeResponses (m_stats s) < ucast d")
    case True
    let ?u = "enter_responder p ps s" and ?v = "StartResponder env p (enter_responder p ps s)"
    have "slots_free d ?u" by (rule enter_slots [OF Cons.prems(1,2) True])
    then have "slots_free d ?v" using same_slots_free [of ?u ?v d] by (simp add: same_slots_def)
    then have "slots_ok d (pump_responders env ps ?v)" using Cons.prems(3) by (intro Cons.IH) simp_all
    then show ?thesis using True Cons.prems(3) pump_step [of s env p ps] by simp
  next
    case False
    then have "length (m_responders s) = unat d"
      using Cons.prems(1) by (auto simp: slots_free_def word_less_nat_alt unat_ucast_u32)
    with False Cons.prems show ?thesis by (simp add: slots_ok_free)
  qed
qed

lemma PumpResponders_slots:
  "slots_free d s \<Longrightarrow> responderDepth (env_config env) = d \<Longrightarrow> slots_ok d (PumpResponders env s)"
  by (simp add: PumpResponders_def pump_slots)

lemma FinishResponder_slots:
  assumes ok: "slots_ok d s" and d: "responderDepth (env_config env) = d"
  shows "slots_ok d (FinishResponder env k s)"
proof (cases "omap_find (m_responders s) k")
  case None
  then show ?thesis using ok by (simp add: FinishResponder_def)
next
  case (Some p)
  define w where "w = (if rs_staged (h_responders s ! p) then say (E_releaseSource (tag_bytes (rs_tag (h_responders s ! p)))) s else s)"
  define u where "u = upd_stats (\<lambda>st. st\<lparr>st_activeResponses := st_activeResponses st - 1\<rparr>)
      (w\<lparr>m_responders := omap_erase k (m_responders w)\<rparr>)"
  have u: "rtags u = rtags s" "m_responderWaiting u = m_responderWaiting s"
    "m_responders u = omap_erase k (m_responders s)"
    "st_activeResponses (m_stats u) = st_activeResponses (m_stats s) - 1"
    by (simp_all add: u_def w_def say_def upd_stats_def rtags_def)
  have wf: "omap_wf (m_responders s)" and act: "unat (st_activeResponses (m_stats s)) = length (m_responders s)"
    using ok by (simp_all add: slots_ok_def)
  have len: "length (omap_erase k (m_responders s)) = length (m_responders s) - 1" "m_responders s \<noteq> []"
    using ost.size_erase [OF wf, of k] Some by auto
  then have "unat (st_activeResponses (m_stats s) - 1) = length (m_responders s) - 1"
    using act by (subst unat_sub) (simp_all add: word_le_nat_alt Suc_le_eq)
  moreover have "set (omap_erase k (m_responders s)) \<subseteq> set (m_responders s)" by (auto simp: omap_erase_def)
  ultimately have "slots_free d u"
    using ok wf len by (auto simp: slots_free_def slots_ok_def u omap_erase_def omap_wf_filter omap_find_erase [unfolded omap_erase_def])
  moreover have "FinishResponder env k s = PumpResponders env u"
    using Some by (simp add: FinishResponder_def Let_def u_def w_def)
  ultimately show ?thesis using PumpResponders_slots d by simp
qed

lemma QueueResponder_slots:
  assumes ok: "slots_ok d s" and d: "responderDepth (env_config env) = d"
    and new: "tag_key t \<notin> tag_key ` set (rtags s)"
  shows "slots_ok d (QueueResponder env t qp h s)"
proof -
  define u where "u = s\<lparr>h_responders := h_responders s @ [\<lparr>rs_tag = t, rs_qp = qp, rs_flow = GetFlowId h,
                       rs_vc = GetVirtualChannel h, rs_acknowledged = 0, rs_staged = False, rs_header = h\<rparr>],
      m_responderWaiting := m_responderWaiting s @ [length (h_responders s)]\<rparr>"
  have u: "rtags u = rtags s @ [t]" "m_responderWaiting u = m_responderWaiting s @ [length (rtags s)]"
    "m_responders u = m_responders s" "m_stats u = m_stats s"
    by (simp_all add: u_def rtags_def)
  have "omap_find (m_responders s) (tag_key t) = None"
  proof (rule ccontr)
    assume "omap_find (m_responders s) (tag_key t) \<noteq> None"
    then obtain p where "(tag_key t, p) \<in> set (m_responders s)"
      using ok by (auto simp: slots_ok_def omap_mem_iff)
    then have "p < length (rtags s)" "tag_key (rtags s ! p) = tag_key t" using ok by (auto simp: slots_ok_def)
    with new show False by (metis image_eqI nth_mem)
  qed
  then have "slots_free d u"
    using ok new by (fastforce simp: slots_free_def slots_ok_def u nth_append)
  moreover have "QueueResponder env t qp h s = PumpResponders env u"
    by (simp add: QueueResponder_def Let_def u_def)
  ultimately show ?thesis using PumpResponders_slots d by simp
qed

lemma same_slots_trans: "same_slots s s' \<Longrightarrow> same_slots s' s'' \<Longrightarrow> same_slots s s''"
  by (simp add: same_slots_def)

lemma later_slots [simp]: "same_slots s (later t s') = same_slots s s'"
  by (simp add: same_slots_def later_def rtags_def)

lemma say_slots [simp]: "same_slots s (say e s') = same_slots s s'"
  by (simp add: same_slots_def say_def rtags_def)

lemma Schedule_slots [simp]: "same_slots s (fst (ScheduleAction env d t s')) = same_slots s s'"
  by (simp add: ScheduleAction_def)

lemma task_slots [simp]: "same_slots s (s'\<lparr>tasks := ts\<rparr>) = same_slots s s'"
  by (simp add: same_slots_def rtags_def)

lemma store_slots [simp]: "same_slots s (s'\<lparr>m_store := m\<rparr>) = same_slots s s'"
  by (simp add: same_slots_def rtags_def)

lemma same_slots_refl [simp]: "same_slots s s"
  by (simp add: same_slots_def)

lemma atomic_run_slots: "same_slots s (atomic_run env p s)"
  by (simp add: atomic_run_def Let_def)

lemma next_atomic_slots: "next_atomic env a s = Inr s' \<Longrightarrow> same_slots s s'"
  by (auto simp: next_atomic_def same_slots_def split: option.splits list.splits) (simp_all add: rtags_def)

lemma atomic_reply_slots:
  assumes ok: "slots_ok d s" and d: "responderDepth (env_config env) = d"
  shows "slots_ok d (atomic_reply env p old s)"
proof (cases "tag_opcode (rs_tag (h_responders s ! p)) = OP_SIGNAL")
  case True
  let ?r = "h_responders s ! p"
  let ?w = "Acknowledge (rs_header ?r) (Some ((rs_tag ?r)\<lparr>tag_phase := PH_COMPLETE\<rparr>))
              (upd_stats (\<lambda>st. st\<lparr>st_signalUpdates := st_signalUpdates st + 1\<rparr>) s)"
  have "same_slots s ?w" by (rule same_atomics_slots) simp
  then have "slots_ok d ?w" using ok by (simp add: same_slots_ok)
  then show ?thesis using True FinishResponder_slots d by (simp add: atomic_reply_def Let_def)
next
  case False
  then have "same_slots s (atomic_reply env p old s)"
    by (intro same_atomics_slots) (simp add: atomic_reply_def Let_def)
  then show ?thesis using ok by (simp add: same_slots_ok)
qed

lemma atomic_commit_slots:
  assumes ok: "slots_ok d s" and d: "responderDepth (env_config env) = d"
    and run: "atomic_commit env p a old new s = Inr s'"
  shows "slots_ok d s'"
proof -
  from run obtain m where n: "next_atomic env a (atomic_reply env p old (say E_dataReady (s\<lparr>m_store := m\<rparr>))) = Inr s'"
    by (auto simp: atomic_commit_def on_store_def)
  have "slots_ok d (say E_dataReady (s\<lparr>m_store := m\<rparr>))"
    using ok same_slots_ok [of s "say E_dataReady (s\<lparr>m_store := m\<rparr>)" d] by simp
  then have "slots_ok d (atomic_reply env p old (say E_dataReady (s\<lparr>m_store := m\<rparr>)))"
    by (rule atomic_reply_slots [OF _ d])
  then show ?thesis using next_atomic_slots [OF n] by (simp add: same_slots_ok)
qed

lemma run_task_slots:
  assumes ok: "slots_ok d s" and d: "responderDepth (env_config env) = d" and run: "run_task env t s = Inr s'"
  shows "slots_ok d s'"
proof (cases "atomic_task t")
  case False
  then show ?thesis
    using ok same_slots_ok [OF same_atomics_slots [OF run_task_frame [OF False run]]] by simp
next
  case True
  have same: "same_slots s s' \<Longrightarrow> ?thesis" using ok by (simp add: same_slots_ok)
  show ?thesis
  proof (cases t)
    case (T_atomicRun p)
    then show ?thesis using run atomic_run_slots [of s env p] by (intro same) auto
  next
    case (T_atomicExecute p)
    then show ?thesis
      using run atomic_commit_slots [OF ok d] same
      by (auto simp: atomic_execute_def Let_def split: if_splits)
  next
    case (T_atomicCommit p a old new)
    have "slots_ok d (say (E_releaseReceive 8) s)"
      using ok same_slots_ok [of s "say (E_releaseReceive 8) s" d] by simp
    then show ?thesis using run T_atomicCommit atomic_commit_slots [OF _ d] by auto
  qed (use run True same in auto)
qed

text \<open>
  What the surroundings promise: one configuration, work identifiers that a peer does
  not use twice (\<open>m_nextId\<close> of its submission model only grows), and that the engine is not
  disposed of, which forgets the responders and leaves their number as it is.
\<close>

definition fair_step :: "u32 \<Rightarrow> engine \<Rightarrow> environment \<times> operation \<Rightarrow> bool" where
  "fair_step depth s x =
     (responderDepth (env_config (fst x)) = depth \<and>
      (case snd x of
         O_Receive pk (Some t) w h \<Rightarrow>
           tag_phase t = PH_REQUEST \<longrightarrow> tag_key t \<notin> tag_key ` set (rtags s)
       | O_DoDispose \<Rightarrow> False
       | _ \<Rightarrow> True))"

lemma Receive_slots:
  assumes ok: "slots_ok d s" and fair: "fair_step d s (env, O_Receive pk tag work h)"
    and run: "Receive env pk tag work h s = Inr (s', b)"
  shows "slots_ok d s'"
proof -
  have d: "responderDepth (env_config env) = d" using fair by (simp add: fair_step_def)
  have same: "same_atomics s s' \<Longrightarrow> ?thesis" using ok same_slots_ok [OF same_atomics_slots] by simp
  have queue: "slots_ok d (QueueResponder env t qp h u)"
    if "same_atomics s u" "tag = Some t" "tag_phase t = PH_REQUEST" for t qp u
  proof -
    have u: "same_slots s u" by (rule same_atomics_slots [OF that(1)])
    then have "tag_key t \<notin> tag_key ` set (rtags u)"
      using fair that by (simp add: fair_step_def same_slots_def)
    then show ?thesis using QueueResponder_slots [OF _ d] ok same_slots_ok [OF u] by simp
  qed
  from run show ?thesis
    using same queue AcceptData_frame [of env pk h _ _ s s']
    by (auto simp: Receive_def Let_def split: option.splits if_splits)
qed

lemma responder_acknowledged_slots:
  assumes ok: "slots_ok d s" and d: "responderDepth (env_config env) = d"
  shows "slots_ok d (responder_acknowledged env h s)"
proof (cases "omap_find (m_sent s) (AckKey h)")
  case None
  then show ?thesis using ok by (simp add: responder_acknowledged_def)
next
  case (Some saved)
  let ?s = "s\<lparr>m_sent := omap_erase (AckKey h) (m_sent s)\<rparr>"
  let ?v = "\<lambda>p. upd_responder p (\<lambda>r. r\<lparr>rs_acknowledged := rs_acknowledged r + sent_bytes saved\<rparr>) ?s"
  have same: "same_slots s ?s" "same_slots s (?v p)" for p by (rule same_atomics_slots, simp)+
  have "slots_ok d ?s" "slots_ok d (?v p)" for p
    using ok same_slots_ok [OF same(1)] same_slots_ok [OF same(2)] by blast+
  moreover from this have "slots_ok d (FinishResponder env k (?v p))" for k p
    by (intro FinishResponder_slots [OF _ d])
  ultimately show ?thesis
    unfolding responder_acknowledged_def Some Let_def by (simp split: option.splits)
qed

lemma PacketAcknowledged_slots:
  assumes ok: "slots_ok d s" and d: "responderDepth (env_config env) = d"
  shows "slots_ok d (PacketAcknowledged env h t s)"
proof -
  let ?u = "responder_acknowledged env h s"
  have "same_atomics ?u (PacketAcknowledged env h t s)"
    by (simp add: PacketAcknowledged_def Let_def split: option.splits)
  then show ?thesis
    using responder_acknowledged_slots [OF ok d] same_slots_ok [OF same_atomics_slots] by blast
qed

lemma step_slots:
  assumes ok: "slots_ok d s" and fair: "fair_step d s (env, op)" and run: "engine_step s (env, op) = Inr s'"
  shows "slots_ok d s'"
proof -
  have d: "responderDepth (env_config env) = d" using fair by (simp add: fair_step_def)
  have same: "same_atomics s s' \<Longrightarrow> ?thesis" using ok same_slots_ok [OF same_atomics_slots] by simp
  show ?thesis
  proof (cases op)
    case (O_Receive pk tag work h)
    then show ?thesis using run Receive_slots [OF ok] fair by auto
  next
    case (O_PacketAcknowledged h t)
    then show ?thesis using run PacketAcknowledged_slots [OF ok d] by auto
  next
    case (O_Fire i)
    show ?thesis
    proof (cases "i < length (tasks s)")
      case True
      let ?u = "s\<lparr>tasks := take i (tasks s) @ drop (Suc i) (tasks s)\<rparr>"
      have u: "slots_ok d ?u" using ok same_slots_ok [of s ?u d] by simp
      from True run O_Fire have "s' = ?u \<or> run_task env (tasks s ! i) ?u = Inr s'"
        by (auto simp: Fire_def Let_def split: if_splits)
      then show ?thesis using u run_task_slots [OF u d] by blast
    next
      case False
      then show ?thesis using run O_Fire ok by (simp add: Fire_def)
    qed
  next
    case (O_Configure rank given)
    then show ?thesis using run Configure_frame by (intro same) auto
  next
    case (O_SetPayloadLimit limit)
    then show ?thesis using run SetPayloadLimit_frame [of s limit] by (intro same) auto
  next
    case O_DoDispose
    then show ?thesis using fair by (simp add: fair_step_def)
  next
    case (O_PostReceive i a n c peer qp k)
    then show ?thesis using run PostReceive_frame by (intro same) auto
  next
    case (O_Submit r)
    then show ?thesis using run Submit_frame by (intro same) auto
  next
    case (O_Execute r w p)
    then show ?thesis using run Execute_frame by (intro same) auto
  next
    case (O_PacketSent h t)
    then show ?thesis using run PacketSent_frame [of s h t] by (intro same) auto
  next
    case (O_PermanentLoss h)
    then show ?thesis using run PermanentLoss_frame [of s h] by (intro same) auto
  next
    case (O_SubmitCompleted r p i c b)
    then show ?thesis using run SubmitCompleted_frame [of s r p i c b] by (intro same) auto
  next
    case (O_Poll i)
    then show ?thesis using run Poll_frame [of s i] by (intro same) auto
  next
    case (O_CancelSignalWait i)
    then show ?thesis using run by (intro same) auto
  qed (use run in \<open>auto intro!: same dest: on_store_frame\<close>)
qed

interpretation slots: invariant_machine engine_step "slots_ok d" "fair_step d" for d
  by unfold_locales (use step_slots in fastforce)

subsection \<open>Properties\<close>

text \<open>
  The atomics that take effect on an address in a run, each with the answers its step hands
  to the fabric, read off the packets the engine is about to transmit.
\<close>

fun commit_log :: "u64 \<Rightarrow> engine \<Rightarrow> (environment \<times> operation) list \<Rightarrow> (RdmaOperationTag \<times> answer list) list" where
  "commit_log a s [] = []"
| "commit_log a s (x # xs) =
     (case engine_step s x of
        Inl _ \<Rightarrow> []
      | Inr s' \<Rightarrow>
          (case commit_of s x of
             Some (b, t) \<Rightarrow> if b = a then [(t, drop (length (answers s)) (answers s'))] else []
           | None \<Rightarrow> []) @ commit_log a s' xs)"







lemma commit_log_Nil: "commit_log a s [] = []"
  by simp



text \<open>
  C9: the responder slots. In every state an engine reaches, the count of responses in
  progress is the number of requests entered as being answered, never above
  \<open>responderDepth\<close>, and a request waits only when every slot is taken: neither a slot nor
  a waiting request is ever lost, whatever is acknowledged or completed in between.
\<close>

theorem responder_slots_are_never_lost:
  assumes "admissible engine_step (fair_step d) engine_new xs" "run_ops engine_step engine_new xs = Inr s"
  shows "unat (st_activeResponses (m_stats s)) = length (m_responders s)
    \<and> length (m_responders s) \<le> unat d
    \<and> (m_responderWaiting s \<noteq> [] \<longrightarrow> length (m_responders s) = unat d)
    \<and> (\<forall>p \<in> set (m_responderWaiting s). omap_find (m_responders s) (tag_key (rtags s ! p)) = None)"
proof -
  have "slots_ok d engine_new" by (simp add: slots_ok_def engine_new_def stats_new_def rtags_def)
  from slots.run_keeps [OF this assms] show ?thesis by (simp add: slots_ok_def)
qed

text \<open>
  A small run of rank 4: sixteen bytes registered at 8, and two fetch-and-adds on the word at 16 from
  the ranks 5 and 6.
\<close>

definition sample_environment :: "u32 \<Rightarrow> environment" where
  "sample_environment depth =
     \<lparr>env_now = 0,
      env_config = \<lparr>pcieModel = ''bandwidth'', dataPath = ''gpudirect'', mtuBytes = 4096,
        qpsPerPeer = 1, responderDepth = depth, receiveQueueDepth = 128, rnrRetryLimit = 7,
        readService = 0, atomicService = 3, rnrRetry = 1000, receivePost = 0, signalPoll = 0\<rparr>,
      env_work = (\<lambda>_. None), env_succeeded = (\<lambda>_. True), env_reserve = (\<lambda>_. (1, 2)),
      env_submitted = 1\<rparr>"

definition sample_request :: "u16 \<Rightarrow> u64 \<Rightarrow> RdmaOperationTag" where
  "sample_request rank amount =
     RdmaOperationTag_new\<lparr>tag_opcode := OP_FETCH_ADD, tag_phase := PH_REQUEST, tag_owner := rank,
       tag_workId := 1, tag_bytes := 8, tag_remoteAddress := 16, tag_operand := amount\<rparr>"

definition sample_arrivals :: "u32 \<Rightarrow> (environment \<times> operation) list" where
  "sample_arrivals depth =
     [(sample_environment depth, O_Configure 4 True), (sample_environment depth, O_RegisterMemory 8 16 1),
      (sample_environment depth, O_Receive [] (Some (sample_request 5 7)) (Some 0) FabricHeader_new),
      (sample_environment depth, O_Receive [] (Some (sample_request 6 2)) (Some 0) FabricHeader_new)]"




theorem responder_slots_are_never_lost_witness:
  "\<exists>s. run_ops engine_step engine_new (sample_arrivals 1) = Inr s \<and> m_responderWaiting s = [1]
     \<and> unat (st_activeResponses (m_stats s)) = 1"
proof -
  have eval: "(case run_ops engine_step engine_new (sample_arrivals 1) of Inl _ \<Rightarrow> False | Inr s \<Rightarrow> m_responderWaiting s = [1])
      \<and> admissible engine_step (fair_step 1) engine_new (sample_arrivals 1)"
    by code_simp
  then obtain s where s: "run_ops engine_step engine_new (sample_arrivals 1) = Inr s" "m_responderWaiting s = [1]"
    by (auto split: sum.splits)
  from responder_slots_are_never_lost [OF conjunct2 [OF eval] s(1)] s(2) have "unat (st_activeResponses (m_stats s)) = 1" by simp
  with s show ?thesis by blast
qed

end
