(* ===== verification/RdmaTransfer.thy ===== *)
theory RdmaTransfer
  imports RdmaEngine "HOL-Library.Multiset"
begin

text \<open>
  Moving a message from one engine's memory to another's: \<open>SendPayload\<close> cuts a registered
  range into fragments that carry exactly its bytes, and the receiving engine, given these
  fragments in any order, ends with those bytes at the destination, nothing else changed,
  and one completion. The theorem is about the direct data path.
\<close>

subsection \<open>The fragments of a message\<close>









subsection \<open>Sending\<close>


lemma send_piece_simps [simp]:
  "m_store (send_piece env peer tag qp flow vc a off n packet zero s) = m_store s"
  "tasks (send_piece env peer tag qp flow vc a off n packet zero s) = tasks s @
     [T_transmit peer packet (tag\<lparr>tag_fragmentOffset := off, tag_zeroPayload := zero\<rparr>) qp flow vc
        (if off = 0 \<and> (tag_opcode tag = OP_SEND_IMM \<or> tag_opcode tag = OP_WRITE_IMM) then 4 else 0)]"
  by (simp_all add: send_piece_def Let_def later_def say_def upd_stats_def)



subsection \<open>Receiving\<close>





text \<open>An incoming message of which \<open>got\<close> bytes have been counted.\<close>

definition receiving :: "engine \<Rightarrow> nat \<Rightarrow> u64 \<Rightarrow> u8 list \<Rightarrow> nat \<Rightarrow> bool" where
  "receiving s p A data got =
     (p < length (h_incoming s) \<and> in_address (h_incoming s ! p) = A \<and>
      unat (tag_bytes (in_tag (h_incoming s ! p))) = length data \<and>
      unat (in_received (h_incoming s ! p)) = got \<and>
      tag_phase (in_tag (h_incoming s ! p)) \<noteq> PH_ATOMIC_RESPONSE \<and>
      memory_ok (m_store s) \<and> (\<exists>k. InRegion (m_store s) k A (of_nat (length data))))"



text \<open>The packets acknowledged so far.\<close>

definition acked :: "engine \<Rightarrow> FabricHeader list" where
  "acked s = List.map_filter (\<lambda>e. case e of E_ack h \<Rightarrow> Some h | _ \<Rightarrow> None) (events s)"

lemma acked_simps [simp]:
  "acked (say e s) = acked s @ (case e of E_ack h \<Rightarrow> [h] | _ \<Rightarrow> [])"
  "acked (later t s) = acked s"
  "acked (upd_incoming p f s) = acked s"
  "acked (upd_source p g s) = acked s"
  "acked (upd_stats k s) = acked s"
  "acked (s\<lparr>m_store := m\<rparr>) = acked s"
  "acked (s\<lparr>m_incoming := mi\<rparr>) = acked s"
  "acked (Acknowledge h c s) = acked s @ [h]"
  by (simp_all add: acked_def say_def later_def upd_incoming_def upd_source_def upd_stats_def
      Acknowledge_def Let_def map_filter_def split: event.splits option.splits)





text \<open>
  What happens at the receiver: a fragment arrives, or the write of one that has arrived is
  done and its callback runs. The two kinds interleave in any way.
\<close>

datatype move = Arrive (piece_of: Piece) | Written (piece_of: Piece)



fun writtens :: "move list \<Rightarrow> Piece list" where
  "writtens [] = []"
| "writtens (Written pc # ms) = pc # writtens ms"
| "writtens (Arrive pc # ms) = writtens ms"

fun arrivals :: "move list \<Rightarrow> Piece list" where
  "arrivals [] = []"
| "arrivals (Arrive pc # ms) = pc # arrivals ms"
| "arrivals (Written pc # ms) = arrivals ms"

lemma set_writtens: "set (writtens ms) \<subseteq> piece_of ` set ms"
  by (induction ms rule: writtens.induct) auto



text \<open>A plain message of which a fragment has arrived and \<open>got\<close> bytes are stored.\<close>

definition transferring :: "RdmaOperationTag \<Rightarrow> engine \<Rightarrow> nat \<Rightarrow> u64 \<Rightarrow> u8 list \<Rightarrow> nat \<Rightarrow> bool" where
  "transferring tag s p A data got =
     (receiving s p A data got \<and> tag_phase tag = PH_DATA \<and> tag_key tag \<notin> set (m_failedIncoming s) \<and>
      omap_find (m_rejectedAttempts s) (tag_key tag) = None \<and>
      omap_find (m_incoming s) (tag_key tag) = Some p \<and>
      in_allocated (h_incoming s ! p) \<and> \<not> in_response (h_incoming s ! p) \<and>
      tag_attempt (in_tag (h_incoming s ! p)) = tag_attempt tag)"




lemma transferring_arrive [simp]:
  "transferring tag (later t s) p A data got = transferring tag s p A data got"
  "transferring tag (say e s) p A data got = transferring tag s p A data got"
  by (simp_all add: transferring_def receiving_def later_def say_def)




subsection \<open>From memory to memory\<close>






lemma writtens_append [simp]: "writtens (xs @ ys) = writtens xs @ writtens ys"
  by (induction xs rule: writtens.induct) auto

lemma arrivals_append [simp]: "arrivals (xs @ ys) = arrivals xs @ arrivals ys"
  by (induction xs rule: arrivals.induct) auto















end
