(* ===== verification/RdmaSubmission.thy ===== *)
theory RdmaSubmission
  imports RdmaEngine
begin

text \<open>
  The RDMA submission model (\<open>rdma-submission-model.h\<close>, \<open>rdma-submission-model.cc\<close>,
  \<open>rdma-submission-pcie.cc\<close>): a request is split into work requests, these are staged,
  queued on queue pairs, published, rung, fetched and handed to the engine, and reclaimed
  through completion queue entries. As in \<open>RdmaEngine\<close> a closure handed to the simulator
  or to the PCIe fabric is a \<open>job\<close> with what it captures, the surroundings run pending jobs
  in any order, and a call of somebody else's callback is a \<open>notice\<close>; what a callback does to
  the model is a later operation. A closure whose deadline lies beyond the horizon is never
  scheduled; it is kept in \<open>unscheduled\<close>. The time a transfer takes on a channel at its
  configured (floating-point) rate is an argument.
\<close>

subsection \<open>Configuration\<close>

text \<open>\<open>PcieConfig\<close> and its check.\<close>

record PcieConfig =
  pcie_generation :: u32
  pcie_lanes :: u32
  pcie_topology :: string
  pcie_mps :: u32
  pcie_mrrs :: u32
  pcie_rcb :: u32
  pcie_tags :: u32
  pcie_maxReadBytes :: u32
  pcie_completionBufferBytes :: u32
  pcie_queuePackets :: u32
  pcie_credits :: "u32 list"
  pcie_replayBufferBytes :: u32
  pcie_ackEvery :: u32
  pcie_latencies :: "Time list"
  pcie_relaxedOrdering :: bool

definition powerOfTwo :: "u32 \<Rightarrow> bool" where
  "powerOfTwo n = (n \<noteq> 0 \<and> n AND (n - 1) = 0)"

definition PcieConfig_Validate :: "PcieConfig \<Rightarrow> unit result" where
  "PcieConfig_Validate c =
     (let credits = (!) (pcie_credits c); mps = pcie_mps c; abort = (\<lambda>m. Inl (NsAbort m)) in
      if pcie_generation c < 3 \<or> pcie_generation c > 5 then abort ''pcieGeneration supports Gen3--5 non-FLIT''
      else if \<not> powerOfTwo (pcie_lanes c) \<or> pcie_lanes c > 32 then abort ''pcieLanes must be 1,2,4,8,16,32''
      else if pcie_topology c \<noteq> ''switch'' \<and> pcie_topology c \<noteq> ''root''
      then abort ''pcieTopology must be switch or root''
      else if \<not> powerOfTwo mps \<or> mps < 128 \<or> mps > 4096
      then abort ''pcieMps must be a power of two in [128,4096]''
      else if \<not> powerOfTwo (pcie_mrrs c) \<or> pcie_mrrs c < 128 \<or> pcie_mrrs c > 4096
      then abort ''pcieMrrs must be a power of two in [128,4096]''
      else if pcie_rcb c \<noteq> 64 \<and> pcie_rcb c \<noteq> 128 then abort ''pcieRcb must be 64 or 128''
      else if pcie_tags c = 0 \<or> pcie_tags c > 256 then abort ''pcieTags must be in [1,256] (8-bit tags)''
      else if pcie_maxReadBytes c < 4 \<or> pcie_completionBufferBytes c < 4
      then abort ''PCIe read-byte and completion-buffer limits must be at least 4 B''
      else if pcie_queuePackets c = 0 \<or> pcie_queuePackets c > 65536
      then abort ''pcieQueuePackets must be in [1,65536]''
      else if credits 0 = 0 \<or> credits 2 = 0 \<or> credits 4 = 0 \<or> credits 1 < mps div 16 \<or> credits 5 < mps div 16
      then abort ''PCIe credits must hold a maximum-sized Posted/Completion TLP and an MRd''
      else if \<exists>k \<in> set (pcie_credits c). k > 2 ^ 24
      then abort ''PCIe credit capacity exceeds supported bounds''
      else if pcie_replayBufferBytes c < mps + 16 + 8
      then abort ''pcieReplayBufferBytes must hold a maximum-sized TLP''
      else if pcie_ackEvery c = 0 \<or> pcie_ackEvery c > 65536 then abort ''pcieAckEvery must be in [1,65536]''
      else if \<exists>t \<in> set (pcie_latencies c). t < 0 then abort ''PCIe timings must be nonnegative''
      else Inr ())"

text \<open>
  The rest of \<open>RdmaConfig\<close>. The eight bandwidths are doubles; what the code needs of them
  here is whether all are finite and nonnegative (\<open>ratesValid\<close>), and the time they make a
  transfer take, which is an argument of the operations.
\<close>

record RdmaSubmissionConfig = RdmaConfig +
  pcie :: PcieConfig
  initiator :: string
  cpuWorkers :: u32
  producers :: u32
  queueDepth :: u32
  doorbellBatch :: u32
  cqModeration :: u32
  wqeBytes :: u32
  doorbellBytes :: u32
  cqeBytes :: u32
  mapQpByProducer :: bool
  wqeBuild :: Time
  publish :: Time
  doorbell :: Time
  batchTimeout :: Time
  wqeFetch :: Time
  dmaReadLatency :: Time
  dmaWriteLatency :: Time
  cqWrite :: Time
  gpuPoll :: Time
  cpuWqeBuild :: Time
  cpuPublish :: Time
  cpuDoorbell :: Time
  cpuPoll :: Time
  cpuHandoff :: Time
  d2hLatency :: Time
  h2dLatency :: Time
  stagingChunkBytes :: u32
  stagingBufferBytes :: u32
  maxReadAtomic :: u32
  opName :: string
  signalOperation :: string
  receivePostDelay :: Time
  ratesValid :: bool

definition ProducerCount :: "RdmaSubmissionConfig \<Rightarrow> u32" where
  "ProducerCount c = (if initiator c = ''cpu'' then cpuWorkers c else producers c)"

definition config_times :: "RdmaSubmissionConfig \<Rightarrow> Time list" where
  "config_times c =
     [wqeBuild c, publish c, doorbell c, batchTimeout c, wqeFetch c, dmaReadLatency c,
      dmaWriteLatency c, cqWrite c, gpuPoll c, cpuWqeBuild c, cpuPublish c, cpuDoorbell c,
      cpuPoll c, cpuHandoff c, d2hLatency c, h2dLatency c, readService c, atomicService c,
      rnrRetry c, receivePost c, signalPoll c, receivePostDelay c]"

definition RdmaConfig_Validate :: "RdmaSubmissionConfig \<Rightarrow> unit result" where
  "RdmaConfig_Validate c =
     (if pcieModel c \<noteq> ''bandwidth'' \<and> pcieModel c \<noteq> ''tlp''
      then Inl (NsAbort ''pcieModel must be bandwidth or tlp'')
      else and_then (if pcieModel c = ''tlp'' then PcieConfig_Validate (pcie c) else Inr ()) (\<lambda>_.
           and_then (ParseRdmaOpcode (opName c)) (\<lambda>_.
      if signalOperation c \<noteq> ''set'' \<and> signalOperation c \<noteq> ''add''
      then Inl (NsAbort ''rdmaSignalOp must be set or add'')
      else if maxReadAtomic c > 65536 \<or> responderDepth c = 0 \<or> responderDepth c > 65536 \<or>
              receiveQueueDepth c = 0 \<or> receiveQueueDepth c > 1048576 \<or> rnrRetryLimit c > 65536
      then Inl (NsAbort ''RDMA read/atomic/receive limits exceed supported bounds'')
      else if rnrRetry c = 0 then Inl (NsAbort ''rdmaRnrRetryNs must be positive'')
      else if initiator c \<noteq> ''cpu'' \<and> initiator c \<noteq> ''gpu''
      then Inl (NsAbort ''rdmaInitiator must be cpu or gpu'')
      else if dataPath c \<noteq> ''host'' \<and> dataPath c \<noteq> ''staged'' \<and> dataPath c \<noteq> ''gpudirect''
      then Inl (NsAbort ''rdmaDataPath must be host, staged or gpudirect'')
      else if cpuWorkers c = 0 \<or> cpuWorkers c > 65536
      then Inl (NsAbort ''RDMA CPU workers must be in [1,65536]'')
      else if stagingChunkBytes c = 0 \<or> stagingBufferBytes c < stagingChunkBytes c
      then Inl (NsAbort ''RDMA staging buffer must hold at least one nonzero staging chunk'')
      else if producers c = 0 \<or> qpsPerPeer c = 0 \<or> queueDepth c = 0
      then Inl (NsAbort ''RDMA producers, QPs and queue depth must be positive'')
      else if producers c > 65536 \<or> qpsPerPeer c > 65536 \<or> queueDepth c > 1048576
      then Inl (NsAbort ''RDMA counts exceed supported producer/QP/queue bounds'')
      else if doorbellBatch c = 0 \<or> doorbellBatch c > queueDepth c \<or> cqModeration c = 0 \<or>
              cqModeration c > queueDepth c
      then Inl (NsAbort ''RDMA doorbell batch and CQ moderation must be in [1, queueDepth]'')
      else if mtuBytes c = 0 \<or> mtuBytes c > 2 ^ 20 \<or> wqeBytes c = 0
      then Inl (NsAbort ''RDMA needs MTU in [1,1048576] B and positive WQE bytes'')
      else if doorbellBytes c = 0 \<or> doorbellBytes c > 4096 \<or> cqeBytes c = 0 \<or> cqeBytes c > 4096
      then Inl (NsAbort ''RDMA doorbell/CQE size must be in [1,4096] B'')
      else if \<exists>t \<in> set (config_times c). t < 0 then Inl (NsAbort ''RDMA timings must be nonnegative'')
      else if doorbellBatch c > 1 \<and> batchTimeout c = 0
      then Inl (NsAbort ''RDMA batching needs a positive timeout to flush partial batches'')
      else if \<not> ratesValid c
      then Inl (NsAbort ''RDMA bandwidth must be finite and nonnegative (0=unconstrained)'')
      else Inr ())))"

subsection \<open>Data\<close>

type_synonym QpKey = "u16 \<times> u32"

record WorkTiming = RdmaWorkTiming +
  wt_id :: u64
  wt_producer :: u32
  wt_ready :: Time
  wt_reserved :: Time
  wt_published :: Time
  wt_doorbell :: Time
  wt_execute :: Time
  wt_firstWire :: Time
  wt_acknowledged :: Time
  wt_observed :: Time
  wt_stagingAcquired :: Time
  wt_sourceStaged :: Time
  wt_submitted :: Time
  wt_reachedWire :: bool

text \<open>
  \<open>Work\<close>. The shared flags and the counter that the parts of a request capture are one
  entry of the heap \<open>requests\<close>, named by its address.
\<close>

record Work =
  wk_time :: WorkTiming
  wk_execute :: "callback option"
  wk_acknowledgedBytes :: u64
  wk_sourceDmaBytes :: u64
  wk_fenceThrough :: u64
  wk_acked :: bool
  wk_failed :: bool
  wk_stagingAllocated :: bool
  wk_request :: nat

record request_state =
  rq_remaining :: u64
  rq_succeeded :: bool
  rq_reachedWire :: bool
  rq_complete :: "callback option"

record Qp =
  qp_waiting :: "u64 list"
  qp_published :: "u64 list"
  qp_outstanding :: "u64 list"
  qp_occupied :: u32
  qp_readAtomicOccupied :: u32
  qp_publishFree :: Time
  qp_fetchFree :: Time

definition Qp_new :: Qp where
  "Qp_new = \<lparr>qp_waiting = [], qp_published = [], qp_outstanding = [], qp_occupied = 0,
             qp_readAtomicOccupied = 0, qp_publishFree = 0, qp_fetchFree = 0\<rparr>"

record QuietWait =
  qw_watermark :: u64
  qw_complete :: callback

record SourceStageWait =
  ss_id :: u64
  ss_bytes :: u64
  ss_ready :: callback

record RdmaStats =
  rs_requests :: u64
  rs_completedRequests :: u64
  rs_failedRequests :: u64
  rs_peakReadAtomic :: u64
  rs_submitted :: u64
  rs_completed :: u64
  rs_failed :: u64
  rs_doorbells :: u64
  rs_cqes :: u64
  rs_peakOutstanding :: u64
  rs_peakQpOutstanding :: u64
  rs_startupSamples :: u64
  rs_startupTotalNs :: u64
  rs_startupMaxNs :: u64
  rs_requestStartupSamples :: u64
  rs_requestStartupTotalNs :: u64
  rs_requestStartupMaxNs :: u64
  rs_sourceD2hBytes :: u64
  rs_destinationH2dBytes :: u64
  rs_hostReadBytes :: u64
  rs_hostWriteBytes :: u64
  rs_hbmReadBytes :: u64
  rs_hbmWriteBytes :: u64
  rs_sourceStagingPeakBytes :: u64
  rs_destinationStagingPeakBytes :: u64
  rs_lastObservedNs :: u64
  rs_lastDataReadyNs :: u64

definition RdmaStats_new :: RdmaStats where
  "RdmaStats_new =
     \<lparr>rs_requests = 0, rs_completedRequests = 0, rs_failedRequests = 0, rs_peakReadAtomic = 0,
      rs_submitted = 0, rs_completed = 0, rs_failed = 0, rs_doorbells = 0, rs_cqes = 0,
      rs_peakOutstanding = 0, rs_peakQpOutstanding = 0, rs_startupSamples = 0,
      rs_startupTotalNs = 0, rs_startupMaxNs = 0, rs_requestStartupSamples = 0,
      rs_requestStartupTotalNs = 0, rs_requestStartupMaxNs = 0, rs_sourceD2hBytes = 0,
      rs_destinationH2dBytes = 0, rs_hostReadBytes = 0, rs_hostWriteBytes = 0, rs_hbmReadBytes = 0,
      rs_hbmWriteBytes = 0, rs_sourceStagingPeakBytes = 0, rs_destinationStagingPeakBytes = 0,
      rs_lastObservedNs = 0, rs_lastDataReadyNs = 0\<rparr>"

text \<open>The channels that serve transfers one after the other, each with its free time.\<close>

datatype channel = CH_hbmRead | CH_hbmWrite | CH_hostRead | CH_hostWrite | CH_pcieRead | CH_pcieWrite
  | CH_d2h | CH_h2d

text \<open>
  The closures. \<open>J_after\<close> schedules the inner one when the fabric is done, \<open>J_copied\<close> when
  the copy engine is free too, \<open>J_cqe\<close> writes a completion queue entry first.
\<close>

datatype job =
    J_start "u64 list"
  | J_staged SourceStageWait
  | J_ready callback
  | J_publish QpKey u64
  | J_batch QpKey
  | J_doorbell QpKey "u64 list"
  | J_fetch QpKey "u64 list"
  | J_fetched QpKey u64
  | J_fetchReady QpKey u64
  | J_execute u64
  | J_observe QpKey u64
  | J_after Time job
  | J_copied Time Time job
  | J_cqe Time job

datatype PcieTraffic = PAYLOAD | WQE | DOORBELL | CQ | D2H | H2D

datatype notice =
    N_execute callback u64
  | N_complete callback bool
  | N_observer callback WorkTiming
  | N_quiet callback bool
  | N_ready callback
  | N_pcieRead PcieTraffic u64 u64
  | N_pcieWrite PcieTraffic u64 u64

text \<open>
  What the surroundings answer during one operation: the clock, the service time of a
  channel, a time in nanoseconds, and whether the PCIe fabric of the host, if another
  runtime has built it already, is configured alike.
\<close>

record surroundings =
  at_now :: Time
  at_service :: "channel \<Rightarrow> u64 \<Rightarrow> Time"
  at_ns :: "Time \<Rightarrow> u64"
  at_pcieAlike :: bool

record submission =
  m_config :: RdmaSubmissionConfig
  m_rdmaStats :: RdmaStats
  m_nextId :: u64
  sm_disposed :: bool
  m_producerFree :: "Time list"
  m_work :: "(u64, Work) omap"
  m_qps :: "(QpKey, Qp) omap"
  m_fences :: "(u16, u64) omap"
  m_nextQp :: "(u16, u64) omap"
  m_quiet :: "QuietWait list"
  m_observer :: "callback option"
  m_doorbellFree :: Time
  m_free :: "channel \<Rightarrow> Time"
  m_pcie :: bool
  m_pcieFetched :: "(QpKey, u64 list) omap"
  m_pcieReady :: "u64 list"
  m_sourceStagingUsed :: u64
  m_receiveStagingUsed :: u64
  m_sourceStagingWaiting :: "SourceStageWait list"
  m_receiveStagingWaiting :: "(u64 \<times> callback) list"
  requests :: "request_state list"
  jobs :: "job list"
  unscheduled :: "job list"
  notices :: "notice list"

definition submission_new :: "RdmaSubmissionConfig \<Rightarrow> submission" where
  "submission_new c =
     \<lparr>m_config = c, m_rdmaStats = RdmaStats_new, m_nextId = 1, sm_disposed = False, m_producerFree = [],
      m_work = [], m_qps = [], m_fences = [], m_nextQp = [], m_quiet = [], m_observer = None,
      m_doorbellFree = 0, m_free = (\<lambda>_. 0), m_pcie = False, m_pcieFetched = [], m_pcieReady = [],
      m_sourceStagingUsed = 0, m_receiveStagingUsed = 0, m_sourceStagingWaiting = [],
      m_receiveStagingWaiting = [], requests = [], jobs = [], unscheduled = [], notices = []\<rparr>"
subsection \<open>Time, jobs and channels\<close>

definition AddTime :: "Time \<Rightarrow> Time \<Rightarrow> Time" where
  "AddTime a b = (if b > Time_Max - a then Time_Max else a + b)"

definition stat :: "(RdmaStats \<Rightarrow> RdmaStats) \<Rightarrow> submission \<Rightarrow> submission" where
  "stat f s = s\<lparr>m_rdmaStats := f (m_rdmaStats s)\<rparr>"

definition tell :: "notice \<Rightarrow> submission \<Rightarrow> submission" where
  "tell n s = s\<lparr>notices := notices s @ [n]\<rparr>"

text \<open>A closure kept by the PCIe fabric until a transfer is done.\<close>

definition hand_over :: "job \<Rightarrow> submission \<Rightarrow> submission" where
  "hand_over j s = s\<lparr>jobs := jobs s @ [j]\<rparr>"

definition ScheduleJob :: "surroundings \<Rightarrow> Time \<Rightarrow> job \<Rightarrow> submission \<Rightarrow> submission" where
  "ScheduleJob env delay j s =
     (if CanSchedule (at_now env) delay then hand_over j s
      else s\<lparr>unscheduled := unscheduled s @ [j]\<rparr>)"

definition sub_staged :: "submission \<Rightarrow> bool" where
  "sub_staged s = (dataPath (m_config s) = ''staged'')"

definition sub_tlp :: "submission \<Rightarrow> bool" where
  "sub_tlp s = (pcieModel (m_config s) = ''tlp'')"

definition by_cpu :: "submission \<Rightarrow> bool" where
  "by_cpu s = (initiator (m_config s) = ''cpu'')"

definition gpudirect :: "submission \<Rightarrow> bool" where
  "gpudirect s = (dataPath (m_config s) = ''gpudirect'')"

definition Reserve ::
    "surroundings \<Rightarrow> channel \<Rightarrow> u64 \<Rightarrow> Time \<Rightarrow> submission \<Rightarrow> Time \<times> submission" where
  "Reserve env ch bytes earliest s =
     (let free = SaturatingAdd (max earliest (m_free s ch)) (at_service env ch bytes)
      in (free, s\<lparr>m_free := (m_free s)(ch := free)\<rparr>))"

text \<open>
  The PCIe fabric is built, its configuration checked, or joined on first use; the runtimes of a host must agree on its
  configuration.
\<close>

definition EnsurePcie :: "surroundings \<Rightarrow> submission \<Rightarrow> submission result" where
  "EnsurePcie env s =
     (if m_pcie s \<or> \<not> sub_tlp s then Inr s
      else if sm_disposed s then Inl (NsAbort ''Cannot attach PCIe to a disposed runtime'')
      else if \<not> at_pcieAlike env
      then Inl (NsAbort ''RDMA runtimes sharing a host must use the same PCIe configuration'')
      else and_then (PcieConfig_Validate (pcie (m_config s))) (\<lambda>_. Inr (s\<lparr>m_pcie := True\<rparr>)))"

definition ReserveSourceRead :: "surroundings \<Rightarrow> u64 \<Rightarrow> submission \<Rightarrow> (Time \<times> submission) result" where
  "ReserveSourceRead env bytes s =
     (if sub_tlp s then Inl (NsAbort ''Use asynchronous SourceRead with pcieModel=tlp'')
      else
        let now = at_now env;
            (memory, s) =
              (if gpudirect s
               then Reserve env CH_hbmRead bytes now (stat (\<lambda>st. st\<lparr>rs_hbmReadBytes := rs_hbmReadBytes st + bytes\<rparr>) s)
               else Reserve env CH_hostRead bytes now (stat (\<lambda>st. st\<lparr>rs_hostReadBytes := rs_hostReadBytes st + bytes\<rparr>) s));
            (pci, s) = Reserve env CH_pcieRead bytes now s
        in Inr (SaturatingAdd (max memory pci) (dmaReadLatency (m_config s)) - now, s))"

definition ReserveDestinationWrite ::
    "surroundings \<Rightarrow> u64 \<Rightarrow> submission \<Rightarrow> (Time \<times> submission) result" where
  "ReserveDestinationWrite env bytes s =
     (if sub_tlp s then Inl (NsAbort ''Use asynchronous DestinationWrite with pcieModel=tlp'')
      else
        let now = at_now env;
            (memory, s) =
              (if gpudirect s
               then Reserve env CH_hbmWrite bytes now (stat (\<lambda>st. st\<lparr>rs_hbmWriteBytes := rs_hbmWriteBytes st + bytes\<rparr>) s)
               else Reserve env CH_hostWrite bytes now (stat (\<lambda>st. st\<lparr>rs_hostWriteBytes := rs_hostWriteBytes st + bytes\<rparr>) s));
            (pci, s) = Reserve env CH_pcieWrite bytes now s
        in Inr (SaturatingAdd (max memory pci) (dmaWriteLatency (m_config s)) - now, s))"

text \<open>The bytes a copy between the memories moves.\<close>

definition count_d2h :: "u64 \<Rightarrow> RdmaStats \<Rightarrow> RdmaStats" where
  "count_d2h bytes st =
     st\<lparr>rs_hbmReadBytes := rs_hbmReadBytes st + bytes, rs_hostWriteBytes := rs_hostWriteBytes st + bytes,
        rs_sourceD2hBytes := rs_sourceD2hBytes st + bytes\<rparr>"

definition count_h2d :: "u64 \<Rightarrow> RdmaStats \<Rightarrow> RdmaStats" where
  "count_h2d bytes st =
     st\<lparr>rs_hostReadBytes := rs_hostReadBytes st + bytes, rs_hbmWriteBytes := rs_hbmWriteBytes st + bytes,
        rs_destinationH2dBytes := rs_destinationH2dBytes st + bytes\<rparr>"

definition ReserveSourceD2h :: "surroundings \<Rightarrow> u64 \<Rightarrow> submission \<Rightarrow> Time \<times> submission" where
  "ReserveSourceD2h env bytes s =
     (let now = at_now env;
          s = stat (count_d2h bytes) s;
          (hbm, s) = Reserve env CH_hbmRead bytes now s;
          (host, s) = Reserve env CH_hostWrite bytes now s;
          (copy, s) = Reserve env CH_d2h bytes now s
      in (SaturatingAdd (max hbm (max host copy)) (d2hLatency (m_config s)) - now, s))"

definition ReserveDestinationH2d ::
    "surroundings \<Rightarrow> u64 \<Rightarrow> submission \<Rightarrow> (Time \<times> submission) result" where
  "ReserveDestinationH2d env bytes s =
     (if sub_tlp s then Inl (NsAbort ''Use asynchronous DestinationH2d with pcieModel=tlp'')
      else
        let now = at_now env;
            s = stat (count_h2d bytes) s;
            (host, s) = Reserve env CH_hostRead bytes now s;
            (hbm, s) = Reserve env CH_hbmWrite bytes now s;
            (copy, s) = Reserve env CH_h2d bytes now s
        in Inr (SaturatingAdd (max host (max hbm copy)) (h2dLatency (m_config s)) - now, s))"

definition SourceRead :: "surroundings \<Rightarrow> u64 \<Rightarrow> job \<Rightarrow> u64 \<Rightarrow> submission \<Rightarrow> submission result" where
  "SourceRead env bytes ready address s =
     (if \<not> sub_tlp s then
        and_then (ReserveSourceRead env bytes s) (\<lambda>(delay, s). Inr (ScheduleJob env delay ready s))
      else and_then (EnsurePcie env s) (\<lambda>s.
        let s = (if gpudirect s then stat (\<lambda>st. st\<lparr>rs_hbmReadBytes := rs_hbmReadBytes st + bytes\<rparr>) s
                 else stat (\<lambda>st. st\<lparr>rs_hostReadBytes := rs_hostReadBytes st + bytes\<rparr>) s)
        in Inr (hand_over (J_after (dmaReadLatency (m_config s)) ready)
                  (tell (N_pcieRead PAYLOAD bytes (address mod 4096)) s))))"

definition DestinationWrite :: "surroundings \<Rightarrow> u64 \<Rightarrow> job \<Rightarrow> u64 \<Rightarrow> submission \<Rightarrow> submission result" where
  "DestinationWrite env bytes ready address s =
     (if \<not> sub_tlp s then
        and_then (ReserveDestinationWrite env bytes s) (\<lambda>(delay, s). Inr (ScheduleJob env delay ready s))
      else and_then (EnsurePcie env s) (\<lambda>s.
        let s = (if gpudirect s then stat (\<lambda>st. st\<lparr>rs_hbmWriteBytes := rs_hbmWriteBytes st + bytes\<rparr>) s
                 else stat (\<lambda>st. st\<lparr>rs_hostWriteBytes := rs_hostWriteBytes st + bytes\<rparr>) s)
        in Inr (hand_over (J_after (dmaWriteLatency (m_config s)) ready)
                  (tell (N_pcieWrite PAYLOAD bytes (address mod 4096)) s))))"

definition PcieCopy :: "surroundings \<Rightarrow> bool \<Rightarrow> u64 \<Rightarrow> job \<Rightarrow> submission \<Rightarrow> submission result" where
  "PcieCopy env toGpu bytes ready s =
     and_then (EnsurePcie env s) (\<lambda>s.
       let (busy, s) = Reserve env (if toGpu then CH_h2d else CH_d2h) bytes (at_now env) s;
           latency = (if toGpu then h2dLatency (m_config s) else d2hLatency (m_config s))
       in Inr (hand_over (J_copied busy latency ready)
            (if toGpu then tell (N_pcieRead H2D bytes 0) (stat (count_h2d bytes) s)
             else tell (N_pcieWrite D2H bytes 0) (stat (count_d2h bytes) s))))"

definition SourceD2h :: "surroundings \<Rightarrow> u64 \<Rightarrow> job \<Rightarrow> submission \<Rightarrow> submission result" where
  "SourceD2h env bytes ready s =
     (if sub_tlp s then PcieCopy env False bytes ready s
      else let (delay, s) = ReserveSourceD2h env bytes s in Inr (ScheduleJob env delay ready s))"

definition DestinationH2d :: "surroundings \<Rightarrow> u64 \<Rightarrow> job \<Rightarrow> submission \<Rightarrow> submission result" where
  "DestinationH2d env bytes ready s =
     (if sub_tlp s then PcieCopy env True bytes ready s
      else and_then (ReserveDestinationH2d env bytes s) (\<lambda>(delay, s). Inr (ScheduleJob env delay ready s)))"

definition WriteCompletion :: "surroundings \<Rightarrow> job \<Rightarrow> submission \<Rightarrow> submission result" where
  "WriteCompletion env ready s =
     (let poll = (if by_cpu s then cpuPoll (m_config s) else gpuPoll (m_config s))
      in if \<not> sub_tlp s then Inr (ScheduleJob env (AddTime (cqWrite (m_config s)) poll) ready s)
         else and_then (EnsurePcie env s) (\<lambda>s.
           Inr (ScheduleJob env (cqWrite (m_config s)) (J_cqe poll ready) s)))"

subsection \<open>Works and queue pairs\<close>

definition out_of_range :: "'a result" where
  "out_of_range = Inl (Uncaught ''out_of_range'')"

definition upd_work :: "u64 \<Rightarrow> (Work \<Rightarrow> Work) \<Rightarrow> submission \<Rightarrow> submission" where
  "upd_work wid f s =
     (case omap_find (m_work s) wid of
        None \<Rightarrow> s | Some w \<Rightarrow> s\<lparr>m_work := omap_put wid (f w) (m_work s)\<rparr>)"

definition upd_time :: "u64 \<Rightarrow> (WorkTiming \<Rightarrow> WorkTiming) \<Rightarrow> submission \<Rightarrow> submission" where
  "upd_time wid f = upd_work wid (\<lambda>w. w\<lparr>wk_time := f (wk_time w)\<rparr>)"

definition upd_qp :: "QpKey \<Rightarrow> (Qp \<Rightarrow> Qp) \<Rightarrow> submission \<Rightarrow> submission" where
  "upd_qp key f s =
     (case omap_find (m_qps s) key of
        None \<Rightarrow> s | Some q \<Rightarrow> s\<lparr>m_qps := omap_put key (f q) (m_qps s)\<rparr>)"

text \<open>\<open>m_work.at\<close> and \<open>m_qps.at\<close> throw when the entry is missing.\<close>

definition work_at :: "submission \<Rightarrow> u64 \<Rightarrow> Work result" where
  "work_at s wid = (case omap_find (m_work s) wid of None \<Rightarrow> out_of_range | Some w \<Rightarrow> Inr w)"

definition qp_at :: "submission \<Rightarrow> QpKey \<Rightarrow> Qp result" where
  "qp_at s key = (case omap_find (m_qps s) key of None \<Rightarrow> out_of_range | Some q \<Rightarrow> Inr q)"

definition work_key :: "Work \<Rightarrow> QpKey" where
  "work_key w = (wt_peer (wk_time w), wt_qp (wk_time w))"

definition BlockedByFence :: "submission \<Rightarrow> Work \<Rightarrow> bool" where
  "BlockedByFence s work =
     (wk_fenceThrough work \<noteq> 0 \<and>
      (\<exists>(wid, w) \<in> set (takeWhile (\<lambda>e. fst e \<le> wk_fenceThrough work) (m_work s)).
         wt_peer (wk_time w) = wt_peer (wk_time work) \<and> \<not> wk_acked w))"

definition credit_op :: "Work \<Rightarrow> bool" where
  "credit_op w = RdmaUsesReadAtomicCredit (wt_opcode (wk_time w))"

text \<open>One round of \<open>Pump\<close>: the work at the head of the queue gets its slot.\<close>

definition admit :: "surroundings \<Rightarrow> QpKey \<Rightarrow> u64 \<Rightarrow> Work \<Rightarrow> Qp \<Rightarrow> submission \<Rightarrow> submission result" where
  "admit env key wid w q s =
     (let cfg = m_config s; now = at_now env; p = unat (wt_producer (wk_time w))
      in if \<not> p < length (m_producerFree s) then Inl (Uncaught ''producer index'')
         else
           let q = q\<lparr>qp_waiting := tl (qp_waiting q), qp_occupied := qp_occupied q + 1\<rparr>;
               q = (if credit_op w then q\<lparr>qp_readAtomicOccupied := qp_readAtomicOccupied q + 1\<rparr> else q);
               s = (if credit_op w
                    then stat (\<lambda>st. st\<lparr>rs_peakReadAtomic := max (rs_peakReadAtomic st) (ucast (qp_readAtomicOccupied q))\<rparr>) s
                    else s);
               q = q\<lparr>qp_outstanding := qp_outstanding q @ [wid]\<rparr>;
               s = upd_time wid (\<lambda>t. t\<lparr>wt_reserved := now\<rparr>) s;
               buildEnd = SaturatingAdd (max now (m_producerFree s ! p))
                            (if by_cpu s then cpuWqeBuild cfg else wqeBuild cfg);
               s = s\<lparr>m_producerFree := (m_producerFree s)[p := buildEnd]\<rparr>;
               publishEnd = SaturatingAdd (max buildEnd (qp_publishFree q))
                              (if by_cpu s then cpuPublish cfg else publish cfg);
               q = q\<lparr>qp_publishFree := publishEnd\<rparr>;
               s = s\<lparr>m_qps := omap_put key q (m_qps s)\<rparr>;
               s = ScheduleJob env (publishEnd - now) (J_publish key wid) s;
               s = stat (\<lambda>st. st\<lparr>rs_peakQpOutstanding := max (rs_peakQpOutstanding st) (ucast (qp_occupied q))\<rparr>) s;
               occupied = sum_list (map (\<lambda>e. ucast (qp_occupied (snd e))) (m_qps s))
           in Inr (stat (\<lambda>st. st\<lparr>rs_peakOutstanding := max (rs_peakOutstanding st) occupied\<rparr>) s))"

text \<open>Whether the loop of \<open>Pump\<close> stops at a work.\<close>

definition held_back :: "submission \<Rightarrow> Qp \<Rightarrow> Work \<Rightarrow> bool" where
  "held_back s q w =
     (credit_op w \<and> qp_readAtomicOccupied q \<ge> maxReadAtomic (m_config s) \<or> BlockedByFence s w)"

fun pump_works :: "surroundings \<Rightarrow> QpKey \<Rightarrow> u64 list \<Rightarrow> submission \<Rightarrow> submission result" where
  "pump_works env key [] s = Inr s"
| "pump_works env key (wid # wids) s =
     and_then (qp_at s key) (\<lambda>q.
       if \<not> qp_occupied q < queueDepth (m_config s) then Inr s
       else and_then (work_at s wid) (\<lambda>w.
         if held_back s q w then Inr s
         else and_then (admit env key wid w q s) (pump_works env key wids)))"

definition Pump :: "surroundings \<Rightarrow> QpKey \<Rightarrow> submission \<Rightarrow> submission result" where
  "Pump env key s = and_then (qp_at s key) (\<lambda>q. pump_works env key (qp_waiting q) s)"

fun pump_all :: "surroundings \<Rightarrow> QpKey list \<Rightarrow> submission \<Rightarrow> submission result" where
  "pump_all env [] s = Inr s"
| "pump_all env (key # keys) s = and_then (Pump env key s) (pump_all env keys)"

text \<open>A work enters the queue of its queue pair in the order of identifiers.\<close>

fun upper_insert :: "u64 \<Rightarrow> u64 list \<Rightarrow> u64 list" where
  "upper_insert x [] = [x]"
| "upper_insert x (y # ys) = (if x < y then x # y # ys else y # upper_insert x ys)"

definition enter_queue :: "surroundings \<Rightarrow> u64 \<Rightarrow> Work \<Rightarrow> submission \<Rightarrow> submission result" where
  "enter_queue env wid w s =
     (let key = work_key w;
          q = (case omap_find (m_qps s) key of None \<Rightarrow> Qp_new | Some q \<Rightarrow> q)
      in Pump env key
           (s\<lparr>m_qps := omap_put key (q\<lparr>qp_waiting := upper_insert wid (qp_waiting q)\<rparr>) (m_qps s)\<rparr>))"

subsection \<open>Staging buffers\<close>

text \<open>
  \<open>PumpSourceStaging\<close>: room is given in the order of the queue. A work (identifier other
  than 0) enters its queue pair after the copy, a responder is called back.
\<close>

fun pump_staging :: "surroundings \<Rightarrow> SourceStageWait list \<Rightarrow> submission \<Rightarrow> submission result" where
  "pump_staging env [] s = Inr s"
| "pump_staging env (pending # waits) s =
     (if ss_bytes pending > ucast (stagingBufferBytes (m_config s)) - m_sourceStagingUsed s then Inr s
      else
        let used = m_sourceStagingUsed s + ss_bytes pending;
            s = s\<lparr>m_sourceStagingWaiting := waits, m_sourceStagingUsed := used\<rparr>;
            s = stat (\<lambda>st. st\<lparr>rs_sourceStagingPeakBytes := max (rs_sourceStagingPeakBytes st) used\<rparr>) s
        in and_then
             (if ss_id pending \<noteq> 0 then
                and_then (work_at s (ss_id pending)) (\<lambda>w.
                  Inr (upd_time (ss_id pending) (\<lambda>t. t\<lparr>wt_stagingAcquired := at_now env\<rparr>)
                        (upd_work (ss_id pending) (\<lambda>w. w\<lparr>wk_stagingAllocated := True\<rparr>) s)))
              else Inr s)
             (\<lambda>s. and_then (SourceD2h env (ss_bytes pending) (J_staged pending) s) (pump_staging env waits)))"

definition PumpSourceStaging :: "surroundings \<Rightarrow> submission \<Rightarrow> submission result" where
  "PumpSourceStaging env s = pump_staging env (m_sourceStagingWaiting s) s"

definition source_staged :: "surroundings \<Rightarrow> SourceStageWait \<Rightarrow> submission \<Rightarrow> submission result" where
  "source_staged env pending s =
     (if ss_id pending \<noteq> 0 then
        and_then (work_at s (ss_id pending)) (\<lambda>w.
          enter_queue env (ss_id pending) w
            (upd_time (ss_id pending) (\<lambda>t. t\<lparr>wt_sourceStaged := at_now env, wt_submitted := at_now env\<rparr>) s))
      else Inr (tell (N_ready (ss_ready pending)) s))"

definition StageSourcePayload :: "surroundings \<Rightarrow> u64 \<Rightarrow> callback \<Rightarrow> submission \<Rightarrow> submission result" where
  "StageSourcePayload env bytes ready s =
     (if bytes = 0 \<or> bytes > ucast (stagingBufferBytes (m_config s))
      then Inl (NsAbort ''Responder staging buffer is too small'')
      else PumpSourceStaging env
        (s\<lparr>m_sourceStagingWaiting := m_sourceStagingWaiting s @ [\<lparr>ss_id = 0, ss_bytes = bytes, ss_ready = ready\<rparr>]\<rparr>))"

definition ReleaseSourceStaging :: "surroundings \<Rightarrow> u64 \<Rightarrow> submission \<Rightarrow> submission result" where
  "ReleaseSourceStaging env bytes s =
     (if bytes > m_sourceStagingUsed s then Inl (NsAbort ''Source staging buffer accounting underflow'')
      else PumpSourceStaging env (s\<lparr>m_sourceStagingUsed := m_sourceStagingUsed s - bytes\<rparr>))"

fun pump_receive :: "surroundings \<Rightarrow> (u64 \<times> callback) list \<Rightarrow> submission \<Rightarrow> submission" where
  "pump_receive env [] s = s"
| "pump_receive env ((bytes, ready) # waits) s =
     (if bytes > ucast (stagingBufferBytes (m_config s)) - m_receiveStagingUsed s then s
      else
        let used = m_receiveStagingUsed s + bytes;
            s = s\<lparr>m_receiveStagingWaiting := waits, m_receiveStagingUsed := used\<rparr>;
            s = stat (\<lambda>st. st\<lparr>rs_destinationStagingPeakBytes := max (rs_destinationStagingPeakBytes st) used\<rparr>) s
        in pump_receive env waits (ScheduleJob env 0 (J_ready ready) s))"

definition PumpReceiveStaging :: "surroundings \<Rightarrow> submission \<Rightarrow> submission" where
  "PumpReceiveStaging env s = pump_receive env (m_receiveStagingWaiting s) s"

definition AcquireReceiveStaging :: "surroundings \<Rightarrow> u64 \<Rightarrow> callback \<Rightarrow> submission \<Rightarrow> submission result" where
  "AcquireReceiveStaging env bytes ready s =
     (if bytes = 0 \<or> bytes > ucast (stagingBufferBytes (m_config s))
      then Inl (NsAbort ''Incoming RDMA WR exceeds receive staging buffer; use smaller staging chunks'')
      else Inr (PumpReceiveStaging env
        (s\<lparr>m_receiveStagingWaiting := m_receiveStagingWaiting s @ [(bytes, ready)]\<rparr>)))"

definition ReleaseReceiveStaging :: "surroundings \<Rightarrow> u64 \<Rightarrow> submission \<Rightarrow> submission result" where
  "ReleaseReceiveStaging env bytes s =
     (if bytes > m_receiveStagingUsed s then Inl (NsAbort ''Receive staging buffer accounting underflow'')
      else Inr (PumpReceiveStaging env (s\<lparr>m_receiveStagingUsed := m_receiveStagingUsed s - bytes\<rparr>)))"

subsection \<open>Doorbells and execution\<close>

definition ExecuteWork :: "surroundings \<Rightarrow> u64 \<Rightarrow> submission \<Rightarrow> submission result" where
  "ExecuteWork env wid s =
     (case omap_find (m_work s) wid of
        None \<Rightarrow> Inr s
      | Some w \<Rightarrow>
          (case wk_execute w of
             None \<Rightarrow> Inl (Uncaught ''bad_function_call'')
           | Some cb \<Rightarrow>
               Inr (tell (N_execute cb wid)
                 (upd_work wid (\<lambda>w. w\<lparr>wk_time := (wk_time w)\<lparr>wt_execute := at_now env\<rparr>, wk_execute := None\<rparr>) s))))"

text \<open>The loop of \<open>Ring\<close> in the bandwidth model: the descriptors are fetched one after the other.\<close>

definition ring_one :: "surroundings \<Rightarrow> QpKey \<Rightarrow> Time \<Rightarrow> u64 \<Rightarrow> submission \<Rightarrow> submission result" where
  "ring_one env key ringEnd wid s =
     and_then (qp_at s key) (\<lambda>q. and_then (work_at s wid) (\<lambda>w.
       let n = ucast (wqeBytes (m_config s)) :: u64;
           s = upd_qp key (\<lambda>q. q\<lparr>qp_published := tl (qp_published q)\<rparr>) s;
           s = upd_time wid (\<lambda>t. t\<lparr>wt_doorbell := ringEnd\<rparr>) s;
           earliest = max ringEnd (qp_fetchFree q);
           (fetched, s) = Reserve env CH_pcieRead n earliest s;
           (memory, s) =
             (if by_cpu s
              then Reserve env CH_hostRead n earliest (stat (\<lambda>st. st\<lparr>rs_hostReadBytes := rs_hostReadBytes st + n\<rparr>) s)
              else Reserve env CH_hbmRead n earliest (stat (\<lambda>st. st\<lparr>rs_hbmReadBytes := rs_hbmReadBytes st + n\<rparr>) s));
           fetched = AddTime (max fetched memory) (wqeFetch (m_config s));
           s = upd_qp key (\<lambda>q. q\<lparr>qp_fetchFree := fetched\<rparr>) s
       in Inr (ScheduleJob env (fetched - at_now env) (J_execute wid) s)))"

fun ring_works :: "surroundings \<Rightarrow> QpKey \<Rightarrow> Time \<Rightarrow> u64 list \<Rightarrow> submission \<Rightarrow> submission result" where
  "ring_works env key ringEnd [] s = Inr s"
| "ring_works env key ringEnd (wid # wids) s =
     and_then (ring_one env key ringEnd wid s) (ring_works env key ringEnd wids)"

definition fetched_queue :: "submission \<Rightarrow> QpKey \<Rightarrow> u64 list" where
  "fetched_queue s key = (case omap_find (m_pcieFetched s) key of None \<Rightarrow> [] | Some ids \<Rightarrow> ids)"

definition Ring :: "surroundings \<Rightarrow> QpKey \<Rightarrow> submission \<Rightarrow> submission result" where
  "Ring env key s =
     and_then (qp_at s key) (\<lambda>q.
       let s = s\<lparr>jobs := filter (\<lambda>j. j \<noteq> J_batch key) (jobs s)\<rparr>
       in if qp_published q = [] then Inr s
          else
            let s = stat (\<lambda>st. st\<lparr>rs_doorbells := rs_doorbells st + 1\<rparr>) s;
                ringEnd = SaturatingAdd (max (at_now env) (m_doorbellFree s))
                            (if by_cpu s then cpuDoorbell (m_config s) else doorbell (m_config s));
                s = s\<lparr>m_doorbellFree := ringEnd\<rparr>
            in if sub_tlp s then
                 and_then (EnsurePcie env s) (\<lambda>s.
                   let ids = qp_published q;
                       s = upd_qp key (\<lambda>q. q\<lparr>qp_published := []\<rparr>) s;
                       s = s\<lparr>m_pcieFetched := omap_put key (fetched_queue s key @ ids) (m_pcieFetched s)\<rparr>
                   in Inr (ScheduleJob env (ringEnd - at_now env) (J_doorbell key ids) s))
               else ring_works env key ringEnd (qp_published q) s)"

definition Publish :: "surroundings \<Rightarrow> QpKey \<Rightarrow> u64 \<Rightarrow> submission \<Rightarrow> submission result" where
  "Publish env key wid s =
     and_then (qp_at s key) (\<lambda>q. and_then (work_at s wid) (\<lambda>w.
       let s = upd_time wid (\<lambda>t. t\<lparr>wt_published := at_now env\<rparr>) s;
           s = upd_qp key (\<lambda>q. q\<lparr>qp_published := qp_published q @ [wid]\<rparr>) s
       in if unat (doorbellBatch (m_config s)) \<le> length (qp_published q) + 1 then Ring env key s
          else if J_batch key \<in> set (jobs s) then Inr s
          else Inr (ScheduleJob env (batchTimeout (m_config s)) (J_batch key) s)))"

text \<open>Fetching descriptors through the PCIe fabric.\<close>

fun FetchPublished :: "surroundings \<Rightarrow> QpKey \<Rightarrow> u64 list \<Rightarrow> submission \<Rightarrow> submission result" where
  "FetchPublished env key [] s = Inr s"
| "FetchPublished env key (wid # wids) s =
     and_then (work_at s wid) (\<lambda>w.
       let n = ucast (wqeBytes (m_config s)) :: u64;
           s = upd_time wid (\<lambda>t. t\<lparr>wt_doorbell := at_now env\<rparr>) s;
           s = (if by_cpu s then stat (\<lambda>st. st\<lparr>rs_hostReadBytes := rs_hostReadBytes st + n\<rparr>) s
                else stat (\<lambda>st. st\<lparr>rs_hbmReadBytes := rs_hbmReadBytes st + n\<rparr>) s)
       in FetchPublished env key wids (hand_over (J_fetched key wid) (tell (N_pcieRead WQE n 0) s)))"

definition descriptor_fetched :: "surroundings \<Rightarrow> QpKey \<Rightarrow> u64 \<Rightarrow> submission \<Rightarrow> submission result" where
  "descriptor_fetched env key wid s =
     and_then (qp_at s key) (\<lambda>q.
       let free = AddTime (max (qp_fetchFree q) (at_now env)) (wqeFetch (m_config s));
           s = upd_qp key (\<lambda>q. q\<lparr>qp_fetchFree := free\<rparr>) s
       in Inr (ScheduleJob env (free - at_now env) (J_fetchReady key wid) s))"

fun pump_fetched :: "surroundings \<Rightarrow> QpKey \<Rightarrow> u64 list \<Rightarrow> submission \<Rightarrow> submission result" where
  "pump_fetched env key [] s = Inr s"
| "pump_fetched env key (wid # wids) s =
     (if wid \<in> set (m_pcieReady s)
      then and_then
             (ExecuteWork env wid
                (s\<lparr>m_pcieReady := filter (\<lambda>x. x \<noteq> wid) (m_pcieReady s),
                   m_pcieFetched := omap_put key wids (m_pcieFetched s)\<rparr>))
             (pump_fetched env key wids)
      else Inr s)"

definition PumpPcieFetch :: "surroundings \<Rightarrow> QpKey \<Rightarrow> submission \<Rightarrow> submission result" where
  "PumpPcieFetch env key s =
     pump_fetched env key (fetched_queue s key)
       (s\<lparr>m_pcieFetched := omap_put key (fetched_queue s key) (m_pcieFetched s)\<rparr>)"

subsection \<open>Completion\<close>

text \<open>The acknowledged works at the head of the completion ledger of a queue pair.\<close>

fun ready_prefix :: "submission \<Rightarrow> u64 list \<Rightarrow> u64 list result" where
  "ready_prefix s [] = Inr []"
| "ready_prefix s (wid # wids) =
     and_then (work_at s wid) (\<lambda>w.
       if wk_acked w then and_then (ready_prefix s wids) (\<lambda>ids. Inr (wid # ids)) else Inr [])"

definition Progress :: "surroundings \<Rightarrow> QpKey \<Rightarrow> submission \<Rightarrow> submission result" where
  "Progress env key s =
     and_then (qp_at s key) (\<lambda>q. and_then (ready_prefix s (qp_outstanding q)) (\<lambda>ids.
       let ready = of_nat (length ids) :: u32
       in if ready = 0 then Inr s
          else if ready < cqModeration (m_config s) \<and> ready \<noteq> qp_occupied q then Inr s
          else
            let s = stat (\<lambda>st. st\<lparr>rs_cqes := rs_cqes st + 1\<rparr>) s;
                s = upd_qp key (\<lambda>q. q\<lparr>qp_outstanding := drop (unat ready) (qp_outstanding q)\<rparr>) s
            in WriteCompletion env (J_observe key (last ids)) s))"

text \<open>The closure \<open>finish\<close> of a request, called when one of its parts is observed.\<close>

definition finish_part :: "nat \<Rightarrow> bool \<Rightarrow> submission \<Rightarrow> submission" where
  "finish_part r success s =
     (let rq = requests s ! r;
          rq = rq\<lparr>rq_succeeded := rq_succeeded rq \<and> success, rq_remaining := rq_remaining rq - 1\<rparr>;
          s = s\<lparr>requests := (requests s)[r := rq]\<rparr>
      in if rq_remaining rq = 0 then
           let s = (if rq_succeeded rq
                    then stat (\<lambda>st. st\<lparr>rs_completedRequests := rs_completedRequests st + 1\<rparr>) s
                    else stat (\<lambda>st. st\<lparr>rs_failedRequests := rs_failedRequests st + 1\<rparr>) s)
           in case rq_complete rq of None \<Rightarrow> s | Some cb \<Rightarrow> tell (N_complete cb (rq_succeeded rq)) s
         else s)"

definition CheckQuiet :: "submission \<Rightarrow> submission" where
  "CheckQuiet s =
     (let drained = (\<lambda>w. case m_work s of [] \<Rightarrow> True | (wid, _) # _ \<Rightarrow> wid > qw_watermark w);
          ready = filter drained (m_quiet s);
          s = s\<lparr>m_quiet := filter (\<lambda>w. \<not> drained w) (m_quiet s)\<rparr>
      in s\<lparr>notices := notices s @ map (\<lambda>w. N_quiet (qw_complete w) (rs_failed (m_rdmaStats s) = 0)) ready\<rparr>)"

text \<open>The works a completion queue entry covers, oldest first.\<close>

definition covered :: "QpKey \<Rightarrow> u64 \<Rightarrow> (u64, Work) omap \<Rightarrow> (u64 \<times> Work) list" where
  "covered key through works =
     filter (\<lambda>(wid, w). work_key w = key \<and> wk_acked w) (takeWhile (\<lambda>e. fst e \<le> through) works)"

definition observe_one :: "surroundings \<Rightarrow> QpKey \<Rightarrow> submission \<Rightarrow> u64 \<times> Work \<Rightarrow> submission" where
  "observe_one env key s e =
     (let (wid, w) = e;
          s = stat (\<lambda>st. st\<lparr>rs_lastObservedNs := at_ns env (at_now env)\<rparr>) s;
          s = upd_qp key (\<lambda>q. q\<lparr>qp_occupied := qp_occupied q - 1,
                qp_readAtomicOccupied := (if credit_op w then qp_readAtomicOccupied q - 1
                                          else qp_readAtomicOccupied q)\<rparr>) s;
          s = (if wk_failed w then s else stat (\<lambda>st. st\<lparr>rs_completed := rs_completed st + 1\<rparr>) s)
      in s\<lparr>m_work := omap_erase wid (m_work s)\<rparr>)"

definition released :: "(u64 \<times> Work) list \<Rightarrow> u64" where
  "released es = sum_list (map (\<lambda>(wid, w). if wk_stagingAllocated w then wt_bytes (wk_time w) else 0) es)"

definition tell_observer :: "surroundings \<Rightarrow> (u64 \<times> Work) list \<Rightarrow> submission \<Rightarrow> submission" where
  "tell_observer env es s =
     (case m_observer s of
        None \<Rightarrow> s
      | Some cb \<Rightarrow>
          s\<lparr>notices := notices s @ map (\<lambda>(wid, w). N_observer cb ((wk_time w)\<lparr>wt_observed := at_now env\<rparr>)) es\<rparr>)"

definition Observe :: "surroundings \<Rightarrow> QpKey \<Rightarrow> u64 \<Rightarrow> submission \<Rightarrow> submission result" where
  "Observe env key through s =
     and_then (qp_at s key) (\<lambda>_.
       let es = covered key through (m_work s);
           s = foldl (observe_one env key) s es
       in if released es > m_sourceStagingUsed s
          then Inl (NsAbort ''Source staging buffer accounting underflow'')
          else
            let s = s\<lparr>m_sourceStagingUsed := m_sourceStagingUsed s - released es\<rparr>
            in and_then (if released es \<noteq> 0 then PumpSourceStaging env s else Inr s) (\<lambda>s.
               and_then (Pump env key s) (\<lambda>s. and_then (Progress env key s) (\<lambda>s.
                 let s = tell_observer env es s;
                     s = foldl (\<lambda>s (wid, w). finish_part (wk_request w) (\<not> wk_failed w) s) s es
                 in Inr (CheckQuiet s)))))"

subsection \<open>Notifications\<close>

definition acknowledge_work :: "surroundings \<Rightarrow> u64 \<Rightarrow> QpKey \<Rightarrow> submission \<Rightarrow> submission result" where
  "acknowledge_work env wid key s =
     and_then (Progress env key
         (upd_work wid (\<lambda>w. w\<lparr>wk_acked := True,
            wk_time := (wk_time w)\<lparr>wt_acknowledged := at_now env\<rparr>\<rparr>) s))
       (\<lambda>s. pump_all env (map fst (m_qps s)) s)"

definition mark_failed :: "u64 \<Rightarrow> Work \<Rightarrow> submission \<Rightarrow> submission" where
  "mark_failed wid w s =
     (let r = wk_request w;
          s = upd_work wid (\<lambda>w. w\<lparr>wk_failed := True\<rparr>) s;
          s = stat (\<lambda>st. st\<lparr>rs_failed := rs_failed st + 1\<rparr>) s
      in s\<lparr>requests := (requests s)[r := (requests s ! r)\<lparr>rq_succeeded := False\<rparr>]\<rparr>)"

definition NotifyOperationComplete :: "surroundings \<Rightarrow> u64 \<Rightarrow> bool \<Rightarrow> submission \<Rightarrow> submission result" where
  "NotifyOperationComplete env wid success s =
     (case omap_find (m_work s) wid of
        None \<Rightarrow> Inr s
      | Some w \<Rightarrow>
          if wk_acked w then Inr s
          else
            let s = (if \<not> success \<and> \<not> wk_failed w then mark_failed wid w s else s);
                s = upd_work wid (\<lambda>w. w\<lparr>wk_acknowledgedBytes := wt_bytes (wk_time w)\<rparr>) s
            in acknowledge_work env wid (work_key w) s)"

definition NotifyPacketAck :: "surroundings \<Rightarrow> u64 \<Rightarrow> u64 \<Rightarrow> submission \<Rightarrow> submission result" where
  "NotifyPacketAck env wid bytes s =
     (case omap_find (m_work s) wid of
        None \<Rightarrow> Inr s
      | Some w \<Rightarrow>
          if wk_acked w then Inr s
          else if bytes > wt_bytes (wk_time w) - wk_acknowledgedBytes w
          then Inl (NsAbort ''RDMA ACK exceeds WR byte ledger'')
          else
            let acked = wk_acknowledgedBytes w + bytes;
                s = upd_work wid (\<lambda>w. w\<lparr>wk_acknowledgedBytes := acked\<rparr>) s
            in if acked \<noteq> wt_bytes (wk_time w) then Inr s
               else acknowledge_work env wid (work_key w) s)"

definition NotifyFirstWire :: "surroundings \<Rightarrow> u64 \<Rightarrow> submission \<Rightarrow> submission" where
  "NotifyFirstWire env wid s =
     (case omap_find (m_work s) wid of
        None \<Rightarrow> s
      | Some w \<Rightarrow>
          if wt_reachedWire (wk_time w) then s
          else
            let s = upd_time wid (\<lambda>t. t\<lparr>wt_firstWire := at_now env, wt_reachedWire := True\<rparr>) s;
                startup = at_ns env (at_now env - wt_ready (wk_time w));
                r = wk_request w;
                s = (if rq_reachedWire (requests s ! r) then s
                     else stat (\<lambda>st. st\<lparr>rs_requestStartupSamples := rs_requestStartupSamples st + 1,
                            rs_requestStartupTotalNs := rs_requestStartupTotalNs st + startup,
                            rs_requestStartupMaxNs := max (rs_requestStartupMaxNs st) startup\<rparr>)
                          (s\<lparr>requests := (requests s)[r := (requests s ! r)\<lparr>rq_reachedWire := True\<rparr>]\<rparr>))
            in stat (\<lambda>st. st\<lparr>rs_startupSamples := rs_startupSamples st + 1,
                       rs_startupTotalNs := rs_startupTotalNs st + startup,
                       rs_startupMaxNs := max (rs_startupMaxNs st) startup\<rparr>) s)"

definition NotifyFailure :: "u64 \<Rightarrow> submission \<Rightarrow> submission" where
  "NotifyFailure wid s =
     (case omap_find (m_work s) wid of
        None \<Rightarrow> s | Some w \<Rightarrow> if wk_failed w then s else mark_failed wid w s)"

definition NotifyDataReady :: "surroundings \<Rightarrow> submission \<Rightarrow> submission" where
  "NotifyDataReady env s = stat (\<lambda>st. st\<lparr>rs_lastDataReadyNs := at_ns env (at_now env)\<rparr>) s"

definition TakeSourceDmaOffset :: "u64 \<Rightarrow> u64 \<Rightarrow> submission \<Rightarrow> (submission \<times> u64) result" where
  "TakeSourceDmaOffset wid bytes s =
     and_then (work_at s wid) (\<lambda>w.
       if bytes > wt_bytes (wk_time w) - wk_sourceDmaBytes w
       then Inl (NsAbort ''DMA exceeds its RDMA work request'')
       else Inr (upd_work wid (\<lambda>w. w\<lparr>wk_sourceDmaBytes := wk_sourceDmaBytes w + bytes\<rparr>) s,
                 wk_sourceDmaBytes w + (if sub_staged s then 0 else wt_offset (wk_time w))))"

fun ring_all :: "surroundings \<Rightarrow> QpKey list \<Rightarrow> submission \<Rightarrow> submission result" where
  "ring_all env [] s = Inr s"
| "ring_all env (key # keys) s = and_then (Ring env key s) (ring_all env keys)"

definition Quiet :: "surroundings \<Rightarrow> callback option \<Rightarrow> submission \<Rightarrow> submission result" where
  "Quiet env complete s =
     (case complete of
        None \<Rightarrow> Inl (NsAbort ''RDMA quiet needs a callback'')
      | Some cb \<Rightarrow>
          and_then (ring_all env (map fst (m_qps s))
              (s\<lparr>m_quiet := m_quiet s @ [\<lparr>qw_watermark = m_nextId s - 1, qw_complete = cb\<rparr>]\<rparr>))
            (\<lambda>s. Inr (CheckQuiet s)))"

definition Fence :: "surroundings \<Rightarrow> u16 \<Rightarrow> submission \<Rightarrow> submission result" where
  "Fence env peer s =
     ring_all env (filter (\<lambda>key. fst key = peer) (map fst (m_qps s)))
       (s\<lparr>m_fences := omap_put peer (m_nextId s - 1) (m_fences s)\<rparr>)"

subsection \<open>Submission\<close>

definition Submission_Configure :: "RdmaSubmissionConfig \<Rightarrow> submission \<Rightarrow> submission result" where
  "Submission_Configure c s =
     (if rs_submitted (m_rdmaStats s) \<noteq> 0 \<or> m_pcie s
      then Inl (NsAbort ''Configure RDMA before submitting work or attaching PCIe'')
      else and_then (RdmaConfig_Validate c) (\<lambda>_.
        Inr (s\<lparr>m_config := c, m_producerFree := replicate (unat (ProducerCount c)) 0\<rparr>)))"

text \<open>The last earlier work with a payload on the same queue pair, which a read or atomic must not overtake.\<close>

definition payload_op :: "Work \<Rightarrow> bool" where
  "payload_op w = RdmaHasSourcePayload (wt_opcode (wk_time w))"

definition payload_fence :: "QpKey \<Rightarrow> (u64, Work) omap \<Rightarrow> u64 \<Rightarrow> u64" where
  "payload_fence key works fence =
     foldl (\<lambda>f (wid, w). if work_key w = key \<and> payload_op w then max f wid else f) fence works"

text \<open>The work requests of a request: \<open>dataChunks\<close> pieces of the payload and, for a put with signal, the signal.\<close>

record splitting =
  sp_opcode :: RdmaOpcode
  sp_peer :: u16
  sp_bytes :: u64
  sp_execute :: callback
  sp_producer :: u32
  sp_split :: bool
  sp_dataChunks :: u64
  sp_requestId :: u64
  sp_request :: nat

definition is_signal :: "splitting \<Rightarrow> u64 \<Rightarrow> bool" where
  "is_signal sp index = (index = sp_dataChunks sp)"

definition work_length :: "RdmaSubmissionConfig \<Rightarrow> splitting \<Rightarrow> u64 \<Rightarrow> u64 \<Rightarrow> u64" where
  "work_length cfg sp index offset =
     (if is_signal sp index then 8
      else if sp_split sp then min (ucast (stagingChunkBytes cfg)) (sp_bytes sp - offset)
      else sp_bytes sp)"

definition work_producer :: "RdmaSubmissionConfig \<Rightarrow> splitting \<Rightarrow> u64 \<Rightarrow> u32" where
  "work_producer cfg sp wid =
     (if sp_producer sp = - 1 then ucast ((wid - 1) mod ucast (ProducerCount cfg)) else sp_producer sp)"

definition next_qp :: "u16 \<Rightarrow> submission \<Rightarrow> u64" where
  "next_qp peer s = (case omap_find (m_nextQp s) peer of None \<Rightarrow> 0 | Some n \<Rightarrow> n)"

definition work_qp :: "splitting \<Rightarrow> submission \<Rightarrow> u32" where
  "work_qp sp s =
     (let cfg = m_config s
      in ucast ((if mapQpByProducer cfg then ucast (work_producer cfg sp (m_nextId s)) else next_qp (sp_peer sp) s)
                 mod ucast (qpsPerPeer cfg)))"

definition work_opcode :: "splitting \<Rightarrow> u64 \<Rightarrow> RdmaOpcode" where
  "work_opcode sp index = (if is_signal sp index then OP_SIGNAL else sp_opcode sp)"

definition work_fence :: "splitting \<Rightarrow> u64 \<Rightarrow> submission \<Rightarrow> u64" where
  "work_fence sp index s =
     (let fence = (case omap_find (m_fences s) (sp_peer sp) of None \<Rightarrow> 0 | Some f \<Rightarrow> f);
          fence = (if RdmaUsesReadAtomicCredit (work_opcode sp index)
                   then payload_fence (sp_peer sp, work_qp sp s) (m_work s) fence else fence)
      in if is_signal sp index then m_nextId s - 1 else fence)"

definition new_work :: "surroundings \<Rightarrow> splitting \<Rightarrow> u64 \<Rightarrow> u64 \<Rightarrow> submission \<Rightarrow> Work" where
  "new_work env sp index offset s =
     \<lparr>wk_time =
        \<lparr>wt_requestId = sp_requestId sp, wt_offset = offset, wt_bytes = work_length (m_config s) sp index offset,
         wt_peer = sp_peer sp, wt_qp = work_qp sp s, wt_opcode = work_opcode sp index, wt_id = m_nextId s,
         wt_producer = work_producer (m_config s) sp (m_nextId s), wt_ready = at_now env,
         wt_reserved = 0, wt_published = 0, wt_doorbell = 0, wt_execute = 0, wt_firstWire = 0,
         wt_acknowledged = 0, wt_observed = 0, wt_stagingAcquired = 0, wt_sourceStaged = 0,
         wt_submitted = at_now env, wt_reachedWire = False\<rparr>,
      wk_execute = Some (sp_execute sp), wk_acknowledgedBytes = 0, wk_sourceDmaBytes = 0,
      wk_fenceThrough = work_fence sp index s, wk_acked = False, wk_failed = False,
      wk_stagingAllocated = False, wk_request = sp_request sp\<rparr>"

definition create_work ::
    "surroundings \<Rightarrow> splitting \<Rightarrow> u64 \<Rightarrow> u64 \<Rightarrow> submission \<Rightarrow> u64 \<times> submission" where
  "create_work env sp index offset s =
     (let w = new_work env sp index offset s; peer = sp_peer sp;
          nextQp = (if mapQpByProducer (m_config s) then m_nextQp s
                    else omap_put peer (next_qp peer s + 1) (m_nextQp s))
      in (if is_signal sp index then offset else offset + wt_bytes (wk_time w),
          stat (\<lambda>st. st\<lparr>rs_submitted := rs_submitted st + 1\<rparr>)
            (s\<lparr>m_nextId := m_nextId s + 1, m_nextQp := nextQp, m_work := omap_put (m_nextId s) w (m_work s)\<rparr>)))"

fun create_works ::
    "surroundings \<Rightarrow> splitting \<Rightarrow> nat \<Rightarrow> u64 \<Rightarrow> u64 \<Rightarrow> submission \<Rightarrow> u64 list \<times> submission" where
  "create_works env sp 0 index offset s = ([], s)"
| "create_works env sp (Suc n) index offset s =
     (let (offset', s') = create_work env sp index offset s;
          (ids, s'') = create_works env sp n (index + 1) offset' s'
      in (m_nextId s # ids, s''))"

definition enqueue :: "surroundings \<Rightarrow> u64 \<Rightarrow> submission \<Rightarrow> submission result" where
  "enqueue env wid s =
     and_then (work_at s wid) (\<lambda>w.
       let s = upd_time wid (\<lambda>t. t\<lparr>wt_submitted := at_now env\<rparr>) s
       in if sub_staged s \<and> payload_op w
          then Inr (s\<lparr>m_sourceStagingWaiting := m_sourceStagingWaiting s @
                        [\<lparr>ss_id = wid, ss_bytes = wt_bytes (wk_time w), ss_ready = 0\<rparr>]\<rparr>)
          else enter_queue env wid w s)"

fun enqueue_all :: "surroundings \<Rightarrow> u64 list \<Rightarrow> submission \<Rightarrow> submission result" where
  "enqueue_all env [] s = Inr s"
| "enqueue_all env (wid # wids) s = and_then (enqueue env wid s) (enqueue_all env wids)"

definition start_works :: "surroundings \<Rightarrow> u64 list \<Rightarrow> submission \<Rightarrow> submission result" where
  "start_works env ids s = and_then (enqueue_all env ids s) (PumpSourceStaging env)"

text \<open>How many works a request becomes.\<close>

definition splits :: "RdmaSubmissionConfig \<Rightarrow> RdmaOpcode \<Rightarrow> bool" where
  "splits cfg opcode = (dataPath cfg = ''staged'' \<and> (RdmaHasSourcePayload opcode \<or> opcode = OP_READ))"

definition data_chunks :: "RdmaSubmissionConfig \<Rightarrow> RdmaOpcode \<Rightarrow> u64 \<Rightarrow> u64" where
  "data_chunks cfg opcode bytes =
     (if splits cfg opcode then 1 + (bytes - 1) div ucast (stagingChunkBytes cfg) else 1)"

definition signals :: "RdmaOpcode \<Rightarrow> u64" where
  "signals opcode = (if opcode = OP_PUT_SIGNAL then 1 else 0)"

definition open_request :: "u64 \<Rightarrow> callback option \<Rightarrow> submission \<Rightarrow> submission" where
  "open_request count complete s =
     stat (\<lambda>st. st\<lparr>rs_requests := rs_requests st + 1\<rparr>)
       (s\<lparr>requests := requests s @ [\<lparr>rq_remaining = count, rq_succeeded = True, rq_reachedWire = False,
                                   rq_complete = complete\<rparr>]\<rparr>)"

definition hand_off :: "surroundings \<Rightarrow> u64 list \<Rightarrow> submission \<Rightarrow> submission result" where
  "hand_off env ids s =
     (let handoff = (if by_cpu s \<and> dataPath (m_config s) \<noteq> ''host'' then cpuHandoff (m_config s) else 0)
      in if handoff = 0 then start_works env ids s else Inr (ScheduleJob env handoff (J_start ids) s))"

definition submit_works ::
    "surroundings \<Rightarrow> RdmaOpcode \<Rightarrow> u16 \<Rightarrow> u64 \<Rightarrow> callback \<Rightarrow> u32 \<Rightarrow> callback option \<Rightarrow> submission \<Rightarrow>
     u64 list \<times> submission" where
  "submit_works env opcode peer bytes execute producer complete s =
     (let cfg = m_config s; chunks = data_chunks cfg opcode bytes; count = chunks + signals opcode;
          sp = \<lparr>sp_opcode = opcode, sp_peer = peer, sp_bytes = bytes, sp_execute = execute,
                sp_producer = producer, sp_split = splits cfg opcode, sp_dataChunks = chunks,
                sp_requestId = m_nextId s, sp_request = length (requests s)\<rparr>
      in create_works env sp (unat count) 0 0 (open_request count complete s))"

definition SubmitOperation ::
    "surroundings \<Rightarrow> RdmaOpcode \<Rightarrow> u16 \<Rightarrow> u64 \<Rightarrow> callback option \<Rightarrow> u32 \<Rightarrow> callback option \<Rightarrow> submission \<Rightarrow>
     (submission \<times> u64) result" where
  "SubmitOperation env opcode peer bytes execute producer complete s =
     (if sm_disposed s \<or> execute = None \<or> bytes = 0
      then Inl (NsAbort ''RDMA needs live model, nonzero bytes and execution'')
      else if (RdmaUsesReadAtomicCredit opcode \<or> opcode = OP_PUT_SIGNAL) \<and> maxReadAtomic (m_config s) = 0
      then Inl (NsAbort ''RDMA Read/atomic operations require rdmaMaxReadAtomic > 0'')
      else and_then (if m_producerFree s = [] then Submission_Configure (m_config s) s else Inr s) (\<lambda>s.
        let cfg = m_config s; chunks = data_chunks cfg opcode bytes
        in if producer \<noteq> - 1 \<and> producer \<ge> ProducerCount cfg
           then Inl (NsAbort ''RDMA producer ID out of range'')
           else if chunks > - 1 - signals opcode
           then Inl (NsAbort ''RDMA staged work-item count overflows uint64'')
           else if chunks + signals opcode > - 1 - m_nextId s then Inl (NsAbort ''RDMA work ID exhausted'')
           else
             let (ids, s') = submit_works env opcode peer bytes (the execute) producer complete s
             in and_then (hand_off env ids s') (\<lambda>s''. Inr (s'', m_nextId s))))"

definition Submission_Submit ::
    "surroundings \<Rightarrow> u16 \<Rightarrow> u64 \<Rightarrow> callback option \<Rightarrow> u32 \<Rightarrow> callback option \<Rightarrow> submission \<Rightarrow>
     (submission \<times> u64) result" where
  "Submission_Submit env peer bytes execute producer complete s =
     SubmitOperation env OP_WRITE peer bytes execute producer complete s"

text \<open>The free times of the host memory come with the resources the runtimes of a host share.\<close>

definition SetHostMemoryResources ::
    "surroundings \<Rightarrow> (Time \<times> Time) option \<Rightarrow> submission \<Rightarrow> submission result" where
  "SetHostMemoryResources env resources s =
     (if resources = None \<or> rs_submitted (m_rdmaStats s) \<noteq> 0 \<or> m_pcie s
      then Inl (NsAbort ''Set host memory resources before RDMA work'')
      else EnsurePcie env
        (s\<lparr>m_free := (m_free s)(CH_hostRead := fst (the resources), CH_hostWrite := snd (the resources))\<rparr>))"

definition GetPcieFabric :: "surroundings \<Rightarrow> submission \<Rightarrow> submission result" where
  "GetPcieFabric env s = (if sm_disposed s then Inr s else EnsurePcie env s)"

subsection \<open>Running a job\<close>

fun run_job :: "surroundings \<Rightarrow> job \<Rightarrow> submission \<Rightarrow> submission result" where
  "run_job env (J_start ids) s = start_works env ids s"
| "run_job env (J_staged pending) s = source_staged env pending s"
| "run_job env (J_ready cb) s = Inr (tell (N_ready cb) s)"
| "run_job env (J_publish key wid) s = Publish env key wid s"
| "run_job env (J_batch key) s = Ring env key s"
| "run_job env (J_doorbell key ids) s =
     Inr (hand_over (J_fetch key ids)
       (tell (N_pcieWrite DOORBELL (ucast (doorbellBytes (m_config s))) 0) s))"
| "run_job env (J_fetch key ids) s = FetchPublished env key ids s"
| "run_job env (J_fetched key wid) s = descriptor_fetched env key wid s"
| "run_job env (J_fetchReady key wid) s =
     PumpPcieFetch env key (s\<lparr>m_pcieReady := oset_insert wid (m_pcieReady s)\<rparr>)"
| "run_job env (J_execute wid) s = ExecuteWork env wid s"
| "run_job env (J_observe key through) s = Observe env key through s"
| "run_job env (J_after delay j) s = Inr (ScheduleJob env delay j s)"
| "run_job env (J_copied busy latency j) s =
     Inr (ScheduleJob env (AddTime (max busy (at_now env)) latency - at_now env) j s)"
| "run_job env (J_cqe poll j) s =
     (let n = ucast (cqeBytes (m_config s)) :: u64;
          s = (if by_cpu s then stat (\<lambda>st. st\<lparr>rs_hostWriteBytes := rs_hostWriteBytes st + n\<rparr>) s
               else stat (\<lambda>st. st\<lparr>rs_hbmWriteBytes := rs_hbmWriteBytes st + n\<rparr>) s)
      in Inr (hand_over (J_after poll j) (tell (N_pcieWrite CQ n 0) s)))"

definition FireJob :: "surroundings \<Rightarrow> nat \<Rightarrow> submission \<Rightarrow> submission result" where
  "FireJob env i s =
     (if i < length (jobs s) then
        let j = jobs s ! i; s = s\<lparr>jobs := take i (jobs s) @ drop (Suc i) (jobs s)\<rparr>
        in if sm_disposed s then Inr s else run_job env j s
      else Inr s)"

definition Submission_DoDispose :: "submission \<Rightarrow> submission" where
  "Submission_DoDispose s =
     s\<lparr>sm_disposed := True, jobs := [], m_work := [], m_qps := [], m_quiet := [], m_observer := None,
       m_sourceStagingWaiting := [], m_receiveStagingWaiting := [], m_pcieFetched := [],
       m_pcieReady := [], m_pcie := False\<rparr>"

subsection \<open>The submission model as a state machine\<close>

text \<open>
  What the surroundings can do between construction and disposal. The channels of the host
  memory are shared with the other runtimes of the host, which may move their free times
  (\<open>S_HostMemory\<close>).
\<close>

datatype submission_op =
    S_Configure RdmaSubmissionConfig
  | S_Submit RdmaOpcode u16 u64 "callback option" u32 "callback option"
  | S_OperationComplete u64 bool
  | S_PacketAck u64 u64
  | S_FirstWire u64
  | S_Failure u64
  | S_DataReady
  | S_Quiet "callback option"
  | S_Fence u16
  | S_SetObserver "callback option"
  | S_StageSource u64 callback
  | S_ReleaseSource u64
  | S_AcquireReceive u64 callback
  | S_ReleaseReceive u64
  | S_SourceRead u64 callback u64
  | S_DestinationWrite u64 callback u64
  | S_DestinationH2d u64 callback
  | S_WriteCompletion callback
  | S_ReserveSourceRead u64
  | S_ReserveDestinationWrite u64
  | S_TakeDmaOffset u64 u64
  | S_GetPcieFabric
  | S_SetHostMemory "(Time \<times> Time) option"
  | S_HostMemory Time Time
  | S_Fire nat

fun submission_step :: "submission \<Rightarrow> surroundings \<times> submission_op \<Rightarrow> submission result" where
  "submission_step s (env, S_Configure c) = Submission_Configure c s"
| "submission_step s (env, S_Submit opcode peer bytes execute producer complete) =
     and_then (SubmitOperation env opcode peer bytes execute producer complete s) (\<lambda>(s, rid). Inr s)"
| "submission_step s (env, S_OperationComplete wid success) = NotifyOperationComplete env wid success s"
| "submission_step s (env, S_PacketAck wid bytes) = NotifyPacketAck env wid bytes s"
| "submission_step s (env, S_FirstWire wid) = Inr (NotifyFirstWire env wid s)"
| "submission_step s (env, S_Failure wid) = Inr (NotifyFailure wid s)"
| "submission_step s (env, S_DataReady) = Inr (NotifyDataReady env s)"
| "submission_step s (env, S_Quiet complete) = Quiet env complete s"
| "submission_step s (env, S_Fence peer) = Fence env peer s"
| "submission_step s (env, S_SetObserver observer) = Inr (s\<lparr>m_observer := observer\<rparr>)"
| "submission_step s (env, S_StageSource bytes ready) = StageSourcePayload env bytes ready s"
| "submission_step s (env, S_ReleaseSource bytes) = ReleaseSourceStaging env bytes s"
| "submission_step s (env, S_AcquireReceive bytes ready) = AcquireReceiveStaging env bytes ready s"
| "submission_step s (env, S_ReleaseReceive bytes) = ReleaseReceiveStaging env bytes s"
| "submission_step s (env, S_SourceRead bytes ready address) = SourceRead env bytes (J_ready ready) address s"
| "submission_step s (env, S_DestinationWrite bytes ready address) =
     DestinationWrite env bytes (J_ready ready) address s"
| "submission_step s (env, S_DestinationH2d bytes ready) = DestinationH2d env bytes (J_ready ready) s"
| "submission_step s (env, S_WriteCompletion ready) = WriteCompletion env (J_ready ready) s"
| "submission_step s (env, S_ReserveSourceRead bytes) =
     and_then (ReserveSourceRead env bytes s) (\<lambda>(delay, s). Inr s)"
| "submission_step s (env, S_ReserveDestinationWrite bytes) =
     and_then (ReserveDestinationWrite env bytes s) (\<lambda>(delay, s). Inr s)"
| "submission_step s (env, S_TakeDmaOffset wid bytes) =
     and_then (TakeSourceDmaOffset wid bytes s) (\<lambda>(s, offset). Inr s)"
| "submission_step s (env, S_GetPcieFabric) = GetPcieFabric env s"
| "submission_step s (env, S_SetHostMemory resources) = SetHostMemoryResources env resources s"
| "submission_step s (env, S_HostMemory r w) =
     Inr (s\<lparr>m_free := (m_free s)(CH_hostRead := r, CH_hostWrite := w)\<rparr>)"
| "submission_step s (env, S_Fire i) = FireJob env i s"

end
