(* ===== verification/RdmaLedger.thy ===== *)
theory RdmaLedger
  imports RdmaSubmission "HOL-Library.Multiset"
begin

text \<open>
  The ledgers of the submission model. A work request is parked (handed off, waiting for
  staging room, being copied, or waiting on its queue pair), then admitted to its queue pair
  until its completion is observed. What matters of the state for this is its \<open>view\<close>;
  clocks and statistics drop out, and a closure counts whether or not its deadline lies
  within the horizon. The invariant of the view says where every parked work is, that the
  counters of a queue pair count exactly the admitted works, that a fence holds back what it
  covers, and that the staging buffer holds what has been allocated from it. It is kept by
  every operation, whatever the surroundings answer and in whatever order closures run.
\<close>

declare split_paired_All [simp del] split_paired_Ex [simp del]

subsection \<open>The view\<close>

record work_view =
  wv_key :: QpKey
  wv_credit :: bool
  wv_bytes :: nat
  wv_idle :: bool
  wv_fence :: u64
  wv_acked :: bool
  wv_allocated :: bool

definition work_view :: "Work \<Rightarrow> work_view" where
  "work_view w =
     \<lparr>wv_key = work_key w, wv_credit = credit_op w, wv_bytes = unat (wt_bytes (wk_time w)),
      wv_idle = (wk_execute w \<noteq> None), wv_fence = wk_fenceThrough w, wv_acked = wk_acked w,
      wv_allocated = wk_stagingAllocated w\<rparr>"

lemma work_view_fields [simp]:
  "wv_key (work_view w) = work_key w" "wv_credit (work_view w) = credit_op w"
  "wv_bytes (work_view w) = unat (wt_bytes (wk_time w))" "wv_idle (work_view w) = (wk_execute w \<noteq> None)"
  "wv_fence (work_view w) = wk_fenceThrough w" "wv_acked (work_view w) = wk_acked w"
  "wv_allocated (work_view w) = wk_stagingAllocated w"
  by (simp_all add: work_view_def)

record queue_view =
  qv_waiting :: "u64 list"
  qv_occupied :: nat
  qv_credits :: nat

definition queue_view :: "Qp \<Rightarrow> queue_view" where
  "queue_view q =
     \<lparr>qv_waiting = qp_waiting q, qv_occupied = unat (qp_occupied q), qv_credits = unat (qp_readAtomicOccupied q)\<rparr>"

text \<open>The works a closure holds: those it starts, the one it copies, those on their way to execution.\<close>

fun job_starts :: "job \<Rightarrow> u64 multiset" where
  "job_starts (J_start ids) = mset ids"
| "job_starts (J_after _ j) = job_starts j"
| "job_starts (J_copied _ _ j) = job_starts j"
| "job_starts (J_cqe _ j) = job_starts j"
| "job_starts _ = {#}"

fun job_copies :: "job \<Rightarrow> u64 multiset" where
  "job_copies (J_staged p) = (if ss_id p = 0 then {#} else {#ss_id p#})"
| "job_copies (J_after _ j) = job_copies j"
| "job_copies (J_copied _ _ j) = job_copies j"
| "job_copies (J_cqe _ j) = job_copies j"
| "job_copies _ = {#}"

fun job_flights :: "job \<Rightarrow> u64 set" where
  "job_flights (J_publish _ i) = {i}"
| "job_flights (J_doorbell _ ids) = set ids"
| "job_flights (J_fetch _ ids) = set ids"
| "job_flights (J_fetched _ i) = {i}"
| "job_flights (J_fetchReady _ i) = {i}"
| "job_flights (J_execute i) = {i}"
| "job_flights (J_after _ j) = job_flights j"
| "job_flights (J_copied _ _ j) = job_flights j"
| "job_flights (J_cqe _ j) = job_flights j"
| "job_flights _ = {}"

definition pending :: "submission \<Rightarrow> job list" where
  "pending s = jobs s @ unscheduled s"

definition published_at :: "(QpKey, Qp) omap \<Rightarrow> QpKey \<Rightarrow> u64 list" where
  "published_at qps k = (case omap_find qps k of None \<Rightarrow> [] | Some q \<Rightarrow> qp_published q)"

definition flying :: "submission \<Rightarrow> u64 set" where
  "flying s = \<Union> (job_flights ` set (pending s)) \<union> (\<Union>k. set (published_at (m_qps s) k)) \<union> (\<Union>k. set (fetched_queue s k)) \<union>
     set (m_pcieReady s)"

record view =
  v_config :: RdmaSubmissionConfig
  v_nextId :: u64
  v_submitted :: u64
  v_live :: bool
  v_work :: "u64 \<Rightarrow> work_view option"
  v_qps :: "QpKey \<Rightarrow> queue_view option"
  v_fences :: "u16 \<Rightarrow> u64 option"
  v_starting :: "u64 multiset"
  v_staging :: "(u64 \<times> nat) list"
  v_copying :: "u64 multiset"
  v_flying :: "u64 set"
  v_used :: nat

definition view :: "submission \<Rightarrow> view" where
  "view s =
     \<lparr>v_config = m_config s, v_nextId = m_nextId s, v_submitted = rs_submitted (m_rdmaStats s),
      v_live = (omap_wf (m_work s) \<and> \<not> sm_disposed s),
      v_work = map_option work_view \<circ> omap_find (m_work s),
      v_qps = map_option queue_view \<circ> omap_find (m_qps s),
      v_fences = omap_find (m_fences s),
      v_starting = sum_list (map job_starts (pending s)),
      v_staging = map (\<lambda>p. (ss_id p, unat (ss_bytes p))) (m_sourceStagingWaiting s),
      v_copying = sum_list (map job_copies (pending s)),
      v_flying = flying s, v_used = unat (m_sourceStagingUsed s)\<rparr>"

lemma view_simps [simp]:
  "v_config (view s) = m_config s" "v_nextId (view s) = m_nextId s"
  "v_submitted (view s) = rs_submitted (m_rdmaStats s)" "v_live (view s) = (omap_wf (m_work s) \<and> \<not> sm_disposed s)"
  "v_work (view s) i = map_option work_view (omap_find (m_work s) i)"
  "v_qps (view s) k = map_option queue_view (omap_find (m_qps s) k)"
  "v_fences (view s) = omap_find (m_fences s)" "v_used (view s) = unat (m_sourceStagingUsed s)"
  "v_starting (view s) = sum_list (map job_starts (pending s))"
  "v_copying (view s) = sum_list (map job_copies (pending s))" "v_flying (view s) = flying s"
  "v_staging (view s) = map (\<lambda>p. (ss_id p, unat (ss_bytes p))) (m_sourceStagingWaiting s)"
  by (simp_all add: view_def)

lemmas view_defs = view_def pending_def flying_def fetched_queue_def

lemma view_stat [simp]: "(\<And>st. rs_submitted (f st) = rs_submitted st) \<Longrightarrow> view (stat f s) = view s"
  by (simp add: view_defs stat_def)

lemma view_count [simp]: "view (stat (count_d2h n) s) = view s" "view (stat (count_h2d n) s) = view s"
  by (simp_all add: count_d2h_def count_h2d_def)

lemma view_tell [simp]: "view (tell n s) = view s"
  by (simp add: view_defs tell_def)

lemma view_frame [simp]: "view (s\<lparr>m_free := f\<rparr>) = view s" "view (s\<lparr>m_doorbellFree := t\<rparr>) = view s"
  "view (s\<lparr>m_pcie := b\<rparr>) = view s" "view (s\<lparr>m_nextQp := nq\<rparr>) = view s" "view (s\<lparr>m_observer := ob\<rparr>) = view s"
  "view (s\<lparr>m_receiveStagingUsed := u\<rparr>) = view s" "view (s\<lparr>m_receiveStagingWaiting := rw\<rparr>) = view s"
  "view (s\<lparr>notices := ns\<rparr>) = view s" "view (s\<lparr>m_quiet := qs\<rparr>) = view s" "view (s\<lparr>requests := rs\<rparr>) = view s"
  "view (s\<lparr>m_producerFree := pf\<rparr>) = view s"
  by (simp_all add: view_defs)

text \<open>A new closure.\<close>

definition v_add :: "job \<Rightarrow> view \<Rightarrow> view" where
  "v_add j v = v\<lparr>v_starting := job_starts j + v_starting v, v_copying := job_copies j + v_copying v,
                 v_flying := job_flights j \<union> v_flying v\<rparr>"

lemma view_hand_over [simp]: "view (hand_over j s) = v_add j (view s)"
  by (auto simp: view_defs hand_over_def v_add_def ac_simps)

lemma view_ScheduleJob [simp]: "view (ScheduleJob env d j s) = v_add j (view s)"
  by (auto simp: ScheduleJob_def view_defs hand_over_def v_add_def ac_simps)

lemma v_add_wrapped [simp]: "v_add (J_after d j) = v_add j" "v_add (J_copied d e j) = v_add j" "v_add (J_cqe d j) = v_add j"
  by (simp_all add: v_add_def fun_eq_iff)

lemma v_add_nothing [simp]: "v_add (J_ready cb) v = v" "v_add (J_batch k) v = v" "v_add (J_observe k i) v = v"
  by (simp_all add: v_add_def)

lemma view_insert_job: "view (s\<lparr>jobs := a @ j # b\<rparr>) = v_add j (view (s\<lparr>jobs := a @ b\<rparr>))"
  by (auto simp: view_defs v_add_def ac_simps)

lemma view_take_job:
  assumes "i < length (jobs s)"
  shows "view s = v_add (jobs s ! i) (view (s\<lparr>jobs := take i (jobs s) @ drop (Suc i) (jobs s)\<rparr>))"
  using view_insert_job [of "take i (jobs s)" "jobs s ! i" "drop (Suc i) (jobs s)" s] assms
  by (simp add: id_take_nth_drop [symmetric])

text \<open>The entry of a work, of a queue pair.\<close>

lemma omap_wf_put_iff:
  "omap_find m i \<noteq> None \<Longrightarrow> omap_wf (omap_put i w m) = omap_wf m"
proof (induction i w m rule: omap_put.induct)
  case (2 k v k' v' m)
  then have "k \<in> fst ` set m" if "k \<noteq> k'" using that omap_find_in_keys [of m k] by simp
  with 2 show ?case using set_omap_put [of k v m] by auto
qed simp

lemma view_upd_work:
  "view (upd_work i f s) =
     (view s)\<lparr>v_work := (v_work (view s))(i := map_option (work_view \<circ> f) (omap_find (m_work s) i))\<rparr>"
proof (cases "omap_find (m_work s) i")
  case None
  then have "(v_work (view s))(i := None) = v_work (view s)" by (auto simp: fun_eq_iff)
  with None show ?thesis by (simp add: upd_work_def)
next
  case (Some w)
  then show ?thesis by (auto simp: upd_work_def view_defs omap_find_put omap_wf_put_iff)
qed

lemma view_upd_work_same [simp]:
  assumes "\<And>w. omap_find (m_work s) i = Some w \<Longrightarrow> work_view (f w) = work_view w"
  shows "view (upd_work i f s) = view s"
proof -
  have "(v_work (view s))(i := map_option (work_view \<circ> f) (omap_find (m_work s) i)) = v_work (view s)"
    using assms by (cases "omap_find (m_work s) i") (auto simp: fun_eq_iff)
  then show ?thesis by (simp add: view_upd_work)
qed

lemma view_upd_time [simp]:
  assumes "\<And>t. wt_peer (f t) = wt_peer t" "\<And>t. wt_qp (f t) = wt_qp t" "\<And>t. wt_opcode (f t) = wt_opcode t"
    "\<And>t. wt_bytes (f t) = wt_bytes t"
  shows "view (upd_time i f s) = view s"
  unfolding upd_time_def using assms
  by (intro view_upd_work_same) (simp add: work_view_def work_key_def credit_op_def)

lemma view_Reserve: "view (snd (Reserve env ch n t s)) = view s"
  by (simp add: Reserve_def Let_def)

lemma view_ReserveE: "Reserve env ch n t s = (x, s') \<Longrightarrow> view s' = view s"
  by (metis snd_conv view_Reserve)

subsection \<open>The invariant\<close>

text \<open>Where a work is parked; \<open>ex\<close> are the works in transit inside an operation.\<close>

definition staged_ids :: "view \<Rightarrow> u64 multiset" where
  "staged_ids v = filter_mset (\<lambda>i. i \<noteq> 0) (mset (map fst (v_staging v)))"

definition unqueued :: "u64 multiset \<Rightarrow> view \<Rightarrow> u64 multiset" where
  "unqueued ex v = ex + v_starting v + staged_ids v + v_copying v"

definition queued :: "view \<Rightarrow> u64 \<Rightarrow> bool" where
  "queued v i = (\<exists>k q. v_qps v k = Some q \<and> i \<in> set (qv_waiting q))"

definition parked :: "u64 multiset \<Rightarrow> view \<Rightarrow> u64 \<Rightarrow> bool" where
  "parked ex v i = (i \<in># unqueued ex v \<or> queued v i)"

definition admitted :: "u64 multiset \<Rightarrow> view \<Rightarrow> QpKey \<Rightarrow> u64 set" where
  "admitted ex v k = {i. \<not> parked ex v i \<and> (\<exists>w. v_work v i = Some w \<and> wv_key w = k)}"

definition creditors :: "u64 multiset \<Rightarrow> view \<Rightarrow> QpKey \<Rightarrow> u64 set" where
  "creditors ex v k = {i \<in> admitted ex v k. \<exists>w. v_work v i = Some w \<and> wv_credit w}"

definition held :: "view \<Rightarrow> nat" where
  "held v = (\<Sum>i \<in> {i. \<exists>w. v_work v i = Some w \<and> wv_allocated w}. wv_bytes (the (v_work v i)))"

definition works_ok :: "view \<Rightarrow> bool" where
  "works_ok v =
     (v_live v \<and> 0 < v_nextId v \<and> v_submitted v = v_nextId v - 1 \<and> finite (dom (v_work v)) \<and>
      (\<forall>p f. v_fences v p = Some f \<longrightarrow> f < v_nextId v) \<and> (\<forall>i \<in> v_flying v. i < v_nextId v) \<and>
      (\<forall>i w. v_work v i = Some w \<longrightarrow> 0 < i \<and> i < v_nextId v \<and> wv_fence w < i \<and> (wv_acked w \<longrightarrow> \<not> wv_idle w)))"

definition parked_ok :: "u64 multiset \<Rightarrow> view \<Rightarrow> bool" where
  "parked_ok ex v =
     ((\<forall>i. count (unqueued ex v) i \<le> 1) \<and> (\<forall>i. i \<in># unqueued ex v \<longrightarrow> \<not> queued v i) \<and>
      (\<forall>k q. v_qps v k = Some q \<longrightarrow>
         distinct (qv_waiting q) \<and> (\<forall>i \<in> set (qv_waiting q). \<exists>w. v_work v i = Some w \<and> wv_key w = k)) \<and>
      (\<forall>i. parked ex v i \<longrightarrow> i \<notin> v_flying v \<and> (\<exists>w. v_work v i = Some w \<and> wv_idle w)) \<and>
      (\<forall>i w. v_work v i = Some w \<and> \<not> parked ex v i \<longrightarrow> v_qps v (wv_key w) \<noteq> None))"

definition counts_ok :: "u64 multiset \<Rightarrow> view \<Rightarrow> bool" where
  "counts_ok ex v =
     (\<forall>k q. v_qps v k = Some q \<longrightarrow>
        qv_occupied q = card (admitted ex v k) \<and> qv_credits q = card (creditors ex v k) \<and>
        qv_occupied q \<le> unat (queueDepth (v_config v)) \<and> qv_credits q \<le> unat (maxReadAtomic (v_config v)))"

definition fence_ok :: "u64 multiset \<Rightarrow> view \<Rightarrow> bool" where
  "fence_ok ex v =
     (\<forall>i w j u. v_work v i = Some w \<and> \<not> parked ex v i \<and> v_work v j = Some u \<and>
        fst (wv_key u) = fst (wv_key w) \<and> j \<le> wv_fence w \<longrightarrow> wv_acked u)"

definition unallocated :: "u64 multiset \<Rightarrow> view \<Rightarrow> bool" where
  "unallocated ids v = (\<forall>i w. i \<in># ids \<and> v_work v i = Some w \<longrightarrow> \<not> wv_allocated w)"

definition staging_ok :: "view \<Rightarrow> bool" where
  "staging_ok v =
     (held v \<le> v_used v \<and> v_used v \<le> unat (stagingBufferBytes (v_config v)) \<and>
      unallocated (v_starting v + staged_ids v) v \<and>
      (\<forall>(i, n) \<in> set (v_staging v). \<forall>w. i \<noteq> 0 \<and> v_work v i = Some w \<longrightarrow> n = wv_bytes w))"

definition ledger_ok :: "u64 multiset \<Rightarrow> view \<Rightarrow> bool" where
  "ledger_ok ex v = (works_ok v \<and> parked_ok ex v \<and> counts_ok ex v \<and> fence_ok ex v \<and> staging_ok v)"

lemma ledger_okI:
  "works_ok v \<Longrightarrow> parked_ok ex v \<Longrightarrow> counts_ok ex v \<Longrightarrow> fence_ok ex v \<Longrightarrow> staging_ok v \<Longrightarrow> ledger_ok ex v"
  by (simp add: ledger_ok_def)

lemma ledger_okD:
  assumes "ledger_ok ex v"
  shows "works_ok v" "parked_ok ex v" "counts_ok ex v" "fence_ok ex v" "staging_ok v"
  using assms by (simp_all add: ledger_ok_def)

lemma works_okD:
  assumes "works_ok v" "v_work v i = Some w"
  shows "0 < i" "i < v_nextId v" "wv_fence w < i" "wv_acked w \<Longrightarrow> \<not> wv_idle w"
  using assms unfolding works_ok_def by blast+

lemma parked_okD:
  assumes "parked_ok ex v"
  shows "count (unqueued ex v) i \<le> 1" "i \<in># unqueued ex v \<Longrightarrow> \<not> queued v i"
    "v_qps v k = Some q \<Longrightarrow> distinct (qv_waiting q)"
    "v_qps v k = Some q \<Longrightarrow> i \<in> set (qv_waiting q) \<Longrightarrow> \<exists>w. v_work v i = Some w \<and> wv_key w = k"
    "parked ex v i \<Longrightarrow> i \<notin> v_flying v" "parked ex v i \<Longrightarrow> \<exists>w. v_work v i = Some w \<and> wv_idle w"
    "v_work v i = Some w \<Longrightarrow> \<not> parked ex v i \<Longrightarrow> v_qps v (wv_key w) \<noteq> None"
  using assms unfolding parked_ok_def by blast+

lemma counts_okD:
  assumes "counts_ok ex v" "v_qps v k = Some q"
  shows "qv_occupied q = card (admitted ex v k)" "qv_credits q = card (creditors ex v k)"
    "qv_occupied q \<le> unat (queueDepth (v_config v))" "qv_credits q \<le> unat (maxReadAtomic (v_config v))"
  using assms unfolding counts_ok_def by blast+

lemma fence_okD:
  "fence_ok ex v \<Longrightarrow> v_work v i = Some w \<Longrightarrow> \<not> parked ex v i \<Longrightarrow> v_work v j = Some u \<Longrightarrow>
   fst (wv_key u) = fst (wv_key w) \<Longrightarrow> j \<le> wv_fence w \<Longrightarrow> wv_acked u"
  unfolding fence_ok_def by blast

lemma acked_not_parked:
  assumes "ledger_ok ex v" "v_work v i = Some w" "wv_acked w"
  shows "\<not> parked ex v i"
  using parked_okD(6) [OF ledger_okD(2) [OF assms(1)]] works_okD(4) [OF ledger_okD(1) [OF assms(1)] assms(2,3)] assms(2)
  by fastforce

lemma finite_admitted: "works_ok v \<Longrightarrow> finite (admitted ex v k)"
  by (rule finite_subset [of _ "dom (v_work v)"]) (auto simp: admitted_def works_ok_def)

lemma finite_creditors: "works_ok v \<Longrightarrow> finite (creditors ex v k)"
  by (rule finite_subset [OF _ finite_admitted]) (auto simp: creditors_def)

text \<open>What the invariant does not see: works in flight may come down, and move.\<close>

lemma flying_places [simp]:
  "staged_ids (v\<lparr>v_flying := F\<rparr>) = staged_ids v" "unqueued ex (v\<lparr>v_flying := F\<rparr>) = unqueued ex v"
  "queued (v\<lparr>v_flying := F\<rparr>) = queued v" "parked ex (v\<lparr>v_flying := F\<rparr>) = parked ex v"
  "admitted ex (v\<lparr>v_flying := F\<rparr>) = admitted ex v" "creditors ex (v\<lparr>v_flying := F\<rparr>) = creditors ex v"
  "held (v\<lparr>v_flying := F\<rparr>) = held v" "unallocated ids (v\<lparr>v_flying := F\<rparr>) = unallocated ids v"
  by (simp_all add: staged_ids_def unqueued_def queued_def parked_def admitted_def creditors_def held_def
      unallocated_def fun_eq_iff)

lemma flying_oks [simp]:
  "counts_ok ex (v\<lparr>v_flying := F\<rparr>) = counts_ok ex v" "fence_ok ex (v\<lparr>v_flying := F\<rparr>) = fence_ok ex v"
  "staging_ok (v\<lparr>v_flying := F\<rparr>) = staging_ok v"
  by (simp_all add: counts_ok_def fence_ok_def staging_ok_def)

lemma ledger_flying:
  assumes "ledger_ok ex v" "F \<subseteq> v_flying v"
  shows "ledger_ok ex (v\<lparr>v_flying := F\<rparr>)"
proof (rule ledger_okI)
  show "works_ok (v\<lparr>v_flying := F\<rparr>)" using ledger_okD(1) [OF assms(1)] assms(2) by (auto simp: works_ok_def)
  show "parked_ok ex (v\<lparr>v_flying := F\<rparr>)"
    using ledger_okD(2) [OF assms(1)] assms(2) unfolding parked_ok_def by (simp add: subset_iff) blast
qed (use ledger_okD(3-5) [OF assms(1)] in simp_all)

text \<open>Nor does it tell the works of a closure to start, or of one copied, from works in transit.\<close>

lemma unqueued_add [simp]: "unqueued ex (v_add j v) = unqueued (ex + job_starts j + job_copies j) v"
  by (simp add: unqueued_def staged_ids_def v_add_def ac_simps)

subsection \<open>Admission\<close>

definition v_blocked :: "view \<Rightarrow> work_view \<Rightarrow> bool" where
  "v_blocked v w = (\<exists>j u. v_work v j = Some u \<and> j \<le> wv_fence w \<and> fst (wv_key u) = fst (wv_key w) \<and> \<not> wv_acked u)"

definition v_admit :: "QpKey \<Rightarrow> u64 \<Rightarrow> queue_view \<Rightarrow> bool \<Rightarrow> view \<Rightarrow> view" where
  "v_admit k i q credit v =
     v\<lparr>v_qps := (v_qps v)(k \<mapsto> \<lparr>qv_waiting = tl (qv_waiting q), qv_occupied = qv_occupied q + 1,
         qv_credits = qv_credits q + (if credit then 1 else 0)\<rparr>), v_flying := insert i (v_flying v)\<rparr>"

lemma v_admit_simps [simp]:
  "v_work (v_admit k i q c v) = v_work v" "v_config (v_admit k i q c v) = v_config v"
  "v_staging (v_admit k i q c v) = v_staging v" "v_used (v_admit k i q c v) = v_used v"
  "staged_ids (v_admit k i q c v) = staged_ids v" "unqueued ex (v_admit k i q c v) = unqueued ex v"
  "held (v_admit k i q c v) = held v" "unallocated ids (v_admit k i q c v) = unallocated ids v"
  "v_starting (v_admit k i q c v) = v_starting v" "v_flying (v_admit k i q c v) = insert i (v_flying v)"
  by (simp_all add: v_admit_def staged_ids_def unqueued_def held_def unallocated_def)

lemma admit_parked:
  assumes "parked_ok ex v" "v_qps v k = Some q" "qv_waiting q = i # ids"
  shows "queued (v_admit k i q c v) j = (queued v j \<and> j \<noteq> i)" "parked ex (v_admit k i q c v) j = (parked ex v j \<and> j \<noteq> i)"
proof -
  have other: "j \<noteq> i" if "v_qps v k' = Some q'" "k' \<noteq> k" "j \<in> set (qv_waiting q')" for j k' q'
    using that parked_okD(4) [OF assms(1) that(1,3)] parked_okD(4) [OF assms(1,2), of i] assms(3) by auto
  have ids: "i \<notin> set ids" using parked_okD(3) [OF assms(1,2)] assms(3) by auto
  have q': "queued v j = (j \<in> insert i (set ids) \<or> (\<exists>k' q'. k' \<noteq> k \<and> v_qps v k' = Some q' \<and> j \<in> set (qv_waiting q')))"
    unfolding queued_def using assms(2,3) by (metis list.simps(15) option.inject)
  have "queued (v_admit k i q c v) j = (j \<in> set ids \<or> (\<exists>k' q'. k' \<noteq> k \<and> v_qps v k' = Some q' \<and> j \<in> set (qv_waiting q')))"
    using assms(3) unfolding queued_def v_admit_def by (auto split: if_splits)
  also have "\<dots> = (queued v j \<and> j \<noteq> i)"
    using q' other ids by blast
  finally show q: "queued (v_admit k i q c v) j = (queued v j \<and> j \<noteq> i)" .
  have "queued v i" using assms(2,3) by (auto simp: queued_def intro!: exI [of _ k])
  then have "i \<notin># unqueued ex v" using parked_okD(2) [OF assms(1)] by blast
  then show "parked ex (v_admit k i q c v) j = (parked ex v j \<and> j \<noteq> i)" by (auto simp: parked_def q)
qed

lemma admit_admitted:
  assumes "parked_ok ex v" "v_qps v k = Some q" "qv_waiting q = i # ids" "v_work v i = Some w"
  shows "admitted ex (v_admit k i q c v) k' = (if k' = k then insert i (admitted ex v k) else admitted ex v k')"
    "creditors ex (v_admit k i q c v) k' =
       (if k' = k \<and> wv_credit w then insert i (creditors ex v k) else creditors ex v k')"
    "i \<notin> admitted ex v k"
proof -
  have key: "wv_key w = k" using parked_okD(4) [OF assms(1,2), of i] assms(3,4) by simp
  have i: "parked ex v i" using assms(2,3) by (auto simp: parked_def queued_def intro!: exI [of _ k])
  show a: "admitted ex (v_admit k i q c v) k' = (if k' = k then insert i (admitted ex v k) else admitted ex v k')" for k'
    using assms(4) key i by (auto simp: admitted_def admit_parked [OF assms(1-3)])
  show "creditors ex (v_admit k i q c v) k' =
     (if k' = k \<and> wv_credit w then insert i (creditors ex v k) else creditors ex v k')"
    unfolding creditors_def a using assms(4) by auto
  show "i \<notin> admitted ex v k" using i by (simp add: admitted_def)
qed

lemma admit_ok:
  assumes ok: "ledger_ok ex v" and q: "v_qps v k = Some q" and wait: "qv_waiting q = i # ids"
    and w: "v_work v i = Some w" and free: "\<not> v_blocked v w"
    and room: "qv_occupied q < unat (queueDepth (v_config v))"
    and credit: "wv_credit w \<Longrightarrow> qv_credits q < unat (maxReadAtomic (v_config v))"
  shows "ledger_ok ex (v_admit k i q (wv_credit w) v)"
proof (rule ledger_okI)
  let ?v = "v_admit k i q (wv_credit w) v"
  note oks = ledger_okD [OF ok]
  note p = admit_parked [OF oks(2) q wait] and a = admit_admitted [OF oks(2) q wait w]
  have key: "wv_key w = k" using parked_okD(4) [OF oks(2) q, of i] wait w by simp
  have qps: "v_qps ?v k' = (if k' = k then Some \<lparr>qv_waiting = ids, qv_occupied = qv_occupied q + 1,
       qv_credits = qv_credits q + (if wv_credit w then 1 else 0)\<rparr> else v_qps v k')" for k'
    by (simp add: v_admit_def wait)
  show "works_ok ?v" using oks(1) w works_okD(2) [OF oks(1) w] by (simp add: works_ok_def v_admit_def)
  show "staging_ok ?v" using oks(5) by (simp add: staging_ok_def)
  show "counts_ok ex ?v"
    unfolding counts_ok_def
  proof (intro allI impI)
    fix k' q' assume q': "v_qps ?v k' = Some q'"
    have "i \<notin> creditors ex v k" using a(3) by (simp add: creditors_def)
    then show "qv_occupied q' = card (admitted ex ?v k') \<and> qv_credits q' = card (creditors ex ?v k') \<and>
      qv_occupied q' \<le> unat (queueDepth (v_config ?v)) \<and> qv_credits q' \<le> unat (maxReadAtomic (v_config ?v))"
      using q' counts_okD [OF oks(3) q] counts_okD [OF oks(3), of k' q'] room credit a(3)
        finite_admitted [OF oks(1)] finite_creditors [OF oks(1)]
      by (cases "k' = k") (auto simp: qps a(1,2))
  qed
  show "parked_ok ex ?v"
    unfolding parked_ok_def p v_admit_simps
  proof (intro conjI allI impI ballI)
    fix k' q' assume q': "v_qps ?v k' = Some q'"
    show "distinct (qv_waiting q')"
      using q' parked_okD(3) [OF oks(2), of k' q'] parked_okD(3) [OF oks(2) q] wait by (auto simp: qps split: if_splits)
    show "\<exists>u. v_work v j = Some u \<and> wv_key u = k'" if "j \<in> set (qv_waiting q')" for j
      using q' that parked_okD(4) [OF oks(2), of k' _ j] q wait by (auto simp: qps split: if_splits)
  next
    fix j u assume "v_work v j = Some u \<and> \<not> (parked ex v j \<and> j \<noteq> i)"
    then show "v_qps ?v (wv_key u) \<noteq> None" using parked_okD(7) [OF oks(2), of j u] w key by (auto simp: qps)
  qed (use parked_okD(1,2,5,6) [OF oks(2)] in auto)
  show "fence_ok ex ?v"
    using oks(4) free w unfolding fence_ok_def p v_admit_simps v_blocked_def by (metis option.inject)
qed

text \<open>The test of the fence walks the works in the order of their identifiers.\<close>

lemma takeWhile_sorted:
  "omap_wf m \<Longrightarrow> set (takeWhile (\<lambda>e. fst e \<le> x) m) = {e \<in> set m. fst e \<le> x}"
proof (induction m)
  case (Cons e m)
  then show ?case by (cases e) force
qed simp

lemma fence_blocks:
  assumes "omap_wf (m_work s)" "works_ok (view s)"
  shows "BlockedByFence s w = v_blocked (view s) (work_view w)"
proof -
  have pos: "wk_fenceThrough w \<noteq> 0" if "omap_find (m_work s) j = Some u" "j \<le> wk_fenceThrough w" for j u
  proof -
    have "0 < j" using works_okD(1) [OF assms(2), of j "work_view u"] that by simp
    with that(2) show ?thesis by (metis leD)
  qed
  have "BlockedByFence s w \<longleftrightarrow> wk_fenceThrough w \<noteq> 0 \<and> (\<exists>j u. omap_find (m_work s) j = Some u \<and>
      j \<le> wk_fenceThrough w \<and> wt_peer (wk_time u) = wt_peer (wk_time w) \<and> \<not> wk_acked u)"
    unfolding BlockedByFence_def takeWhile_sorted [OF assms(1)]
    by (auto simp: omap_mem_iff [OF assms(1)] split_paired_Ex)
  also have "\<dots> = v_blocked (view s) (work_view w)"
    using pos by (force simp: v_blocked_def work_view_def work_key_def)
  finally show ?thesis .
qed

text \<open>The entry of a queue pair.\<close>

lemma published_put: "published_at (omap_put k q m) = (published_at m)(k := qp_published q)"
  by (auto simp: published_at_def [abs_def] omap_find_put)

lemma view_put_qp:
  assumes "m_qps s = m" "qp_published q = published_at m k"
  shows "view (s\<lparr>m_qps := omap_put k q m\<rparr>) = (view s)\<lparr>v_qps := (v_qps (view s))(k \<mapsto> queue_view q)\<rparr>"
  using assms by (auto simp: view_defs omap_find_put published_put)

lemma frames [simp]:
  "m_qps (stat f s) = m_qps s" "m_qps (tell n s) = m_qps s" "m_qps (upd_work i g s) = m_qps s"
  "m_qps (upd_time i h s) = m_qps s" "m_qps (hand_over j s) = m_qps s" "m_qps (ScheduleJob env d j s) = m_qps s"
  "m_config (stat f s) = m_config s" "m_config (tell n s) = m_config s" "m_config (upd_work i g s) = m_config s"
  "m_config (upd_time i h s) = m_config s" "m_config (hand_over j s) = m_config s"
  "m_config (ScheduleJob env d j s) = m_config s"
  "m_producerFree (stat f s) = m_producerFree s" "m_producerFree (upd_time i h s) = m_producerFree s"
  by (simp_all add: stat_def tell_def upd_time_def upd_work_def hand_over_def ScheduleJob_def split: option.split)

lemma modes [simp]:
  "by_cpu (stat f s) = by_cpu s" "by_cpu (upd_time i h s) = by_cpu s" "by_cpu (s\<lparr>m_producerFree := pf\<rparr>) = by_cpu s"
  by (simp_all add: by_cpu_def)

lemma unat_Suc_below:
  fixes x y :: "'a::len word"
  assumes "x < y"
  shows "unat (x + 1) = unat x + 1"
proof -
  have "unat y < 2 ^ LENGTH('a)" by (rule unsigned_less)
  moreover have "unat x < unat y" using assms by (simp add: word_less_nat_alt)
  ultimately have "unat x + 1 < 2 ^ LENGTH('a)" by linarith
  then show ?thesis by (simp add: unat_word_ariths)
qed

lemma admit_view:
  assumes "admit env k i w q s = Inr s'" "omap_find (m_qps s) k = Some q"
    "qp_occupied q < x" "credit_op w \<Longrightarrow> qp_readAtomicOccupied q < y"
  shows "view s' = v_admit k i (queue_view q) (credit_op w) (view s)"
proof -
  have p: "published_at (m_qps s) k = qp_published q" using assms(2) by (simp add: published_at_def)
  have "unat (wt_producer (wk_time w)) < length (m_producerFree s)"
    by (rule ccontr) (use assms(1) in \<open>simp add: admit_def Let_def\<close>)
  with assms(1) have "view s' = v_add (J_publish k i) ((view s)\<lparr>v_qps := (v_qps (view s))(k \<mapsto>
      \<lparr>qv_waiting = tl (qp_waiting q), qv_occupied = unat (qp_occupied q + 1),
       qv_credits = unat (qp_readAtomicOccupied q + (if credit_op w then 1 else 0))\<rparr>)\<rparr>)"
    by (cases "credit_op w") (auto simp: admit_def Let_def p view_put_qp queue_view_def) 
  then show ?thesis
    using unat_Suc_below [OF assms(3)] unat_Suc_below [OF assms(4)]
    by (auto simp: v_admit_def queue_view_def v_add_def)
qed

lemma qp_at_Inr [simp]: "qp_at s k = Inr q \<longleftrightarrow> omap_find (m_qps s) k = Some q"
  by (auto simp: qp_at_def out_of_range_def split: option.splits)

lemma work_at_Inr [simp]: "work_at s i = Inr w \<longleftrightarrow> omap_find (m_work s) i = Some w"
  by (auto simp: work_at_def out_of_range_def split: option.splits)

lemma pump_works_ok:
  assumes "pump_works env k ids s = Inr s'" "ledger_ok ex (view s)"
    "\<And>q. omap_find (m_qps s) k = Some q \<Longrightarrow> qp_waiting q = ids"
  shows "ledger_ok ex (view s') \<and> v_work (view s') = v_work (view s)"
  using assms
proof (induction ids arbitrary: s)
  case (Cons i ids)
  obtain q where q: "omap_find (m_qps s) k = Some q" using Cons.prems(1) by auto
  note step = Cons.prems(1) [simplified pump_works.simps and_then_Inr qp_at_Inr q]
  show ?case
  proof (cases "qp_occupied q < queueDepth (m_config s)")
    case room: True
    with step q obtain w where w: "omap_find (m_work s) i = Some w"
      and step: "(if held_back s q w then Inr s else and_then (admit env k i w q s) (pump_works env k ids)) = Inr s'"
      by auto
    show ?thesis
    proof (cases "held_back s q w")
      case False
      with step obtain s1 where s1: "admit env k i w q s = Inr s1" and run: "pump_works env k ids s1 = Inr s'"
        by auto
      have free: "\<not> BlockedByFence s w" and credit: "credit_op w \<Longrightarrow> qp_readAtomicOccupied q < maxReadAtomic (m_config s)"
        using False by (auto simp: held_back_def)
      have v1: "view s1 = v_admit k i (queue_view q) (credit_op w) (view s)"
        by (rule admit_view [OF s1 q room credit])
      have "ledger_ok ex (v_admit k i (queue_view q) (wv_credit (work_view w)) (view s))"
      proof (rule admit_ok [OF Cons.prems(2)])
        show "\<not> v_blocked (view s) (work_view w)"
          using free fence_blocks [of s w] ledger_okD(1) [OF Cons.prems(2)] by (simp add: works_ok_def)
      qed (use q w room credit Cons.prems(3) in \<open>auto simp: queue_view_def word_less_nat_alt work_view_def\<close>)
      then have ok: "ledger_ok ex (view s1)" by (simp add: v1 work_view_def)
      have "v_qps (view s1) k = Some \<lparr>qv_waiting = ids, qv_occupied = qv_occupied (queue_view q) + 1,
          qv_credits = qv_credits (queue_view q) + (if credit_op w then 1 else 0)\<rparr>"
        using Cons.prems(3) [OF q] unfolding v1 by (simp add: v_admit_def queue_view_def)
      then have "qp_waiting q' = ids" if "omap_find (m_qps s1) k = Some q'" for q' using that by (auto simp: queue_view_def)
      from Cons.IH [OF run ok this] v1 show ?thesis by simp
    qed (use step Cons.prems in simp)
  qed (use step q Cons.prems in auto)
qed simp

lemma Pump_ok:
  assumes "Pump env k s = Inr s'" "ledger_ok ex (view s)"
  shows "ledger_ok ex (view s')" "v_work (view s') = v_work (view s)"
proof -
  obtain q where q: "omap_find (m_qps s) k = Some q" and run: "pump_works env k (qp_waiting q) s = Inr s'"
    using assms(1) by (auto simp: Pump_def)
  from pump_works_ok [OF run assms(2)] q show "ledger_ok ex (view s')" "v_work (view s') = v_work (view s)" by auto
qed

lemma pump_all_ok: "pump_all env ks s = Inr s' \<Longrightarrow> ledger_ok ex (view s) \<Longrightarrow> ledger_ok ex (view s')"
  by (induction env ks s arbitrary: s' rule: pump_all.induct) (auto dest: Pump_ok)

subsection \<open>Entering a queue\<close>

lemma set_upper_insert [simp]: "set (upper_insert i ids) = insert i (set ids)"
  by (induction i ids rule: upper_insert.induct) auto

lemma distinct_upper_insert [simp]: "distinct (upper_insert i ids) = (i \<notin> set ids \<and> distinct ids)"
  by (induction i ids rule: upper_insert.induct) auto

definition v_enter :: "QpKey \<Rightarrow> u64 \<Rightarrow> view \<Rightarrow> view" where
  "v_enter k i v =
     (let q = (case v_qps v k of None \<Rightarrow> \<lparr>qv_waiting = [], qv_occupied = 0, qv_credits = 0\<rparr> | Some q \<Rightarrow> q)
      in v\<lparr>v_qps := (v_qps v)(k \<mapsto> q\<lparr>qv_waiting := upper_insert i (qv_waiting q)\<rparr>)\<rparr>)"

lemma v_enter_simps [simp]:
  "v_work (v_enter k i v) = v_work v" "v_config (v_enter k i v) = v_config v"
  "v_staging (v_enter k i v) = v_staging v" "v_used (v_enter k i v) = v_used v"
  "staged_ids (v_enter k i v) = staged_ids v" "unqueued ex (v_enter k i v) = unqueued ex v"
  "held (v_enter k i v) = held v" "unallocated ids (v_enter k i v) = unallocated ids v"
  "v_starting (v_enter k i v) = v_starting v" "v_flying (v_enter k i v) = v_flying v"
  by (simp_all add: v_enter_def Let_def staged_ids_def unqueued_def held_def unallocated_def)

lemma enter_queued: "queued (v_enter k i v) j = (j = i \<or> queued v j)"
proof
  assume "queued (v_enter k i v) j"
  then obtain k' q' where *: "v_qps (v_enter k i v) k' = Some q'" "j \<in> set (qv_waiting q')" unfolding queued_def by blast
  then have "(k' = k \<and> j = i) \<or> (\<exists>q. v_qps v k' = Some q \<and> j \<in> set (qv_waiting q))"
    by (cases "k' = k"; cases "v_qps v k") (auto simp: v_enter_def Let_def)
  then show "j = i \<or> queued v j" unfolding queued_def by blast
next
  assume "j = i \<or> queued v j"
  then obtain k' where "(j = i \<and> k' = k) \<or> (\<exists>q. v_qps v k' = Some q \<and> j \<in> set (qv_waiting q))" unfolding queued_def by blast
  then have "\<exists>q. v_qps (v_enter k i v) k' = Some q \<and> j \<in> set (qv_waiting q)"
    by (cases "k' = k"; cases "v_qps v k") (auto simp: v_enter_def Let_def)
  then show "queued (v_enter k i v) j" unfolding queued_def by blast
qed

lemma enter_places [simp]:
  "parked ex (v_enter k i v) = parked (add_mset i ex) v"
  "admitted ex (v_enter k i v) = admitted (add_mset i ex) v"
  "creditors ex (v_enter k i v) = creditors (add_mset i ex) v"
proof -
  show p: "parked ex (v_enter k i v) = parked (add_mset i ex) v"
    by (auto simp: parked_def enter_queued fun_eq_iff) (auto simp: unqueued_def)
  show "admitted ex (v_enter k i v) = admitted (add_mset i ex) v" by (simp add: admitted_def p fun_eq_iff)
  then show "creditors ex (v_enter k i v) = creditors (add_mset i ex) v" by (simp add: creditors_def fun_eq_iff)
qed

lemma unqueued_add_mset: "unqueued (add_mset i ex) v = add_mset i (unqueued ex v)"
  by (simp add: unqueued_def)

text \<open>A queue pair that does not exist yet has admitted nothing.\<close>

lemma no_queue_no_work:
  assumes "parked_ok ex v" "v_qps v k = None"
  shows "admitted ex v k = {}" "creditors ex v k = {}"
  using parked_okD(7) [OF assms(1)] assms(2) by (fastforce simp: admitted_def creditors_def)+

lemma enter_ok:
  assumes ok: "ledger_ok (add_mset i ex) v" and w: "v_work v i = Some w" "wv_key w = k"
  shows "ledger_ok ex (v_enter k i v)"
proof (rule ledger_okI)
  note oks = ledger_okD [OF ok]
  let ?v = "v_enter k i v"
  have i: "i \<in># unqueued (add_mset i ex) v" by (simp add: unqueued_def)
  then have nq: "\<not> queued v i" by (rule parked_okD(2) [OF oks(2)])
  have cnt: "i \<notin># unqueued ex v"
    using parked_okD(1) [OF oks(2), of i] by (simp add: unqueued_add_mset not_in_iff)
  have qps: "v_qps ?v k' = Some q' \<Longrightarrow> (k' \<noteq> k \<and> v_qps v k' = Some q') \<or>
     (k' = k \<and> (\<exists>q. v_qps v k = Some q \<and> q' = q\<lparr>qv_waiting := upper_insert i (qv_waiting q)\<rparr>)) \<or>
     (k' = k \<and> v_qps v k = None \<and> q' = \<lparr>qv_waiting = [i], qv_occupied = 0, qv_credits = 0\<rparr>)" for k' q'
    by (cases "v_qps v k") (auto simp: v_enter_def Let_def split: if_splits)
  show "works_ok ?v" using oks(1) by (simp add: works_ok_def v_enter_def Let_def)
  show "staging_ok ?v" using oks(5) by (simp add: staging_ok_def)
  show "fence_ok ex ?v" using oks(4) by (simp add: fence_ok_def)
  show "counts_ok ex ?v"
    unfolding counts_ok_def
  proof (intro allI impI)
    fix k' q' assume "v_qps ?v k' = Some q'"
    from qps [OF this] show "qv_occupied q' = card (admitted ex ?v k') \<and> qv_credits q' = card (creditors ex ?v k') \<and>
      qv_occupied q' \<le> unat (queueDepth (v_config ?v)) \<and> qv_credits q' \<le> unat (maxReadAtomic (v_config ?v))"
      using counts_okD [OF oks(3), of k'] no_queue_no_work [OF oks(2), of k'] by (elim disjE conjE exE) simp_all
  qed
  show "parked_ok ex ?v"
    unfolding parked_ok_def enter_places v_enter_simps
  proof (intro conjI allI impI ballI)
    show "count (unqueued ex v) j \<le> 1" for j
      using parked_okD(1) [OF oks(2), of j] by (simp add: unqueued_add_mset split: if_splits)
    show "\<not> queued ?v j" if "j \<in># unqueued ex v" for j
      using that cnt parked_okD(2) [OF oks(2), of j] by (auto simp: enter_queued unqueued_add_mset)
  next
    fix k' q' assume q': "v_qps ?v k' = Some q'"
    show "distinct (qv_waiting q')"
      using qps [OF q'] parked_okD(3) [OF oks(2), of k'] nq unfolding queued_def by (elim disjE conjE exE) auto
    show "\<exists>u. v_work v j = Some u \<and> wv_key u = k'" if "j \<in> set (qv_waiting q')" for j
      using qps [OF q'] parked_okD(4) [OF oks(2), of k' _ j] w that by (elim disjE conjE exE) auto
  next
    fix j u assume "v_work v j = Some u \<and> \<not> parked (add_mset i ex) v j"
    then have "v_qps v (wv_key u) \<noteq> None" using parked_okD(7) [OF oks(2), of j u] by simp
    then show "v_qps ?v (wv_key u) \<noteq> None" by (simp add: v_enter_def Let_def)
  qed (use parked_okD(5,6) [OF oks(2)] in auto)
qed

lemma view_enter:
  "view (s\<lparr>m_qps := omap_put k ((case omap_find (m_qps s) k of None \<Rightarrow> Qp_new | Some q \<Rightarrow> q)
       \<lparr>qp_waiting := upper_insert i (qp_waiting (case omap_find (m_qps s) k of None \<Rightarrow> Qp_new | Some q \<Rightarrow> q))\<rparr>) (m_qps s)\<rparr>) =
   v_enter k i (view s)"
  by (subst view_put_qp [OF refl])
     (auto simp: v_enter_def Let_def published_at_def Qp_new_def queue_view_def fun_eq_iff split: option.splits)

lemma enter_queue_ok:
  assumes "enter_queue env i w s = Inr s'" "ledger_ok (add_mset i ex) (view s)" "omap_find (m_work s) i = Some u"
    "work_key u = work_key w"
  shows "ledger_ok ex (view s')" "v_work (view s') = v_work (view s)"
proof -
  let ?s = "s\<lparr>m_qps := omap_put (work_key w) ((case omap_find (m_qps s) (work_key w) of None \<Rightarrow> Qp_new | Some q \<Rightarrow> q)
       \<lparr>qp_waiting := upper_insert i (qp_waiting (case omap_find (m_qps s) (work_key w) of None \<Rightarrow> Qp_new | Some q \<Rightarrow> q))\<rparr>) (m_qps s)\<rparr>"
  have "Pump env (work_key w) ?s = Inr s'" using assms(1) by (simp add: enter_queue_def Let_def)
  moreover have "ledger_ok ex (view ?s)"
    unfolding view_enter using assms(2-4) by (intro enter_ok [of i ex _ "work_view u"]) (simp_all add: work_view_def)
  ultimately show "ledger_ok ex (view s')" "v_work (view s') = v_work (view s)"
    using Pump_ok [of env "work_key w" ?s s' ex] by (simp_all only: view_enter v_enter_simps)
qed

subsection \<open>Staging\<close>

text \<open>What the other groups of the invariant see of a work; the allocation concerns the staging buffer only.\<close>

definition shape :: "work_view \<Rightarrow> work_view" where
  "shape w = w\<lparr>wv_allocated := False\<rparr>"

lemma shapeD:
  assumes "shape w = shape u"
  shows "wv_key w = wv_key u" "wv_credit w = wv_credit u" "wv_bytes w = wv_bytes u" "wv_idle w = wv_idle u"
    "wv_fence w = wv_fence u" "wv_acked w = wv_acked u"
  using assms by (cases w; cases u; simp add: shape_def)+

definition same_works :: "view \<Rightarrow> view \<Rightarrow> bool" where
  "same_works v v' = (\<forall>i. map_option shape (v_work v' i) = map_option shape (v_work v i))"

lemma same_worksE:
  assumes "same_works v v'" "v_work v' i = Some w'"
  obtains w where "v_work v i = Some w" "shape w' = shape w"
  using assms unfolding same_works_def by (metis (no_types, lifting) map_option_eq_Some option.map(2))

lemma same_works_sym: "same_works v v' \<Longrightarrow> same_works v' v"
  by (simp add: same_works_def)

lemma same_works_refl [simp]: "v_work v' = v_work v \<Longrightarrow> same_works v v'"
  by (simp add: same_works_def)

lemma same_works_ex:
  assumes "same_works v v'" "\<And>w u. shape w = shape u \<Longrightarrow> P w = P u"
  shows "(\<exists>w. v_work v' i = Some w \<and> P w) = (\<exists>w. v_work v i = Some w \<and> P w)"
proof (cases "v_work v i")
  case None
  then show ?thesis using assms(1) by (auto simp: same_works_def dest: spec [of _ i])
next
  case (Some w)
  then obtain u where u: "v_work v' i = Some u" "shape w = shape u"
    by (rule same_worksE [OF same_works_sym [OF assms(1)]])
  have "P w = P u" by (rule assms(2) [OF u(2)])
  with Some u(1) show ?thesis by simp
qed

lemma ledger_congr:
  assumes ok: "ledger_ok ex v" and q: "v_qps v' = v_qps v" and u: "unqueued ex' v' = unqueued ex v"
    and same: "v_config v' = v_config v" "v_nextId v' = v_nextId v" "v_submitted v' = v_submitted v" "v_live v'"
      "\<And>p f. v_fences v' p = Some f \<Longrightarrow> f < v_nextId v" "v_flying v' \<subseteq> v_flying v"
    and w: "same_works v v'" and st: "staging_ok v'"
  shows "ledger_ok ex' v'"
proof (rule ledger_okI [OF _ _ _ _ st])
  note oks = ledger_okD [OF ok]
  note there = same_worksE [OF w] 
  have key: "(\<exists>w. v_work v' i = Some w \<and> wv_key w = k) = (\<exists>w. v_work v i = Some w \<and> wv_key w = k)" for i k
    by (rule same_works_ex [OF w]) (metis shapeD(1))
  have credit: "(\<exists>w. v_work v' i = Some w \<and> wv_credit w) = (\<exists>w. v_work v i = Some w \<and> wv_credit w)" for i
    by (rule same_works_ex [OF w]) (metis shapeD(2))
  have idle: "(\<exists>w. v_work v' i = Some w \<and> wv_idle w) = (\<exists>w. v_work v i = Some w \<and> wv_idle w)" for i
    by (rule same_works_ex [OF w]) (metis shapeD(4))
  have p: "queued v' = queued v" "parked ex' v' = parked ex v"
    by (simp_all add: queued_def parked_def q u fun_eq_iff)
  have dom: "dom (v_work v') = dom (v_work v)"
    using w unfolding same_works_def dom_def by (metis (no_types, lifting) option.map_disc_iff)
  have a: "admitted ex' v' k = admitted ex v k" for k
    unfolding admitted_def p key ..
  have c: "creditors ex' v' k = creditors ex v k" for k
    unfolding creditors_def a credit ..
  show "works_ok v'"
    unfolding works_ok_def same(1-3) dom
  proof (intro conjI allI impI)
    fix i w' assume "v_work v' i = Some w'"
    then obtain w0 where w0: "v_work v i = Some w0" "shape w' = shape w0" using there by blast
    show "0 < i" "i < v_nextId v" "wv_fence w' < i" "wv_acked w' \<Longrightarrow> \<not> wv_idle w'"
      using works_okD [OF oks(1) w0(1)] by (simp_all add: shapeD [OF w0(2)])
  qed (use oks(1) same(4-6) in \<open>auto simp: works_ok_def\<close>)
  show "counts_ok ex' v'" using oks(3) unfolding counts_ok_def q a c same(1) .
  show "fence_ok ex' v'"
    unfolding fence_ok_def p
  proof (intro allI impI)
    fix i w' j u' assume *: "v_work v' i = Some w' \<and> \<not> parked ex v i \<and> v_work v' j = Some u' \<and>
      fst (wv_key u') = fst (wv_key w') \<and> j \<le> wv_fence w'"
    obtain w0 where "v_work v i = Some w0" "shape w' = shape w0" using * there by blast
    moreover obtain u0 where "v_work v j = Some u0" "shape u' = shape u0" using * there by blast
    ultimately show "wv_acked u'" using fence_okD [OF oks(4), of i w0 j u0] * shapeD(1,5,6) by metis
  qed
  show "parked_ok ex' v'"
    unfolding parked_ok_def p q u
  proof (intro conjI allI impI ballI)
    fix k qq assume qq: "v_qps v k = Some qq"
    then show "distinct (qv_waiting qq)" by (rule parked_okD(3) [OF oks(2)])
    fix i assume "i \<in> set (qv_waiting qq)"
    from parked_okD(4) [OF oks(2) qq this] show "\<exists>w. v_work v' i = Some w \<and> wv_key w = k"
      unfolding key .
  next
    fix i assume i: "parked ex v i"
    then show "i \<notin> v_flying v'" using parked_okD(5) [OF oks(2)] same(6) by blast
    from parked_okD(6) [OF oks(2) i] show "\<exists>w. v_work v' i = Some w \<and> wv_idle w"
      unfolding idle .
  next
    fix i w' assume *: "v_work v' i = Some w' \<and> \<not> parked ex v i"
    then obtain w0 where "v_work v i = Some w0" "shape w' = shape w0" using there by blast
    with * parked_okD(7) [OF oks(2), of i w0] show "v_qps v (wv_key w') \<noteq> None" using shapeD(1) by metis
  qed (use parked_okD(1,2) [OF oks(2)] in auto)
qed

lemma staging_okD:
  assumes "staging_ok v"
  shows "held v \<le> v_used v" "v_used v \<le> unat (stagingBufferBytes (v_config v))"
    "unallocated (v_starting v + staged_ids v) v"
    "(i, n) \<in> set (v_staging v) \<Longrightarrow> i \<noteq> 0 \<Longrightarrow> v_work v i = Some w \<Longrightarrow> n = wv_bytes w"
  using assms unfolding staging_ok_def by blast+

lemma unallocated_union [simp]: "unallocated (a + b) v = (unallocated a v \<and> unallocated b v)"
  by (auto simp: unallocated_def)

text \<open>Joining the staging queue: a work in transit, or a responder (identifier 0).\<close>

definition v_stage :: "u64 \<Rightarrow> nat \<Rightarrow> view \<Rightarrow> view" where
  "v_stage i n v = v\<lparr>v_staging := v_staging v @ [(i, n)]\<rparr>"

lemma staged_ids_stage [simp]: "staged_ids (v_stage i n v) = staged_ids v + (if i = 0 then {#} else {#i#})"
  by (simp add: staged_ids_def v_stage_def)

lemma stage_ok:
  assumes ok: "ledger_ok (ids + ex) v" and ids: "ids = (if i = 0 then {#} else {#i#})"
    and new: "unallocated ids v" and n: "\<And>w. i \<noteq> 0 \<Longrightarrow> v_work v i = Some w \<Longrightarrow> n = wv_bytes w"
  shows "ledger_ok ex (v_stage i n v)"
proof (rule ledger_congr [OF ok])
  have "held (v_stage i n v) = held v" "unallocated x (v_stage i n v) = unallocated x v" for x
    by (simp_all add: held_def unallocated_def v_stage_def)
  then show "staging_ok (v_stage i n v)"
    using ledger_okD(5) [OF ok] new n unfolding staging_ok_def staged_ids_stage ids [symmetric]
    by (auto simp: v_stage_def)
  show "unqueued ex (v_stage i n v) = unqueued (ids + ex) v"
    unfolding unqueued_def staged_ids_stage ids [symmetric] by (simp add: v_stage_def)
qed (use ledger_okD(1) [OF ok] in \<open>simp_all add: v_stage_def works_ok_def\<close>)

text \<open>Room in the staging buffer: the entry at the head of the queue is allocated and copied.\<close>

definition v_alloc :: "u64 \<Rightarrow> nat \<Rightarrow> (u64 \<times> nat) list \<Rightarrow> view \<Rightarrow> view" where
  "v_alloc i n rest v =
     v\<lparr>v_staging := rest, v_used := v_used v + n,
       v_work := (if i = 0 then v_work v else (v_work v)(i := map_option (\<lambda>w. w\<lparr>wv_allocated := True\<rparr>) (v_work v i))),
       v_copying := (if i = 0 then {#} else {#i#}) + v_copying v\<rparr>"

lemma held_alloc:
  assumes "finite (dom (v_work v))" "v_work v i = Some w" "\<not> wv_allocated w" "i \<noteq> 0"
  shows "held (v_alloc i n rest v) = held v + wv_bytes w"
proof -
  let ?A = "{j. \<exists>w. v_work v j = Some w \<and> wv_allocated w}"
  have fin: "finite ?A" by (rule finite_subset [OF _ assms(1)]) auto
  have "{j. \<exists>w. v_work (v_alloc i n rest v) j = Some w \<and> wv_allocated w} = insert i ?A"
    using assms by (auto simp: v_alloc_def)
  moreover have "i \<notin> ?A" using assms by auto
  moreover have "(\<Sum>j \<in> ?A. wv_bytes (the (v_work (v_alloc i n rest v) j))) = (\<Sum>j \<in> ?A. wv_bytes (the (v_work v j)))"
    using assms by (intro sum.cong) (auto simp: v_alloc_def)
  ultimately show ?thesis using fin assms by (simp add: held_def) (simp add: v_alloc_def)
qed

lemma alloc_ok:
  assumes ok: "ledger_ok ex v" and st: "v_staging v = (i, n) # rest"
    and room: "v_used v + n \<le> unat (stagingBufferBytes (v_config v))"
  shows "ledger_ok ex (v_alloc i n rest v)"
proof (rule ledger_congr [OF ok])
  note oks = ledger_okD [OF ok]
  let ?v = "v_alloc i n rest v"
  note so = staging_okD [OF oks(5)]
  have ids: "staged_ids v = (if i = 0 then {#} else {#i#}) + staged_ids ?v"
    by (simp add: staged_ids_def st v_alloc_def)
  show "same_works v ?v" by (auto simp: same_works_def v_alloc_def shape_def option.map_comp intro: option.map_cong)
  show "unqueued ex ?v = unqueued ex v" unfolding unqueued_def ids by (simp add: v_alloc_def)
  show "staging_ok ?v"
  proof (cases "i = 0")
    case True
    then have "held ?v = held v" "unallocated x ?v = unallocated x v" for x
      by (simp_all add: held_def unallocated_def v_alloc_def)
    then show ?thesis
      using so(1,3) room oks(5) ids True st by (auto simp: staging_ok_def v_alloc_def)
  next
    case False
    have "count (unqueued ex v) i \<le> 1" by (rule parked_okD(1) [OF oks(2)])
    then have only: "i \<notin># v_starting v + staged_ids ?v" using False by (simp add: unqueued_def ids not_in_iff)
    obtain w where w: "v_work v i = Some w"
      using parked_okD(6) [OF oks(2), of i] False by (auto simp: parked_def unqueued_def ids)
    have new: "\<not> wv_allocated w" using so(3) w False by (auto simp: ids unallocated_def)
    have "n = wv_bytes w" using so(4) [of i n w] st w False by simp
    moreover have "held ?v = held v + wv_bytes w"
      using held_alloc [OF _ w new False] oks(1) by (simp add: works_ok_def)
    moreover have "unallocated (v_starting ?v + staged_ids ?v) ?v"
      using so(3) only ids by (auto simp: unallocated_def v_alloc_def split: if_splits)
    moreover have "m = wv_bytes u" if "(j, m) \<in> set rest" "j \<noteq> 0" "v_work ?v j = Some u" for j m u
      using that so(4) [of j m] st by (auto simp: v_alloc_def split: if_splits)
    ultimately show ?thesis using so(1,2) room unfolding staging_ok_def by (auto simp: v_alloc_def)
  qed
qed (use ledger_okD(1) [OF ok] in \<open>simp_all add: v_alloc_def works_ok_def\<close>)

lemma view_staging [simp]:
  "view (s\<lparr>m_sourceStagingWaiting := ws\<rparr>) = (view s)\<lparr>v_staging := map (\<lambda>p. (ss_id p, unat (ss_bytes p))) ws\<rparr>"
  "view (s\<lparr>m_sourceStagingUsed := u\<rparr>) = (view s)\<lparr>v_used := unat u\<rparr>"
  by (simp_all add: view_defs)

lemma view_EnsurePcie: "EnsurePcie env s = Inr s' \<Longrightarrow>
   view s' = view s \<and> m_config s' = m_config s \<and> m_sourceStagingWaiting s' = m_sourceStagingWaiting s"
  by (auto simp: EnsurePcie_def split: if_splits)

lemma waiting_frames [simp]:
  "m_sourceStagingWaiting (stat f s) = m_sourceStagingWaiting s" "m_sourceStagingWaiting (tell n s) = m_sourceStagingWaiting s"
  "m_sourceStagingWaiting (upd_work i g s) = m_sourceStagingWaiting s"
  "m_sourceStagingWaiting (upd_time i h s) = m_sourceStagingWaiting s"
  "m_sourceStagingWaiting (hand_over j s) = m_sourceStagingWaiting s"
  "m_sourceStagingWaiting (ScheduleJob env d j s) = m_sourceStagingWaiting s"
  "m_work (stat f s) = m_work s"
  by (simp_all add: stat_def tell_def upd_time_def upd_work_def hand_over_def ScheduleJob_def split: option.split)

lemma room_fits:
  fixes used n :: u64 and b :: u32
  assumes "unat used \<le> unat b" "n \<le> ucast b - used"
  shows "unat (used + n) = unat used + unat n" "unat used + unat n \<le> unat b"
proof -
  have b: "unat (ucast b :: u64) = unat b" by (simp add: unsigned_ucast_eq take_bit_nat_eq_self_iff less_trans [OF unsigned_less])
  have le: "used \<le> ucast b" using assms(1) b by (simp add: word_le_nat_alt)
  have "unat n \<le> unat (ucast b - used)" using assms(2) by (simp add: word_le_nat_alt)
  also have "\<dots> = unat b - unat used" using le b by (simp add: unat_sub)
  finally show *: "unat used + unat n \<le> unat b" using assms(1) by simp
  have "unat b < 2 ^ 32" using unsigned_less [of b, where ?'a = nat] by simp
  then have "unat used + unat n < 2 ^ 64" using * by simp
  then show "unat (used + n) = unat used + unat n" by (simp add: unat_word_ariths)
qed

lemma view_SourceD2h:
  assumes "SourceD2h env n j s = Inr s'"
  shows "view s' = v_add j (view s)" "m_config s' = m_config s" "m_sourceStagingWaiting s' = m_sourceStagingWaiting s"
  using assms
  by (auto simp: SourceD2h_def PcieCopy_def ReserveSourceD2h_def Reserve_def Let_def split: if_splits
      dest!: view_EnsurePcie)

lemma alloc_view: "work_view (w\<lparr>wk_stagingAllocated := True\<rparr>) = (work_view w)\<lparr>wv_allocated := True\<rparr>"
  by (simp add: work_view_def work_key_def credit_op_def)

lemma pump_staging_ok:
  assumes "pump_staging env ws s = Inr s'" "ledger_ok ex (view s)" "m_sourceStagingWaiting s = ws"
  shows "ledger_ok ex (view s')"
  using assms
proof (induction ws arbitrary: s)
  case (Cons p ws)
  let ?buffer = "ucast (stagingBufferBytes (m_config s)) :: u64" and ?used = "m_sourceStagingUsed s"
  show ?case
  proof (cases "ss_bytes p > ?buffer - ?used")
    case False
    let ?s = "stat (\<lambda>st. st\<lparr>rs_sourceStagingPeakBytes := max (rs_sourceStagingPeakBytes st) (?used + ss_bytes p)\<rparr>)
      (s\<lparr>m_sourceStagingWaiting := ws, m_sourceStagingUsed := ?used + ss_bytes p\<rparr>)"
    obtain s1 s2 where s1: "(if ss_id p \<noteq> 0 then and_then (work_at ?s (ss_id p)) (\<lambda>w.
          Inr (upd_time (ss_id p) (\<lambda>t. t\<lparr>wt_stagingAcquired := at_now env\<rparr>)
            (upd_work (ss_id p) (\<lambda>w. w\<lparr>wk_stagingAllocated := True\<rparr>) ?s))) else Inr ?s) = Inr s1"
      and s2: "SourceD2h env (ss_bytes p) (J_staged p) s1 = Inr s2" and run: "pump_staging env ws s2 = Inr s'"
      using Cons.prems(1) False by (auto simp: Let_def)
    have used: "unat ?used \<le> unat (stagingBufferBytes (m_config s))"
      using staging_okD(2) [OF ledger_okD(5) [OF Cons.prems(2)]] by simp
    have fits: "unat (?used + ss_bytes p) = unat ?used + unat (ss_bytes p)"
      "unat ?used + unat (ss_bytes p) \<le> unat (stagingBufferBytes (m_config s))"
      using room_fits [OF used] False by (simp_all add: not_less)
    have v1: "view s1 = (view s)\<lparr>v_staging := map (\<lambda>p. (ss_id p, unat (ss_bytes p))) ws,
        v_used := unat ?used + unat (ss_bytes p),
        v_work := (if ss_id p = 0 then v_work (view s) else (v_work (view s))(ss_id p :=
          map_option (\<lambda>w. w\<lparr>wv_allocated := True\<rparr>) (v_work (view s) (ss_id p))))\<rparr>"
      using s1 fits(1) by (auto simp: view_upd_work alloc_view split: if_splits)
    have v2: "view s2 = v_alloc (ss_id p) (unat (ss_bytes p)) (map (\<lambda>p. (ss_id p, unat (ss_bytes p))) ws) (view s)"
      using view_SourceD2h(1) [OF s2] by (simp add: v1 v_add_def v_alloc_def)
    have "ledger_ok ex (view s2)"
      unfolding v2 using Cons.prems fits by (intro alloc_ok) simp_all
    moreover have "m_sourceStagingWaiting s2 = ws" using s1 view_SourceD2h(3) [OF s2] by (auto split: if_splits)
    ultimately show ?thesis by (rule Cons.IH [OF run])
  qed (use Cons.prems in simp)
qed simp

lemma unallocated_mono: "unallocated x v \<Longrightarrow> set_mset y \<subseteq> set_mset x \<Longrightarrow> unallocated y v"
  by (auto simp: unallocated_def)

text \<open>Taking a closure out, and handing works to one.\<close>

lemma take_job_ok:
  assumes ok: "ledger_ok ex (v_add j v)"
  shows "ledger_ok (ex + job_starts j + job_copies j) (v\<lparr>v_flying := job_flights j \<union> v_flying v\<rparr>)"
    "unallocated (job_starts j) v"
proof -
  have st: "staging_ok (v_add j v)" by (rule ledger_okD(5) [OF ok])
  have same: "held (v_add j v) = held v" "staged_ids (v_add j v) = staged_ids v" "unallocated x (v_add j v) = unallocated x v"
    for x by (simp_all add: held_def staged_ids_def unallocated_def v_add_def)
  show "unallocated (job_starts j) v"
    using staging_okD(3) [OF st] by (simp add: same) (simp add: v_add_def)
  show "ledger_ok (ex + job_starts j + job_copies j) (v\<lparr>v_flying := job_flights j \<union> v_flying v\<rparr>)"
  proof (rule ledger_congr [OF ok])
    show "staging_ok (v\<lparr>v_flying := job_flights j \<union> v_flying v\<rparr>)"
      using st by (simp add: staging_ok_def same) (simp add: v_add_def)
    show "unqueued (ex + job_starts j + job_copies j) (v\<lparr>v_flying := job_flights j \<union> v_flying v\<rparr>) = unqueued ex (v_add j v)"
      by simp
  qed (use ledger_okD(1) [OF ok] in \<open>simp_all add: v_add_def works_ok_def\<close>)
qed

lemma take_job_plain:
  assumes "ledger_ok ex (v_add j v)"
  shows "ledger_ok (ex + job_starts j + job_copies j) v"
  using ledger_flying [OF take_job_ok(1) [OF assms], of "v_flying v"] by simp

lemma give_start_ok:
  assumes ok: "ledger_ok (mset ids + ex) v" and new: "unallocated (mset ids) v"
  shows "ledger_ok ex (v_add (J_start ids) v)"
proof (rule ledger_congr [OF ok])
  have "held (v_add (J_start ids) v) = held v" "unallocated x (v_add (J_start ids) v) = unallocated x v"
    "staged_ids (v_add (J_start ids) v) = staged_ids v" for x
    by (simp_all add: held_def unallocated_def staged_ids_def v_add_def)
  then show "staging_ok (v_add (J_start ids) v)"
    using ledger_okD(5) [OF ok] new by (simp add: staging_ok_def) (simp add: v_add_def)
  show "unqueued ex (v_add (J_start ids) v) = unqueued (mset ids + ex) v" by (simp add: ac_simps)
qed (use ledger_okD(1) [OF ok] in \<open>simp_all add: v_add_def works_ok_def ac_simps\<close>)

lemma find_upd_time:
  "omap_find (m_work (upd_time i f s)) i = map_option (\<lambda>w. w\<lparr>wk_time := f (wk_time w)\<rparr>) (omap_find (m_work s) i)"
  by (auto simp: upd_time_def upd_work_def omap_find_put split: option.split)

text \<open>A work in transit joins the staging queue or its queue pair.\<close>

lemma enqueue_ok:
  assumes run: "enqueue env i s = Inr s'" and ok: "ledger_ok (add_mset i ex) (view s)"
    and new: "unallocated (add_mset i ex) (view s)"
  shows "ledger_ok ex (view s')" "unallocated ex (view s')"
proof -
  let ?s = "upd_time i (\<lambda>t. t\<lparr>wt_submitted := at_now env\<rparr>) s"
  obtain w where w: "omap_find (m_work s) i = Some w" and
    run: "(if sub_staged ?s \<and> payload_op w
          then Inr (?s\<lparr>m_sourceStagingWaiting := m_sourceStagingWaiting ?s @
                        [\<lparr>ss_id = i, ss_bytes = wt_bytes (wk_time w), ss_ready = 0\<rparr>]\<rparr>)
          else enter_queue env i w ?s) = Inr s'"
    using run by (auto simp: enqueue_def Let_def)
  have v: "view ?s = view s" by simp
  have pos: "i \<noteq> 0" using works_okD(1) [OF ledger_okD(1) [OF ok], of i] w by auto
  have "ledger_ok ex (view s') \<and> v_work (view s') = v_work (view s)"
  proof (cases "sub_staged ?s \<and> payload_op w")
    case True
    with run have v': "view s' = v_stage i (unat (wt_bytes (wk_time w))) (view s)"
      by (auto simp: v_stage_def)
    have "ledger_ok ex (v_stage i (unat (wt_bytes (wk_time w))) (view s))"
    proof (rule stage_ok [of "{#i#}"])
      show "unallocated {#i#} (view s)" by (rule unallocated_mono [OF new]) simp
    qed (use ok w pos in \<open>auto simp: work_view_def\<close>)
    then show ?thesis by (simp add: v') (simp add: v_stage_def)
  next
    case False
    with run have "enter_queue env i w ?s = Inr s'" by simp
    from enter_queue_ok [OF this, of ex "w\<lparr>wk_time := (wk_time w)\<lparr>wt_submitted := at_now env\<rparr>\<rparr>"] ok v w
    show ?thesis by (simp add: find_upd_time work_key_def)
  qed
  then show "ledger_ok ex (view s')" "unallocated ex (view s')"
    using unallocated_mono [OF new, of ex] by (auto simp: unallocated_def)
qed

lemma enqueue_all_ok:
  "enqueue_all env ids s = Inr s' \<Longrightarrow> ledger_ok (mset ids + ex) (view s) \<Longrightarrow> unallocated (mset ids + ex) (view s) \<Longrightarrow>
   ledger_ok ex (view s')"
proof (induction ids arbitrary: s)
  case (Cons i ids)
  then obtain s1 where s1: "enqueue env i s = Inr s1" and run: "enqueue_all env ids s1 = Inr s'" by auto
  from enqueue_ok [OF s1, of "mset ids + ex"] Cons.prems show ?case by (intro Cons.IH [OF run]) simp_all
qed simp

lemma start_works_ok:
  assumes "start_works env ids s = Inr s'" "ledger_ok (mset ids) (view s)" "unallocated (mset ids) (view s)"
  shows "ledger_ok {#} (view s')"
  using assms enqueue_all_ok [of env ids s _ "{#}"] pump_staging_ok [of env _ _ s' "{#}"]
  by (auto simp: start_works_def PumpSourceStaging_def)

lemma source_staged_ok:
  assumes run: "source_staged env p s = Inr s'" and ok: "ledger_ok {#} (v_add (J_staged p) (view s))"
  shows "ledger_ok {#} (view s')"
proof (cases "ss_id p = 0")
  case True
  then show ?thesis using run take_job_plain [OF ok] by (auto simp: source_staged_def)
next
  case False
  let ?s = "upd_time (ss_id p) (\<lambda>t. t\<lparr>wt_sourceStaged := at_now env, wt_submitted := at_now env\<rparr>) s"
  from False run obtain w where w: "omap_find (m_work s) (ss_id p) = Some w"
    and run: "enter_queue env (ss_id p) w ?s = Inr s'" by (auto simp: source_staged_def)
  have v: "view ?s = view s" by simp
  from take_job_plain [OF ok] False have "ledger_ok {#ss_id p#} (view ?s)" by (simp add: v)
  from enter_queue_ok(1) [OF run this] w show ?thesis by (simp add: find_upd_time work_key_def)
qed

subsection \<open>New works\<close>

definition v_create :: "work_view \<Rightarrow> view \<Rightarrow> view" where
  "v_create w v = v\<lparr>v_nextId := v_nextId v + 1, v_submitted := v_submitted v + 1,
                    v_work := (v_work v)(v_nextId v \<mapsto> w)\<rparr>"

lemma v_create_simps [simp]:
  "v_qps (v_create w v) = v_qps v" "v_config (v_create w v) = v_config v" "v_flying (v_create w v) = v_flying v"
  "v_staging (v_create w v) = v_staging v" "v_starting (v_create w v) = v_starting v" "v_used (v_create w v) = v_used v"
  "staged_ids (v_create w v) = staged_ids v" "queued (v_create w v) = queued v"
  "v_work (v_create w v) j = (if j = v_nextId v then Some w else v_work v j)"
  by (simp_all add: v_create_def staged_ids_def queued_def fun_eq_iff)

lemma create_places:
  assumes ok: "ledger_ok ex v"
  shows "v_work v (v_nextId v) = None" "\<not> parked ex v (v_nextId v)"
    "unqueued (add_mset (v_nextId v) ex) (v_create w v) = add_mset (v_nextId v) (unqueued ex v)"
    "parked (add_mset (v_nextId v) ex) (v_create w v) j = (j = v_nextId v \<or> parked ex v j)"
    "admitted (add_mset (v_nextId v) ex) (v_create w v) = admitted ex v"
    "creditors (add_mset (v_nextId v) ex) (v_create w v) = creditors ex v"
proof -
  let ?n = "v_nextId v" and ?v = "v_create w v"
  note oks = ledger_okD [OF ok]
  show new: "v_work v ?n = None" using works_okD(2) [OF oks(1), of ?n] by (cases "v_work v ?n") auto
  show np: "\<not> parked ex v ?n" using parked_okD(6) [OF oks(2), of ?n] new by auto
  show u: "unqueued (add_mset ?n ex) ?v = add_mset ?n (unqueued ex v)"
    by (simp add: unqueued_def staged_ids_def v_create_def)
  show p: "parked (add_mset ?n ex) ?v j = (j = ?n \<or> parked ex v j)" for j by (auto simp: parked_def u)
  show a: "admitted (add_mset ?n ex) ?v = admitted ex v" using new by (auto simp: admitted_def p fun_eq_iff)
  show "creditors (add_mset ?n ex) ?v = creditors ex v"
    unfolding creditors_def a using new np by (auto simp: fun_eq_iff admitted_def)
qed

lemma create_works_fine:
  assumes "works_ok v" "v_nextId v < v_nextId v + 1" "\<not> wv_acked w" "wv_fence w < v_nextId v"
  shows "works_ok (v_create w v)"
  unfolding works_ok_def
proof (intro conjI allI impI ballI)
  let ?n = "v_nextId v" and ?v = "v_create w v"
  show "finite (dom (v_work ?v))" using assms(1) by (simp add: works_ok_def v_create_def)
  show "v_submitted ?v = v_nextId ?v - 1" "v_live ?v" using assms(1) by (simp_all add: works_ok_def v_create_def)
  have pos: "0 < ?n" using assms(1) by (simp add: works_ok_def)
  with assms(2) show "0 < v_nextId ?v" by (simp add: v_create_def)
  have up: "x < ?n \<Longrightarrow> x < v_nextId ?v" for x using assms(2) by (simp add: v_create_def)
  show "f < v_nextId ?v" if "v_fences ?v x = Some f" for x f
    using that assms(1) up by (auto simp: works_ok_def v_create_def)
  show "i < v_nextId ?v" if "i \<in> v_flying ?v" for i using that assms(1) up by (auto simp: works_ok_def)
  fix i u assume i: "v_work ?v i = Some u"
  show "0 < i" "i < v_nextId ?v" "wv_fence u < i" "wv_acked u \<Longrightarrow> \<not> wv_idle u"
    using i works_okD [OF assms(1), of i u] assms(2-4) up pos by (auto simp: v_create_def split: if_splits)
qed

lemma create_parked_ok:
  assumes ok: "ledger_ok ex v" and w: "wv_idle w"
  shows "parked_ok (add_mset (v_nextId v) ex) (v_create w v)"
  unfolding parked_ok_def create_places(3,4) [OF ok] v_create_simps(1,3,8)
proof (intro conjI allI impI ballI)
  let ?n = "v_nextId v" and ?v = "v_create w v"
  note oks = ledger_okD [OF ok] and new = create_places(1,2) [OF ok]
  have "?n \<notin># unqueued ex v" using new(2) by (simp add: parked_def)
  then show "count (add_mset ?n (unqueued ex v)) j \<le> 1" for j
    using parked_okD(1) [OF oks(2), of j] by (auto simp: not_in_iff)
  show "\<not> queued v j" if "j \<in># add_mset ?n (unqueued ex v)" for j
    using that new(2) parked_okD(2) [OF oks(2), of j] by (auto simp: parked_def)
  show "j \<notin> v_flying v" if "j = ?n \<or> parked ex v j" for j
    using that parked_okD(5) [OF oks(2), of j] oks(1) by (auto simp: works_ok_def)
  show "\<exists>u. v_work ?v j = Some u \<and> wv_idle u" if "j = ?n \<or> parked ex v j" for j
    using that parked_okD(6) [OF oks(2), of j] w by auto
  fix k qq assume qq: "v_qps v k = Some qq"
  show "distinct (qv_waiting qq)" by (rule parked_okD(3) [OF oks(2) qq])
  show "\<exists>u. v_work ?v j = Some u \<and> wv_key u = k" if "j \<in> set (qv_waiting qq)" for j
    using parked_okD(4) [OF oks(2) qq that] new(1) by auto
next
  fix j u assume "v_work (v_create w v) j = Some u \<and> \<not> (j = v_nextId v \<or> parked ex v j)"
  then have "v_work v j = Some u" "\<not> parked ex v j" by auto
  then show "v_qps v (wv_key u) \<noteq> None" by (rule parked_okD(7) [OF ledger_okD(2) [OF ok]])
qed

lemma create_staging_ok:
  assumes ok: "ledger_ok ex v" and w: "\<not> wv_allocated w"
  shows "staging_ok (v_create w v)"
proof -
  let ?n = "v_nextId v" and ?v = "v_create w v"
  note oks = ledger_okD [OF ok] and new = create_places(1,2) [OF ok]
  have h: "held ?v = held v" unfolding held_def using new w by (intro sum.cong) (auto split: if_splits)
  have un: "unallocated x ?v = unallocated x v" for x
    unfolding unallocated_def v_create_simps using new w by (metis option.distinct(1) option.inject)
  have "?n \<notin> fst ` set (v_staging v)"
  proof
    assume "?n \<in> fst ` set (v_staging v)"
    then have "?n \<in># staged_ids v" using oks(1) by (auto simp: staged_ids_def works_ok_def)
    with new(2) show False by (simp add: parked_def unqueued_def)
  qed
  then have "m = wv_bytes u" if "(j, m) \<in> set (v_staging v)" "j \<noteq> 0" "v_work ?v j = Some u" for j m u
    using that staging_okD(4) [OF oks(5) that(1,2)] by (auto simp: image_iff split: if_splits)
  then show ?thesis
    using staging_okD(1-3) [OF oks(5)] unfolding staging_ok_def un h by auto
qed

lemma create_ok:
  assumes ok: "ledger_ok ex v" and room: "v_nextId v < v_nextId v + 1"
    and w: "wv_idle w" "\<not> wv_acked w" "\<not> wv_allocated w" "wv_fence w < v_nextId v"
  shows "ledger_ok (add_mset (v_nextId v) ex) (v_create w v)"
proof (rule ledger_okI)
  let ?n = "v_nextId v" and ?v = "v_create w v"
  note oks = ledger_okD [OF ok] and p = create_places [OF ok]
  show "works_ok ?v" by (rule create_works_fine [OF oks(1) room w(2,4)])
  show "parked_ok (add_mset ?n ex) ?v" by (rule create_parked_ok [OF ok w(1)])
  show "counts_ok (add_mset ?n ex) ?v" using oks(3) unfolding counts_ok_def p(5,6) v_create_simps .
  show "staging_ok ?v" by (rule create_staging_ok [OF ok w(3)])
  show "fence_ok (add_mset ?n ex) ?v"
    unfolding fence_ok_def p(4) v_create_simps
  proof (intro allI impI)
    fix i u j x
    assume *: "(if i = ?n then Some w else v_work v i) = Some u \<and> \<not> (i = ?n \<or> parked ex v i) \<and>
      (if j = ?n then Some w else v_work v j) = Some x \<and> fst (wv_key x) = fst (wv_key u) \<and> j \<le> wv_fence u"
    then have i: "v_work v i = Some u" by auto
    have "wv_fence u < ?n" using works_okD(2,3) [OF oks(1) i] by simp
    with * have "j \<noteq> ?n" by auto
    with * i show "wv_acked x" using fence_okD [OF oks(4) i, of j x] by auto
  qed
qed

lemma pred_less: "x \<noteq> 0 \<Longrightarrow> x - 1 < x" for x :: "'a::len word"
  using measure_unat [of x] by (simp add: word_less_nat_alt)

lemma payload_fence_below:
  fixes m :: "(u64, Work) omap"
  assumes "\<forall>i \<in> fst ` set m. i < n" "f < n"
  shows "payload_fence k m f < n"
  using assms unfolding payload_fence_def by (induction m arbitrary: f) auto

text \<open>A work has the next identifier, is idle and waits for nothing younger than itself.\<close>

lemma work_fence_below:
  assumes "works_ok (view s)"
  shows "work_fence sp index s < m_nextId s"
proof -
  let ?n = "m_nextId s"
  let ?f = "case omap_find (m_fences s) (sp_peer sp) of None \<Rightarrow> 0 | Some f \<Rightarrow> f"
  have n: "0 < ?n" using assms by (simp add: works_ok_def)
  have f: "?f < ?n" using assms n by (auto simp: works_ok_def split: option.splits)
  have "\<forall>i \<in> fst ` set (m_work s). i < ?n"
  proof
    fix i assume "i \<in> fst ` set (m_work s)"
    then obtain w where "omap_find (m_work s) i = Some w" using omap_find_in_keys [of "m_work s" i] by auto
    then show "i < ?n" using works_okD(2) [OF assms, of i "work_view w"] by simp
  qed
  then have "payload_fence k (m_work s) ?f < ?n" for k using f by (rule payload_fence_below)
  moreover have "?n - 1 < ?n" using n by (intro pred_less) auto
  ultimately show ?thesis using f by (simp add: work_fence_def Let_def)
qed

lemma create_work_ok:
  assumes run: "create_work env sp index off s = (off', s')" and ok: "ledger_ok ex (view s)"
    and room: "unat (m_nextId s) + 1 < 2 ^ 64"
  shows "ledger_ok (add_mset (m_nextId s) ex) (view s')" "m_nextId s' = m_nextId s + 1"
    "unallocated ids (view s) \<Longrightarrow> unallocated (add_mset (m_nextId s) ids) (view s')"
proof -
  let ?w = "new_work env sp index off s" and ?n = "m_nextId s"
  have wf: "omap_wf (m_work s)" using ledger_okD(1) [OF ok] by (simp add: works_ok_def)
  have v: "view s' = v_create (work_view ?w) (view s)"
    using run wf by (auto simp: create_work_def Let_def v_create_def view_defs stat_def omap_find_put omap_wf_put)
  have w: "wv_idle (work_view ?w)" "\<not> wv_acked (work_view ?w)" "\<not> wv_allocated (work_view ?w)"
    "wv_fence (work_view ?w) < ?n"
    using work_fence_below [OF ledger_okD(1) [OF ok]] by (simp_all add: work_view_def new_work_def)
  have "unat (?n + 1) = unat ?n + 1" using room by (simp add: unat_word_ariths)
  then have "?n < ?n + 1" by (simp add: word_less_nat_alt)
  then show "ledger_ok (add_mset ?n ex) (view s')"
    unfolding v using create_ok [OF ok, of "work_view ?w"] w by simp
  show "m_nextId s' = ?n + 1" using run by (auto simp: create_work_def Let_def stat_def)
  show "unallocated (add_mset ?n ids) (view s')" if "unallocated ids (view s)"
    unfolding v using that w(3) by (auto simp: unallocated_def v_create_def)
qed

lemma create_works_ok:
  assumes "create_works env sp m index off s = (ids, s')" "ledger_ok ex (view s)" "unallocated ex (view s)"
    "unat (m_nextId s) + m < 2 ^ 64"
  shows "ledger_ok (mset ids + ex) (view s') \<and> unallocated (mset ids + ex) (view s')"
  using assms
proof (induction m arbitrary: index off s ids ex)
  case (Suc m)
  obtain off1 s1 where s1: "create_work env sp index off s = (off1, s1)" by fastforce
  obtain rest where rest: "create_works env sp m (index + 1) off1 s1 = (rest, s')" "ids = m_nextId s # rest"
    using Suc.prems(1) s1 by (auto split: prod.splits)
  have r: "unat (m_nextId s) + 1 < 2 ^ 64" using Suc.prems(4) by simp
  note c = create_work_ok [OF s1 Suc.prems(2) r]
  have "unat (m_nextId s1) + m < 2 ^ 64" using Suc.prems(4) r by (simp add: c(2) unat_word_ariths)
  from Suc.IH [OF rest(1) c(1) c(3) [OF Suc.prems(3)] this] rest(2) show ?case by simp
qed simp

end
