(* ===== verification/RdmaQueues.thy ===== *)
theory RdmaQueues
  imports RdmaLedger
begin

text \<open>
  Every operation of the submission model keeps the ledgers of \<open>RdmaLedger\<close>:
  configuration and submission, the way of a work from admission to execution, its
  acknowledgement and observation, staging and the transfers of others, fences and quiet.
  The model is an \<open>invariant_machine\<close> of the prelude; the properties at the end are what
  the invariant says of the queue pairs, the fences and the staging buffer of any run.
\<close>

subsection \<open>Configuration and submission\<close>

lemma configure_ok:
  assumes ok: "ledger_ok {#} (view s)" and run: "Submission_Configure c s = Inr s'"
    and room: "unat (m_sourceStagingUsed s) \<le> unat (stagingBufferBytes c)"
  shows "ledger_ok {#} (view s')"
proof -
  note oks = ledger_okD [OF ok]
  have v': "view s' = (view s)\<lparr>v_config := c\<rparr>" and "rs_submitted (m_rdmaStats s) = 0"
    using run by (auto simp: Submission_Configure_def view_defs split: if_splits)
  then have "m_nextId s = 1" using oks(1) by (simp add: works_ok_def)
  then have none: "v_work (view s) i = None" for i
    using works_okD(1,2) [OF oks(1), of i] by (cases "v_work (view s) i") (auto simp: word_less_nat_alt)
  let ?v = "(view s)\<lparr>v_config := c\<rparr>"
  have places: "queued ?v = queued (view s)" "parked {#} ?v = parked {#} (view s)"
    "unqueued {#} ?v = unqueued {#} (view s)" "staged_ids ?v = staged_ids (view s)" "held ?v = held (view s)"
    "unallocated x ?v = unallocated x (view s)" for x
    by (simp_all add: queued_def parked_def unqueued_def staged_ids_def held_def unallocated_def fun_eq_iff)
  have fields: "v_work ?v = v_work (view s)" "v_qps ?v = v_qps (view s)" "v_flying ?v = v_flying (view s)"
    "v_staging ?v = v_staging (view s)" "v_starting ?v = v_starting (view s)" "v_used ?v = v_used (view s)"
    by (simp_all add: fun_eq_iff)
  have empty: "admitted {#} v k = {}" "creditors {#} v k = {}" if "v_work v = v_work (view s)" for v k
    using none by (simp_all add: admitted_def creditors_def that)
  show ?thesis
    unfolding v'
  proof (rule ledger_okI)
    show "works_ok ?v" using oks(1) by (simp add: works_ok_def)
    show "parked_ok {#} ?v" using oks(2) unfolding parked_ok_def places fields .
    show "fence_ok {#} ?v" using oks(4) unfolding fence_ok_def places fields .
    show "counts_ok {#} ?v"
      unfolding counts_ok_def
    proof (intro allI impI)
      fix k q assume "v_qps ?v k = Some q"
      then have "v_qps (view s) k = Some q" by simp
      from counts_okD [OF oks(3) this]
      show "qv_occupied q = card (admitted {#} ?v k) \<and> qv_credits q = card (creditors {#} ?v k) \<and>
        qv_occupied q \<le> unat (queueDepth (v_config ?v)) \<and> qv_credits q \<le> unat (maxReadAtomic (v_config ?v))"
        by (simp add: empty)
    qed
    show "staging_ok ?v" using oks(5) room unfolding staging_ok_def places fields by auto
  qed
qed

lemma view_open_request [simp]: "view (open_request n cb s) = view s"
  by (simp add: open_request_def)

lemma submit_works_ok:
  assumes run: "submit_works env opcode peer bytes execute producer complete s = (ids, s')"
    and ok: "ledger_ok {#} (view s)" and room: "data_chunks (m_config s) opcode bytes + signals opcode \<le> - 1 - m_nextId s"
  shows "ledger_ok (mset ids) (view s') \<and> unallocated (mset ids) (view s')"
proof -
  let ?count = "data_chunks (m_config s) opcode bytes + signals opcode"
  let ?s = "open_request ?count complete s"
  obtain sp where made: "create_works env sp (unat ?count) 0 0 ?s = (ids, s')"
    using run by (auto simp: submit_works_def Let_def)
  have "unat ?count \<le> unat (- 1 - m_nextId s)" using room by (simp add: word_le_nat_alt)
  also have "\<dots> = unat (- 1 :: u64) - unat (m_nextId s)" by (rule unat_sub) simp
  also have "\<dots> = 2 ^ 64 - 1 - unat (m_nextId s)" by (simp add: unsigned_minus_1_eq_mask mask_eq_exp_minus_1)
  finally have "unat (m_nextId ?s) + unat ?count < 2 ^ 64"
    using unsigned_less [of "m_nextId s", where ?'a = nat] by (simp add: open_request_def stat_def)
  with create_works_ok [OF made, of "{#}"] ok show ?thesis by (simp add: unallocated_def)
qed

lemma hand_off_ok:
  assumes "hand_off env ids s = Inr s'" "ledger_ok (mset ids) (view s)" "unallocated (mset ids) (view s)"
  shows "ledger_ok {#} (view s')"
proof (cases "(if by_cpu s \<and> dataPath (m_config s) \<noteq> ''host'' then cpuHandoff (m_config s) else 0) = 0")
  case True
  with assms(1) have "start_works env ids s = Inr s'" unfolding hand_off_def Let_def by (simp only: if_True simp_thms)
  from start_works_ok [OF this assms(2,3)] show ?thesis .
next
  case False
  with assms(1) obtain d where "s' = ScheduleJob env d (J_start ids) s"
    unfolding hand_off_def Let_def by (auto simp only: if_False)
  with give_start_ok [of ids "{#}" "view s"] assms(2,3) show ?thesis by simp
qed

lemma SubmitOperation_ok:
  assumes run: "SubmitOperation env opcode peer bytes execute producer complete s = Inr (s', rid)"
    and ok: "ledger_ok {#} (view s)"
  shows "ledger_ok {#} (view s')"
proof -
  obtain s1 ids s2 where s1: "(if m_producerFree s = [] then Submission_Configure (m_config s) s else Inr s) = Inr s1"
    and room: "data_chunks (m_config s1) opcode bytes + signals opcode \<le> - 1 - m_nextId s1"
    and s2: "submit_works env opcode peer bytes (the execute) producer complete s1 = (ids, s2)"
    and run2: "hand_off env ids s2 = Inr s'"
    using run by (auto simp: SubmitOperation_def Let_def not_less split: if_splits prod.splits)
  have "view s1 = view s" using s1 by (auto simp: Submission_Configure_def view_defs split: if_splits)
  with ok have "ledger_ok {#} (view s1)" by simp
  from submit_works_ok [OF s2 this room] hand_off_ok [OF run2] show ?thesis by blast
qed

subsection \<open>From admission to execution\<close>

text \<open>
  Between admission and execution a work passes through closures, the published queue, the
  fetched queue and the set of ready descriptors. \<open>moves F\<close>: nothing changes except
  where the works among \<open>F\<close> are.
\<close>

definition moves :: "u64 set \<Rightarrow> submission \<Rightarrow> submission \<Rightarrow> bool" where
  "moves F s s' = (\<exists>G \<subseteq> F. view s' = (view s)\<lparr>v_flying := G\<rparr>)"

definition airborne :: "u64 set \<Rightarrow> u64 multiset \<Rightarrow> submission \<Rightarrow> bool" where
  "airborne F ex s = (flying s \<subseteq> F \<and> ledger_ok ex ((view s)\<lparr>v_flying := F\<rparr>))"

lemma airborne_ok: "airborne F ex s \<Longrightarrow> ledger_ok ex (view s)"
  using ledger_flying [of ex "(view s)\<lparr>v_flying := F\<rparr>" "flying s"]
  by (simp add: airborne_def) (simp add: view_def)

lemma airborne_self: "ledger_ok ex (view s) \<Longrightarrow> airborne (flying s) ex s"
  by (simp add: airborne_def) (simp add: view_def)

lemma airborne_view: "view s' = view s \<Longrightarrow> airborne F ex s' = airborne F ex s"
  by (metis airborne_def view_simps(11))

lemma moves_flying: "moves F s s' \<Longrightarrow> flying s' \<subseteq> F"
proof -
  assume "moves F s s'"
  then obtain G where "G \<subseteq> F" "view s' = (view s)\<lparr>v_flying := G\<rparr>" by (auto simp: moves_def)
  then show ?thesis using view_simps(11) [of s'] by simp
qed

lemma moves_airborne:
  assumes "moves F s s'" "airborne F ex s"
  shows "airborne F ex s'"
proof -
  obtain G where "G \<subseteq> F" and v: "view s' = (view s)\<lparr>v_flying := G\<rparr>" using assms(1) by (auto simp: moves_def)
  with assms moves_flying [OF assms(1)] show ?thesis by (simp add: airborne_def v)
qed

lemma moves_view: "flying s \<subseteq> F \<Longrightarrow> view s' = view s \<Longrightarrow> moves F s s'"
  by (auto simp: moves_def view_def intro!: exI [of _ "flying s"])

lemma moves_trans:
  assumes "moves F s s1" "moves F s1 s2"
  shows "moves F s s2"
proof -
  obtain G1 where "view s1 = (view s)\<lparr>v_flying := G1\<rparr>" using assms(1) unfolding moves_def by blast
  moreover obtain G2 where "G2 \<subseteq> F" "view s2 = (view s1)\<lparr>v_flying := G2\<rparr>" using assms(2) unfolding moves_def by blast
  ultimately have "G2 \<subseteq> F \<and> view s2 = (view s)\<lparr>v_flying := G2\<rparr>" by simp
  then show ?thesis unfolding moves_def by blast
qed

lemma moves_after: "moves F s s1 \<Longrightarrow> view s2 = view s1 \<Longrightarrow> moves F s s2"
  by (simp add: moves_def)

lemma v_add_flight:
  "job_starts j = {#} \<Longrightarrow> job_copies j = {#} \<Longrightarrow> v_add j v = v\<lparr>v_flying := job_flights j \<union> v_flying v\<rparr>"
  by (cases v) (simp add: v_add_def)

lemma moves_job:
  assumes "moves F s s1" "job_starts j = {#}" "job_copies j = {#}" "job_flights j \<subseteq> F" "view s2 = v_add j (view s1)"
  shows "moves F s s2"
proof -
  obtain G where G: "G \<subseteq> F" "view s1 = (view s)\<lparr>v_flying := G\<rparr>" using assms(1) by (auto simp: moves_def)
  then have "view s2 = (view s)\<lparr>v_flying := job_flights j \<union> G\<rparr>" by (simp add: assms(5) v_add_flight [OF assms(2,3)])
  moreover have "job_flights j \<union> G \<subseteq> F" using G(1) assms(4) by blast
  ultimately show ?thesis unfolding moves_def by blast
qed

lemma moves_state:
  assumes "flying s \<subseteq> F" "flying s' \<subseteq> F" "(view s')\<lparr>v_flying := {}\<rparr> = (view s)\<lparr>v_flying := {}\<rparr>"
  shows "moves F s s'"
proof -
  have "view s' = (view s)\<lparr>v_flying := v_flying (view s')\<rparr>"
    using assms(3) by (cases "view s"; cases "view s'") simp
  then show ?thesis using assms(2) unfolding moves_def view_simps by blast
qed

lemma flying_within:
  "flying s \<subseteq> F \<longleftrightarrow> (\<forall>j \<in> set (jobs s) \<union> set (unscheduled s). job_flights j \<subseteq> F) \<and>
     (\<forall>k. set (published_at (m_qps s) k) \<subseteq> F) \<and> (\<forall>k. set (fetched_queue s k) \<subseteq> F) \<and> set (m_pcieReady s) \<subseteq> F"
  unfolding flying_def pending_def by (simp only: set_append Un_subset_iff UN_subset_iff Union_least ball_Un) blast

lemma published_flying: "set (published_at (m_qps s) k) \<subseteq> flying s"
  by (auto simp: flying_def)

lemma fetched_flying: "set (fetched_queue s k) \<subseteq> flying s"
  by (auto simp: flying_def)

lemma view_upd_qp_same [simp]:
  assumes "\<And>q. queue_view (f q) = queue_view q" "\<And>q. qp_published (f q) = qp_published q"
  shows "view (upd_qp k f s) = view s"
proof (cases "omap_find (m_qps s) k")
  case (Some q)
  have "(v_qps (view s))(k \<mapsto> queue_view q) = v_qps (view s)" using Some by (auto simp: fun_eq_iff)
  then show ?thesis
    using Some assms view_put_qp [of s "m_qps s" "f q" k] by (simp add: upd_qp_def published_at_def)
qed (simp add: upd_qp_def)

lemma moves_upd_qp:
  assumes "flying s \<subseteq> F" "\<And>q. queue_view (f q) = queue_view q"
    "\<And>q. omap_find (m_qps s) k = Some q \<Longrightarrow> set (qp_published (f q)) \<subseteq> F"
  shows "moves F s (upd_qp k f s)"
proof (cases "omap_find (m_qps s) k")
  case None
  then show ?thesis using assms(1) by (intro moves_view) (simp_all add: upd_qp_def)
next
  case (Some q)
  let ?s = "s\<lparr>m_qps := omap_put k (f q) (m_qps s)\<rparr>"
  have "moves F s ?s"
  proof (rule moves_state)
    show "flying ?s \<subseteq> F"
      using assms(1) assms(3) [OF Some] by (simp add: flying_within published_put fetched_queue_def)
    have "(map_option queue_view \<circ> omap_find (m_qps ?s)) = map_option queue_view \<circ> omap_find (m_qps s)"
      using Some assms(2) by (auto simp: fun_eq_iff omap_find_put)
    then show "(view ?s)\<lparr>v_flying := {}\<rparr> = (view s)\<lparr>v_flying := {}\<rparr>" by (simp add: view_def pending_def)
  qed (rule assms(1))
  with Some show ?thesis by (simp add: upd_qp_def)
qed

lemma moves_fetched:
  assumes "flying s \<subseteq> F" "set ids \<subseteq> F"
  shows "moves F s (s\<lparr>m_pcieFetched := omap_put k ids (m_pcieFetched s)\<rparr>)"
proof (rule moves_state)
  show "flying (s\<lparr>m_pcieFetched := omap_put k ids (m_pcieFetched s)\<rparr>) \<subseteq> F"
    using assms by (simp add: flying_within fetched_queue_def omap_find_put)
qed (use assms in \<open>simp_all add: view_def pending_def\<close>)

lemma moves_ready:
  assumes "flying s \<subseteq> F" "set ids \<subseteq> F"
  shows "moves F s (s\<lparr>m_pcieReady := ids\<rparr>)"
proof (rule moves_state)
  show "flying (s\<lparr>m_pcieReady := ids\<rparr>) \<subseteq> F" using assms by (simp add: flying_within fetched_queue_def)
qed (use assms in \<open>simp_all add: view_def pending_def\<close>)

text \<open>The timer of a batch holds no work.\<close>

lemma drop_batch_sums:
  "sum_list (map job_starts (filter (\<lambda>j. j \<noteq> J_batch k) js)) = sum_list (map job_starts js)"
  "sum_list (map job_copies (filter (\<lambda>j. j \<noteq> J_batch k) js)) = sum_list (map job_copies js)"
  "\<Union> (job_flights ` set (filter (\<lambda>j. j \<noteq> J_batch k) js)) = \<Union> (job_flights ` set js)"
  by (induction js) auto

lemma view_drop_batch [simp]: "view (s\<lparr>jobs := filter (\<lambda>j. j \<noteq> J_batch k) (jobs s)\<rparr>) = view s"
proof -
  have "\<Union> (job_flights ` set (filter (\<lambda>j. j \<noteq> J_batch k) (jobs s) @ unscheduled s)) = \<Union> (job_flights ` set (jobs s @ unscheduled s))"
    using drop_batch_sums(3) [of k "jobs s"] by (simp only: set_append image_Un Union_Un_distrib)
  then show ?thesis
    by (simp add: view_defs drop_batch_sums del: set_filter)
qed

lemma view_if: "view (snd (if c then a else b)) = (if c then view (snd a) else view (snd b))"
  by simp

lemma ring_one_moves:
  assumes run: "ring_one env k t i s = Inr s'" and F: "flying s \<subseteq> F" "i \<in> F"
  shows "moves F s s'"
proof -
  let ?s1 = "upd_qp k (\<lambda>q. q\<lparr>qp_published := tl (qp_published q)\<rparr>) s"
  have "set (tl (qp_published q)) \<subseteq> F" if "omap_find (m_qps s) k = Some q" for q
    using published_flying [of s k] that F(1) by (cases "qp_published q") (auto simp: published_at_def)
  then have s1: "moves F s ?s1" using F(1) by (intro moves_upd_qp) (auto simp: queue_view_def)
  have v: "view s' = v_add (J_execute i) (view ?s1)"
    using run by (auto simp: ring_one_def Let_def case_prod_beta view_Reserve view_if queue_view_def)
  show ?thesis by (rule moves_job [OF s1 _ _ _ v]) (use F(2) in auto)
qed

lemma ring_works_moves:
  "ring_works env k t ids s = Inr s' \<Longrightarrow> flying s \<subseteq> F \<Longrightarrow> set ids \<subseteq> F \<Longrightarrow> moves F s s'"
proof (induction ids arbitrary: s)
  case (Cons i ids)
  then obtain s1 where s1: "ring_one env k t i s = Inr s1" and run: "ring_works env k t ids s1 = Inr s'" by auto
  have m: "moves F s s1" using ring_one_moves [OF s1] Cons.prems by simp
  from moves_trans [OF m Cons.IH [OF run moves_flying [OF m]]] Cons.prems show ?case by simp
qed (simp add: moves_view)

lemma Ring_moves:
  assumes run: "Ring env k s = Inr s'" and F: "flying s \<subseteq> F"
  shows "moves F s s'"
proof -
  let ?s = "s\<lparr>jobs := filter (\<lambda>j. j \<noteq> J_batch k) (jobs s)\<rparr>"
  obtain q where q: "omap_find (m_qps s) k = Some q" using run by (auto simp: Ring_def)
  have ids: "set (qp_published q) \<subseteq> F" using published_flying [of s k] q F by (simp add: published_at_def)
  define s1 where "s1 = (stat (\<lambda>st. st\<lparr>rs_doorbells := rs_doorbells st + 1\<rparr>) ?s)\<lparr>m_doorbellFree :=
     SaturatingAdd (max (at_now env) (m_doorbellFree ?s)) (if by_cpu ?s then cpuDoorbell (m_config ?s) else doorbell (m_config ?s))\<rparr>"
  have v1: "view s1 = view s" by (simp add: s1_def)
  have F1: "flying s1 \<subseteq> F" using F view_simps(11) [of s1] view_simps(11) [of s] v1 by simp
  consider "s' = ?s" | t where "ring_works env k t (qp_published q) s1 = Inr s'"
    | s2 d where "EnsurePcie env s1 = Inr s2" "s' = ScheduleJob env d (J_doorbell k (qp_published q))
        ((upd_qp k (\<lambda>q. q\<lparr>qp_published := []\<rparr>) s2)\<lparr>m_pcieFetched := omap_put k
          (fetched_queue (upd_qp k (\<lambda>q. q\<lparr>qp_published := []\<rparr>) s2) k @ qp_published q)
          (m_pcieFetched (upd_qp k (\<lambda>q. q\<lparr>qp_published := []\<rparr>) s2))\<rparr>)"
    using run q unfolding Ring_def s1_def by (auto simp: Let_def stat_def by_cpu_def split: if_splits)
  then show ?thesis
  proof cases
    case 1
    then show ?thesis using F by (intro moves_view) simp_all
  next
    case 2
    from ring_works_moves [OF 2 F1 ids] have "moves F s1 s'" .
    then show ?thesis by (simp add: moves_def v1)
  next
    case 3
    let ?s3 = "upd_qp k (\<lambda>q. q\<lparr>qp_published := []\<rparr>) s2"
    let ?s4 = "?s3\<lparr>m_pcieFetched := omap_put k (fetched_queue ?s3 k @ qp_published q) (m_pcieFetched ?s3)\<rparr>"
    have v2: "view s2 = view s" using view_EnsurePcie [OF 3(1)] v1 by simp
    then have "flying s2 \<subseteq> F" using F view_simps(11) [of s2] view_simps(11) [of s] by simp
    then have m3: "moves F s2 ?s3" by (intro moves_upd_qp) (simp_all add: queue_view_def)
    have "moves F ?s3 ?s4"
      using moves_flying [OF m3] fetched_flying [of ?s3 k] ids by (intro moves_fetched) auto
    with m3 have "moves F s2 ?s4" by (rule moves_trans)
    then have "moves F s2 s'" by (rule moves_job) (use 3(2) ids in simp_all)
    then show ?thesis by (simp add: moves_def v2)
  qed
qed

lemma Publish_moves:
  assumes run: "Publish env k i s = Inr s'" and F: "flying s \<subseteq> F" "i \<in> F"
  shows "moves F s s'"
proof -
  let ?s = "upd_qp k (\<lambda>q. q\<lparr>qp_published := qp_published q @ [i]\<rparr>) (upd_time i (\<lambda>t. t\<lparr>wt_published := at_now env\<rparr>) s)"
  have v: "view (upd_time i (\<lambda>t. t\<lparr>wt_published := at_now env\<rparr>) s) = view s" by simp
  have fl: "flying (upd_time i (\<lambda>t. t\<lparr>wt_published := at_now env\<rparr>) s) \<subseteq> F"
    using F(1) view_simps(11) [of "upd_time i (\<lambda>t. t\<lparr>wt_published := at_now env\<rparr>) s"] view_simps(11) [of s] v by simp
  have "set (qp_published q) \<subseteq> F" if "omap_find (m_qps s) k = Some q" for q
    using published_flying [of s k] that F(1) by (simp add: published_at_def)
  then have "moves F (upd_time i (\<lambda>t. t\<lparr>wt_published := at_now env\<rparr>) s) ?s"
    using fl F(2) by (intro moves_upd_qp) (simp_all add: queue_view_def)
  then have m: "moves F s ?s" by (simp add: moves_def v)
  consider "Ring env k ?s = Inr s'" | "s' = ?s" | d where "s' = ScheduleJob env d (J_batch k) ?s"
    using run by (auto simp: Publish_def Let_def split: if_splits)
  then show ?thesis
  proof cases
    case 1
    from moves_trans [OF m Ring_moves [OF 1 moves_flying [OF m]]] show ?thesis .
  qed (use m in \<open>auto intro: moves_after\<close>)
qed

lemma FetchPublished_moves:
  "FetchPublished env k ids s = Inr s' \<Longrightarrow> flying s \<subseteq> F \<Longrightarrow> set ids \<subseteq> F \<Longrightarrow> moves F s s'"
proof (induction ids arbitrary: s)
  case (Cons i ids)
  then obtain s1 where run: "FetchPublished env k ids s1 = Inr s'" and v: "view s1 = v_add (J_fetched k i) (view s)"
    by (auto simp: Let_def split: if_splits)
  have m: "moves F s s1" by (rule moves_job [OF moves_view [OF _ refl] _ _ _ v]) (use Cons.prems in auto)
  from moves_trans [OF m Cons.IH [OF run moves_flying [OF m]]] Cons.prems show ?case by simp
qed (simp add: moves_view)

lemma descriptor_fetched_moves:
  assumes "descriptor_fetched env k i s = Inr s'" "flying s \<subseteq> F" "i \<in> F"
  shows "moves F s s'"
proof -
  have v: "view s' = v_add (J_fetchReady k i) (view s)"
    using assms(1) by (auto simp: descriptor_fetched_def Let_def queue_view_def)
  show ?thesis by (rule moves_job [OF moves_view [OF _ refl] _ _ _ v]) (use assms in auto)
qed

subsection \<open>Execution, acknowledgement and observation\<close>

text \<open>An admitted work changes its flags.\<close>

lemma ledger_upd:
  assumes ok: "ledger_ok ex v" and w: "v_work v i = Some w" and adm: "\<not> parked ex v i"
    and same: "wv_key w' = wv_key w" "wv_credit w' = wv_credit w" "wv_bytes w' = wv_bytes w" "wv_fence w' = wv_fence w"
      "wv_allocated w' = wv_allocated w"
    and ack: "wv_acked w \<Longrightarrow> wv_acked w'" "wv_acked w' \<Longrightarrow> \<not> wv_idle w'"
  shows "ledger_ok ex (v\<lparr>v_work := (v_work v)(i \<mapsto> w')\<rparr>)"
proof -
  note oks = ledger_okD [OF ok]
  let ?v = "v\<lparr>v_work := (v_work v)(i \<mapsto> w')\<rparr>"
  have p: "staged_ids ?v = staged_ids v" "unqueued ex ?v = unqueued ex v" "queued ?v = queued v" "parked ex ?v = parked ex v"
    by (simp_all add: staged_ids_def unqueued_def queued_def parked_def fun_eq_iff)
  have a: "admitted ex ?v = admitted ex v" using w same(1) by (auto simp: admitted_def p fun_eq_iff)
  have c: "creditors ex ?v = creditors ex v" using w same(2) by (auto simp: creditors_def a fun_eq_iff)
  have h: "held ?v = held v" using w same(3,5) unfolding held_def by (intro sum.cong) auto
  have un: "unallocated x ?v = unallocated x v" for x using w same(5) by (auto simp: unallocated_def)
  show ?thesis
  proof (rule ledger_okI)
    show "works_ok ?v"
      using oks(1) works_okD [OF oks(1) w] same ack unfolding works_ok_def by auto
    have fields: "v_qps ?v = v_qps v" "v_config ?v = v_config v" "v_flying ?v = v_flying v" by simp_all
    show "counts_ok ex ?v" using oks(3) unfolding counts_ok_def a c fields .
    show "parked_ok ex ?v"
      unfolding parked_ok_def p fields
    proof (intro conjI allI impI ballI)
      fix k q j assume q: "v_qps v k = Some q" "j \<in> set (qv_waiting q)"
      show "\<exists>u. v_work ?v j = Some u \<and> wv_key u = k" using parked_okD(4) [OF oks(2) q] w same(1) by auto
    next
      fix j assume j: "parked ex v j"
      then have "j \<noteq> i" using adm by auto
      then show "\<exists>u. v_work ?v j = Some u \<and> wv_idle u" using parked_okD(6) [OF oks(2) j] by simp
    next
      fix j u assume "v_work ?v j = Some u \<and> \<not> parked ex v j"
      then show "v_qps v (wv_key u) \<noteq> None"
        using parked_okD(7) [OF oks(2), of j] parked_okD(7) [OF oks(2) w adm] same(1) by (auto split: if_splits)
    qed (use parked_okD(1,2,3,5) [OF oks(2)] in auto)
    show "fence_ok ex ?v"
      unfolding fence_ok_def p
    proof (intro allI impI)
      fix x u j y assume *: "v_work ?v x = Some u \<and> \<not> parked ex v x \<and> v_work ?v j = Some y \<and>
        fst (wv_key y) = fst (wv_key u) \<and> j \<le> wv_fence u"
      obtain u0 where u0: "v_work v x = Some u0" "wv_key u0 = wv_key u" "wv_fence u0 = wv_fence u"
        using * w same by (cases "x = i") auto
      obtain y0 where y0: "v_work v j = Some y0" "wv_key y0 = wv_key y" "wv_acked y0 \<Longrightarrow> wv_acked y"
        using * w same ack by (cases "j = i") auto
      show "wv_acked y" using fence_okD [OF oks(4) u0(1) _ y0(1)] * u0 y0 by auto
    qed
    have "n = wv_bytes u" if "(j, n) \<in> set (v_staging v)" "j \<noteq> 0" "v_work ?v j = Some u" for j n u
      using staging_okD(4) [OF oks(5) that(1,2)] w same(3) that(3) by (cases "j = i") auto
    then show "staging_ok ?v"
      using staging_okD(1-3) [OF oks(5)] unfolding staging_ok_def un h p by auto
  qed
qed

lemma update_commute: "v\<lparr>v_work := m, v_flying := F\<rparr> = v\<lparr>v_flying := F, v_work := m\<rparr>"
  by (cases v) simp

lemma execute_ok:
  assumes run: "ExecuteWork env i s = Inr s'" and ok: "airborne F ex s" and F: "i \<in> F"
  shows "airborne F ex s'"
proof (cases "omap_find (m_work s) i")
  case None
  with run ok show ?thesis by (simp add: ExecuteWork_def)
next
  case (Some w)
  let ?w = "(work_view w)\<lparr>wv_idle := False\<rparr>" and ?v = "(view s)\<lparr>v_flying := F\<rparr>"
  have v': "view s' = (view s)\<lparr>v_work := (v_work (view s))(i \<mapsto> ?w)\<rparr>"
    using run Some by (auto simp: ExecuteWork_def view_upd_work work_view_def work_key_def credit_op_def split: option.splits)
  then have fl: "flying s' = flying s" using view_simps(11) [of s'] by simp
  have ok': "ledger_ok ex ?v" using ok by (simp add: airborne_def)
  have "\<not> parked ex ?v i" using parked_okD(5) [OF ledger_okD(2) [OF ok'], of i] F by auto
  then have "ledger_ok ex (?v\<lparr>v_work := (v_work ?v)(i \<mapsto> ?w)\<rparr>)"
    using Some works_okD(4) [OF ledger_okD(1) [OF ok'], of i "work_view w"]
    by (intro ledger_upd [OF ok', of i "work_view w"]) simp_all
  then show ?thesis using ok by (simp add: airborne_def fl v' update_commute)
qed

lemma pump_fetched_ok:
  "pump_fetched env k ids s = Inr s' \<Longrightarrow> airborne F ex s \<Longrightarrow> set ids \<subseteq> F \<Longrightarrow> airborne F ex s'"
proof (induction ids arbitrary: s)
  case (Cons i ids)
  show ?case
  proof (cases "i \<in> set (m_pcieReady s)")
    case True
    let ?s1 = "s\<lparr>m_pcieReady := filter (\<lambda>x. x \<noteq> i) (m_pcieReady s)\<rparr>"
    let ?s2 = "?s1\<lparr>m_pcieFetched := omap_put k ids (m_pcieFetched ?s1)\<rparr>"
    have F: "flying s \<subseteq> F" using Cons.prems(2) by (simp add: airborne_def)
    then have "moves F s ?s1" by (intro moves_ready) (auto simp: flying_within)
    moreover from moves_flying [OF this] have "moves F ?s1 ?s2" using Cons.prems(3) by (intro moves_fetched) auto
    ultimately have "airborne F ex ?s2" using moves_airborne [OF moves_trans] Cons.prems(2) by blast
    moreover obtain s3 where "ExecuteWork env i ?s2 = Inr s3" "pump_fetched env k ids s3 = Inr s'"
      using Cons.prems(1) True by auto
    ultimately show ?thesis using Cons.IH [of s3] execute_ok [of env i ?s2 s3 F ex] Cons.prems(3) by simp
  qed (use Cons.prems in simp)
qed simp

lemma PumpPcieFetch_ok:
  assumes "PumpPcieFetch env k s = Inr s'" "airborne F ex s"
  shows "airborne F ex s'"
proof -
  have F: "flying s \<subseteq> F" using assms(2) by (simp add: airborne_def)
  have ids: "set (fetched_queue s k) \<subseteq> F" using F fetched_flying [of s k] by blast
  from moves_airborne [OF moves_fetched [OF F ids] assms(2)] assms(1) ids show ?thesis
    unfolding PumpPcieFetch_def by (blast intro: pump_fetched_ok)
qed

lemma Progress_view:
  assumes "Progress env k s = Inr s'"
  shows "view s' = view s"
proof -
  obtain q ids where "omap_find (m_qps s) k = Some q" and
    run: "(if of_nat (length ids) = (0 :: u32) then Inr s
      else if (of_nat (length ids) :: u32) < cqModeration (m_config s) \<and> of_nat (length ids) \<noteq> qp_occupied q then Inr s
      else WriteCompletion env (J_observe k (last ids))
        (upd_qp k (\<lambda>q. q\<lparr>qp_outstanding := drop (unat (of_nat (length ids) :: u32)) (qp_outstanding q)\<rparr>)
          (stat (\<lambda>st. st\<lparr>rs_cqes := rs_cqes st + 1\<rparr>) s))) = Inr s'"
    using assms unfolding Progress_def Let_def by auto
  have v: "view (upd_qp k (\<lambda>q. q\<lparr>qp_outstanding := d q\<rparr>) (stat (\<lambda>st. st\<lparr>rs_cqes := rs_cqes st + 1\<rparr>) s)) = view s" for d
    by (simp add: queue_view_def)
  have "WriteCompletion env (J_observe k i) s1 = Inr s' \<Longrightarrow> view s' = view s1" for i s1
    by (auto simp: WriteCompletion_def Let_def dest: view_EnsurePcie split: if_splits)
  with run show ?thesis by (auto simp: v split: if_splits)
qed

lemma acknowledge_ok:
  assumes run: "acknowledge_work env i k s = Inr s'" and ok: "ledger_ok {#} (view s)"
    and w: "omap_find (m_work s) i = Some w" "wk_execute w = None"
  shows "ledger_ok {#} (view s')"
proof -
  let ?s = "upd_work i (\<lambda>w. w\<lparr>wk_acked := True, wk_time := (wk_time w)\<lparr>wt_acknowledged := at_now env\<rparr>\<rparr>) s"
  obtain s1 where s1: "Progress env k ?s = Inr s1" and run: "pump_all env (map fst (m_qps s1)) s1 = Inr s'"
    using run by (auto simp: acknowledge_work_def)
  have v: "view ?s = (view s)\<lparr>v_work := (v_work (view s))(i \<mapsto> (work_view w)\<lparr>wv_acked := True\<rparr>)\<rparr>"
    using w(1) by (simp add: view_upd_work work_view_def work_key_def credit_op_def)
  have "\<not> parked {#} (view s) i"
    using parked_okD(6) [OF ledger_okD(2) [OF ok], of i] w by (auto simp: work_view_def)
  then have "ledger_ok {#} (view ?s)"
    unfolding v using w by (intro ledger_upd [OF ok, of i "work_view w"]) (simp_all add: work_view_def)
  with Progress_view [OF s1] run show ?thesis by (auto intro: pump_all_ok)
qed

lemma mark_failed_view [simp]: "view (mark_failed i w s) = view s"
  by (simp add: mark_failed_def Let_def work_view_def work_key_def credit_op_def)

lemma find_mark_failed [simp]:
  "omap_find (m_work (mark_failed i w s)) j =
     map_option (\<lambda>w. if j = i then w\<lparr>wk_failed := True\<rparr> else w) (omap_find (m_work s) j)"
  by (cases "j = i"; cases "omap_find (m_work s) i"; cases "omap_find (m_work s) j")
     (simp_all add: mark_failed_def Let_def stat_def upd_work_def omap_find_put)

lemma find_upd_work:
  "omap_find (m_work (upd_work i f s)) j = map_option (\<lambda>w. if j = i then f w else w) (omap_find (m_work s) j)"
  by (cases "j = i"; cases "omap_find (m_work s) i"; cases "omap_find (m_work s) j")
     (simp_all add: upd_work_def omap_find_put)

text \<open>An observed work leaves.\<close>

definition v_observe :: "QpKey \<Rightarrow> u64 \<Rightarrow> bool \<Rightarrow> view \<Rightarrow> view" where
  "v_observe k i credit v =
     v\<lparr>v_work := (v_work v)(i := None),
       v_qps := (v_qps v)(k := map_option (\<lambda>q. q\<lparr>qv_occupied := qv_occupied q - 1,
         qv_credits := qv_credits q - (if credit then 1 else 0)\<rparr>) (v_qps v k))\<rparr>"

lemma observe_places:
  assumes ok: "ledger_ok ex v" and w: "v_work v i = Some w" "wv_key w = k" "wv_acked w"
  shows "parked ex (v_observe k i c v) = parked ex v"
    "queued (v_observe k i c v) = queued v" "unqueued ex (v_observe k i c v) = unqueued ex v"
    "admitted ex (v_observe k i c v) k' = admitted ex v k' - {i}"
    "creditors ex (v_observe k i c v) k' = creditors ex v k' - {i}"
    "i \<in> admitted ex v k"
proof -
  have "(\<exists>q. v_qps (v_observe k i c v) k' = Some q \<and> j \<in> set (qv_waiting q)) =
    (\<exists>q. v_qps v k' = Some q \<and> j \<in> set (qv_waiting q))" for k' j
    by (cases "k' = k"; cases "v_qps v k") (auto simp: v_observe_def)
  then show q: "queued (v_observe k i c v) = queued v" by (simp add: queued_def fun_eq_iff)
  show u: "unqueued ex (v_observe k i c v) = unqueued ex v"
    by (simp add: unqueued_def staged_ids_def v_observe_def)
  show p: "parked ex (v_observe k i c v) = parked ex v" by (simp add: parked_def q u fun_eq_iff)
  show a: "admitted ex (v_observe k i c v) k' = admitted ex v k' - {i}" for k'
    by (auto simp: admitted_def p) (auto simp: v_observe_def split: if_splits)
  show "creditors ex (v_observe k i c v) k' = creditors ex v k' - {i}"
    unfolding creditors_def a by (auto simp: v_observe_def split: if_splits)
  show "i \<in> admitted ex v k" using acked_not_parked [OF ok w(1,3)] w by (simp add: admitted_def)
qed

lemma held_observe:
  assumes "finite (dom (v_work v))" "v_work v i = Some w"
  shows "held (v_observe k i c v) + (if wv_allocated w then wv_bytes w else 0) = held v"
proof -
  let ?A = "{j. \<exists>w. v_work v j = Some w \<and> wv_allocated w}"
  have fin: "finite ?A" by (rule finite_subset [OF _ assms(1)]) auto
  have A: "{j. \<exists>w. v_work (v_observe k i c v) j = Some w \<and> wv_allocated w} = ?A - {i}"
    by (auto simp: v_observe_def split: if_splits)
  have "held (v_observe k i c v) = (\<Sum>j \<in> ?A - {i}. wv_bytes (the (v_work v j)))"
    unfolding held_def A by (intro sum.cong) (auto simp: v_observe_def)
  then show ?thesis using sum.remove [OF fin, of i "\<lambda>j. wv_bytes (the (v_work v j))"] assms(2)
    by (cases "wv_allocated w") (simp_all add: held_def)
qed

lemma v_observe_simps [simp]:
  "v_config (v_observe k i c v) = v_config v" "v_flying (v_observe k i c v) = v_flying v"
  "v_staging (v_observe k i c v) = v_staging v" "v_starting (v_observe k i c v) = v_starting v"
  "staged_ids (v_observe k i c v) = staged_ids v" "v_used (v_observe k i c v) = v_used v"
  "v_work (v_observe k i c v) j = (if j = i then None else v_work v j)"
  "v_qps (v_observe k i c v) k' = None \<longleftrightarrow> v_qps v k' = None"
  by (auto simp: v_observe_def staged_ids_def)

lemma observe_qps:
  assumes "v_qps (v_observe k i c v) k' = Some q'"
  obtains q where "v_qps v k' = Some q" "qv_waiting q' = qv_waiting q"
    "qv_occupied q' = qv_occupied q - (if k' = k then 1 else 0)"
    "qv_credits q' = qv_credits q - (if k' = k \<and> c then 1 else 0)"
  using assms by (cases "k' = k"; cases "v_qps v k") (auto simp: v_observe_def)

lemma observe_counts_ok:
  assumes ok: "ledger_ok ex v" and w: "v_work v i = Some w" "wv_key w = k" "wv_acked w"
  shows "counts_ok ex (v_observe k i (wv_credit w) v)"
  unfolding counts_ok_def
proof (intro allI impI)
  let ?v = "v_observe k i (wv_credit w) v"
  note oks = ledger_okD [OF ok] and p = observe_places [OF ok w]
  fix k' q' assume "v_qps ?v k' = Some q'"
  then obtain q where q: "v_qps v k' = Some q" "qv_occupied q' = qv_occupied q - (if k' = k then 1 else 0)"
    "qv_credits q' = qv_credits q - (if k' = k \<and> wv_credit w then 1 else 0)" by (rule observe_qps)
  have "i \<in> admitted ex v k' \<longleftrightarrow> k' = k" using p(6) w by (auto simp: admitted_def)
  moreover have "i \<in> creditors ex v k' \<longleftrightarrow> k' = k \<and> wv_credit w"
    using p(6) w by (auto simp: creditors_def admitted_def)
  ultimately show "qv_occupied q' = card (admitted ex ?v k') \<and> qv_credits q' = card (creditors ex ?v k') \<and>
    qv_occupied q' \<le> unat (queueDepth (v_config ?v)) \<and> qv_credits q' \<le> unat (maxReadAtomic (v_config ?v))"
    using counts_okD [OF oks(3) q(1)] q(2,3) finite_admitted [OF oks(1)] finite_creditors [OF oks(1)]
    unfolding p v_observe_simps by (auto simp: card_Diff_singleton_if)
qed

lemma observe_parked_ok:
  assumes ok: "ledger_ok ex v" and w: "v_work v i = Some w" "wv_key w = k" "wv_acked w"
  shows "parked_ok ex (v_observe k i c v)"
  unfolding parked_ok_def observe_places [OF ok w] v_observe_simps
proof (intro conjI allI impI ballI)
  let ?v = "v_observe k i c v"
  note oks = ledger_okD [OF ok]
  have np: "\<not> parked ex v i" by (rule acked_not_parked [OF ok w(1,3)])
  fix k' q' assume "v_qps ?v k' = Some q'"
  then obtain q where q: "v_qps v k' = Some q" "qv_waiting q' = qv_waiting q" by (rule observe_qps)
  show "distinct (qv_waiting q')" using parked_okD(3) [OF oks(2) q(1)] q(2) by simp
  fix j assume j: "j \<in> set (qv_waiting q')"
  then have "queued v j" using q unfolding queued_def by auto
  then have "j \<noteq> i" using np by (auto simp: parked_def)
  then show "\<exists>u. (if j = i then None else v_work v j) = Some u \<and> wv_key u = k'"
    using parked_okD(4) [OF oks(2) q(1), of j] j q(2) by simp
next
  fix j assume j: "parked ex v j"
  then have "j \<noteq> i" using acked_not_parked [OF ok w(1,3)] by auto
  then show "\<exists>u. (if j = i then None else v_work v j) = Some u \<and> wv_idle u"
    using parked_okD(6) [OF ledger_okD(2) [OF ok] j] by simp
next
  fix j u assume "(if j = i then None else v_work v j) = Some u \<and> \<not> parked ex v j"
  then have "v_work v j = Some u" "\<not> parked ex v j" by (auto split: if_splits)
  then show "v_qps v (wv_key u) \<noteq> None" by (rule parked_okD(7) [OF ledger_okD(2) [OF ok]])
qed (use parked_okD(1,2,5) [OF ledger_okD(2) [OF ok]] in auto)

lemma observe_ok:
  assumes ok: "ledger_ok ex v" and w: "v_work v i = Some w" "wv_key w = k" "wv_acked w"
  shows "ledger_ok ex (v_observe k i (wv_credit w) v)"
proof (rule ledger_okI [OF _ observe_parked_ok [OF ok w] observe_counts_ok [OF ok w]])
  note oks = ledger_okD [OF ok]
  let ?v = "v_observe k i (wv_credit w) v"
  show "works_ok ?v" using oks(1) by (auto simp: works_ok_def v_observe_def)
  show "fence_ok ex ?v"
    using oks(4) unfolding fence_ok_def observe_places [OF ok w] by (auto split: if_splits)
  have "finite (dom (v_work v))" using oks(1) by (simp add: works_ok_def)
  then have "held ?v \<le> held v" using held_observe [of v i w k "wv_credit w"] w(1) by simp
  moreover have "unallocated x ?v" if "unallocated x v" for x
    using that by (auto simp: unallocated_def split: if_splits)
  ultimately show "staging_ok ?v"
    using staging_okD [OF oks(5)] unfolding staging_ok_def by (auto split: if_splits)
qed

lemma unat_pred: "x \<noteq> 0 \<Longrightarrow> unat (x - 1) = unat x - 1" for x :: "'a::len word"
  by (simp add: unat_minus_one)

lemma observe_one_view:
  assumes ok: "ledger_ok ex (view s)" and w: "omap_find (m_work s) i = Some w" "work_key w = k" "wk_acked w"
  shows "view (observe_one env k s (i, w)) = v_observe k i (credit_op w) (view s)"
proof -
  note oks = ledger_okD [OF ok]
  have wv: "v_work (view s) i = Some (work_view w)" "wv_key (work_view w) = k" "wv_acked (work_view w)"
    using w by (simp_all add: work_view_def)
  have wf: "omap_wf (m_work s)" using oks(1) by (simp add: works_ok_def)
  obtain q where q: "omap_find (m_qps s) k = Some q"
    using parked_okD(7) [OF oks(2) wv(1) acked_not_parked [OF ok wv(1,3)]] wv(2) by auto
  have vq: "v_qps (view s) k = Some (queue_view q)" using q by simp
  note i = observe_places(6) [OF ok wv]
  have "card (admitted ex (view s) k) \<noteq> 0" using i finite_admitted [OF oks(1), of ex k] by auto
  then have occ: "qp_occupied q \<noteq> 0" using counts_okD(1) [OF oks(3) vq] by (auto simp: queue_view_def)
  have cred: "qp_readAtomicOccupied q \<noteq> 0" if "credit_op w"
  proof -
    have "i \<in> creditors ex (view s) k" using i w(1) that by (simp add: creditors_def work_view_def)
    then have "card (creditors ex (view s) k) \<noteq> 0" using finite_creditors [OF oks(1), of ex k] by auto
    then show ?thesis using counts_okD(2) [OF oks(3) vq] by (auto simp: queue_view_def)
  qed
  let ?q = "q\<lparr>qp_occupied := qp_occupied q - 1,
    qp_readAtomicOccupied := (if credit_op w then qp_readAtomicOccupied q - 1 else qp_readAtomicOccupied q)\<rparr>"
  have erase: "view (s1\<lparr>m_work := omap_erase i (m_work s1)\<rparr>) = (view s1)\<lparr>v_work := (v_work (view s1))(i := None)\<rparr>"
    if "omap_wf (m_work s1)" for s1
    using that ost.invar_erase [of "m_work s1" i] by (auto simp: view_defs omap_find_erase fun_eq_iff)
  have put: "view (s1\<lparr>m_qps := omap_put k ?q m\<rparr>) = (view s1)\<lparr>v_qps := (v_qps (view s1))(k \<mapsto> queue_view ?q)\<rparr>"
    if "m_qps s1 = m" "m = m_qps s" for s1 m
    using that q by (intro view_put_qp) (simp_all add: published_at_def)
  have qv: "queue_view ?q = (queue_view q)\<lparr>qv_occupied := qv_occupied (queue_view q) - 1,
      qv_credits := qv_credits (queue_view q) - (if credit_op w then 1 else 0)\<rparr>"
    using occ cred by (simp add: queue_view_def unat_pred)
  let ?s1 = "(stat (\<lambda>st. st\<lparr>rs_lastObservedNs := at_ns env (at_now env)\<rparr>) s)\<lparr>m_qps := omap_put k ?q (m_qps s)\<rparr>"
  let ?s2 = "if wk_failed w then ?s1 else stat (\<lambda>st. st\<lparr>rs_completed := rs_completed st + 1\<rparr>) ?s1"
  have "view ?s1 = (view s)\<lparr>v_qps := (v_qps (view s))(k \<mapsto> queue_view ?q)\<rparr>" by (subst put) simp_all
  then have v2: "view ?s2 = (view s)\<lparr>v_qps := (v_qps (view s))(k \<mapsto> queue_view ?q)\<rparr>" by simp
  have "m_work ?s2 = m_work s" by (simp add: stat_def)
  moreover have "observe_one env k s (i, w) = ?s2\<lparr>m_work := omap_erase i (m_work ?s2)\<rparr>"
    using q unfolding observe_one_def Let_def upd_qp_def by simp
  ultimately have "view (observe_one env k s (i, w)) = (view ?s2)\<lparr>v_work := (v_work (view ?s2))(i := None)\<rparr>"
    using erase [of ?s2] wf by simp
  also have "\<dots> = v_observe k i (credit_op w) (view s)"
    unfolding v2 qv v_observe_def using vq by (cases "view s") simp
  finally show ?thesis .
qed

definition share :: "(u64 \<times> Work) list \<Rightarrow> nat" where
  "share es = sum_list (map (\<lambda>(i, w). if wk_stagingAllocated w then unat (wt_bytes (wk_time w)) else 0) es)"

lemma released_share: "share es < 2 ^ 64 \<Longrightarrow> unat (released es) = share es"
proof (induction es)
  case (Cons e es)
  then have "unat (released es) = share es" by (auto simp: share_def split: prod.splits if_splits)
  with Cons.prems show ?case
    by (cases e) (auto simp: released_def share_def unat_word_ariths)
qed (simp add: released_def share_def)

lemma observe_all_ok:
  assumes "ledger_ok ex (view s)" "distinct (map fst es)"
    "\<And>i w. (i, w) \<in> set es \<Longrightarrow> omap_find (m_work s) i = Some w \<and> work_key w = k \<and> wk_acked w"
  shows "ledger_ok ex (view (foldl (observe_one env k) s es)) \<and>
     held (view (foldl (observe_one env k) s es)) + share es = held (view s) \<and>
     m_sourceStagingUsed (foldl (observe_one env k) s es) = m_sourceStagingUsed s"
  using assms
proof (induction es arbitrary: s)
  case (Cons e es)
  obtain i w where e: "e = (i, w)" by fastforce
  have w: "omap_find (m_work s) i = Some w" "work_key w = k" "wk_acked w" using Cons.prems(3) [of i w] e by auto
  let ?s = "observe_one env k s (i, w)"
  have v: "view ?s = v_observe k i (wv_credit (work_view w)) (view s)"
    using observe_one_view [OF Cons.prems(1) w] by (simp add: work_view_def)
  have ok: "ledger_ok ex (view ?s)"
    unfolding v using w by (intro observe_ok [OF Cons.prems(1)]) (simp_all add: work_view_def)
  have "finite (dom (v_work (view s)))" using ledger_okD(1) [OF Cons.prems(1)] by (simp add: works_ok_def)
  from held_observe [OF this, of i "work_view w" k "wv_credit (work_view w)"] w
  have h: "held (view ?s) + share [e] = held (view s)" by (cases "wk_stagingAllocated w") (simp_all add: v e share_def)
  have wk: "m_work ?s = omap_erase i (m_work s)" and used: "m_sourceStagingUsed ?s = m_sourceStagingUsed s"
    by (simp_all add: observe_one_def Let_def stat_def upd_qp_def split: option.split)
  have "omap_find (m_work ?s) j = Some u \<and> work_key u = k \<and> wk_acked u" if "(j, u) \<in> set es" for j u
    using Cons.prems(3) [of j u] that Cons.prems(2) e by (auto simp: wk omap_find_erase image_iff)
  with Cons.IH [OF ok] Cons.prems(2) have "ledger_ok ex (view (foldl (observe_one env k) ?s es)) \<and>
     held (view (foldl (observe_one env k) ?s es)) + share es = held (view ?s) \<and>
     m_sourceStagingUsed (foldl (observe_one env k) ?s es) = m_sourceStagingUsed ?s" by simp
  then show ?case using h used by (simp add: e share_def)
qed (simp add: share_def)

text \<open>
  The ledger of the staging buffer never underflows: what the observed works return is part
  of what is in use. Hence observation only fails where a queue pair or a work is missing.
\<close>

lemma covered_works:
  assumes "omap_wf (m_work s)"
  shows "distinct (map fst (covered k n (m_work s)))"
    "(i, w) \<in> set (covered k n (m_work s)) \<Longrightarrow> omap_find (m_work s) i = Some w \<and> work_key w = k \<and> wk_acked w"
proof -
  have "distinct (map fst (takeWhile (\<lambda>e. fst e \<le> n) (m_work s)))"
    using omap_wf_distinct [OF assms] by (metis distinct_take takeWhile_eq_take take_map)
  then show "distinct (map fst (covered k n (m_work s)))" by (simp add: covered_def distinct_map_filter)
  show "omap_find (m_work s) i = Some w \<and> work_key w = k \<and> wk_acked w" if "(i, w) \<in> set (covered k n (m_work s))"
    using that set_takeWhileD [of "(i, w)"] omap_mem_iff [OF assms] by (fastforce simp: covered_def)
qed

lemma ledger_used:
  assumes ok: "ledger_ok ex v" and u: "held v \<le> u" "u \<le> v_used v"
  shows "ledger_ok ex (v\<lparr>v_used := u\<rparr>)"
proof (rule ledger_congr [OF ok])
  have same: "held (v\<lparr>v_used := u\<rparr>) = held v" "staged_ids (v\<lparr>v_used := u\<rparr>) = staged_ids v"
    "unallocated x (v\<lparr>v_used := u\<rparr>) = unallocated x v" for x
    by (simp_all add: held_def staged_ids_def unallocated_def)
  show "staging_ok (v\<lparr>v_used := u\<rparr>)" using ledger_okD(5) [OF ok] u by (simp add: staging_ok_def same)
  show "unqueued ex (v\<lparr>v_used := u\<rparr>) = unqueued ex v" by (simp add: unqueued_def same)
qed (use ledger_okD(1) [OF ok] in \<open>simp_all add: works_ok_def\<close>)

lemma observe_no_underflow:
  fixes k :: QpKey and n :: u64 and env :: surroundings
  assumes "ledger_ok ex (view s)"
  defines "es \<equiv> covered k n (m_work s)"
  defines "s1 \<equiv> foldl (observe_one env k) s es"
  shows "released es \<le> m_sourceStagingUsed s1" "ledger_ok ex (view (s1\<lparr>m_sourceStagingUsed := m_sourceStagingUsed s1 - released es\<rparr>))"
proof -
  have wf: "omap_wf (m_work s)" using ledger_okD(1) [OF assms(1)] by (simp add: works_ok_def)
  note c = covered_works [OF wf, where k = k and n = n]
  from observe_all_ok [OF assms(1) c(1), where k = k and env = env] c(2)
  have all: "ledger_ok ex (view s1)" "held (view s1) + share es = held (view s)" "m_sourceStagingUsed s1 = m_sourceStagingUsed s"
    unfolding s1_def es_def by auto
  have used: "held (view s) \<le> unat (m_sourceStagingUsed s)" using staging_okD(1) [OF ledger_okD(5) [OF assms(1)]] by simp
  moreover have "unat (m_sourceStagingUsed s) < 2 ^ 64" using unsigned_less [of "m_sourceStagingUsed s", where ?'a = nat] by simp
  ultimately have r: "unat (released es) = share es" using all(2) by (intro released_share) linarith
  show le: "released es \<le> m_sourceStagingUsed s1" using r all(2,3) used by (simp add: word_le_nat_alt)
  have left: "unat (m_sourceStagingUsed s1 - released es) = unat (m_sourceStagingUsed s1) - share es"
    using le by (simp add: unat_sub r)
  have "held (view s1) \<le> unat (m_sourceStagingUsed s1) - share es" unfolding all(3) using all(2) used by linarith
  then show "ledger_ok ex (view (s1\<lparr>m_sourceStagingUsed := m_sourceStagingUsed s1 - released es\<rparr>))"
    using ledger_used [OF all(1), of "unat (m_sourceStagingUsed s1) - share es"] by (simp add: left)
qed

lemma finish_part_view [simp]: "view (finish_part r b s) = view s"
  by (simp add: finish_part_def Let_def split: option.split)

lemma CheckQuiet_view [simp]: "view (CheckQuiet s) = view s"
  by (simp add: CheckQuiet_def Let_def)

lemma tell_observer_view [simp]: "view (tell_observer env es s) = view s"
  by (simp add: tell_observer_def split: option.split)

lemma finish_all_view: "view (foldl (\<lambda>s (i, w). finish_part (r w) (b w) s) s es) = view s"
  by (induction es arbitrary: s) auto

lemma Observe_ok:
  assumes run: "Observe env k n s = Inr s'" and ok: "ledger_ok {#} (view s)"
  shows "ledger_ok {#} (view s')"
proof -
  let ?es = "covered k n (m_work s)"
  let ?s1 = "foldl (observe_one env k) s ?es"
  let ?s2 = "?s1\<lparr>m_sourceStagingUsed := m_sourceStagingUsed ?s1 - released ?es\<rparr>"
  note no = observe_no_underflow [OF ok, where k = k and n = n and env = env]
  obtain s3 s4 s5 where s3: "(if released ?es \<noteq> 0 then PumpSourceStaging env ?s2 else Inr ?s2) = Inr s3"
    and s4: "Pump env k s3 = Inr s4" and s5: "Progress env k s4 = Inr s5"
    and s': "s' = CheckQuiet (foldl (\<lambda>s (i, w). finish_part (wk_request w) (\<not> wk_failed w) s) (tell_observer env ?es s5) ?es)"
    using run no(1) unfolding Observe_def Let_def by (auto simp: not_less split: if_splits)
  have "ledger_ok {#} (view s3)"
    using s3 no(2) pump_staging_ok [of env _ ?s2 s3 "{#}"] by (auto simp: PumpSourceStaging_def simp del: view_staging split: if_splits)
  from Pump_ok(1) [OF s4 this] have "ledger_ok {#} (view s4)" .
  with Progress_view [OF s5] show ?thesis by (simp add: s' finish_all_view)
qed

subsection \<open>Every operation\<close>

text \<open>
  What the surroundings respect: a work is acknowledged only after it has been executed, a
  responder gives back only what it has taken from the staging buffer, and the buffer is not
  configured away under one.
\<close>

definition held_bytes :: "submission \<Rightarrow> nat" where
  "held_bytes s = sum_list (map (\<lambda>(i, w). if wk_stagingAllocated w then unat (wt_bytes (wk_time w)) else 0) (m_work s))"

definition executed :: "submission \<Rightarrow> u64 \<Rightarrow> bool" where
  "executed s i = (case omap_find (m_work s) i of None \<Rightarrow> True | Some w \<Rightarrow> wk_execute w = None)"

fun submission_pre :: "submission \<Rightarrow> surroundings \<times> submission_op \<Rightarrow> bool" where
  "submission_pre s (env, S_OperationComplete i b) = executed s i"
| "submission_pre s (env, S_PacketAck i n) = executed s i"
| "submission_pre s (env, S_ReleaseSource n) = (held_bytes s + unat n \<le> unat (m_sourceStagingUsed s))"
| "submission_pre s (env, S_Configure c) = (m_sourceStagingUsed s \<le> ucast (stagingBufferBytes c))"
| "submission_pre s _ = True"

definition submission_inv :: "submission \<Rightarrow> bool" where
  "submission_inv s = ledger_ok {#} (view s)"

lemma held_bytes_eq:
  assumes "omap_wf (m_work s)"
  shows "held (view s) = held_bytes s"
proof -
  let ?m = "m_work s"
  let ?f = "\<lambda>(i, w). if wk_stagingAllocated w then unat (wt_bytes (wk_time w)) else 0"
  let ?g = "\<lambda>i. case omap_find ?m i of None \<Rightarrow> 0 | Some w \<Rightarrow> ?f (i, w)"
  have d: "distinct ?m" "inj_on fst (set ?m)" using omap_wf_distinct [OF assms] by (simp_all add: distinct_map)
  have "held_bytes s = sum ?f (set ?m)" unfolding held_bytes_def using d(1) by (rule sum_list_distinct_conv_sum_set)
  also have "\<dots> = sum (?g \<circ> fst) (set ?m)"
    by (intro sum.cong) (auto simp: omap_mem_iff [OF assms])
  also have "\<dots> = sum ?g (fst ` set ?m)" using d(2) by (rule sum.reindex [symmetric])
  also have "\<dots> = sum ?g {i. \<exists>w. v_work (view s) i = Some w \<and> wv_allocated w}"
    by (intro sum.mono_neutral_right)
       (auto simp: omap_find_in_keys [symmetric] split: option.splits if_splits)
  also have "\<dots> = held (view s)" unfolding held_def by (intro sum.cong) auto
  finally show ?thesis ..
qed

lemma NotifyOperationComplete_ok:
  assumes run: "NotifyOperationComplete env i b s = Inr s'" and ok: "ledger_ok {#} (view s)" and pre: "executed s i"
  shows "ledger_ok {#} (view s')"
proof (cases "omap_find (m_work s) i")
  case (Some w)
  let ?s1 = "if \<not> b \<and> \<not> wk_failed w then mark_failed i w s else s"
  let ?s2 = "upd_work i (\<lambda>w. w\<lparr>wk_acknowledgedBytes := wt_bytes (wk_time w)\<rparr>) ?s1"
  have v: "view ?s2 = view s" by (simp add: work_view_def work_key_def credit_op_def)
  have ex: "wk_execute w = None" using pre Some by (simp add: executed_def)
  obtain u where "omap_find (m_work ?s2) i = Some u" "wk_execute u = None"
    using Some ex by (cases "\<not> b \<and> \<not> wk_failed w") (auto simp: find_upd_work)
  then show ?thesis
    using run Some ok v acknowledge_ok [of env i "work_key w" ?s2 s' u]
    by (auto simp: NotifyOperationComplete_def Let_def split: if_splits)
qed (use run ok in \<open>simp add: NotifyOperationComplete_def\<close>)

lemma NotifyPacketAck_ok:
  assumes run: "NotifyPacketAck env i n s = Inr s'" and ok: "ledger_ok {#} (view s)" and pre: "executed s i"
  shows "ledger_ok {#} (view s')"
proof (cases "omap_find (m_work s) i")
  case (Some w)
  let ?s = "upd_work i (\<lambda>w'. w'\<lparr>wk_acknowledgedBytes := wk_acknowledgedBytes w + n\<rparr>) s"
  have v: "view ?s = view s" by (simp add: work_view_def work_key_def credit_op_def)
  have ex: "wk_execute w = None" using pre Some by (simp add: executed_def)
  obtain u where u: "omap_find (m_work ?s) i = Some u" "wk_execute u = None"
    using Some ex by (auto simp: find_upd_work)
  have run': "(if wk_acked w then Inr s
      else if n > wt_bytes (wk_time w) - wk_acknowledgedBytes w then Inl (NsAbort ''RDMA ACK exceeds WR byte ledger'')
      else if wk_acknowledgedBytes w + n \<noteq> wt_bytes (wk_time w) then Inr ?s
      else acknowledge_work env i (work_key w) ?s) = Inr s'"
    using run Some unfolding NotifyPacketAck_def Let_def by simp
  consider "s' = s" | "s' = ?s" | "acknowledge_work env i (work_key w) ?s = Inr s'"
    using run' by (metis Inl_Inr_False Inr_inject)
  then show ?thesis
  proof cases
    case 3
    from acknowledge_ok [OF this _ u] ok v show ?thesis by simp
  qed (use ok v in simp_all)
qed (use run ok in \<open>simp add: NotifyPacketAck_def\<close>)

lemma NotifyFirstWire_view [simp]: "view (NotifyFirstWire env i s) = view s"
  by (auto simp: NotifyFirstWire_def Let_def split: option.split)

lemma NotifyFailure_view [simp]: "view (NotifyFailure i s) = view s"
  by (auto simp: NotifyFailure_def split: option.split)

lemma ring_all_moves:
  "ring_all env ks s = Inr s' \<Longrightarrow> flying s \<subseteq> F \<Longrightarrow> moves F s s'"
proof (induction ks arbitrary: s)
  case (Cons k ks)
  then obtain s1 where s1: "Ring env k s = Inr s1" and run: "ring_all env ks s1 = Inr s'" by auto
  have m: "moves F s s1" by (rule Ring_moves [OF s1 Cons.prems(2)])
  from moves_trans [OF m Cons.IH [OF run moves_flying [OF m]]] show ?case .
qed (simp add: moves_view)

lemma ring_all_ok: "ring_all env ks s = Inr s' \<Longrightarrow> ledger_ok ex (view s) \<Longrightarrow> ledger_ok ex (view s')"
  using airborne_ok moves_airborne ring_all_moves airborne_self by blast

lemma Quiet_ok:
  assumes "Quiet env complete s = Inr s'" "ledger_ok {#} (view s)"
  shows "ledger_ok {#} (view s')"
  using assms ring_all_ok by (fastforce simp: Quiet_def split: option.splits)

lemma ledger_fences:
  assumes ok: "ledger_ok ex v" and f: "f < v_nextId v"
  shows "ledger_ok ex (v\<lparr>v_fences := (v_fences v)(p \<mapsto> f)\<rparr>)"
proof (rule ledger_congr [OF ok])
  let ?v = "v\<lparr>v_fences := (v_fences v)(p \<mapsto> f)\<rparr>"
  have same: "held ?v = held v" "staged_ids ?v = staged_ids v" "unallocated x ?v = unallocated x v" for x
    by (simp_all add: held_def staged_ids_def unallocated_def)
  show "staging_ok ?v" using ledger_okD(5) [OF ok] by (simp add: staging_ok_def same)
  show "unqueued ex ?v = unqueued ex v" by (simp add: unqueued_def same)
qed (use ledger_okD(1) [OF ok] f in \<open>auto simp: works_ok_def split: if_splits\<close>)

lemma Fence_ok:
  assumes "Fence env p s = Inr s'" "ledger_ok {#} (view s)"
  shows "ledger_ok {#} (view s')"
proof -
  let ?s = "s\<lparr>m_fences := omap_put p (m_nextId s - 1) (m_fences s)\<rparr>"
  note oks = ledger_okD [OF assms(2)]
  have v: "view ?s = (view s)\<lparr>v_fences := (v_fences (view s))(p \<mapsto> m_nextId s - 1)\<rparr>"
    by (simp add: view_defs omap_find_put)
  have n: "m_nextId s - 1 < m_nextId s" using oks(1) by (intro pred_less) (auto simp: works_ok_def)
  from ledger_fences [OF assms(2), of "m_nextId s - 1" p] n
  have "ledger_ok {#} (view ?s)" by (simp add: v)
  with assms(1) show ?thesis unfolding Fence_def by (rule ring_all_ok)
qed

lemma StageSourcePayload_ok:
  assumes "StageSourcePayload env n cb s = Inr s'" "ledger_ok {#} (view s)"
  shows "ledger_ok {#} (view s')"
proof -
  let ?s = "s\<lparr>m_sourceStagingWaiting := m_sourceStagingWaiting s @ [\<lparr>ss_id = 0, ss_bytes = n, ss_ready = cb\<rparr>]\<rparr>"
  have "view ?s = v_stage 0 (unat n) (view s)" by (simp add: v_stage_def)
  then have "ledger_ok {#} (view ?s)" using stage_ok [of "{#}" "{#}" "view s" 0 "unat n"] assms(2)
    by (simp add: unallocated_def)
  moreover have "pump_staging env (m_sourceStagingWaiting ?s) ?s = Inr s'"
    using assms(1) by (auto simp: StageSourcePayload_def PumpSourceStaging_def split: if_splits)
  ultimately show ?thesis using pump_staging_ok by blast
qed

lemma ReleaseSourceStaging_ok:
  assumes run: "ReleaseSourceStaging env n s = Inr s'" and ok: "ledger_ok {#} (view s)"
    and pre: "held_bytes s + unat n \<le> unat (m_sourceStagingUsed s)"
  shows "ledger_ok {#} (view s')"
proof -
  let ?s = "s\<lparr>m_sourceStagingUsed := m_sourceStagingUsed s - n\<rparr>"
  have "omap_wf (m_work s)" using ledger_okD(1) [OF ok] by (simp add: works_ok_def)
  from held_bytes_eq [OF this] pre have "held (view s) \<le> unat (m_sourceStagingUsed s) - unat n" by simp
  moreover have "unat (m_sourceStagingUsed s - n) = unat (m_sourceStagingUsed s) - unat n"
    using pre by (intro unat_sub) (simp add: word_le_nat_alt)
  ultimately have "ledger_ok {#} (view ?s)"
    using ledger_used [OF ok, of "unat (m_sourceStagingUsed s) - unat n"] by simp
  moreover have "pump_staging env (m_sourceStagingWaiting ?s) ?s = Inr s'"
    using run by (auto simp: ReleaseSourceStaging_def PumpSourceStaging_def split: if_splits)
  ultimately show ?thesis using pump_staging_ok by blast
qed

lemma pump_receive_view: "view (pump_receive env ws s) = view s"
  by (induction env ws s rule: pump_receive.induct) (simp_all add: Let_def)

lemma TakeSourceDmaOffset_view: "TakeSourceDmaOffset i n s = Inr (s', off) \<Longrightarrow> view s' = view s"
  by (auto simp: TakeSourceDmaOffset_def work_view_def work_key_def credit_op_def split: if_splits)

text \<open>What others transfer moves no work.\<close>

lemma transfer_views:
  "SourceRead env n (J_ready cb) a s = Inr s' \<Longrightarrow> view s' = view s"
  "DestinationWrite env n (J_ready cb) a s = Inr s' \<Longrightarrow> view s' = view s"
  "DestinationH2d env n (J_ready cb) s = Inr s' \<Longrightarrow> view s' = view s"
  "WriteCompletion env (J_ready cb) s = Inr s' \<Longrightarrow> view s' = view s"
  "ReserveSourceRead env n s = Inr (d, s') \<Longrightarrow> view s' = view s"
  "ReserveDestinationWrite env n s = Inr (d, s') \<Longrightarrow> view s' = view s"
  by (auto simp: SourceRead_def DestinationWrite_def DestinationH2d_def WriteCompletion_def PcieCopy_def
      ReserveSourceRead_def ReserveDestinationWrite_def ReserveDestinationH2d_def Let_def case_prod_beta
      view_Reserve view_if dest!: view_EnsurePcie split: if_splits)

lemma resource_views:
  "GetPcieFabric env s = Inr s' \<Longrightarrow> view s' = view s"
  "SetHostMemoryResources env r s = Inr s' \<Longrightarrow> view s' = view s"
  "AcquireReceiveStaging env n cb s = Inr s' \<Longrightarrow> view s' = view s"
  "ReleaseReceiveStaging env n s = Inr s' \<Longrightarrow> view s' = view s"
  by (auto simp: GetPcieFabric_def SetHostMemoryResources_def AcquireReceiveStaging_def ReleaseReceiveStaging_def
      PumpReceiveStaging_def pump_receive_view dest!: view_EnsurePcie split: if_splits)

text \<open>A closure in flight runs on the state from which it has been taken.\<close>

lemma take_flight:
  assumes "ledger_ok {#} (v_add j (view s))" "job_starts j = {#}" "job_copies j = {#}"
  shows "airborne (job_flights j \<union> flying s) {#} s"
  using take_job_ok(1) [OF assms(1)] assms(2,3) by (simp add: airborne_def)

lemma moves_run:
  assumes "ledger_ok {#} (v_add j (view s))" "job_starts j = {#}" "job_copies j = {#}"
    and "\<And>F. flying s \<subseteq> F \<Longrightarrow> job_flights j \<subseteq> F \<Longrightarrow> moves F s s'"
  shows "ledger_ok {#} (view s')"
  using airborne_ok moves_airborne [OF assms(4) take_flight [OF assms(1-3)]] by auto

lemma run_job_ok:
  assumes "run_job env j s = Inr s'" "ledger_ok {#} (v_add j (view s))"
  shows "ledger_ok {#} (view s')"
proof (cases j)
  case (J_start ids)
  then show ?thesis
    using assms start_works_ok [of env ids s s'] take_job_plain [OF assms(2)] take_job_ok(2) [OF assms(2)] by simp
next
  case (J_staged p)
  then show ?thesis using assms source_staged_ok by simp
next
  case (J_publish k i)
  then show ?thesis using assms(1) by (intro moves_run [OF assms(2)]) (auto intro: Publish_moves)
next
  case (J_batch k)
  then show ?thesis using assms(1) by (intro moves_run [OF assms(2)]) (auto intro: Ring_moves)
next
  case (J_doorbell k ids)
  then show ?thesis using assms(1) by (intro moves_run [OF assms(2)]) (auto intro!: moves_job [OF moves_view [OF _ refl], where j = "J_fetch k ids"])
next
  case (J_fetch k ids)
  then show ?thesis using assms(1) by (intro moves_run [OF assms(2)]) (auto intro: FetchPublished_moves)
next
  case (J_fetched k i)
  then show ?thesis using assms(1) by (intro moves_run [OF assms(2)]) (auto intro: descriptor_fetched_moves)
next
  case (J_fetchReady k i)
  let ?F = "insert i (flying s)" and ?s = "s\<lparr>m_pcieReady := oset_insert i (m_pcieReady s)\<rparr>"
  have "airborne ?F {#} s" using take_flight [OF assms(2)] J_fetchReady by simp
  moreover have "moves ?F s ?s" by (intro moves_ready) (auto simp: flying_def set_oset_insert)
  ultimately have "airborne ?F {#} ?s" by (rule moves_airborne [rotated])
  then show ?thesis using assms(1) J_fetchReady airborne_ok PumpPcieFetch_ok by fastforce
next
  case (J_execute i)
  have "airborne (insert i (flying s)) {#} s" using take_flight [OF assms(2)] J_execute by simp
  then show ?thesis using assms(1) J_execute airborne_ok execute_ok by fastforce
next
  case (J_observe k n)
  then show ?thesis using assms Observe_ok by simp
next
  case (J_cqe d j')
  then show ?thesis using assms by (auto simp: Let_def)
qed (use assms in auto)

lemma FireJob_ok:
  assumes run: "FireJob env i s = Inr s'" and ok: "ledger_ok {#} (view s)"
  shows "ledger_ok {#} (view s')"
proof (cases "i < length (jobs s)")
  case True
  let ?s = "s\<lparr>jobs := take i (jobs s) @ drop (Suc i) (jobs s)\<rparr>"
  have ok': "ledger_ok {#} (v_add (jobs s ! i) (view ?s))" using ok view_take_job [OF True] by simp
  have "\<not> sm_disposed s" using ledger_okD(1) [OF ok] by (simp add: works_ok_def)
  then show ?thesis using run True run_job_ok [OF _ ok'] by (simp add: FireJob_def)
qed (use run ok in \<open>simp add: FireJob_def\<close>)

lemma step_ok:
  assumes "submission_step s x = Inr s'" "submission_inv s" "submission_pre s x"
  shows "submission_inv s'"
proof -
  obtain env op where x: "x = (env, op)" by fastforce
  have ok: "ledger_ok {#} (view s)" using assms(2) by (simp add: submission_inv_def)
  have keep: "ledger_ok {#} (view s')" if "view s' = view s" using ok that by simp
  have "ledger_ok {#} (view s')"
  proof (cases op)
    case (S_Configure c)
    have u: "unat (ucast (stagingBufferBytes c) :: u64) = unat (stagingBufferBytes c)"
      by (simp add: unsigned_ucast_eq take_bit_nat_eq_self_iff less_trans [OF unsigned_less])
    show ?thesis using assms S_Configure x by (intro configure_ok [OF ok, of c]) (simp_all add: word_le_nat_alt u)
  next
    case (S_Submit opcode peer bytes execute producer complete)
    then show ?thesis using assms(1) x by (auto intro: SubmitOperation_ok [OF _ ok])
  next
    case (S_OperationComplete i b)
    then show ?thesis using assms x by (auto intro: NotifyOperationComplete_ok [OF _ ok])
  next
    case (S_PacketAck i n)
    then show ?thesis using assms x by (auto intro: NotifyPacketAck_ok [OF _ ok])
  next
    case (S_Quiet cb)
    then show ?thesis using assms x by (auto intro: Quiet_ok [OF _ ok])
  next
    case (S_Fence p)
    then show ?thesis using assms x by (auto intro: Fence_ok [OF _ ok])
  next
    case (S_StageSource n cb)
    then show ?thesis using assms x by (auto intro: StageSourcePayload_ok [OF _ ok])
  next
    case (S_ReleaseSource n)
    then show ?thesis using assms x by (auto intro: ReleaseSourceStaging_ok [OF _ ok])
  next
    case (S_Fire i)
    then show ?thesis using assms x by (auto intro: FireJob_ok [OF _ ok])
  next
    case (S_TakeDmaOffset i n)
    then show ?thesis using assms x by (auto intro!: keep dest: TakeSourceDmaOffset_view)
  next
    case S_DataReady
    then show ?thesis using assms x ok by (auto simp: NotifyDataReady_def)
  qed (use assms(1) x ok in \<open>auto intro!: keep dest: transfer_views resource_views\<close>)
  then show ?thesis by (simp add: submission_inv_def)
qed

interpretation subm: invariant_machine submission_step submission_inv submission_pre
  by unfold_locales (rule step_ok)

lemma new_ok: "submission_inv (submission_new c)"
proof -
  let ?v = "view (submission_new c)"
  have none: "v_work ?v i = None" "v_qps ?v k = None" "v_flying ?v = {}" "unqueued {#} ?v = {#}" "staged_ids ?v = {#}" for i k
    by (simp_all add: submission_new_def view_defs unqueued_def staged_ids_def published_at_def)
  have "v_work ?v = Map.empty" using none(1) by blast
  then have "works_ok ?v" using none(3) unfolding works_ok_def by (simp add: submission_new_def RdmaStats_new_def)
  moreover have "parked_ok {#} ?v" unfolding parked_ok_def parked_def queued_def none by simp
  moreover have "counts_ok {#} ?v" unfolding counts_ok_def none by simp
  moreover have "fence_ok {#} ?v" unfolding fence_ok_def none by simp
  moreover have "staging_ok ?v"
    unfolding staging_ok_def held_def unallocated_def none by (simp add: submission_new_def)
  ultimately show ?thesis unfolding submission_inv_def by (rule ledger_okI)
qed

subsection \<open>How a request is split\<close>

lemma create_work_effect:
  assumes "create_work env sp index off s = (off', s')"
  shows "m_config s' = m_config s" "m_nextId s' = m_nextId s + 1"
    "omap_find (m_work s') = (omap_find (m_work s))(m_nextId s \<mapsto> new_work env sp index off s)"
    "off' = (if is_signal sp index then off else off + work_length (m_config s) sp index off)"
  using assms by (auto simp: create_work_def Let_def stat_def omap_find_put new_work_def)

lemma of_nat_differ: "p < 2 ^ 64 \<Longrightarrow> q < 2 ^ 64 \<Longrightarrow> (of_nat p :: u64) = of_nat q \<longleftrightarrow> p = q"
  by (auto simp: word_unat_eq_iff unsigned_of_nat take_bit_nat_eq_self)

lemma create_works_keep:
  "create_works env sp m index off s = (ids, s') \<Longrightarrow> m < 2 ^ 64 \<Longrightarrow> \<forall>p < m. i \<noteq> m_nextId s + of_nat p \<Longrightarrow>
   omap_find (m_work s') i = omap_find (m_work s) i"
proof (induction m arbitrary: index off s ids)
  case (Suc m)
  obtain off1 s1 where s1: "create_work env sp index off s = (off1, s1)" by fastforce
  note e = create_work_effect [OF s1]
  obtain rest where run: "create_works env sp m (index + 1) off1 s1 = (rest, s')"
    using Suc.prems(1) s1 by (auto split: prod.splits)
  have "i \<noteq> m_nextId s1 + of_nat p" if "p < m" for p
    using Suc.prems(3) [rule_format, of "Suc p"] that by (simp add: e(2) ac_simps)
  with Suc.IH [OF run] Suc.prems(2) have "omap_find (m_work s') i = omap_find (m_work s1) i" by simp
  moreover have "i \<noteq> m_nextId s" using Suc.prems(3) [rule_format, of 0] by simp
  ultimately show ?case by (simp add: e(3))
qed simp

text \<open>The piece with a given index, and the signal after the last one.\<close>

definition piece :: "RdmaSubmissionConfig \<Rightarrow> splitting \<Rightarrow> nat \<Rightarrow> u64 \<Rightarrow> Work \<Rightarrow> bool" where
  "piece cfg sp n i w =
     (let c = unat (stagingChunkBytes cfg); t = wk_time w in
      if n < unat (sp_dataChunks sp)
      then unat (wt_offset t) = n * c \<and> unat (wt_bytes t) = min c (unat (sp_bytes sp) - n * c) \<and>
           wt_opcode t = sp_opcode sp \<and> wt_peer t = sp_peer sp
      else wt_opcode t = OP_SIGNAL \<and> wt_bytes t = 8 \<and> wt_peer t = sp_peer sp \<and> wk_fenceThrough w = i - 1)"

lemma chunk_below: "0 < c \<Longrightarrow> 0 < (b :: nat) \<Longrightarrow> n < 1 + (b - 1) div c \<longleftrightarrow> n * c < b"
  by (metis Suc_pred' add.commute le_simps(2) less_Suc_eq_le less_eq_div_iff_mult_less_eq plus_1_eq_Suc)

lemma work_length_split:
  assumes "sp_split sp" "unat index < unat (sp_dataChunks sp)" "off \<le> sp_bytes sp"
  shows "unat (work_length cfg sp index off) = min (unat (stagingChunkBytes cfg)) (unat (sp_bytes sp) - unat off)"
proof -
  have "\<not> is_signal sp index" using assms(2) by (auto simp: is_signal_def)
  moreover have "unat (ucast (stagingChunkBytes cfg) :: u64) = unat (stagingChunkBytes cfg)"
    by (simp add: unsigned_ucast_eq take_bit_nat_eq_self_iff less_trans [OF unsigned_less])
  moreover have "unat (sp_bytes sp - off) = unat (sp_bytes sp) - unat off" using assms(3) by (rule unat_sub)
  ultimately show ?thesis using assms(1) by (simp add: work_length_def min_def word_le_nat_alt)
qed

lemma create_works_pieces:
  assumes "create_works env sp m index off s = (ids, s')" "sp_split sp" "m_config s = cfg"
    "0 < unat (stagingChunkBytes cfg)" "0 < unat (sp_bytes sp)"
    "unat (sp_dataChunks sp) = 1 + (unat (sp_bytes sp) - 1) div unat (stagingChunkBytes cfg)"
    "unat off = min (unat index * unat (stagingChunkBytes cfg)) (unat (sp_bytes sp))"
    "unat index + m \<le> unat (sp_dataChunks sp) + 1" "unat (sp_dataChunks sp) + 1 < 2 ^ 64" "p < m"
  shows "\<exists>w. omap_find (m_work s') (m_nextId s + of_nat p) = Some w \<and> piece cfg sp (unat index + p) (m_nextId s + of_nat p) w"
  using assms
proof (induction m arbitrary: index off s ids p)
  case (Suc m)
  let ?c = "unat (stagingChunkBytes cfg)" and ?b = "unat (sp_bytes sp)"
  obtain off1 s1 where s1: "create_work env sp index off s = (off1, s1)" by fastforce
  note e = create_work_effect [OF s1]
  obtain rest where run: "create_works env sp m (index + 1) off1 s1 = (rest, s')"
    using Suc.prems(1) s1 by (auto split: prod.splits)
  have le: "off \<le> sp_bytes sp" using Suc.prems(7) by (simp add: word_le_nat_alt)
  have inside: "unat index < unat (sp_dataChunks sp) \<longleftrightarrow> unat index * ?c < ?b"
    unfolding Suc.prems(6) by (rule chunk_below [OF Suc.prems(4,5)])
  show ?case
  proof (cases p)
    case 0
    have m: "m < 2 ^ 64" using Suc.prems(8,9) by simp
    have "m_nextId s \<noteq> m_nextId s1 + of_nat q" if "q < m" for q
      using of_nat_differ [of 0 "Suc q"] that Suc.prems(8,9) by (simp add: e(2) ac_simps)
    from create_works_keep [OF run m] this
    have "omap_find (m_work s') (m_nextId s) = Some (new_work env sp index off s)" by (simp add: e(3))
    moreover have "piece cfg sp (unat index) (m_nextId s) (new_work env sp index off s)"
    proof (cases "unat index < unat (sp_dataChunks sp)")
      case True
      then have "\<not> is_signal sp index" "unat off = unat index * ?c" using inside Suc.prems(7) by (auto simp: is_signal_def)
      then show ?thesis
        using True work_length_split [OF Suc.prems(2) True le, of cfg] Suc.prems(3)
        by (simp add: piece_def new_work_def work_opcode_def)
    next
      case False
      then have "is_signal sp index" using Suc.prems(8) by (simp add: is_signal_def word_unat_eq_iff)
      then show ?thesis using False by (simp add: piece_def new_work_def work_opcode_def work_length_def work_fence_def Let_def)
    qed
    ultimately show ?thesis using 0 by simp
  next
    case (Suc q)
    have idx: "unat (index + 1) = unat index + 1" using Suc.prems(8,9) \<open>p < Suc m\<close> Suc by (simp add: unat_word_ariths)
    have true: "unat index < unat (sp_dataChunks sp)" using Suc.prems(8) Suc \<open>p < Suc m\<close> by simp
    then have ns: "\<not> is_signal sp index" by (auto simp: is_signal_def)
    have off: "unat off = unat index * ?c" using inside true Suc.prems(7) by simp
    have len: "unat (work_length cfg sp index off) = min ?c (?b - unat index * ?c)"
      using work_length_split [OF Suc.prems(2) true le, of cfg] off by simp
    have "unat off + unat (work_length cfg sp index off) = min (unat index * ?c + ?c) ?b"
      unfolding off len using inside true by linarith
    then have sum: "unat off + unat (work_length cfg sp index off) = min ((unat index + 1) * ?c) ?b"
      by (simp add: ac_simps)
    moreover from this have "?b < 2 ^ 64" using unsigned_less [of "sp_bytes sp", where ?'a = nat] by simp
    ultimately have "unat off1 = unat off + unat (work_length cfg sp index off)"
      using ns Suc.prems(3) by (simp add: e(4) unat_word_ariths)
    then have "unat off1 = min (unat (index + 1) * ?c) ?b" using sum by (simp only: idx)
    moreover have "unat (index + 1) + m \<le> unat (sp_dataChunks sp) + 1" unfolding idx using Suc.prems(8) by simp
    moreover have "m_config s1 = cfg" using e(1) Suc.prems(3) by simp
    moreover have "q < m" using Suc.prems(10) Suc by simp
    ultimately have "\<exists>w. omap_find (m_work s') (m_nextId s1 + of_nat q) = Some w \<and>
        piece cfg sp (unat (index + 1) + q) (m_nextId s1 + of_nat q) w"
      using Suc.IH [OF run Suc.prems(2) _ Suc.prems(4-6)] Suc.prems(9) by blast
    moreover have "m_nextId s1 + of_nat q = m_nextId s + of_nat p" by (simp add: e(2) Suc ac_simps)
    moreover have "unat (index + 1) + q = unat index + p" unfolding idx using Suc by simp
    ultimately show ?thesis by simp
  qed
qed simp

lemma sum_chunks: "(\<Sum>n < m. min c (b - n * c)) = min (m * c) (b :: nat)"
proof (induction m)
  case (Suc m)
  have "min (m * c) b + min c (b - m * c) = min (m * c + c) b" by linarith
  with Suc show ?case by (simp add: ac_simps)
qed simp

lemma data_chunks_split:
  assumes "splits cfg opcode" "bytes \<noteq> 0"
  shows "unat (data_chunks cfg opcode bytes) = 1 + (unat bytes - 1) div unat (stagingChunkBytes cfg)"
proof -
  let ?c = "stagingChunkBytes cfg"
  have cu: "unat (ucast ?c :: u64) = unat ?c"
    by (simp add: unsigned_ucast_eq take_bit_nat_eq_self_iff less_trans [OF unsigned_less])
  have q: "unat ((bytes - 1) div ucast ?c) = (unat bytes - 1) div unat ?c"
    by (simp add: unat_div cu unat_minus_one [OF assms(2)])
  have "(unat bytes - 1) div unat ?c \<le> unat bytes - 1" by (rule div_le_dividend)
  moreover have "unat bytes < 2 ^ 64" using unsigned_less [of bytes, where ?'a = nat] by simp
  moreover have "0 < unat bytes" using assms(2) by (simp add: unat_gt_0)
  ultimately have "(unat bytes - 1) div unat ?c + 1 < 2 ^ 64" by linarith
  then show ?thesis using assms(1) by (simp add: data_chunks_def unat_word_ariths(1) q)
qed

lemma submit_works_pieces:
  assumes run: "submit_works env opcode peer bytes execute producer complete s = (ids, s')"
    and sp: "splits (m_config s) opcode" and b: "bytes \<noteq> 0" and c: "stagingChunkBytes (m_config s) \<noteq> 0"
    and n: "n < unat (data_chunks (m_config s) opcode bytes) + unat (signals opcode)"
    and room: "unat (data_chunks (m_config s) opcode bytes) + 1 < 2 ^ 64"
  shows "\<exists>w. omap_find (m_work s') (m_nextId s + of_nat n) = Some w \<and>
     piece (m_config s) \<lparr>sp_opcode = opcode, sp_peer = peer, sp_bytes = bytes, sp_execute = execute, sp_producer = producer,
       sp_split = True, sp_dataChunks = data_chunks (m_config s) opcode bytes, sp_requestId = m_nextId s,
       sp_request = length (requests s)\<rparr> n (m_nextId s + of_nat n) w"
proof -
  let ?cfg = "m_config s" and ?chunks = "data_chunks (m_config s) opcode bytes"
  let ?count = "?chunks + signals opcode" and ?s = "open_request (?chunks + signals opcode) complete s"
  let ?sp = "\<lparr>sp_opcode = opcode, sp_peer = peer, sp_bytes = bytes, sp_execute = execute, sp_producer = producer,
       sp_split = True, sp_dataChunks = ?chunks, sp_requestId = m_nextId s, sp_request = length (requests s)\<rparr>"
  have c0: "0 < unat (stagingChunkBytes ?cfg)" and b0: "0 < unat bytes" using b c by (simp_all add: unat_gt_0)
  have one: "unat (signals opcode) \<le> 1" by (simp add: signals_def)
  with room have "unat ?chunks + unat (signals opcode) < 2 ^ 64" by linarith
  then have "unat ?count = unat ?chunks + unat (signals opcode)" by (simp add: unat_word_ariths(1))
  moreover have "create_works env ?sp (unat ?count) 0 0 ?s = (ids, s')"
    using run sp by (simp add: submit_works_def Let_def)
  moreover have "m_config ?s = ?cfg" "m_nextId ?s = m_nextId s" by (simp_all add: open_request_def stat_def)
  ultimately show ?thesis
    using create_works_pieces [of env ?sp "unat ?count" 0 0 ?s ids s' ?cfg n] c0 b0 n room one
      data_chunks_split [OF sp b] by simp
qed

subsection \<open>Examples\<close>

text \<open>A put with signal without staging, and a write through a buffer of three chunks of four bytes.\<close>

definition example_pcie :: PcieConfig where
  "example_pcie = \<lparr>pcie_generation = 4, pcie_lanes = 16, pcie_topology = ''switch'', pcie_mps = 256, pcie_mrrs = 512,
     pcie_rcb = 64, pcie_tags = 32, pcie_maxReadBytes = 4096, pcie_completionBufferBytes = 4096, pcie_queuePackets = 64,
     pcie_credits = [32, 32, 32, 32, 32, 32], pcie_replayBufferBytes = 4096, pcie_ackEvery = 1, pcie_latencies = [0],
     pcie_relaxedOrdering = False\<rparr>"

definition example_config :: "string \<Rightarrow> RdmaSubmissionConfig" where
  "example_config path = \<lparr>pcieModel = ''bandwidth'', dataPath = path, mtuBytes = 4096, qpsPerPeer = 1, responderDepth = 1,
     receiveQueueDepth = 1, rnrRetryLimit = 0, readService = 0, atomicService = 0, rnrRetry = 1, receivePost = 0,
     signalPoll = 0, pcie = example_pcie, initiator = ''gpu'', cpuWorkers = 1, producers = 1, queueDepth = 4,
     doorbellBatch = 1, cqModeration = 1, wqeBytes = 64, doorbellBytes = 8, cqeBytes = 64, mapQpByProducer = True,
     wqeBuild = 0, publish = 0, doorbell = 0, batchTimeout = 0, wqeFetch = 0, dmaReadLatency = 0, dmaWriteLatency = 0,
     cqWrite = 0, gpuPoll = 0, cpuWqeBuild = 0, cpuPublish = 0, cpuDoorbell = 0, cpuPoll = 0, cpuHandoff = 0,
     d2hLatency = 0, h2dLatency = 0, stagingChunkBytes = 4, stagingBufferBytes = 12, maxReadAtomic = 1, opName = ''write'',
     signalOperation = ''set'', receivePostDelay = 0, ratesValid = True\<rparr>"

definition example_env :: surroundings where
  "example_env = \<lparr>at_now = 0, at_service = (\<lambda>_ _. 0), at_ns = (\<lambda>_. 0), at_pcieAlike = True\<rparr>"

definition example_ops :: "string \<Rightarrow> (surroundings \<times> submission_op) list" where
  "example_ops path =
     [(example_env, S_Submit (if path = ''host'' then OP_PUT_SIGNAL else OP_WRITE) 1 4 (Some 7) (- 1) None)]"

definition example_state :: "string \<Rightarrow> submission" where
  "example_state path = projr (run_ops submission_step (submission_new (example_config path)) (example_ops path))"

lemma example_admissible: "admissible submission_step submission_pre (submission_new (example_config path)) (example_ops path)"
  by (simp add: example_ops_def split: sum.split)

lemma example_host_ok: "ok (run_ops submission_step (submission_new (example_config ''host'')) (example_ops ''host''))"
  by code_simp

lemma example_staged_ok: "ok (run_ops submission_step (submission_new (example_config ''staged'')) (example_ops ''staged''))"
  by code_simp

lemma example_run:
  "ok (run_ops submission_step (submission_new (example_config path)) (example_ops path)) \<Longrightarrow>
   run_ops submission_step (submission_new (example_config path)) (example_ops path) = Inr (example_state path)"
  by (cases "run_ops submission_step (submission_new (example_config path)) (example_ops path)") (simp_all add: example_state_def)

lemma example_host_queue:
  "map_option (\<lambda>q. (qp_waiting q, qp_occupied q, qp_readAtomicOccupied q)) (omap_find (m_qps (example_state ''host'')) (1, 0)) =
   Some ([2], 1, 0)"
  by code_simp

lemma example_host_works:
  "map_option (\<lambda>w. (wt_peer (wk_time w), wk_fenceThrough w)) (omap_find (m_work (example_state ''host'')) 2) = Some (1, 1)"
  "map_option (\<lambda>w. (wt_peer (wk_time w), wk_acked w)) (omap_find (m_work (example_state ''host'')) 1) = Some (1, False)"
  by code_simp+

lemma example_staged_ledger:
  "(held_bytes (example_state ''staged''), m_sourceStagingUsed (example_state ''staged'')) = (4, 4)"
  by code_simp

subsection \<open>Properties\<close>

text \<open>C13: The counters of a queue pair are exact and bounded. After any sequence of operations,
  whatever the surroundings answer and in whatever order pending closures run, a queue pair
  counts as occupied exactly its works that have left the places where works wait and have not
  been observed, and as holding a read or atomic credit exactly those among them whose
  operation needs one; neither count exceeds the configured queue depth or read and atomic limit.
\<close>

theorem queue_pairs_count_their_works:
  assumes "admissible submission_step submission_pre (submission_new c) xs"
    "run_ops submission_step (submission_new c) xs = Inr s" "omap_find (m_qps s) k = Some q"
  shows "unat (qp_occupied q) =
      card {i. \<exists>w. omap_find (m_work s) i = Some w \<and> work_key w = k \<and> \<not> parked {#} (view s) i} \<and>
    unat (qp_readAtomicOccupied q) =
      card {i. \<exists>w. omap_find (m_work s) i = Some w \<and> work_key w = k \<and> credit_op w \<and> \<not> parked {#} (view s) i} \<and>
    qp_occupied q \<le> queueDepth (m_config s) \<and> qp_readAtomicOccupied q \<le> maxReadAtomic (m_config s)"
proof -
  have "ledger_ok {#} (view s)"
    using subm.run_keeps [OF new_ok assms(1,2)] by (simp add: submission_inv_def)
  moreover have "v_qps (view s) k = Some (queue_view q)" using assms(3) by simp
  moreover have "admitted {#} (view s) k =
      {i. \<exists>w. omap_find (m_work s) i = Some w \<and> work_key w = k \<and> \<not> parked {#} (view s) i}"
    by (auto simp: admitted_def)
  moreover have "creditors {#} (view s) k =
      {i. \<exists>w. omap_find (m_work s) i = Some w \<and> work_key w = k \<and> credit_op w \<and> \<not> parked {#} (view s) i}"
    by (auto simp: creditors_def admitted_def)
  ultimately show ?thesis using counts_okD [OF ledger_okD(3), of "{#}" "view s" k "queue_view q"]
    by (simp add: queue_view_def word_le_nat_alt)
qed

theorem queue_pairs_count_their_works_witness:
  "\<exists>q. omap_find (m_qps (example_state ''host'')) (1, 0) = Some q \<and> qp_occupied q = 1 \<and>
    unat (qp_occupied q) = card {i. \<exists>w. omap_find (m_work (example_state ''host'')) i = Some w \<and> work_key w = (1, 0) \<and>
      \<not> parked {#} (view (example_state ''host'')) i} \<and>
    qp_occupied q \<le> queueDepth (m_config (example_state ''host''))"
proof -
  obtain q where q: "omap_find (m_qps (example_state ''host'')) (1, 0) = Some q" "qp_occupied q = 1"
    using example_host_queue by auto
  from queue_pairs_count_their_works [OF example_admissible example_run [OF example_host_ok] q(1)] q
  show ?thesis by blast
qed

text \<open>C14: A fence holds back what it covers. In every reachable state a work that must wait for
  works up to some identifier, by a \<open>Fence\<close> of its peer, by the rule that a read or atomic
  does not overtake a payload on its queue pair, or because it signals a payload, is still
  parked while a work up to that identifier to the same peer is unacknowledged: it has not been
  handed to the engine, and no closure and no queue on the way there holds it.
\<close>

theorem fence_holds_back_what_it_covers:
  assumes "admissible submission_step submission_pre (submission_new c) xs"
    "run_ops submission_step (submission_new c) xs = Inr s"
    "omap_find (m_work s) i = Some w" "omap_find (m_work s) j = Some u"
    "wt_peer (wk_time u) = wt_peer (wk_time w)" "j \<le> wk_fenceThrough w" "\<not> wk_acked u"
  shows "parked {#} (view s) i \<and> i \<notin> flying s \<and> wk_execute w \<noteq> None \<and> \<not> wk_acked w"
proof -
  have ok: "ledger_ok {#} (view s)"
    using subm.run_keeps [OF new_ok assms(1,2)] by (simp add: submission_inv_def)
  have w: "v_work (view s) i = Some (work_view w)" "v_work (view s) j = Some (work_view u)" using assms(3,4) by simp_all
  have p: "parked {#} (view s) i"
    using fence_okD [OF ledger_okD(4) [OF ok] w(1) _ w(2)] assms(5-7) by (auto simp: work_key_def)
  then show ?thesis
    using parked_okD(5,6) [OF ledger_okD(2) [OF ok] p] acked_not_parked [OF ok w(1)] assms(3) by auto
qed

theorem fence_holds_back_what_it_covers_witness:
  "parked {#} (view (example_state ''host'')) 2 \<and> 2 \<notin> flying (example_state ''host'')"
proof -
  obtain w u where w: "omap_find (m_work (example_state ''host'')) 2 = Some w" "wt_peer (wk_time w) = 1" "wk_fenceThrough w = 1"
    and u: "omap_find (m_work (example_state ''host'')) 1 = Some u" "wt_peer (wk_time u) = 1" "\<not> wk_acked u"
    using example_host_works by auto
  have "wt_peer (wk_time u) = wt_peer (wk_time w)" "1 \<le> wk_fenceThrough w" using w u by simp_all
  from fence_holds_back_what_it_covers [OF example_admissible example_run [OF example_host_ok] w(1) u(1) this u(3)]
  show ?thesis by blast
qed

text \<open>C15: The staging buffer is never overrun and its ledger never underflows. In every reachable
  state the bytes in use cover what the works have been allocated and fit the buffer, and the
  works any completion queue entry would release return no more than is in use, so the underflow
  check of the release in \<open>Observe\<close> never fires.
\<close>

theorem staging_ledger_balances:
  assumes "admissible submission_step submission_pre (submission_new c) xs"
    "run_ops submission_step (submission_new c) xs = Inr s"
  shows "held_bytes s \<le> unat (m_sourceStagingUsed s) \<and>
    unat (m_sourceStagingUsed s) \<le> unat (stagingBufferBytes (m_config s)) \<and>
    released (covered k n (m_work s)) \<le> m_sourceStagingUsed (foldl (observe_one env k) s (covered k n (m_work s)))"
proof -
  have ok: "ledger_ok {#} (view s)"
    using subm.run_keeps [OF new_ok assms(1,2)] by (simp add: submission_inv_def)
  have "omap_wf (m_work s)" using ledger_okD(1) [OF ok] by (simp add: works_ok_def)
  from held_bytes_eq [OF this] staging_okD(1,2) [OF ledger_okD(5) [OF ok]] observe_no_underflow(1) [OF ok]
  show ?thesis by simp
qed

theorem staging_ledger_balances_witness:
  "m_sourceStagingUsed (example_state ''staged'') = 4 \<and> held_bytes (example_state ''staged'') \<le> 4 \<and>
   4 \<le> unat (stagingBufferBytes (m_config (example_state ''staged'')))"
  using staging_ledger_balances [OF example_admissible example_run [OF example_staged_ok]] example_staged_ledger by simp

text \<open>C16: The queues hold only live works, each once. In every reachable state an identifier
  waiting on a queue pair names a work of that queue pair that has been neither executed nor
  acknowledged, is not on its way to execution and does not wait in the staging queue, in a
  copy or in a closure as well, and a queue holds it once.
\<close>

theorem waiting_identifiers_name_live_works:
  assumes "admissible submission_step submission_pre (submission_new c) xs"
    "run_ops submission_step (submission_new c) xs = Inr s"
    "omap_find (m_qps s) k = Some q" "i \<in> set (qp_waiting q)"
  shows "distinct (qp_waiting q) \<and> i \<notin> flying s \<and> i \<notin># unqueued {#} (view s) \<and>
    (\<exists>w. omap_find (m_work s) i = Some w \<and> work_key w = k \<and> wk_execute w \<noteq> None \<and> \<not> wk_acked w)"
proof -
  have ok: "ledger_ok {#} (view s)"
    using subm.run_keeps [OF new_ok assms(1,2)] by (simp add: submission_inv_def)
  note p = parked_okD [OF ledger_okD(2) [OF ok]]
  have q: "v_qps (view s) k = Some (queue_view q)" "i \<in> set (qv_waiting (queue_view q))"
    using assms(3,4) by (simp_all add: queue_view_def)
  then have queued: "queued (view s) i" unfolding queued_def by blast
  then have "parked {#} (view s) i" by (simp add: parked_def)
  then show ?thesis
    using p(3) [OF q(1)] p(4) [OF q] p(5,6) [of i] p(2) [of i] queued acked_not_parked [OF ok, of i]
    by (auto simp: queue_view_def)
qed

theorem waiting_identifiers_name_live_works_witness:
  "\<exists>w. omap_find (m_work (example_state ''host'')) 2 = Some w \<and> work_key w = (1, 0) \<and> wk_execute w \<noteq> None \<and> \<not> wk_acked w"
proof -
  obtain q where q: "omap_find (m_qps (example_state ''host'')) (1, 0) = Some q" "2 \<in> set (qp_waiting q)"
    using example_host_queue by auto
  from waiting_identifiers_name_live_works [OF example_admissible example_run [OF example_host_ok] q] show ?thesis by blast
qed

text \<open>C17: A staged request is split exactly. The works of a request for \<open>bytes\<close> bytes that goes
  through the staging buffer have consecutive identifiers, the one with index \<open>n\<close> starts at
  \<open>n\<close> chunks and is one chunk long, the last one what remains; together they are the request,
  without gap or overlap. A put with signal has one more work, the signal, which waits for
  everything before it.
\<close>

theorem staged_request_is_split_exactly:
  assumes "submit_works env opcode peer bytes execute producer complete s = (ids, s')"
    "splits (m_config s) opcode" "bytes \<noteq> 0" "stagingChunkBytes (m_config s) \<noteq> 0"
    "data_chunks (m_config s) opcode bytes < - 1"
  defines "chunk \<equiv> unat (stagingChunkBytes (m_config s))" and "chunks \<equiv> unat (data_chunks (m_config s) opcode bytes)"
    and "time \<equiv> \<lambda>n. wk_time (the (omap_find (m_work s') (m_nextId s + of_nat n)))"
  shows "(\<forall>n < chunks. unat (wt_offset (time n)) = n * chunk \<and> wt_opcode (time n) = opcode \<and> wt_peer (time n) = peer \<and>
        0 < unat (wt_bytes (time n)) \<and> unat (wt_bytes (time n)) \<le> chunk) \<and>
    (\<forall>n < chunks. unat (wt_offset (time n)) = (\<Sum>m < n. unat (wt_bytes (time m)))) \<and>
    (\<Sum>n < chunks. unat (wt_bytes (time n))) = unat bytes \<and>
    (opcode = OP_PUT_SIGNAL \<longrightarrow>
      (\<exists>w. omap_find (m_work s') (m_nextId s + of_nat chunks) = Some w \<and> wt_opcode (wk_time w) = OP_SIGNAL \<and>
        wk_fenceThrough w = m_nextId s + of_nat chunks - 1))"
proof -
  have "unat (data_chunks (m_config s) opcode bytes) < unat (- 1 :: u64)" using assms(5) by (simp add: word_less_nat_alt)
  then have room: "chunks + 1 < 2 ^ 64" by (simp add: chunks_def unsigned_minus_1_eq_mask mask_eq_exp_minus_1)
  note pieces = submit_works_pieces [OF assms(1-4) _ room [unfolded chunks_def]]
  have c0: "0 < chunk" and b0: "0 < unat bytes" using assms(3,4) by (simp_all add: chunk_def unat_gt_0)
  have n: "chunks = 1 + (unat bytes - 1) div chunk" using data_chunks_split [OF assms(2,3)] by (simp add: chunks_def chunk_def)
  have below: "n < chunks \<longleftrightarrow> n * chunk < unat bytes" for n unfolding n by (rule chunk_below [OF c0 b0])
  have data: "unat (wt_offset (time n)) = n * chunk \<and> wt_opcode (time n) = opcode \<and> wt_peer (time n) = peer \<and>
      unat (wt_bytes (time n)) = min chunk (unat bytes - n * chunk)" if "n < chunks" for n
    using pieces [of n] that by (auto simp: piece_def time_def chunk_def chunks_def Let_def)
  have sums: "(\<Sum>m < n. unat (wt_bytes (time m))) = min (n * chunk) (unat bytes)" if "n \<le> chunks" for n
    unfolding sum_chunks [symmetric] using data that by (intro sum.cong) auto
  have whole: "unat bytes \<le> chunks * chunk" using below [of chunks] by simp
  have signal: "\<exists>w. omap_find (m_work s') (m_nextId s + of_nat chunks) = Some w \<and> wt_opcode (wk_time w) = OP_SIGNAL \<and>
      wk_fenceThrough w = m_nextId s + of_nat chunks - 1" if "opcode = OP_PUT_SIGNAL"
    using pieces [of chunks] that by (auto simp: piece_def chunks_def signals_def Let_def)
  have total: "(\<Sum>n < chunks. unat (wt_bytes (time n))) = unat bytes" using sums [of chunks] whole by simp
  have place: "unat (wt_offset (time n)) = (\<Sum>m < n. unat (wt_bytes (time m)))" if "n < chunks" for n
    using data [OF that] sums [of n] that below [of n] by simp
  have size: "0 < unat (wt_bytes (time n)) \<and> unat (wt_bytes (time n)) \<le> chunk" if "n < chunks" for n
    using data [OF that] that below [of n] c0 by simp
  show ?thesis using data place size total signal by blast
qed

theorem staged_request_is_split_exactly_witness:
  "\<exists>ids s'. submit_works example_env OP_PUT_SIGNAL 1 10 7 (- 1) None (submission_new (example_config ''staged'')) = (ids, s') \<and>
    (\<Sum>n < 3. unat (wt_bytes (wk_time (the (omap_find (m_work s') (1 + of_nat n)))))) = 10"
proof -
  obtain ids s' where run: "submit_works example_env OP_PUT_SIGNAL 1 10 7 (- 1) None (submission_new (example_config ''staged'')) = (ids, s')"
    by fastforce
  have "splits (m_config (submission_new (example_config ''staged''))) OP_PUT_SIGNAL" by code_simp
  moreover have "(10 :: u64) \<noteq> 0" by simp
  moreover have "stagingChunkBytes (m_config (submission_new (example_config ''staged''))) \<noteq> 0" by code_simp
  moreover have "data_chunks (m_config (submission_new (example_config ''staged''))) OP_PUT_SIGNAL 10 < - 1" by code_simp
  moreover have "unat (data_chunks (m_config (submission_new (example_config ''staged''))) OP_PUT_SIGNAL 10) = 3" by code_simp
  moreover have "m_nextId (submission_new (example_config ''staged'')) = 1" by (simp add: submission_new_def)
  ultimately show ?thesis using staged_request_is_split_exactly [OF run] run by auto
qed

text \<open>C40: Quiet is answered exactly when everything before it is gone. \<open>CheckQuiet\<close> calls back,
  in the order they were asked, exactly the waits for which no work up to their watermark is
  left, with whether no work has failed so far, and keeps the others.
\<close>

theorem quiet_is_answered_when_drained:
  assumes "omap_wf (m_work s)"
  defines "open \<equiv> \<lambda>q. \<exists>i w. omap_find (m_work s) i = Some w \<and> i \<le> qw_watermark q"
  shows "m_quiet (CheckQuiet s) = filter open (m_quiet s) \<and>
    notices (CheckQuiet s) = notices s @
      map (\<lambda>q. N_quiet (qw_complete q) (rs_failed (m_rdmaStats s) = 0)) (filter (\<lambda>q. \<not> open q) (m_quiet s)) \<and>
    m_work (CheckQuiet s) = m_work s"
proof -
  have "(case m_work s of [] \<Rightarrow> True | (i, _) # _ \<Rightarrow> i > qw_watermark q) = (\<not> open q)" for q
  proof (cases "m_work s")
    case (Cons e es)
    obtain i w where e: "e = (i, w)" by fastforce
    have "i \<le> j" if "omap_find (m_work s) j = Some u" for j u
      using that assms(1) omap_find_in_keys [of es j] unfolding Cons e by (auto split: if_splits)
    moreover have "omap_find (m_work s) i = Some w" by (simp add: Cons e)
    ultimately have "open q = (i \<le> qw_watermark q)" unfolding open_def by (meson order_trans)
    then show ?thesis by (auto simp: Cons e)
  qed (simp add: open_def)
  then show ?thesis by (simp add: CheckQuiet_def Let_def)
qed

theorem quiet_is_answered_when_drained_witness:
  "omap_wf (m_work (example_state ''host'')) \<and>
   m_quiet (CheckQuiet ((example_state ''host'')\<lparr>m_quiet := [\<lparr>qw_watermark = 0, qw_complete = 5\<rparr>, \<lparr>qw_watermark = 2, qw_complete = 6\<rparr>]\<rparr>)) =
     [\<lparr>qw_watermark = 2, qw_complete = 6\<rparr>]"
proof -
  let ?s = "(example_state ''host'')\<lparr>m_quiet := [\<lparr>qw_watermark = 0, qw_complete = 5\<rparr>, \<lparr>qw_watermark = 2, qw_complete = 6\<rparr>]\<rparr>"
  have wf: "omap_wf (m_work (example_state ''host''))" by code_simp
  have two: "\<exists>i w. omap_find (m_work (example_state ''host'')) i = Some w \<and> i \<le> 2"
    using example_host_works(1) by auto
  have "fst ` set (m_work (example_state ''host'')) = {1, 2}" by code_simp
  then have none: "omap_find (m_work (example_state ''host'')) 0 = None"
    using omap_find_in_keys [of "m_work (example_state ''host'')" 0] by auto
  have "m_quiet (CheckQuiet ?s) = filter (\<lambda>q. \<exists>i w. omap_find (m_work ?s) i = Some w \<and> i \<le> qw_watermark q) (m_quiet ?s)"
    using quiet_is_answered_when_drained [of ?s] wf by simp
  also have "\<dots> = [\<lparr>qw_watermark = 2, qw_complete = 6\<rparr>]" using two none by simp
  finally show ?thesis using wf by simp
qed

end
