(* ===== verification/Spec2Isabelle.thy ===== *)
theory Spec2Isabelle
  imports Prelude CreditManager WireCodec FabricHeader ReorderBuffer TimeBounds LlrManager
    ProtocolGraph ProtocolExecutor ProtocolModels ProtocolConfig ProtocolCompile ProtocolRunner
    RdmaOperation RdmaMemory RdmaEngine RdmaAtomics RdmaTransfer
    RdmaSubmission RdmaLedger RdmaQueues
begin

text \<open>
  A verification library of ProtoBridge, the GPU-cluster fabric simulator built on ns-3
  (\<open>src/src/gpu-cluster/\<close>). A communication operation is written as a configuration
  file, compiled into a graph of actions, waits and delays, and run by an executor that
  sends transfers through fabric endpoints; an endpoint frames packets, spends link
  credits, keeps a copy of each packet for link-layer retry, and restores packet order on
  reception. On top of the endpoints an RDMA engine per rank serves one-sided operations,
  atomics and signals on registered memory; its operations pass through a submission model
  that splits them into works, posts those on queue pairs of bounded depth, stages payloads
  through a bounded buffer, and counts their completions. The library models the four
  parts, the transaction side, the link side, the RDMA engine and the submission model, and
  shows how the parts of the transaction side, and two RDMA engines, fit together.

  \<^bold>\<open>Theories and the code they model.\<close>
  \<^item> \<open>Prelude\<close>: results that may abort (\<open>NS_ASSERT\<close>, \<open>NS_ABORT\<close>, uncaught exceptions,
    divergence), the interface of keyed containers (\<open>keyed_store\<close>) with \<open>std::unordered_map\<close>
    and \<open>std::map\<close> as interpretations, machines whose steps keep an invariant
    (\<open>invariant_machine\<close>) and machines whose guarded steps do not fail (\<open>guarded_machine\<close>),
    counters at their width.
  \<^item> \<open>CreditManager\<close>: \<open>credit-manager.cc\<close>. Per-channel credit accounting, refined against
    an abstract window; no admissible sequence of operations fails an assertion, and the
    packets in flight never exceed the window.
  \<^item> \<open>WireCodec\<close>: the network-order accessors of \<open>Buffer::Iterator\<close>, as a codec interface.
  \<^item> \<open>FabricHeader\<close>: \<open>fabric-header.cc\<close>, \<open>so-header.cc\<close>, \<open>fabric-type.h\<close>. The two headers
    decode exactly what they encode; the classes of packets.
  \<^item> \<open>ReorderBuffer\<close>: \<open>reorder-buffer.cc\<close>. In-order, exactly-once delivery for any order of
    arrival, capacity, declared gaps, termination of the clean-up loops; a packet that
    arrives after it was declared lost pins the buffer.
  \<^item> \<open>TimeBounds\<close>: the integer part of \<open>time-bounds.h\<close>. Saturating arithmetic on the 64-bit
    clock.
  \<^item> \<open>LlrManager\<close>: \<open>llr-manager.cc\<close>. The retry buffer and source store, acknowledgements,
    Go-Back-N and selective retransmission, retry budgets, timers, reloads, detaching.
  \<^item> \<open>ProtocolGraph\<close>: the graph half of \<open>protocol-transaction.cc\<close>. Validation decides
    exactly the well-formed acyclic graphs with one completion that every node leads to.
  \<^item> \<open>ProtocolExecutor\<close>: the executor of \<open>protocol-transaction.cc\<close>, with callbacks that may
    report events while it runs. It never aborts or loops, its traces are legal schedules
    of the graph, its wait index agrees with a scan, and it never deadlocks on itself.
  \<^item> \<open>ProtocolModels\<close>: \<open>protocol-model.cc\<close>, \<open>nccl-protocol-model.cc\<close>,
    \<open>ethernet-protocol-model.cc\<close>. Selection of a framing by size, exact wire sizes, and the
    pair of nodes that one transfer becomes.
  \<^item> \<open>ProtocolConfig\<close>: the parser and the expression evaluator of \<open>protocol-config.cc\<close>; the
    evaluator computes the values of its grammar.
  \<^item> \<open>ProtocolCompile\<close>: \<open>ProtocolConfig::Compile\<close>, stage by stage. Compiled graphs are valid
    by construction, every packet satisfies only the wait created for its transfer, and
    compilation returns exactly when loop bounds and indices are sane.
  \<^item> \<open>ProtocolRunner\<close>: \<open>protocol-config-runner.cc\<close>, the composition of compiler, executor
    and endpoints: a configuration that compiles is loaded, runs without aborting, and
    reports its end once.
  \<^item> \<open>RdmaOperation\<close>: \<open>rdma-operation.cc\<close>, the work tag of \<open>rdma-submission-model.cc\<close> and
    \<open>TagBuffer\<close>. Opcodes, requests, and the tags that carry them, as a codec interface
    (\<open>tag_codec\<close>) interpreted on the accessors and on both tags.
  \<^item> \<open>RdmaMemory\<close>: the registered memory and the signal waits of
    \<open>rdma-operation-engine.cc\<close>. The sparse store refines a flat byte memory, and a store
    wakes exactly the waits it satisfies.
  \<^item> \<open>RdmaEngine\<close>: the other operations of \<open>rdma-operation-engine.cc\<close> and the engine as a
    state machine.
  \<^item> \<open>RdmaAtomics\<close>: atomics on a word take effect one at a time in the order of arrival,
    whatever happens in between, and responder slots are never lost or exceeded.
  \<^item> \<open>RdmaTransfer\<close>: two engines together; a WRITE moves exactly the sender's bytes, for any
    order of arrival and any interleaving with the ends of the destination writes.
  \<^item> \<open>RdmaSubmission\<close>: \<open>rdma-submission-model.cc\<close>, \<open>rdma-submission-pcie.cc\<close> and the
    validation of \<open>PcieConfig\<close>. Producers, queue pairs, doorbells, source staging, fences,
    quiet requests, acknowledgements, failures and completion queues.
  \<^item> \<open>RdmaLedger\<close>: what a state of the submission model says about each work and each queue
    pair, the invariant that ties the counters to the works, and the operations that admit,
    stage and create works.
  \<^item> \<open>RdmaQueues\<close>: the remaining operations and the machine they form. Queue pairs count
    exactly their posted works and stay within depth and credits, a fence holds back what it
    covers, the staging buffer never overflows, every identifier that waits names a live
    work, a request is split into pieces that add up to it, and a quiet is answered when the
    works before it are gone.

  \<^bold>\<open>How the model corresponds to the code.\<close> A class is a record of its members, an
  operation a function from the state and the arguments to the new state and the events it
  caused, in order (trace sources, callbacks, scheduled timers, calls to other objects). An
  operation that may stop the process returns a sum whose left side is the abort. Machine
  integers are words, or natural numbers reduced explicitly where they index lists; a
  \<open>std::map\<close> is a sorted association list, a \<open>std::unordered_map\<close> an association list in
  insertion order, on which no result depends unless two keys of a configuration denote
  the same field. In the RDMA engine a closure handed to the scheduler or to the submission
  model is a task, a datatype constructor with what the closure captures, and an operation
  of the machine runs any pending one; a \<open>std::shared_ptr\<close> is an index into a heap that
  only grows. A \<open>Time\<close> is an integer in the signed 64-bit range. Third-party behaviour
  enters as arguments: the reactions of the action callback, the reload time computed from
  a data rate, the quotient by a floating-point efficiency. The engine and the submission
  model meet at the interface of the class: the engine takes the answers of the submission
  model as arguments, and the submission model records the calls of its callbacks as
  notices. Its scheduled closures are jobs, run by the machine in any order, and the service
  times of the PCIe channels are arguments.

  \<^bold>\<open>Fuel.\<close> Loops whose end is not structural carry fuel, and running out of it is a value of
  its own (\<open>None\<close> or \<open>Diverges\<close>), so that termination is part of what is proved: the sort
  and the search of the validation take one unit per node (each node is queued once), the
  executor's rounds one per node (a further round is requested only when a node has
  completed), the drain of the ready queue likewise, the delivery loops of the reorder
  buffer one per parked packet, the expression parser three per character.

  \<^bold>\<open>Not modelled.\<close> The fabric endpoint and the switches move ns-3 packets between ns-3
  devices with floating-point pacing and thresholds; of the endpoint only the creation of a
  reorder buffer is taken in. Of the PCIe fabric only the validation of its configuration is
  modelled, as the submission model aborts on it; its channels are simulated by rates. The
  collective injectors drive the endpoints, in steps triggered by their completion traces;
  the configuration language expresses the same schedules. The congestion-control rate
  machines, FEC and link degradation, protocol profiles and latency statistics compute on
  floating-point numbers and random streams; \<open>TypeId\<close> registration, logging and printing
  have no behaviour to state; the helpers and the scenario program wire objects together.
  Outside the GPU-cluster module only the parts of ns-3 that the modelled code calls are
  taken in.
\<close>

end
